(* ===== verification/Prelude.thy ===== *)
theory Prelude
  imports Complex_Main "HOL-Library.List_Lexorder" "HOL-Library.Char_ord" "HOL-Library.AList"
    "HOL-Library.Multiset"
begin

text \<open>
  Shared vocabulary of the development: Go maps as association lists, Go's
  \<open>(value, error)\<close> results as sums, decimal formatting and parsing (\<open>fmt.Sprintf("%d")\<close>,
  \<open>strconv.Atoi\<close>), sorting by key, and the lemma collections the component theories use.

  A Go map is an association list with distinct keys (\<open>distinct_keys\<close>).  The order of the list
  stands for the order in which one \<open>range\<close> loop happens to visit the map: Go leaves it open,
  and a theorem about every such list holds for every visiting order.  \<open>float64\<close> values are
  real numbers (exact arithmetic); \<open>int\<close> values that count things are \<open>nat\<close>, and
  \<open>int\<close> where they can be negative.
\<close>

named_theorems map_simps \<open>lookups in updated association lists\<close>
named_theorems wf_intros \<open>introduction rules for well-formedness invariants\<close>

subsection \<open>Go maps\<close>

type_synonym ('k, 'v) gomap = "('k \<times> 'v) list"

abbreviation keys :: "('k, 'v) gomap \<Rightarrow> 'k list" where
  "keys m \<equiv> map fst m"

abbreviation distinct_keys :: "('k, 'v) gomap \<Rightarrow> bool" where
  "distinct_keys m \<equiv> distinct (map fst m)"

definition get_or :: "'v \<Rightarrow> ('k, 'v) gomap \<Rightarrow> 'k \<Rightarrow> 'v" where
  \<comment> \<open>reading a Go map yields the zero value for an absent key\<close>
  "get_or z m k = (case map_of m k of None \<Rightarrow> z | Some v \<Rightarrow> v)"

definition adjust :: "'k \<Rightarrow> ('v \<Rightarrow> 'v) \<Rightarrow> ('k, 'v) gomap \<Rightarrow> ('k, 'v) gomap" where
  \<comment> \<open>writing through the pointer stored under a key; nothing happens when the key is absent\<close>
  "adjust k f m = map (\<lambda>(k', v). (k', if k' = k then f v else v)) m"

lemma get_or_Some [simp]: "map_of m k = Some v \<Longrightarrow> get_or z m k = v"
  by (simp add: get_or_def)

lemma get_or_None [simp]: "map_of m k = None \<Longrightarrow> get_or z m k = z"
  by (simp add: get_or_def)

lemma get_or_code: "get_or z [] k = z"
  "get_or z ((k', v) # m) k = (if k' = k then v else get_or z m k)"
  by (auto simp: get_or_def)

lemma keys_adjust [simp]: "map fst (adjust k f m) = map fst m"
  by (simp add: adjust_def case_prod_beta)

lemma set_keys_adjust [simp]: "fst ` set (adjust k f m) = fst ` set m"
  by (metis keys_adjust list.set_map)

lemma adjust_Nil [simp]: "adjust k f [] = []"
  by (simp add: adjust_def)

lemma adjust_Cons [simp]:
  "adjust k f ((k', v) # m) = (k', if k' = k then f v else v) # adjust k f m"
  by (simp add: adjust_def)

lemma length_adjust [simp]: "length (adjust k f m) = length m"
  by (simp add: adjust_def)

lemma map_of_adjust [map_simps]:
  "map_of (adjust k f m) k' = (if k' = k then map_option f (map_of m k) else map_of m k')"
  by (induction m) (auto simp: adjust_def)

lemma map_of_adjust_same [simp]: "map_of (adjust k f m) k = map_option f (map_of m k)"
  by (simp add: map_of_adjust)

lemma map_of_adjust_other [simp]: "k' \<noteq> k \<Longrightarrow> map_of (adjust k f m) k' = map_of m k'"
  by (simp add: map_of_adjust)

lemma map_of_update [map_simps]:
  "map_of (AList.update k v m) k' = (if k' = k then Some v else map_of m k')"
  by (simp add: update_conv')

lemma map_of_delete [map_simps]:
  "map_of (AList.delete k m) k' = (if k' = k then None else map_of m k')"
  by (simp add: delete_conv')

lemma distinct_keys_update [simp]: "distinct_keys m \<Longrightarrow> distinct_keys (AList.update k v m)"
  by (rule distinct_update)

lemma distinct_keys_delete [simp]: "distinct_keys m \<Longrightarrow> distinct_keys (AList.delete k m)"
  by (rule distinct_delete)

lemma set_keys_update [simp]: "fst ` set (AList.update k v m) = insert k (fst ` set m)"
  by (induction m) auto

lemma set_keys_delete [simp]: "fst ` set (AList.delete k m) = fst ` set m - {k}"
  by (induction m) auto

lemma in_keys_iff: "k \<in> set (keys m) \<longleftrightarrow> (\<exists>v. map_of m k = Some v)"
  by (induction m) auto

lemma map_of_in_set: "distinct_keys m \<Longrightarrow> (k, v) \<in> set m \<longleftrightarrow> map_of m k = Some v"
  by (simp add: map_of_eq_Some_iff)

lemma length_update_new: "k \<notin> fst ` set m \<Longrightarrow> length (AList.update k v m) = Suc (length m)"
  by (induction m) auto

lemma length_update_old: "k \<in> fst ` set m \<Longrightarrow> length (AList.update k v m) = length m"
  by (induction m) auto

lemma length_update_le: "length (AList.update k v m) \<le> Suc (length m)"
  by (induction m) auto

lemma length_delete_le_plain: "length (AList.delete k m) \<le> length m"
  by (induction m) auto

lemma length_delete_less:
  "k \<in> fst ` set m \<Longrightarrow> length (AList.delete k m) < length m"
proof (induction m)
  case (Cons x m)
  then show ?case
    using length_delete_le_plain [of k m]
    by (cases x; cases "fst x = k") (simp_all add: less_Suc_eq_le)
qed simp

subsection \<open>Loops whose body can panic\<close>

fun fold_opt :: "('a \<Rightarrow> 's \<Rightarrow> 's option) \<Rightarrow> 'a list \<Rightarrow> 's \<Rightarrow> 's option" where
  "fold_opt f [] s = Some s"
| "fold_opt f (x # xs) s = (case f x s of None \<Rightarrow> None | Some s' \<Rightarrow> fold_opt f xs s')"

lemma fold_opt_append: "fold_opt f (xs @ ys) s = Option.bind (fold_opt f xs s) (fold_opt f ys)"
  by (induction xs arbitrary: s) (auto split: option.splits)

lemma fold_opt_inv:
  assumes "I s" "\<And>x s. x \<in> set xs \<Longrightarrow> I s \<Longrightarrow> \<exists>s'. f x s = Some s' \<and> I s'"
  shows "\<exists>s'. fold_opt f xs s = Some s' \<and> I s'"
  using assms
proof (induction xs arbitrary: s)
  case (Cons x xs)
  then obtain s' where "f x s = Some s'" "I s'" by (meson list.set_intros(1))
  then show ?case using Cons.IH [of s'] Cons.prems(2) by auto
qed simp

subsection \<open>Sorting by key\<close>

abbreviation sorted_keys :: "('k::linorder, 'v) gomap \<Rightarrow> 'k list" where
  \<comment> \<open>collect a map's keys, then \<open>sort.Slice\<close> them\<close>
  "sorted_keys m \<equiv> sort (map fst m)"

lemma sorted_keys_set [simp]: "set (sorted_keys m) = fst ` set m"
  by simp

lemma sorted_keys_order_irrelevant:
  assumes "distinct_keys m" "distinct_keys m'" "map_of m = map_of m'"
  shows "sorted_keys m = sorted_keys m'"
proof -
  have "set (keys m) = set (keys m')"
    by (metis assms(3) dom_map_of_conv_image_fst list.set_map)
  then have "mset (keys m) = mset (keys m')"
    using assms(1,2) by (metis set_eq_iff_mset_eq_distinct)
  then show ?thesis
    by (metis sorted_sort mset_sort properties_for_sort)
qed

subsection \<open>Results with an error\<close>

definition bind_res :: "'e + 'a \<Rightarrow> ('a \<Rightarrow> 'e + 'b) \<Rightarrow> 'e + 'b" where
  \<comment> \<open>\<open>if err != nil { return err }\<close>\<close>
  "bind_res r f = (case r of Inl e \<Rightarrow> Inl e | Inr a \<Rightarrow> f a)"

lemma bind_res_simps [simp]:
  "bind_res (Inl e) f = Inl e" "bind_res (Inr a) f = f a"
  by (simp_all add: bind_res_def)

lemma bind_res_Inr_iff: "bind_res r f = Inr b \<longleftrightarrow> (\<exists>a. r = Inr a \<and> f a = Inr b)"
  by (cases r) auto

fun map_res :: "('a \<Rightarrow> 'e + 'b) \<Rightarrow> 'a list \<Rightarrow> 'e + 'b list" where
  "map_res f [] = Inr []"
| "map_res f (x # xs) = bind_res (f x) (\<lambda>y. bind_res (map_res f xs) (\<lambda>ys. Inr (y # ys)))"

lemma map_res_Inr_map:
  "(\<And>x. x \<in> set xs \<Longrightarrow> f (g x) = Inr (h x)) \<Longrightarrow> map_res f (map g xs) = Inr (map h xs)"
  by (induction xs) auto

subsection \<open>Decimal numbers\<close>

definition digit_char :: "nat \<Rightarrow> char" where
  "digit_char d = char_of (48 + d)"

definition digit_val :: "char \<Rightarrow> nat option" where
  "digit_val c = (let n = of_char c :: nat in if 48 \<le> n \<and> n \<le> 57 then Some (n - 48) else None)"

fun show_nat :: "nat \<Rightarrow> string" where
  "show_nat n = (if n < 10 then [digit_char n] else show_nat (n div 10) @ [digit_char (n mod 10)])"

declare show_nat.simps [simp del]

fun read_digits :: "nat \<Rightarrow> string \<Rightarrow> nat option" where
  "read_digits acc [] = Some acc"
| "read_digits acc (c # cs) =
     (case digit_val c of None \<Rightarrow> None | Some d \<Rightarrow> read_digits (10 * acc + d) cs)"

definition show_int :: "int \<Rightarrow> string" where
  "show_int i = (if i < 0 then CHR ''-'' # show_nat (nat (- i)) else show_nat (nat i))"

definition atoi :: "string \<Rightarrow> int option" where
  \<comment> \<open>\<open>strconv.Atoi\<close>: an optional sign, at least one digit, nothing else, within 64 bits\<close>
  "atoi s =
     (let (neg, ds) = (case s of [] \<Rightarrow> (False, [])
                       | c # cs \<Rightarrow> if c = CHR ''-'' then (True, cs)
                                  else if c = CHR ''+'' then (False, cs) else (False, c # cs))
      in if ds = [] then None
         else (case read_digits 0 ds of None \<Rightarrow> None
               | Some n \<Rightarrow> let i = (if neg then - int n else int n)
                          in if - (2 ^ 63) \<le> i \<and> i < 2 ^ 63 then Some i else None))"

lemma digit_val_char [simp]: "d < 10 \<Longrightarrow> digit_val (digit_char d) = Some d"
  by (simp add: digit_val_def digit_char_def)

lemma digit_char_inj: "d < 10 \<Longrightarrow> d' < 10 \<Longrightarrow> digit_char d = digit_char d' \<longleftrightarrow> d = d'"
  by (metis digit_val_char option.inject)

lemma read_digits_append:
  "read_digits a (xs @ ys) = (case read_digits a xs of None \<Rightarrow> None | Some b \<Rightarrow> read_digits b ys)"
  by (induction xs arbitrary: a) (auto split: option.splits)

lemma read_digits_show_nat [simp]: "read_digits 0 (show_nat n) = Some n"
proof (induction n rule: show_nat.induct)
  case (1 n)
  then show ?case
    by (subst show_nat.simps) (auto simp: read_digits_append)
qed

lemma show_nat_inj [simp]: "show_nat m = show_nat n \<longleftrightarrow> m = n"
  by (metis option.inject read_digits_show_nat)

lemma show_nat_nonempty [simp]: "show_nat n \<noteq> []"
  by (subst show_nat.simps) simp

lemma show_nat_digits: "c \<in> set (show_nat n) \<Longrightarrow> digit_val c \<noteq> None"
proof (induction n arbitrary: c rule: show_nat.induct)
  case (1 n)
  show ?case
  proof (cases "n < 10")
    case True
    with 1 show ?thesis by (simp add: show_nat.simps [of n])
  next
    case False
    with "1.prems" have "c \<in> set (show_nat (n div 10)) \<or> c = digit_char (n mod 10)"
      by (subst (asm) show_nat.simps) auto
    with "1.IH" False show ?thesis by auto
  qed
qed

lemma dash_not_in_show_nat [simp]: "CHR ''-'' \<notin> set (show_nat n)"
  using show_nat_digits [of "CHR ''-''" n] by (auto simp: digit_val_def)

lemma atoi_show_nat:
  assumes "n < 2 ^ 63"
  shows "atoi (show_nat n) = Some (int n)"
proof -
  obtain c cs where s: "show_nat n = c # cs"
    by (cases "show_nat n") auto
  then have "digit_val c \<noteq> None"
    using show_nat_digits [of c n] by simp
  then have c: "c \<noteq> CHR ''-''" "c \<noteq> CHR ''+''"
    by (auto simp: digit_val_def)
  have "int n < 2 ^ 63"
    using assms by (simp flip: of_nat_less_iff)
  then show ?thesis
    using c s read_digits_show_nat [of n] by (simp add: atoi_def)
qed

lemma split_at_first:
  assumes "c \<notin> set a" "c \<notin> set a'" "a @ c # b = a' @ c # b'"
  shows "a = a' \<and> b = b'"
  using assms
proof (induction a arbitrary: a')
  case Nil
  then show ?case by (cases a') auto
next
  case (Cons x a)
  then show ?case by (cases a') auto
qed

end
