(* ===== verification/Domain.thy ===== *)
theory Domain
  imports Prelude
begin

text \<open>
  The core entities of \<open>internal/domain\<close>: nodes, edges, cities, drivers, orders, and the
  operations that look an edge up by id and toggle its closed flag.  Go's string-typed status
  constants are datatypes with one extra constructor for any other string (the zero value of the
  Go type is the empty string).  The lemmas show that \<open>EdgeByID\<close> and \<open>SetClosed\<close> agree on
  which ids exist, and that in a city with distinct edge ids \<open>SetClosed\<close> changes exactly the
  edge it names.
\<close>

type_synonym node_id = string
type_synonym edge_id = string
type_synonym driver_id = string
type_synonym order_id = string

record node =
  nID :: node_id
  nX :: real
  nY :: real

record edge =
  eID :: edge_id
  eFrom :: node_id
  eTo :: node_id
  eWeight :: real
  eClosed :: bool

record city =
  cID :: string
  cVersion :: int
  cNodes :: "(node_id, node) gomap"
  cEdges :: "(node_id, edge list) gomap"

datatype driver_status =
    DriverIdle | DriverAssigned | DriverEnRouteToPick | DriverDelivering | DriverUnavailable
  | DriverStatusOther string

datatype order_status =
    OrderPending | OrderAssigned | OrderEnRoute | OrderDelivered | OrderUnassignable
  | OrderStatusOther string

record driver =
  dID :: driver_id
  dPosition :: node_id
  dStatus :: driver_status
  dRoute :: "node_id list"
  dRouteIndex :: nat
  dAssignedOrder :: order_id
  dIdleSince :: real
  dRouteProgress :: real

record order =
  oID :: order_id
  oPickup :: node_id
  oDestination :: node_id
  oCreatedAt :: real
  oStatus :: order_status
  oAssignedDriver :: driver_id

datatype event_type =
    EventSimulationSnapshot | EventOrderPlaced | EventOrderAssigned | EventOrderUnassignable
  | EventOrderDelivered | EventDriverPositionUpdate | EventDriverStatusChanged
  | EventRouteComputed | EventRouteInvalidated | EventRoadClosed | EventRoadReopened
  | EventSimulationPaused | EventSimulationSpeed | EventTypeOther string

definition zero_node :: node where
  "zero_node = \<lparr>nID = '''', nX = 0, nY = 0\<rparr>"

definition node_at :: "city \<Rightarrow> node_id \<Rightarrow> node" where
  \<comment> \<open>\<open>city.Nodes[id]\<close>: the zero \<open>Node\<close> for an unknown id\<close>
  "node_at c i = get_or zero_node (cNodes c) i"

definition edges_from :: "city \<Rightarrow> node_id \<Rightarrow> edge list" where
  \<comment> \<open>\<open>city.Edges[id]\<close>: the nil slice for an unknown id\<close>
  "edges_from c i = get_or [] (cEdges c) i"

definition all_edges :: "city \<Rightarrow> edge list" where
  \<comment> \<open>the edges in the order the nested \<open>range\<close> loops visit them\<close>
  "all_edges c = concat (map snd (cEdges c))"

definition EdgeByID :: "city \<Rightarrow> edge_id \<Rightarrow> edge option" where
  "EdgeByID c i = find (\<lambda>e. eID e = i) (all_edges c)"

fun close_in_list :: "edge_id \<Rightarrow> bool \<Rightarrow> edge list \<Rightarrow> edge list option" where
  \<comment> \<open>the inner loop of \<open>SetClosed\<close>: the list with its first match updated, if there is one\<close>
  "close_in_list i b [] = None"
| "close_in_list i b (e # es) =
     (if eID e = i then Some (e\<lparr>eClosed := b\<rparr> # es)
      else map_option (\<lambda>es'. e # es') (close_in_list i b es))"

fun close_in_map :: "edge_id \<Rightarrow> bool \<Rightarrow> (node_id, edge list) gomap \<Rightarrow> (node_id, edge list) gomap option" where
  "close_in_map i b [] = None"
| "close_in_map i b ((from, es) # m) =
     (case close_in_list i b es of
        Some es' \<Rightarrow> Some ((from, es') # m)
      | None \<Rightarrow> map_option (\<lambda>m'. (from, es) # m') (close_in_map i b m))"

definition SetClosed :: "city \<Rightarrow> edge_id \<Rightarrow> bool \<Rightarrow> city \<times> bool" where
  "SetClosed c i b =
     (case close_in_map i b (cEdges c) of
        None \<Rightarrow> (c, False)
      | Some es \<Rightarrow> (c\<lparr>cEdges := es\<rparr>, True))"

definition city_edges_wf :: "city \<Rightarrow> bool" where
  \<comment> \<open>what \<open>GenerateGrid\<close> builds and every operation keeps: edge ids are unique, and an edge is
      filed under the node it leaves\<close>
  "city_edges_wf c \<longleftrightarrow>
     distinct_keys (cEdges c) \<and> distinct (map eID (all_edges c)) \<and>
     (\<forall>(from, es) \<in> set (cEdges c). \<forall>e \<in> set es. eFrom e = from)"

definition mark :: "edge_id \<Rightarrow> bool \<Rightarrow> edge \<Rightarrow> edge" where
  "mark i b e = (if eID e = i then e\<lparr>eClosed := b\<rparr> else e)"

subsection \<open>Marking one edge\<close>

lemma mark_simps [simp]:
  "eID (mark i b e) = eID e" "eFrom (mark i b e) = eFrom e" "eTo (mark i b e) = eTo e"
  "eWeight (mark i b e) = eWeight e" "eClosed (mark i b e) = (if eID e = i then b else eClosed e)"
  by (simp_all add: mark_def)

lemma mark_other: "eID e \<noteq> i \<Longrightarrow> mark i b e = e"
  by (simp add: mark_def)

lemma map_mark_other: "i \<notin> eID ` set es \<Longrightarrow> map (mark i b) es = es"
  by (induction es) (auto simp: mark_other)

lemma close_in_list_None [simp]: "close_in_list i b es = None \<longleftrightarrow> i \<notin> eID ` set es"
  by (induction es) auto

lemma close_in_list_Some:
  "close_in_list i b es = Some es' \<Longrightarrow> distinct (map eID es) \<Longrightarrow> es' = map (mark i b) es"
proof (induction es arbitrary: es')
  case (Cons e es)
  then show ?case
    by (cases "eID e = i")
      (auto simp: mark_def [of i b e] map_mark_other [symmetric] simp flip: set_map)
qed simp

lemma close_in_map_None:
  "close_in_map i b m = None \<longleftrightarrow> i \<notin> eID ` set (concat (map snd m))"
  by (induction m) (auto split: option.splits)

lemma close_in_map_Some:
  assumes "close_in_map i b m = Some m'" "distinct (map eID (concat (map snd m)))"
  shows "m' = map (\<lambda>(k, es). (k, map (mark i b) es)) m"
  using assms
proof (induction m arbitrary: m')
  case (Cons x m)
  obtain k es where x: "x = (k, es)" by (cases x)
  have rest: "map (\<lambda>(k, es). (k, map (mark i b) es)) m = m" if "i \<in> eID ` set es"
  proof -
    have "i \<notin> eID ` set es'" if "(k', es') \<in> set m" for k' es'
      using Cons.prems(2) that \<open>i \<in> eID ` set es\<close> x by fastforce
    then have "\<forall>y \<in> set m. (case y of (k, es) \<Rightarrow> (k, map (mark i b) es)) = y"
      by (auto simp: map_mark_other)
    then show ?thesis by (simp add: map_idI)
  qed
  show ?case
  proof (cases "close_in_list i b es")
    case None
    with Cons x show ?thesis by (auto simp: map_mark_other)
  next
    case (Some es')
    then have "i \<in> eID ` set es" by (metis close_in_list_None option.distinct(1))
    moreover have "es' = map (mark i b) es"
      using Some Cons.prems(2) x by (intro close_in_list_Some) auto
    ultimately show ?thesis
      using rest Some Cons.prems(1) x by simp
  qed
qed simp

lemma EdgeByID_Some: "EdgeByID c i = Some e \<Longrightarrow> e \<in> set (all_edges c) \<and> eID e = i"
  by (auto simp: EdgeByID_def find_Some_iff)

lemma EdgeByID_None [simp]: "EdgeByID c i = None \<longleftrightarrow> i \<notin> eID ` set (all_edges c)"
  by (auto simp: EdgeByID_def find_None_iff)

lemma EdgeByID_eq:
  assumes "city_edges_wf c" "e \<in> set (all_edges c)"
  shows "EdgeByID c (eID e) = Some e"
proof -
  have "eID e \<in> eID ` set (all_edges c)" using assms(2) by blast
  then obtain e' where "EdgeByID c (eID e) = Some e'"
    using EdgeByID_None [of c "eID e"] by fastforce
  moreover from this have "e' = e"
    using assms EdgeByID_Some [of c "eID e" e']
    by (auto simp: city_edges_wf_def distinct_map inj_on_def)
  ultimately show ?thesis by simp
qed

lemma SetClosed_found [simp]: "snd (SetClosed c i b) \<longleftrightarrow> i \<in> eID ` set (all_edges c)"
  using close_in_map_None [of i b "cEdges c"]
  by (cases "close_in_map i b (cEdges c)") (simp_all add: SetClosed_def all_edges_def)

lemma SetClosed_edges:
  assumes "distinct (map eID (all_edges c))"
  shows "cEdges (fst (SetClosed c i b)) = map (\<lambda>(k, es). (k, map (mark i b) es)) (cEdges c)"
proof (cases "close_in_map i b (cEdges c)")
  case None
  then have "\<forall>x \<in> set (cEdges c). (case x of (k, es) \<Rightarrow> (k, map (mark i b) es)) = x"
    unfolding close_in_map_None by (force intro!: map_mark_other)
  with None show ?thesis by (simp add: SetClosed_def map_idI)
next
  case (Some es)
  with assms show ?thesis
    by (simp add: SetClosed_def all_edges_def close_in_map_Some)
qed

lemma SetClosed_frame [simp]:
  "cNodes (fst (SetClosed c i b)) = cNodes c" "cID (fst (SetClosed c i b)) = cID c"
  "cVersion (fst (SetClosed c i b)) = cVersion c"
  by (simp_all add: SetClosed_def split: option.splits)

lemma node_at_SetClosed [simp]: "node_at (fst (SetClosed c i b)) n = node_at c n"
  by (simp add: node_at_def)

lemma all_edges_SetClosed:
  assumes "distinct (map eID (all_edges c))"
  shows "all_edges (fst (SetClosed c i b)) = map (mark i b) (all_edges c)"
  using SetClosed_edges [OF assms, of i b]
  by (simp add: all_edges_def map_concat comp_def case_prod_beta)

lemma edges_from_SetClosed:
  assumes "distinct (map eID (all_edges c))"
  shows "edges_from (fst (SetClosed c i b)) n = map (mark i b) (edges_from c n)"
proof -
  have "map_of (map (\<lambda>(k, es). (k, map (mark i b) es)) m) n =
        map_option (map (mark i b)) (map_of m n)" for m
    by (induction m) auto
  then show ?thesis
    using SetClosed_edges [OF assms, of i b]
    by (simp add: edges_from_def get_or_def split: option.splits)
qed

lemma city_edges_wf_SetClosed [wf_intros]:
  assumes "city_edges_wf c"
  shows "city_edges_wf (fst (SetClosed c i b))"
proof -
  have d: "distinct (map eID (all_edges c))" using assms by (simp add: city_edges_wf_def)
  have ids: "map eID (all_edges (fst (SetClosed c i b))) = map eID (all_edges c)"
    by (simp add: all_edges_SetClosed [OF d] comp_def)
  have ks: "map fst (cEdges (fst (SetClosed c i b))) = map fst (cEdges c)"
    by (simp add: SetClosed_edges [OF d] comp_def case_prod_beta)
  have filed: "eFrom e = k"
    if "(k, es) \<in> set (cEdges (fst (SetClosed c i b)))" "e \<in> set es" for k es e
  proof -
    from that(1) obtain es0 where es0: "(k, es0) \<in> set (cEdges c)" "es = map (mark i b) es0"
      by (auto simp: SetClosed_edges [OF d])
    with that(2) obtain e0 where "e0 \<in> set es0" "e = mark i b e0" by auto
    with es0(1) assms show ?thesis by (auto simp: city_edges_wf_def)
  qed
  show ?thesis
    unfolding city_edges_wf_def ids ks
    using assms filed by (simp add: city_edges_wf_def case_prod_beta) (metis surjective_pairing)
qed

lemma edges_from_subset: "set (edges_from c n) \<subseteq> set (all_edges c)"
proof (cases "map_of (cEdges c) n")
  case (Some es)
  then have "(n, es) \<in> set (cEdges c)" by (rule map_of_SomeD)
  with Some show ?thesis by (force simp: edges_from_def all_edges_def)
qed (simp add: edges_from_def)

lemma edges_from_eFrom: "city_edges_wf c \<Longrightarrow> e \<in> set (edges_from c n) \<Longrightarrow> eFrom e = n"
  by (auto simp: city_edges_wf_def edges_from_def get_or_def split: option.splits
      dest!: map_of_SomeD)

lemma edges_from_complete:
  assumes "city_edges_wf c" "e \<in> set (all_edges c)"
  shows "e \<in> set (edges_from c (eFrom e))"
proof -
  obtain n es where es: "(n, es) \<in> set (cEdges c)" "e \<in> set es"
    using assms(2) by (auto simp: all_edges_def)
  then have "n = eFrom e" "map_of (cEdges c) n = Some es"
    using assms(1) by (auto simp: city_edges_wf_def)
  with es show ?thesis by (simp add: edges_from_def)
qed

text \<open>
  In a city with distinct road ids, filed under the node they leave, \<open>SetClosed\<close> reports
  whether the id exists (as \<open>EdgeByID\<close> does), sets the flag of exactly the road with that id, and
  keeps the city well formed.
\<close>

theorem SetClosed_exact:
  assumes "city_edges_wf c"
  shows "(snd (SetClosed c i b) \<longleftrightarrow> EdgeByID c i \<noteq> None) \<and>
    (\<forall>n. edges_from (fst (SetClosed c i b)) n = map (\<lambda>e. if eID e = i then e\<lparr>eClosed := b\<rparr> else e) (edges_from c n)) \<and>
    city_edges_wf (fst (SetClosed c i b))"
proof -
  have d: "distinct (map eID (all_edges c))" using assms by (simp add: city_edges_wf_def)
  have "mark i b = (\<lambda>e. if eID e = i then e\<lparr>eClosed := b\<rparr> else e)" by (simp add: mark_def fun_eq_iff)
  then show ?thesis
    using edges_from_SetClosed [OF d] city_edges_wf_SetClosed [OF assms] by simp
qed

definition one_road :: city where
  "one_road = \<lparr>cID = ''c'', cVersion = 1, cNodes = [],
     cEdges = [(''a'', [\<lparr>eID = ''e-a-b'', eFrom = ''a'', eTo = ''b'', eWeight = 3, eClosed = False\<rparr>])]\<rparr>"

theorem SetClosed_exact_witness:
  "snd (SetClosed one_road ''e-a-b'' True) \<and>
   edges_from (fst (SetClosed one_road ''e-a-b'' True)) ''a'' =
     [\<lparr>eID = ''e-a-b'', eFrom = ''a'', eTo = ''b'', eWeight = 3, eClosed = True\<rparr>]"
proof -
  have "city_edges_wf one_road" by (simp add: city_edges_wf_def one_road_def all_edges_def)
  from SetClosed_exact [OF this, of "''e-a-b''" True] show ?thesis
    by (simp add: one_road_def edges_from_def get_or_def all_edges_def)
qed

end
