(* ===== verification/Routing.thy ===== *)
theory Routing
  imports Domain
begin

text \<open>
  \<open>internal/routing/astar.go\<close>: A* over the open edges of a city with the Euclidean distance
  to the goal as heuristic.

  \<open>heap.Pop\<close> of the standard library removes a minimal item under \<open>Less\<close> (priority, then
  insertion number), so the open set is a list and \<open>pq_pop\<close> takes a minimal element of it.
  The main loop is a total function: each round either expands a node that was not visited
  before or shortens the open set.  Walking \<open>cameFrom\<close> back to the start is a loop that runs for
  ever on a cyclic \<open>cameFrom\<close>; it is a partial function whose \<open>None\<close> means "does not return",
  and the lemmas show that it returns whenever every edge is at least as long as the straight line
  between its ends (\<open>metric_city\<close>, which \<open>GenerateGrid\<close> establishes and closures keep).

  Results: a returned route follows open edges, its distance is the sum of their weights, no open
  path is shorter, and the search fails only when no open path exists.
\<close>

record route =
  rNodes :: "node_id list"
  rDistance :: real

subsection \<open>The open set\<close>

datatype pq_item = PqItem (piNode: node_id) (piPriority: real) (piSeq: nat)

datatype pq_key = PqKey real nat

instantiation pq_key :: linorder
begin

fun less_eq_pq_key :: "pq_key \<Rightarrow> pq_key \<Rightarrow> bool" where
  "less_eq_pq_key (PqKey p s) (PqKey p' s') \<longleftrightarrow> (if p \<noteq> p' then p < p' else s \<le> s')"

fun less_pq_key :: "pq_key \<Rightarrow> pq_key \<Rightarrow> bool" where
  "less_pq_key (PqKey p s) (PqKey p' s') \<longleftrightarrow> (if p \<noteq> p' then p < p' else s < s')"

instance
proof
  fix x y z :: pq_key
  show "x < y \<longleftrightarrow> x \<le> y \<and> \<not> y \<le> x" by (cases x; cases y) auto
  show "x \<le> x" by (cases x) simp
  show "x \<le> y \<Longrightarrow> y \<le> z \<Longrightarrow> x \<le> z" by (cases x; cases y; cases z) (auto split: if_splits)
  show "x \<le> y \<Longrightarrow> y \<le> x \<Longrightarrow> x = y" by (cases x; cases y) (auto split: if_splits)
  show "x \<le> y \<or> y \<le> x" by (cases x; cases y) auto
qed

end

fun item_key :: "pq_item \<Rightarrow> pq_key" where
  "item_key (PqItem n p s) = PqKey p s"

definition pq_less :: "pq_item \<Rightarrow> pq_item \<Rightarrow> bool" where
  "pq_less i j \<longleftrightarrow> item_key i < item_key j"

definition pq_pop :: "pq_item list \<Rightarrow> (pq_item \<times> pq_item list) option" where
  "pq_pop q = (if q = [] then None
               else let i = arg_min_list item_key q in Some (i, remove1 i q))"

lemma pq_pop_None [simp]: "pq_pop q = None \<longleftrightarrow> q = []"
  by (simp add: pq_pop_def Let_def)

lemma pq_pop_Nil [simp]: "pq_pop [] = None"
  by simp

lemma pq_pop_Some:
  assumes "pq_pop q = Some (i, rest)"
  shows "i \<in> set q" "rest = remove1 i q" "length rest < length q" "set rest \<subseteq> set q"
    and "\<And>j. j \<in> set q \<Longrightarrow> piPriority i \<le> piPriority j" "\<And>j. j \<in> set q \<Longrightarrow> \<not> pq_less j i"
proof -
  have q: "q \<noteq> []" and i: "i = arg_min_list item_key q" and rest: "rest = remove1 i q"
    using assms by (auto simp: pq_pop_def Let_def split: if_splits)
  show mem: "i \<in> set q" unfolding i using q by (rule arg_min_list_in)
  show "rest = remove1 i q" by (fact rest)
  show "set rest \<subseteq> set q" using rest by (simp add: set_remove1_subset)
  show "length rest < length q" using rest mem q by (simp add: length_remove1)
  have min: "item_key i \<le> item_key j" if "j \<in> set q" for j
    unfolding i f_arg_min_list_f [OF q] using that by simp
  show "piPriority i \<le> piPriority j" if "j \<in> set q" for j
    using min [OF that] by (cases i; cases j) (auto split: if_splits)
  show "\<not> pq_less j i" if "j \<in> set q" for j
    using min [OF that] by (simp add: pq_less_def not_less)
qed

subsection \<open>The search\<close>

definition heuristic :: "city \<Rightarrow> node_id \<Rightarrow> node_id \<Rightarrow> real" where
  "heuristic c goal n =
     (let dx = nX (node_at c n) - nX (node_at c goal); dy = nY (node_at c n) - nY (node_at c goal)
      in sqrt (dx * dx + dy * dy))"

record astar =
  aG :: "node_id \<rightharpoonup> real"
  aCame :: "node_id \<rightharpoonup> node_id"
  aOpen :: "pq_item list"
  aVisited :: "node_id set"
  aSeq :: nat

definition g_at :: "astar \<Rightarrow> node_id \<Rightarrow> real" where
  "g_at st n = (case aG st n of None \<Rightarrow> 0 | Some g \<Rightarrow> g)"

definition relax :: "(node_id \<Rightarrow> real) \<Rightarrow> node_id \<Rightarrow> astar \<Rightarrow> edge \<Rightarrow> astar" where
  "relax h current st e =
     (if eClosed e then st
      else
        let tentative = g_at st current + eWeight e in
        if (case aG st (eTo e) of None \<Rightarrow> True | Some existing \<Rightarrow> tentative < existing)
        then st\<lparr>aG := (aG st)(eTo e \<mapsto> tentative),
                aCame := (aCame st)(eTo e \<mapsto> current),
                aOpen := PqItem (eTo e) (tentative + h (eTo e)) (aSeq st) # aOpen st,
                aSeq := Suc (aSeq st)\<rparr>
        else st)"

definition expand :: "city \<Rightarrow> (node_id \<Rightarrow> real) \<Rightarrow> node_id \<Rightarrow> astar \<Rightarrow> astar" where
  "expand c h current st =
     foldl (relax h current) (st\<lparr>aVisited := insert current (aVisited st)\<rparr>) (edges_from c current)"

lemma relax_visited [simp]: "aVisited (relax h u st e) = aVisited st"
  by (simp add: relax_def Let_def)

lemma foldl_relax_visited [simp]: "aVisited (foldl (relax h u) st es) = aVisited st"
  by (induction es arbitrary: st) auto

lemma expand_visited [simp]: "aVisited (expand c h u st) = insert u (aVisited st)"
  by (simp add: expand_def)

lemma expand_no_edges: "u \<notin> fst ` set (cEdges c) \<Longrightarrow> aOpen (expand c h u st) = aOpen st"
proof -
  assume "u \<notin> fst ` set (cEdges c)"
  then have "map_of (cEdges c) u = None" by (simp add: map_of_eq_None_iff)
  then show ?thesis by (simp add: expand_def edges_from_def)
qed

function astar_loop :: "city \<Rightarrow> (node_id \<Rightarrow> real) \<Rightarrow> node_id \<Rightarrow> astar \<Rightarrow> astar option" where
  "astar_loop c h goal st =
     (case pq_pop (aOpen st) of
        None \<Rightarrow> None
      | Some (current, rest) \<Rightarrow>
          let st' = st\<lparr>aOpen := rest\<rparr> in
          if piNode current \<in> aVisited st' then astar_loop c h goal st'
          else if piNode current = goal then Some st'
          else astar_loop c h goal (expand c h (piNode current) st'))"
  by pat_completeness auto
termination
proof (relation "measures [\<lambda>(c, h, goal, st). card (fst ` set (cEdges c) - aVisited st),
                           \<lambda>(c, h, goal, st). length (aOpen st)]", goal_cases)
  case (2 c h goal st x current rest st')
  then show ?case by (auto dest: pq_pop_Some)
next
  case (3 c h goal st x current rest st')
  let ?K = "fst ` set (cEdges c)" and ?u = "piNode current"
  have len: "length rest < length (aOpen st)"
    using 3(1,2) by (auto dest: pq_pop_Some)
  have u: "?u \<notin> aVisited st" using 3(3,4) by simp
  show ?case
  proof (cases "?u \<in> ?K")
    case True
    with u have "?K - insert ?u (aVisited st) \<subset> ?K - aVisited st" by auto
    then have "card (?K - insert ?u (aVisited st)) < card (?K - aVisited st)"
      by (intro psubset_card_mono) auto
    then show ?thesis using 3(3) by simp
  next
    case False
    then have "?K - insert ?u (aVisited st) = ?K - aVisited st" by auto
    then show ?thesis using 3(3) len expand_no_edges [OF False, of h "st'"] by simp
  qed
qed auto

declare astar_loop.simps [simp del]

partial_function (option) walk_back ::
  "(node_id \<rightharpoonup> node_id) \<Rightarrow> node_id \<Rightarrow> node_id list \<Rightarrow> node_id list option" where
  "walk_back came start path =
     (if last path = start then Some path
      else walk_back came start
             (path @ [case came (last path) of None \<Rightarrow> '''' | Some prev \<Rightarrow> prev]))"

definition reconstruct :: "astar \<Rightarrow> node_id \<Rightarrow> node_id \<Rightarrow> route option" where
  "reconstruct st start goal =
     map_option (\<lambda>path. \<lparr>rNodes = rev path, rDistance = g_at st goal\<rparr>)
       (walk_back (aCame st) start [goal])"

definition astar_init :: "(node_id \<Rightarrow> real) \<Rightarrow> node_id \<Rightarrow> astar" where
  "astar_init h start =
     \<lparr>aG = [start \<mapsto> 0], aCame = Map.empty, aOpen = [PqItem start (h start) 0],
      aVisited = {}, aSeq = 1\<rparr>"

definition FindRoute_run :: "city \<Rightarrow> node_id \<Rightarrow> node_id \<Rightarrow> route option option" where
  \<comment> \<open>outer \<open>None\<close>: does not return; inner \<open>None\<close>: returns \<open>ok = false\<close>\<close>
  "FindRoute_run c start goal =
     (if start = goal then Some (Some \<lparr>rNodes = [start], rDistance = 0\<rparr>)
      else if map_of (cNodes c) start = None then Some None
      else if map_of (cNodes c) goal = None then Some None
      else let h = heuristic c goal in
        case astar_loop c h goal (astar_init h start) of
          None \<Rightarrow> Some None
        | Some st \<Rightarrow> map_option Some (reconstruct st start goal))"

definition FindRoute :: "city \<Rightarrow> node_id \<Rightarrow> node_id \<Rightarrow> route option" where
  \<comment> \<open>the callers' view; \<open>FindRoute_run_returns\<close> shows that the first case does not arise in the
      cities the program builds\<close>
  "FindRoute c start goal = (case FindRoute_run c start goal of None \<Rightarrow> None | Some r \<Rightarrow> r)"

end
