(* ===== verification/Routing_Correct.thy ===== *)
theory Routing_Correct
  imports Routing
begin

text \<open>
  Correctness of \<open>FindRoute\<close>.  The locale \<open>path_heuristic\<close> states what A* needs of a
  heuristic and of the edge weights; the search invariant is proved inside it, and it is
  interpreted on the program's own Euclidean heuristic and the cities whose edges are at least as
  long as the straight line between their ends.
\<close>

subsection \<open>Paths along open edges\<close>

fun open_path :: "city \<Rightarrow> node_id \<Rightarrow> edge list \<Rightarrow> node_id \<Rightarrow> bool" where
  "open_path c u [] v \<longleftrightarrow> u = v"
| "open_path c u (e # es) v \<longleftrightarrow> e \<in> set (edges_from c u) \<and> \<not> eClosed e \<and> open_path c (eTo e) es v"

definition path_len :: "edge list \<Rightarrow> real" where
  "path_len es = sum_list (map eWeight es)"

definition path_nodes :: "node_id \<Rightarrow> edge list \<Rightarrow> node_id list" where
  "path_nodes u es = u # map eTo es"

definition euclid :: "city \<Rightarrow> node_id \<Rightarrow> node_id \<Rightarrow> real" where
  "euclid c a b = sqrt ((nX (node_at c a) - nX (node_at c b))\<^sup>2 + (nY (node_at c a) - nY (node_at c b))\<^sup>2)"

definition metric_city :: "city \<Rightarrow> bool" where
  \<comment> \<open>edge weights are Euclidean distances or greater, never less\<close>
  "metric_city c \<longleftrightarrow>
     (\<forall>(u, es) \<in> set (cEdges c). \<forall>e \<in> set es. euclid c u (eTo e) \<le> eWeight e)"

lemma path_len_simps [simp]: "path_len [] = 0" "path_len (e # es) = eWeight e + path_len es"
  "path_len (es @ fs) = path_len es + path_len fs"
  by (simp_all add: path_len_def)

lemma path_nodes_simps [simp]: "path_nodes u [] = [u]" "path_nodes u (e # es) = u # path_nodes (eTo e) es"
  "path_nodes u es \<noteq> []" "hd (path_nodes u es) = u"
  by (simp_all add: path_nodes_def)

lemma open_path_append:
  "open_path c u (es @ fs) w \<longleftrightarrow> (\<exists>v. open_path c u es v \<and> open_path c v fs w)"
  by (induction es arbitrary: u) auto

lemma open_path_snoc:
  "open_path c u es v \<Longrightarrow> e \<in> set (edges_from c v) \<Longrightarrow> \<not> eClosed e \<Longrightarrow> open_path c u (es @ [e]) (eTo e)"
  by (auto simp: open_path_append)

lemma last_path_nodes: "open_path c u es v \<Longrightarrow> last (path_nodes u es) = v"
  by (induction es arbitrary: u) auto

lemma path_nodes_snoc: "path_nodes u (es @ [e]) = path_nodes u es @ [eTo e]"
  by (simp add: path_nodes_def)

lemma butlast_path_snoc: "set (butlast (path_nodes u (es @ [e]))) = set (path_nodes u es)"
  by (simp add: path_nodes_snoc butlast_append)

lemma set_path_nodes: "open_path c u es v \<Longrightarrow>
    set (path_nodes u es) = insert v (set (butlast (path_nodes u es)))"
  using append_butlast_last_id [of "path_nodes u es"] last_path_nodes [of c u es v]
  by (metis Un_insert_right list.simps(15) list.set(1) path_nodes_simps(3) set_append sup_bot.right_neutral)

lemma heuristic_euclid: "heuristic c goal n = euclid c n goal"
  by (simp add: heuristic_def euclid_def Let_def power2_eq_square)

lemma euclid_nonneg [simp]: "0 \<le> euclid c a b"
  by (simp add: euclid_def)

lemma euclid_self [simp]: "euclid c a a = 0"
  by (simp add: euclid_def)

lemma euclid_triangle: "euclid c a d \<le> euclid c a b + euclid c b d"
proof -
  let ?x = "\<lambda>n. nX (node_at c n)" and ?y = "\<lambda>n. nY (node_at c n)"
  have "sqrt (((?x a - ?x b) + (?x b - ?x d))\<^sup>2 + ((?y a - ?y b) + (?y b - ?y d))\<^sup>2)
        \<le> sqrt ((?x a - ?x b)\<^sup>2 + (?y a - ?y b)\<^sup>2) + sqrt ((?x b - ?x d)\<^sup>2 + (?y b - ?y d)\<^sup>2)"
    by (rule real_sqrt_sum_squares_triangle_ineq)
  then show ?thesis by (simp add: euclid_def)
qed

lemma metric_city_edge: "metric_city c \<Longrightarrow> e \<in> set (edges_from c u) \<Longrightarrow> euclid c u (eTo e) \<le> eWeight e"
proof -
  assume m: "metric_city c" and e: "e \<in> set (edges_from c u)"
  then obtain es where "map_of (cEdges c) u = Some es" "e \<in> set es"
    by (cases "map_of (cEdges c) u") (auto simp: edges_from_def)
  with m show ?thesis by (force simp: metric_city_def dest: map_of_SomeD)
qed

lemma metric_city_SetClosed [wf_intros]:
  assumes "metric_city c" "distinct (map eID (all_edges c))"
  shows "metric_city (fst (SetClosed c i b))"
proof -
  have "euclid (fst (SetClosed c i b)) u v = euclid c u v" for u v
    by (simp add: euclid_def)
  then show ?thesis
    using assms(1) by (force simp: metric_city_def SetClosed_edges [OF assms(2)])
qed

subsection \<open>The search invariant\<close>

fun came_links :: "(node_id \<rightharpoonup> node_id) \<Rightarrow> node_id \<Rightarrow> edge list \<Rightarrow> bool" where
  "came_links came u [] \<longleftrightarrow> True"
| "came_links came u (e # es) \<longleftrightarrow> came (eTo e) = Some u \<and> came_links came (eTo e) es"

lemma came_links_upd: "v \<notin> eTo ` set es \<Longrightarrow> came_links (came(v := x)) u es = came_links came u es"
  by (induction es arbitrary: u) auto

lemma came_links_snoc:
  "open_path c u es v \<Longrightarrow>
   came_links came u (es @ [e]) \<longleftrightarrow> came_links came u es \<and> came (eTo e) = Some v"
  by (induction es arbitrary: u) auto

definition reached :: "city \<Rightarrow> node_id \<Rightarrow> astar \<Rightarrow> node_id \<Rightarrow> real \<Rightarrow> bool" where
  \<comment> \<open>\<open>cameFrom\<close> spells out an open path of length \<open>g\<close> whose inner nodes have been expanded\<close>
  "reached c s st v g \<longleftrightarrow>
     (\<exists>es. open_path c s es v \<and> path_len es = g \<and> came_links (aCame st) s es \<and>
           set (butlast (path_nodes s es)) \<subseteq> aVisited st)"

definition closed_under :: "astar \<Rightarrow> node_id \<Rightarrow> edge list \<Rightarrow> bool" where
  "closed_under st u es \<longleftrightarrow>
     (\<exists>gu. aG st u = Some gu \<and>
       (\<forall>e \<in> set es. \<not> eClosed e \<longrightarrow> (\<exists>gv. aG st (eTo e) = Some gv \<and> gv \<le> gu + eWeight e)))"

definition search_inv ::
  "city \<Rightarrow> (node_id \<Rightarrow> real) \<Rightarrow> node_id \<Rightarrow> (node_id \<Rightarrow> edge list) \<Rightarrow> astar \<Rightarrow> bool" where
  \<comment> \<open>\<open>D u\<close> are the edges of the expanded node \<open>u\<close> that have been relaxed\<close>
  "search_inv c h s D st \<longleftrightarrow>
     aG st s = Some 0 \<and> aCame st s = None \<and>
     (\<forall>v g. aG st v = Some g \<longrightarrow> reached c s st v g) \<and>
     (\<forall>u \<in> aVisited st. closed_under st u (D u)) \<and>
     (\<forall>v g. aG st v = Some g \<and> v \<notin> aVisited st \<longrightarrow>
        (\<exists>i \<in> set (aOpen st). piNode i = v \<and> piPriority i = g + h v)) \<and>
     (\<forall>i \<in> set (aOpen st). \<exists>g. aG st (piNode i) = Some g \<and> g + h (piNode i) \<le> piPriority i) \<and>
     (\<forall>u \<in> aVisited st. \<forall>i \<in> set (aOpen st). g_at st u + h u \<le> piPriority i)"

lemma g_at_Some [simp]: "aG st v = Some g \<Longrightarrow> g_at st v = g"
  by (simp add: g_at_def)

lemma closed_under_visited: "closed_under st u es \<Longrightarrow> \<exists>gu. aG st u = Some gu"
  by (auto simp: closed_under_def)

lemma walk_back_path:
  assumes "open_path c s es v" "came_links came s es" "came s = None"
  shows "walk_back came s (xs @ [v]) = Some (xs @ rev (path_nodes s es))"
  using assms
proof (induction es arbitrary: v xs rule: rev_induct)
  case Nil
  then show ?case by (simp add: walk_back.simps)
next
  case (snoc e es)
  then obtain w where w: "open_path c s es w" and v: "v = eTo e"
    by (auto simp: open_path_append)
  with snoc.prems have "came_links came s es" and came: "came v = Some w"
    by (auto simp: came_links_snoc)
  then have "v \<noteq> s" using snoc.prems(3) by auto
  then have "walk_back came s (xs @ [v]) = walk_back came s ((xs @ [v]) @ [w])"
    by (subst walk_back.simps) (simp add: came)
  also have "\<dots> = Some ((xs @ [v]) @ rev (path_nodes s es))"
    by (rule snoc.IH [OF w \<open>came_links came s es\<close> snoc.prems(3)])
  finally show ?case by (simp add: path_nodes_snoc v)
qed

lemma search_invD:
  assumes "search_inv c h s D st"
  shows "aG st s = Some 0" "aCame st s = None"
    and "\<And>v g. aG st v = Some g \<Longrightarrow> reached c s st v g"
    and "\<And>x. x \<in> aVisited st \<Longrightarrow> closed_under st x (D x)"
    and "\<And>v g. aG st v = Some g \<Longrightarrow> v \<notin> aVisited st \<Longrightarrow>
          \<exists>i \<in> set (aOpen st). piNode i = v \<and> piPriority i = g + h v"
    and "\<And>i. i \<in> set (aOpen st) \<Longrightarrow> \<exists>g. aG st (piNode i) = Some g \<and> g + h (piNode i) \<le> piPriority i"
    and "\<And>x i. x \<in> aVisited st \<Longrightarrow> i \<in> set (aOpen st) \<Longrightarrow> g_at st x + h x \<le> piPriority i"
  using assms unfolding search_inv_def by blast+

subsection \<open>Improving one node\<close>

definition improve :: "(node_id \<Rightarrow> real) \<Rightarrow> node_id \<Rightarrow> node_id \<Rightarrow> real \<Rightarrow> astar \<Rightarrow> astar" where
  "improve h u v t st =
     st\<lparr>aG := (aG st)(v \<mapsto> t), aCame := (aCame st)(v \<mapsto> u),
        aOpen := PqItem v (t + h v) (aSeq st) # aOpen st, aSeq := Suc (aSeq st)\<rparr>"

lemma improve_simps [simp]:
  "aG (improve h u v t st) = (aG st)(v \<mapsto> t)"
  "aCame (improve h u v t st) = (aCame st)(v \<mapsto> u)"
  "aOpen (improve h u v t st) = PqItem v (t + h v) (aSeq st) # aOpen st"
  "aVisited (improve h u v t st) = aVisited st"
  by (simp_all add: improve_def)

lemma g_at_improve: "g_at (improve h u v t st) x = (if x = v then t else g_at st x)"
  by (simp add: g_at_def)

lemma relax_cases:
  assumes "aG st u = Some gu"
  obtains (closed) "eClosed e" "relax h u st e = st"
  | (keep) g where "\<not> eClosed e" "aG st (eTo e) = Some g" "g \<le> gu + eWeight e" "relax h u st e = st"
  | (update) "\<not> eClosed e" "\<And>g. aG st (eTo e) = Some g \<Longrightarrow> gu + eWeight e < g"
      "relax h u st e = improve h u (eTo e) (gu + eWeight e) st"
proof (cases "eClosed e")
  case True
  then show ?thesis by (intro closed) (simp_all add: relax_def)
next
  case False
  show ?thesis
  proof (cases "\<exists>g. aG st (eTo e) = Some g \<and> g \<le> gu + eWeight e")
    case True
    then show ?thesis using False assms keep by (force simp: relax_def Let_def)
  next
    case new: False
    then have "relax h u st e = improve h u (eTo e) (gu + eWeight e) st"
      using False assms by (auto simp: relax_def improve_def Let_def not_le split: option.splits)
    then show ?thesis using new False update by (force simp: not_le)
  qed
qed

lemma reached_improve:
  assumes rea: "\<And>v g. aG st v = Some g \<Longrightarrow> reached c s st v g"
    and u: "u \<in> aVisited st" "aG st u = Some gu" and v: "eTo e \<notin> aVisited st"
    and e: "e \<in> set (edges_from c u)" "\<not> eClosed e"
    and w: "aG (improve h u (eTo e) (gu + eWeight e) st) w = Some g"
  shows "reached c s (improve h u (eTo e) (gu + eWeight e) st) w g"
proof -
  have inner: "eTo e \<notin> eTo ` set fs"
    if "open_path c s fs x" "set (butlast (path_nodes s fs)) \<subseteq> aVisited st" "x \<noteq> eTo e" for fs x
    using set_path_nodes [OF that(1)] that(2,3) v by (auto simp: path_nodes_def)
  show ?thesis
  proof (cases "w = eTo e")
    case True
    obtain es where es: "open_path c s es u" "path_len es = gu" "came_links (aCame st) s es"
        "set (butlast (path_nodes s es)) \<subseteq> aVisited st"
      using rea [OF u(2)] by (auto simp: reached_def)
    have "open_path c s (es @ [e]) (eTo e)"
      by (rule open_path_snoc [OF es(1) e])
    moreover have "u \<noteq> eTo e" using u v by auto
    then have "came_links ((aCame st)(eTo e \<mapsto> u)) s (es @ [e])"
      using es(3) inner [OF es(1,4)] by (auto simp: came_links_snoc [OF es(1)] came_links_upd)
    moreover have "set (path_nodes s es) \<subseteq> aVisited st"
      using set_path_nodes [OF es(1)] es(4) u by auto
    ultimately show ?thesis
      using True w es(2) by (auto simp: reached_def butlast_path_snoc intro!: exI [of _ "es @ [e]"])
  next
    case False
    then obtain fs where "open_path c s fs w" "path_len fs = g" "came_links (aCame st) s fs"
        "set (butlast (path_nodes s fs)) \<subseteq> aVisited st"
      using w rea [of w g] by (auto simp: reached_def)
    with False inner [of fs w] show ?thesis
      by (auto simp: reached_def came_links_upd intro!: exI [of _ fs])
  qed
qed

lemma closed_under_improve:
  assumes "closed_under st x es" "x \<noteq> v" "\<And>g. aG st v = Some g \<Longrightarrow> t < g"
  shows "closed_under (improve h u v t st) x es"
proof -
  obtain gx where gx: "aG st x = Some gx"
      "\<And>d. d \<in> set es \<Longrightarrow> \<not> eClosed d \<Longrightarrow> \<exists>gv. aG st (eTo d) = Some gv \<and> gv \<le> gx + eWeight d"
    using assms(1) by (auto simp: closed_under_def)
  have "\<exists>gv. ((aG st)(v \<mapsto> t)) (eTo d) = Some gv \<and> gv \<le> gx + eWeight d"
    if d: "d \<in> set es" "\<not> eClosed d" for d
    using gx(2) [OF d] assms(3) by (cases "eTo d = v") (auto intro: less_imp_le order.trans)
  with gx(1) assms(2) show ?thesis by (auto simp: closed_under_def)
qed

lemma closed_under_snoc:
  "closed_under st u (es @ [e]) \<longleftrightarrow>
     closed_under st u es \<and>
     (eClosed e \<or> (\<exists>gv. aG st (eTo e) = Some gv \<and> gv \<le> g_at st u + eWeight e))"
  by (auto simp: closed_under_def)

text \<open>What the main loop returns: a shortest open path, or a proof that there is none.\<close>

definition search_result :: "city \<Rightarrow> node_id \<Rightarrow> node_id \<Rightarrow> astar option \<Rightarrow> bool" where
  "search_result c s goal r \<longleftrightarrow>
     (case r of
        None \<Rightarrow> \<nexists>es. open_path c s es goal
      | Some st \<Rightarrow> aCame st s = None \<and> reached c s st goal (g_at st goal) \<and>
          (\<forall>es. open_path c s es goal \<longrightarrow> g_at st goal \<le> path_len es))"

subsection \<open>What A* needs of its heuristic\<close>

locale path_heuristic =
  fixes hf :: "city \<Rightarrow> node_id \<Rightarrow> node_id \<Rightarrow> real"
    and ok :: "city \<Rightarrow> bool"
  assumes weight_nonneg: "ok c \<Longrightarrow> e \<in> set (edges_from c u) \<Longrightarrow> 0 \<le> eWeight e"
    and consistent: "ok c \<Longrightarrow> e \<in> set (edges_from c u) \<Longrightarrow> hf c goal u \<le> eWeight e + hf c goal (eTo e)"
    and at_goal: "hf c goal goal = 0"
begin

lemma path_len_nonneg: "ok c \<Longrightarrow> open_path c u es v \<Longrightarrow> 0 \<le> path_len es"
  by (induction es arbitrary: u) (auto intro!: add_nonneg_nonneg weight_nonneg)

lemma path_consistent: "ok c \<Longrightarrow> open_path c u es v \<Longrightarrow> hf c goal u \<le> path_len es + hf c goal v"
proof (induction es arbitrary: u)
  case (Cons e es)
  then have "hf c goal u \<le> eWeight e + hf c goal (eTo e)"
    by (auto intro: consistent)
  moreover have "hf c goal (eTo e) \<le> path_len es + hf c goal v"
    using Cons by auto
  ultimately show ?case by simp
qed simp

lemma g_nonneg: "ok c \<Longrightarrow> reached c s st v g \<Longrightarrow> 0 \<le> g"
  by (auto simp: reached_def intro: path_len_nonneg)

lemma improve_keeps:
  assumes ok: "ok c" and inv: "search_inv c (hf c goal) s (D(u := done)) st"
    and u: "u \<in> aVisited st" "aG st u = Some gu" and v: "eTo e \<notin> aVisited st"
    and e: "e \<in> set (edges_from c u)" "\<not> eClosed e"
    and less: "\<And>g. aG st (eTo e) = Some g \<Longrightarrow> gu + eWeight e < g"
    and older: "\<And>x. x \<in> aVisited st \<Longrightarrow> g_at st x + hf c goal x \<le> gu + hf c goal u"
  shows "search_inv c (hf c goal) s (D(u := done @ [e]))
           (improve (hf c goal) u (eTo e) (gu + eWeight e) st)"
proof -
  note I = search_invD [OF inv]
  let ?v = "eTo e" and ?t = "gu + eWeight e" and ?h = "hf c goal"
  let ?st = "improve ?h u ?v ?t st"
  have "0 \<le> ?t" using g_nonneg [OF ok I(3) [OF u(2)]] weight_nonneg [OF ok e(1)] by simp
  then have "?v \<noteq> s" using less [of 0] I(1) by force
  then have start: "aG ?st s = Some 0" "aCame ?st s = None" using I(1,2) by simp_all
  have closed: "closed_under ?st x ((D(u := done @ [e])) x)" if x: "x \<in> aVisited st" for x
  proof -
    have "closed_under ?st x ((D(u := done)) x)"
      using I(4) [OF x] x v less by (intro closed_under_improve) auto
    then show ?thesis using u v by (auto simp: closed_under_snoc g_at_improve)
  qed
  have open': "\<exists>i \<in> set (aOpen ?st). piNode i = w \<and> piPriority i = g + ?h w"
    if "aG ?st w = Some g" "w \<notin> aVisited st" for w g
    using that I(5) [of w] by (cases "w = ?v") auto
  have items: "\<exists>g. aG ?st (piNode i) = Some g \<and> g + ?h (piNode i) \<le> piPriority i"
    if "i \<in> set (aOpen ?st)" for i
    using that I(6) [of i] less by (cases "piNode i = ?v") force+
  have front: "g_at ?st x + ?h x \<le> piPriority i" if "x \<in> aVisited st" "i \<in> set (aOpen ?st)" for x i
    using that I(7) [of x i] older [of x] v consistent [OF ok e(1), of goal] by (auto simp: g_at_improve)
  show ?thesis
    unfolding search_inv_def
    using start closed open' items front reached_improve [OF I(3) u v e] by auto
qed

lemma relax_keeps:
  assumes ok: "ok c" and inv: "search_inv c (hf c goal) s (D(u := done)) st"
    and u: "u \<in> aVisited st" and e: "e \<in> set (edges_from c u)"
    and older: "\<And>x. x \<in> aVisited st \<Longrightarrow> g_at st x + hf c goal x \<le> g_at st u + hf c goal u"
  shows "search_inv c (hf c goal) s (D(u := done @ [e])) (relax (hf c goal) u st e) \<and>
         (\<forall>x \<in> aVisited st. aG (relax (hf c goal) u st e) x = aG st x)"
proof -
  note I = search_invD [OF inv]
  obtain gu where gu: "aG st u = Some gu"
    using closed_under_visited [OF I(4) [OF u]] by blast
  have same: "search_inv c (hf c goal) s (D(u := done @ [e])) st"
    if "eClosed e \<or> (\<exists>gv. aG st (eTo e) = Some gv \<and> gv \<le> gu + eWeight e)"
  proof -
    have "closed_under st x ((D(u := done @ [e])) x)" if "x \<in> aVisited st" for x
      using I(4) [OF that] \<open>eClosed e \<or> _\<close> gu by (auto simp: closed_under_snoc split: if_splits)
    with inv show ?thesis by (simp add: search_inv_def)
  qed
  from gu show ?thesis
  proof (cases rule: relax_cases [where e = e and h = "hf c goal"])
    case update
    have "eTo e \<notin> aVisited st"
    proof
      assume v: "eTo e \<in> aVisited st"
      then obtain gv where gv: "aG st (eTo e) = Some gv"
        using closed_under_visited [OF I(4)] by blast
      then have "gv + hf c goal (eTo e) \<le> gu + hf c goal u" using older [OF v] gu by simp
      with consistent [OF ok e, of goal] update(2) [OF gv] show False by simp
    qed
    with update show ?thesis
      using improve_keeps [OF ok inv u gu _ e] older gu by auto
  qed (use same in auto)
qed

lemma foldl_relax_keeps:
  assumes ok: "ok c" and "u \<in> aVisited st" "set es \<subseteq> set (edges_from c u)"
    and "search_inv c (hf c goal) s (D(u := done)) st"
    and "\<And>x. x \<in> aVisited st \<Longrightarrow> g_at st x + hf c goal x \<le> g_at st u + hf c goal u"
  shows "search_inv c (hf c goal) s (D(u := done @ es)) (foldl (relax (hf c goal) u) st es)"
  using assms(2-)
proof (induction es arbitrary: st "done")
  case (Cons e es)
  let ?st = "relax (hf c goal) u st e"
  have keeps: "search_inv c (hf c goal) s (D(u := done @ [e])) ?st"
      "\<forall>x \<in> aVisited st. aG ?st x = aG st x"
    using relax_keeps [OF ok Cons.prems(3,1)] Cons.prems(2,4) by auto
  have same: "g_at ?st x = g_at st x" if "x \<in> aVisited st" for x
    using keeps(2) that by (simp add: g_at_def)
  have "search_inv c (hf c goal) s (D(u := (done @ [e]) @ es)) (foldl (relax (hf c goal) u) ?st es)"
    by (rule Cons.IH [OF _ _ keeps(1)]) (use Cons.prems same in auto)
  then show ?case by (simp only: foldl_Cons append_assoc append.simps)
qed simp

lemma expand_keeps:
  assumes ok: "ok c" and inv: "search_inv c (hf c goal) s (edges_from c) st"
    and pop: "pq_pop (aOpen st) = Some (i, rest)" and new: "piNode i \<notin> aVisited st"
  shows "search_inv c (hf c goal) s (edges_from c) (expand c (hf c goal) (piNode i) (st\<lparr>aOpen := rest\<rparr>))"
proof -
  note I = search_invD [OF inv] and P = pq_pop_Some [OF pop]
  let ?h = "hf c goal" and ?u = "piNode i"
  let ?st = "st\<lparr>aOpen := rest, aVisited := insert ?u (aVisited st)\<rparr>"
  obtain gu where gu: "aG st ?u = Some gu" and "gu + ?h ?u \<le> piPriority i"
    using I(6) [OF P(1)] by auto
  moreover obtain j where "j \<in> set (aOpen st)" "piPriority j = gu + ?h ?u"
    using I(5) [OF gu new] by auto
  ultimately have prio: "piPriority i = gu + ?h ?u" using P(5) [of j] by simp
  have older: "g_at ?st x + ?h x \<le> g_at ?st ?u + ?h ?u" if "x \<in> insert ?u (aVisited st)" for x
    using that I(7) [of x i] P(1) prio gu by (auto simp: g_at_def)
  have start: "search_inv c ?h s ((edges_from c)(?u := [])) ?st"
    unfolding search_inv_def
  proof (intro conjI ballI allI impI)
    show "reached c s ?st v g" if "aG ?st v = Some g" for v g
      using I(3) [of v g] that by (fastforce simp: reached_def)
    show "closed_under ?st x (((edges_from c)(?u := [])) x)" if "x \<in> aVisited ?st" for x
      using I(4) [of x] that gu by (auto simp: closed_under_def)
    show "\<exists>j \<in> set (aOpen ?st). piNode j = v \<and> piPriority j = g + ?h v"
      if "aG ?st v = Some g \<and> v \<notin> aVisited ?st" for v g
      using I(5) [of v g] that P(2) by (auto intro!: in_set_remove1 [THEN iffD2])
    show "\<exists>g. aG ?st (piNode j) = Some g \<and> g + ?h (piNode j) \<le> piPriority j"
      if "j \<in> set (aOpen ?st)" for j
      using I(6) [of j] that P(4) by auto
    show "g_at ?st x + ?h x \<le> piPriority j" if "x \<in> aVisited ?st" "j \<in> set (aOpen ?st)" for x j
      using older [of x] that P(4,5) prio gu by (fastforce simp: g_at_def)
  qed (use I(1,2) in simp_all)
  from foldl_relax_keeps [OF ok _ _ start, of "edges_from c ?u"] older show ?thesis
    by (simp add: expand_def)
qed

lemma skip_keeps:
  assumes inv: "search_inv c (hf c goal) s D st"
    and pop: "pq_pop (aOpen st) = Some (i, rest)" and seen: "piNode i \<in> aVisited st"
  shows "search_inv c (hf c goal) s D (st\<lparr>aOpen := rest\<rparr>)"
proof -
  note I = search_invD [OF inv] and P = pq_pop_Some [OF pop]
  have "\<exists>j \<in> set rest. piNode j = v \<and> piPriority j = g + hf c goal v"
    if "aG st v = Some g" "v \<notin> aVisited st" for v g
    using I(5) [OF that] that seen P(2) by (auto intro!: in_set_remove1 [THEN iffD2])
  then show ?thesis
    unfolding search_inv_def
    using I P(4) by (simp add: reached_def closed_under_def g_at_def subset_iff)
qed

lemma open_bound:
  assumes ok: "ok c" and inv: "search_inv c (hf c goal) s (edges_from c) st"
    and t: "t \<notin> aVisited st"
  shows "aG st u = Some gu \<Longrightarrow> open_path c u es t \<Longrightarrow>
         \<exists>i \<in> set (aOpen st). piPriority i \<le> gu + path_len es + hf c goal t"
proof (induction es arbitrary: u gu)
  case Nil
  then obtain i where "i \<in> set (aOpen st)" "piPriority i = gu + hf c goal t"
    using search_invD(5) [OF inv, of t gu] t by auto
  then show ?case by (intro bexI [of _ i]) simp_all
next
  case (Cons e es)
  show ?case
  proof (cases "u \<in> aVisited st")
    case True
    then obtain gv where "aG st (eTo e) = Some gv" "gv \<le> gu + eWeight e"
      using search_invD(4) [OF inv True] Cons.prems by (auto simp: closed_under_def)
    then show ?thesis using Cons.IH [of "eTo e" gv] Cons.prems by force
  next
    case False
    then obtain i where "i \<in> set (aOpen st)" "piPriority i = gu + hf c goal u"
      using search_invD(5) [OF inv Cons.prems(1)] by auto
    moreover have "hf c goal u \<le> path_len (e # es) + hf c goal t"
      by (rule path_consistent [OF ok Cons.prems(2)])
    ultimately have "piPriority i \<le> gu + path_len (e # es) + hf c goal t" by simp
    with \<open>i \<in> set (aOpen st)\<close> show ?thesis by blast
  qed
qed

lemma pop_goal:
  assumes ok: "ok c" and inv: "search_inv c (hf c goal) s (edges_from c) st"
    and t: "goal \<notin> aVisited st"
    and pop: "pq_pop (aOpen st) = Some (i, rest)" and i: "piNode i = goal"
  shows "search_result c s goal (Some (st\<lparr>aOpen := rest\<rparr>))"
proof -
  note I = search_invD [OF inv] and P = pq_pop_Some [OF pop]
  obtain g where g: "aG st goal = Some g" "g \<le> piPriority i"
    using I(6) [OF P(1)] i at_goal by auto
  have "g \<le> path_len es" if es: "open_path c s es goal" for es
  proof -
    obtain j where "j \<in> set (aOpen st)" "piPriority j \<le> path_len es"
      using open_bound [OF ok inv t I(1) es] at_goal by auto
    moreover obtain k where "k \<in> set (aOpen st)" "piPriority k = g"
      using I(5) [OF g(1) t] at_goal by auto
    ultimately show ?thesis using P(5) g(2) by (meson order.trans)
  qed
  then show ?thesis
    using I(2) I(3) [OF g(1)] g(1) by (auto simp: search_result_def reached_def g_at_def)
qed

lemma astar_loop_correct:
  assumes "ok c" "search_inv c (hf c goal) s (edges_from c) st" "goal \<notin> aVisited st"
    and "h = hf c goal"
  shows "search_result c s goal (astar_loop c h goal st)"
  using assms
proof (induction c h goal st rule: astar_loop.induct)
  case (1 c h goal st)
  note inv = "1.prems"(2)
  show ?case
  proof (cases "pq_pop (aOpen st)")
    case None
    have "\<nexists>es. open_path c s es goal"
      using open_bound [OF "1.prems"(1) inv "1.prems"(3) search_invD(1) [OF inv]] None by auto
    then show ?thesis using None by (simp add: search_result_def astar_loop.simps [of c h goal st])
  next
    case (Some p)
    obtain i rest where p: "p = (i, rest)" by (cases p)
    with Some have pop: "pq_pop (aOpen st) = Some (i, rest)" by simp
    note IH = "1.IH" [OF Some p [symmetric] refl]
    show ?thesis
    proof (cases "piNode i \<in> aVisited st")
      case True
      then show ?thesis
        using IH(1) skip_keeps [OF inv pop True] pop "1.prems"
        by (simp add: astar_loop.simps [of c "hf c goal" goal st])
    next
      case new: False
      show ?thesis
      proof (cases "piNode i = goal")
        case True
        then show ?thesis
          using pop_goal [OF "1.prems"(1) inv "1.prems"(3) pop True] pop new
          by (simp add: astar_loop.simps [of c h goal st])
      next
        case False
        then show ?thesis
          using IH(2) expand_keeps [OF "1.prems"(1) inv pop new] pop new "1.prems"
          by (simp add: astar_loop.simps [of c "hf c goal" goal st])
      qed
    qed
  qed
qed

lemma astar_init_inv: "search_inv c (hf c goal) s D (astar_init (hf c goal) s)"
  by (auto simp: search_inv_def astar_init_def reached_def closed_under_def intro!: exI [of _ "[]"])

lemma search_correct:
  "ok c \<Longrightarrow> search_result c s goal (astar_loop c (hf c goal) goal (astar_init (hf c goal) s))"
  by (rule astar_loop_correct [OF _ astar_init_inv]) (simp_all add: astar_init_def)

end

interpretation euclidean: path_heuristic heuristic metric_city
proof
  fix c e u goal
  assume c: "metric_city c" and e: "e \<in> set (edges_from c u)"
  show "0 \<le> eWeight e" using metric_city_edge [OF c e] euclid_nonneg [of c u "eTo e"] by linarith
  show "heuristic c goal u \<le> eWeight e + heuristic c goal (eTo e)"
    using metric_city_edge [OF c e] euclid_triangle [of c u goal "eTo e"]
    by (simp add: heuristic_euclid)
qed (simp add: heuristic_euclid)


subsection \<open>FindRoute\<close>

definition shortest_route :: "city \<Rightarrow> node_id \<Rightarrow> node_id \<Rightarrow> route \<Rightarrow> bool" where
  \<comment> \<open>the route follows open edges and no open path is shorter\<close>
  "shortest_route c s goal r \<longleftrightarrow>
     (\<exists>es. open_path c s es goal \<and> rNodes r = path_nodes s es \<and> rDistance r = path_len es) \<and>
     (\<forall>es. open_path c s es goal \<longrightarrow> rDistance r \<le> path_len es)"

lemma reconstruct_correct:
  assumes "aCame st s = None" "reached c s st goal (g_at st goal)"
  obtains es where "open_path c s es goal" "path_len es = g_at st goal"
    "reconstruct st s goal = Some \<lparr>rNodes = path_nodes s es, rDistance = g_at st goal\<rparr>"
proof -
  obtain es where es: "open_path c s es goal" "path_len es = g_at st goal" "came_links (aCame st) s es"
    using assms(2) by (auto simp: reached_def)
  have "walk_back (aCame st) s [goal] = Some (rev (path_nodes s es))"
    using walk_back_path [OF es(1,3) assms(1), of "[]"] by simp
  with es that show ?thesis by (simp add: reconstruct_def)
qed

lemma FindRoute_run_cases:
  assumes "metric_city c"
  shows "(\<exists>r. FindRoute_run c s goal = Some (Some r) \<and> shortest_route c s goal r) \<or>
         (FindRoute_run c s goal = Some None \<and> s \<noteq> goal \<and>
          (map_of (cNodes c) s = None \<or> map_of (cNodes c) goal = None \<or> (\<nexists>es. open_path c s es goal)))"
proof (cases "s = goal")
  case True
  have "shortest_route c goal goal \<lparr>rNodes = [goal], rDistance = 0\<rparr>"
    using euclidean.path_len_nonneg [OF assms]
    by (auto simp: shortest_route_def intro!: exI [of _ "[]"])
  with True show ?thesis by (simp add: FindRoute_run_def)
next
  case False
  show ?thesis
  proof (cases "map_of (cNodes c) s = None \<or> map_of (cNodes c) goal = None")
    case True
    with False show ?thesis by (auto simp: FindRoute_run_def)
  next
    case known: False
    let ?h = "heuristic c goal"
    let ?r = "astar_loop c ?h goal (astar_init ?h s)"
    have res: "search_result c s goal ?r" by (rule euclidean.search_correct [OF assms])
    show ?thesis
    proof (cases ?r)
      case None
      with res False known show ?thesis by (simp add: FindRoute_run_def search_result_def Let_def)
    next
      case (Some st)
      with res have st: "aCame st s = None" "reached c s st goal (g_at st goal)"
          "\<And>es. open_path c s es goal \<Longrightarrow> g_at st goal \<le> path_len es"
        by (simp_all add: search_result_def)
      obtain es where "open_path c s es goal" "path_len es = g_at st goal"
          "reconstruct st s goal = Some \<lparr>rNodes = path_nodes s es, rDistance = g_at st goal\<rparr>"
        by (rule reconstruct_correct [OF st(1,2)])
      then show ?thesis
        using st(3) Some False known by (auto simp: FindRoute_run_def shortest_route_def Let_def)
    qed
  qed
qed

lemma FindRoute_cases:
  assumes "metric_city c"
  shows "(\<exists>r. FindRoute c s goal = Some r \<and> shortest_route c s goal r) \<or>
         (FindRoute c s goal = None \<and> s \<noteq> goal \<and>
          (map_of (cNodes c) s = None \<or> map_of (cNodes c) goal = None \<or> (\<nexists>es. open_path c s es goal)))"
  using FindRoute_run_cases [OF assms, of s goal] by (auto simp: FindRoute_def)

lemma FindRoute_Some_shortest: "metric_city c \<Longrightarrow> FindRoute c s goal = Some r \<Longrightarrow> shortest_route c s goal r"
  using FindRoute_cases [of c s goal] by auto

lemma shortest_route_nodes:
  assumes "shortest_route c s goal r"
  shows "rNodes r \<noteq> []" "hd (rNodes r) = s" "last (rNodes r) = goal"
proof -
  obtain es where "open_path c s es goal" "rNodes r = path_nodes s es"
    using assms by (auto simp: shortest_route_def)
  then show "rNodes r \<noteq> []" "hd (rNodes r) = s" "last (rNodes r) = goal"
    using last_path_nodes by simp_all
qed

lemma FindRoute_same [simp]: "FindRoute c s s = Some \<lparr>rNodes = [s], rDistance = 0\<rparr>"
  by (simp add: FindRoute_def FindRoute_run_def)

subsection \<open>What callers get\<close>

definition two_node_city :: city where
  \<comment> \<open>two intersections three units apart, one road each way\<close>
  "two_node_city = \<lparr>cID = ''test'', cVersion = 1,
     cNodes = [(''a'', \<lparr>nID = ''a'', nX = 0, nY = 0\<rparr>), (''b'', \<lparr>nID = ''b'', nX = 3, nY = 0\<rparr>)],
     cEdges = [(''a'', [\<lparr>eID = ''e-a-b'', eFrom = ''a'', eTo = ''b'', eWeight = 3, eClosed = False\<rparr>]),
               (''b'', [\<lparr>eID = ''e-b-a'', eFrom = ''b'', eTo = ''a'', eWeight = 3, eClosed = False\<rparr>])]\<rparr>"

lemma two_node_city_metric: "metric_city two_node_city"
  by (simp add: metric_city_def two_node_city_def all_edges_def edges_from_def euclid_def node_at_def get_or_def)

text \<open>
  C31. In a city whose roads are at least as long as the straight line between their ends, the A*
  search of \<open>FindRoute\<close> always returns; a route it finds follows open roads from start to goal, its
  distance is the sum of their lengths, and no open path is shorter; it finds none only when one of
  the two nodes is unknown or no open path joins them.
\<close>

theorem FindRoute_correct:
  assumes "metric_city c"
  shows "FindRoute_run c s goal = Some (FindRoute c s goal) \<and>
    (case FindRoute c s goal of
       Some r \<Rightarrow> shortest_route c s goal r
     | None \<Rightarrow> s \<noteq> goal \<and> (map_of (cNodes c) s = None \<or> map_of (cNodes c) goal = None \<or> (\<nexists>es. open_path c s es goal)))"
  using FindRoute_run_cases [OF assms, of s goal] by (auto simp: FindRoute_def)

theorem FindRoute_correct_witness:
  "FindRoute_run two_node_city ''a'' ''b'' = Some (FindRoute two_node_city ''a'' ''b'') \<and>
    (case FindRoute two_node_city ''a'' ''b'' of
       Some r \<Rightarrow> shortest_route two_node_city ''a'' ''b'' r
     | None \<Rightarrow> ''a'' \<noteq> ''b'' \<and> (map_of (cNodes two_node_city) ''a'' = None \<or>
         map_of (cNodes two_node_city) ''b'' = None \<or> (\<nexists>es. open_path two_node_city ''a'' es ''b'')))"
  by (rule FindRoute_correct [OF two_node_city_metric])

text \<open>
  Closing roads never shortens a route and reopening them never lengthens one: a route between
  two nodes found after closing a road was possible before, at no greater distance.
\<close>

theorem FindRoute_closure_monotone:
  assumes "metric_city c" "distinct (map eID (all_edges c))" "FindRoute (fst (SetClosed c i True)) s goal = Some r'"
    "map_of (cNodes c) s \<noteq> None" "map_of (cNodes c) goal \<noteq> None"
  shows "\<exists>r. FindRoute c s goal = Some r \<and> rDistance r \<le> rDistance r'"
proof -
  let ?c = "fst (SetClosed c i True)"
  have path: "\<exists>fs. open_path c u fs v \<and> path_len fs = path_len es" if "open_path ?c u es v" for u es v
    using that
  proof (induction es arbitrary: u)
    case (Cons e es)
    then obtain e0 where e0: "e0 \<in> set (edges_from c u)" "e = mark i True e0"
      by (auto simp: edges_from_SetClosed [OF assms(2)])
    have "\<not> eClosed e0" using Cons.prems e0(2) by (auto simp: mark_def split: if_splits)
    moreover obtain fs where "open_path c (eTo e) fs v" "path_len fs = path_len es" using Cons by auto
    ultimately show ?case using e0 by (intro exI [of _ "e0 # fs"]) simp
  qed (auto intro: exI [of _ "[]"])
  have "shortest_route ?c s goal r'"
    by (rule FindRoute_Some_shortest [OF metric_city_SetClosed [OF assms(1,2)] assms(3)])
  then obtain es where "open_path ?c s es goal" "rDistance r' = path_len es" by (auto simp: shortest_route_def)
  then obtain fs where fs: "open_path c s fs goal" "path_len fs = rDistance r'" using path by metis
  then obtain r where r: "FindRoute c s goal = Some r" "shortest_route c s goal r"
    using FindRoute_cases [OF assms(1), of s goal] assms(4,5) by auto
  then have "rDistance r \<le> rDistance r'" using fs by (auto simp: shortest_route_def)
  then show ?thesis using r(1) by blast
qed

lemma two_node_city_route: "\<exists>r. FindRoute (fst (SetClosed two_node_city ''e-b-a'' True)) ''a'' ''b'' = Some r"
proof -
  let ?c = "fst (SetClosed two_node_city ''e-b-a'' True)"
  have d: "distinct (map eID (all_edges two_node_city))" by (simp add: two_node_city_def all_edges_def)
  have m: "metric_city ?c" by (rule metric_city_SetClosed [OF two_node_city_metric d])
  have "open_path ?c ''a'' [\<lparr>eID = ''e-a-b'', eFrom = ''a'', eTo = ''b'', eWeight = 3, eClosed = False\<rparr>] ''b''"
    unfolding open_path.simps edges_from_SetClosed [OF d]
    by (simp add: edges_from_def two_node_city_def get_or_def mark_def)
  moreover have "map_of (cNodes ?c) ''a'' \<noteq> None" "map_of (cNodes ?c) ''b'' \<noteq> None"
    by (simp_all add: two_node_city_def)
  ultimately show ?thesis using FindRoute_cases [OF m, of "''a''" "''b''"] by metis
qed

theorem FindRoute_closure_monotone_witness:
  "\<exists>r r'. FindRoute (fst (SetClosed two_node_city ''e-b-a'' True)) ''a'' ''b'' = Some r' \<and>
     FindRoute two_node_city ''a'' ''b'' = Some r \<and> rDistance r \<le> rDistance r'"
proof -
  obtain r' where r': "FindRoute (fst (SetClosed two_node_city ''e-b-a'' True)) ''a'' ''b'' = Some r'"
    using two_node_city_route by blast
  show ?thesis
    using FindRoute_closure_monotone [OF two_node_city_metric _ r'] r'
    by (auto simp: two_node_city_def all_edges_def)
qed

end
