(* ===== verification/City_Generate.thy ===== *)
theory City_Generate
  imports Routing_Correct
begin

text \<open>
  \<open>internal/city/generate.go\<close>: the deterministic grid city.  The generator draws from
  \<open>math/rand\<close>; the stream a seed yields is the parameter \<open>draws\<close> (documented to lie in
  \<open>[0,1)\<close>), read in the order of the nested loops.  The lemmas show that the generated graph is
  well formed (unique edge ids, filed under the node they leave), that weights are Euclidean
  distances, that every road has its reverse, that all nodes are connected, and that every
  road of the default city is longer than what a driver covers in one tick.
\<close>

type_synonym rand_source = "int \<Rightarrow> nat \<Rightarrow> real"

record grid_config =
  gcSeed :: int
  gcRows :: nat
  gcCols :: nat
  gcCellSpacing :: real
  gcJitterFraction :: real

definition DefaultGridConfig :: "int \<Rightarrow> grid_config" where
  "DefaultGridConfig seed =
     \<lparr>gcSeed = seed, gcRows = 6, gcCols = 6, gcCellSpacing = 100, gcJitterFraction = 15 / 100\<rparr>"

definition grid_node_id :: "nat \<Rightarrow> nat \<Rightarrow> node_id" where
  "grid_node_id r c = ''n-'' @ show_nat r @ ''-'' @ show_nat c"

definition grid_edge_id :: "node_id \<Rightarrow> node_id \<Rightarrow> edge_id" where
  "grid_edge_id a b = ''e-'' @ a @ ''-'' @ b"

definition grid_cells :: "nat \<Rightarrow> nat \<Rightarrow> (nat \<times> nat) list" where
  \<comment> \<open>the two nested \<open>for\<close> loops\<close>
  "grid_cells rows cols = concat (map (\<lambda>r. map (\<lambda>c. (r, c)) [0..<cols]) [0..<rows])"

fun place_nodes ::
  "grid_config \<Rightarrow> (nat \<Rightarrow> real) \<Rightarrow> nat \<Rightarrow> (nat \<times> nat) list \<Rightarrow> (node_id, node) gomap \<Rightarrow> (node_id, node) gomap" where
  "place_nodes cfg draw k [] nodes = nodes"
| "place_nodes cfg draw k ((r, c) # cells) nodes =
     (let jitterX = (draw k * 2 - 1) * gcJitterFraction cfg * gcCellSpacing cfg;
          jitterY = (draw (k + 1) * 2 - 1) * gcJitterFraction cfg * gcCellSpacing cfg;
          i = grid_node_id r c
      in place_nodes cfg draw (k + 2) cells
           (AList.update i \<lparr>nID = i, nX = real c * gcCellSpacing cfg + jitterX,
                            nY = real r * gcCellSpacing cfg + jitterY\<rparr> nodes))"

definition grid_edge :: "(node_id, node) gomap \<Rightarrow> node_id \<times> node_id \<Rightarrow> edge" where
  "grid_edge nodes = (\<lambda>(a, b).
     let na = get_or zero_node nodes a; nb = get_or zero_node nodes b;
         dx = nX na - nX nb; dy = nY na - nY nb
     in \<lparr>eID = grid_edge_id a b, eFrom = a, eTo = b, eWeight = sqrt (dx * dx + dy * dy),
         eClosed = False\<rparr>)"

definition add_edge ::
  "(node_id, node) gomap \<Rightarrow> (node_id, edge list) gomap \<Rightarrow> node_id \<times> node_id \<Rightarrow> (node_id, edge list) gomap" where
  "add_edge nodes edges l =
     AList.update (fst l) (get_or [] edges (fst l) @ [grid_edge nodes l]) edges"

definition cell_links :: "nat \<Rightarrow> nat \<Rightarrow> nat \<times> nat \<Rightarrow> ((nat \<times> nat) \<times> (nat \<times> nat)) list" where
  \<comment> \<open>the \<open>addEdge\<close> calls one iteration makes\<close>
  "cell_links rows cols = (\<lambda>(r, c).
     (if c + 1 < cols then [((r, c), (r, c + 1)), ((r, c + 1), (r, c))] else []) @
     (if r + 1 < rows then [((r, c), (r + 1, c)), ((r + 1, c), (r, c))] else []))"

definition grid_links :: "nat \<Rightarrow> nat \<Rightarrow> ((nat \<times> nat) \<times> (nat \<times> nat)) list" where
  "grid_links rows cols = concat (map (cell_links rows cols) (grid_cells rows cols))"

definition link_ids :: "(nat \<times> nat) \<times> (nat \<times> nat) \<Rightarrow> node_id \<times> node_id" where
  "link_ids l = (grid_node_id (fst (fst l)) (snd (fst l)), grid_node_id (fst (snd l)) (snd (snd l)))"

definition GenerateGrid :: "rand_source \<Rightarrow> grid_config \<Rightarrow> city" where
  "GenerateGrid draws cfg =
     (let rows = gcRows cfg; cols = gcCols cfg;
          nodes = place_nodes cfg (draws (gcSeed cfg)) 0 (grid_cells rows cols) [];
          edges = foldl (add_edge nodes) [] (map link_ids (grid_links rows cols))
      in \<lparr>cID = ''city-'' @ show_int (gcSeed cfg), cVersion = 1, cNodes = nodes, cEdges = edges\<rparr>)"

definition rand_ok :: "rand_source \<Rightarrow> bool" where
  \<comment> \<open>the documented range of \<open>rand.Float64\<close>\<close>
  "rand_ok draws \<longleftrightarrow> (\<forall>seed k. 0 \<le> draws seed k \<and> draws seed k < 1)"

subsection \<open>Ids\<close>

lemma grid_node_id_inj [simp]: "grid_node_id r c = grid_node_id r' c' \<longleftrightarrow> r = r' \<and> c = c'"
proof
  assume "grid_node_id r c = grid_node_id r' c'"
  then have "show_nat r @ CHR ''-'' # show_nat c = show_nat r' @ CHR ''-'' # show_nat c'"
    by (simp add: grid_node_id_def)
  then have "show_nat r = show_nat r' \<and> show_nat c = show_nat c'"
    by (rule split_at_first [OF dash_not_in_show_nat dash_not_in_show_nat])
  then show "r = r' \<and> c = c'" by simp
qed simp

lemma grid_edge_id_inj:
  assumes "grid_edge_id (grid_node_id r c) x = grid_edge_id (grid_node_id r' c') y"
  shows "r = r' \<and> c = c' \<and> x = y"
proof -
  have "show_nat r @ CHR ''-'' # (show_nat c @ CHR ''-'' # x) =
        show_nat r' @ CHR ''-'' # (show_nat c' @ CHR ''-'' # y)"
    using assms by (simp add: grid_edge_id_def grid_node_id_def)
  then have 1: "show_nat r = show_nat r' \<and>
      show_nat c @ CHR ''-'' # x = show_nat c' @ CHR ''-'' # y"
    by (rule split_at_first [OF dash_not_in_show_nat dash_not_in_show_nat])
  then have "show_nat c = show_nat c' \<and> x = y"
    by (intro split_at_first [OF dash_not_in_show_nat dash_not_in_show_nat]) simp
  with 1 show ?thesis by simp
qed

lemma set_grid_cells [simp]: "set (grid_cells rows cols) = {..<rows} \<times> {..<cols}"
  by (auto simp: grid_cells_def)

lemma distinct_concat_map:
  "distinct xs \<Longrightarrow> (\<And>x. x \<in> set xs \<Longrightarrow> distinct (f x)) \<Longrightarrow>
   (\<And>x y. x \<in> set xs \<Longrightarrow> y \<in> set xs \<Longrightarrow> x \<noteq> y \<Longrightarrow> set (f x) \<inter> set (f y) = {}) \<Longrightarrow>
   distinct (concat (map f xs))"
  by (induction xs) auto

lemma distinct_grid_cells: "distinct (grid_cells rows cols)"
  unfolding grid_cells_def by (rule distinct_concat_map) (auto simp: distinct_map inj_on_def)

lemma cell_links_owner:
  "l \<in> set (cell_links rows cols x) \<Longrightarrow>
   (min (fst (fst l)) (fst (snd l)), min (snd (fst l)) (snd (snd l))) = x"
  by (cases x) (auto simp: cell_links_def split: if_splits)

lemma distinct_grid_links: "distinct (grid_links rows cols)"
  unfolding grid_links_def
proof (rule distinct_concat_map [OF distinct_grid_cells])
  show "distinct (cell_links rows cols x)" for x
    by (cases x) (auto simp: cell_links_def)
  show "set (cell_links rows cols x) \<inter> set (cell_links rows cols y) = {}" if "x \<noteq> y" for x y
    using that by (metis cell_links_owner disjoint_iff)
qed

lemma link_ids_inj: "inj link_ids"
  by (auto simp: link_ids_def inj_on_def)

lemma grid_links_range:
  assumes "((r, c), (r', c')) \<in> set (grid_links rows cols)"
  shows "r < rows" "c < cols" "r' < rows" "c' < cols" "((r', c'), (r, c)) \<in> set (grid_links rows cols)"
    and "(r' = r \<and> (c' = c + 1 \<or> c = c' + 1)) \<or> (c' = c \<and> (r' = r + 1 \<or> r = r' + 1))"
  using assms by (auto simp: grid_links_def cell_links_def split: if_splits)

lemma grid_links_step:
  "r < rows \<Longrightarrow> Suc c < cols \<Longrightarrow> ((r, c), (r, Suc c)) \<in> set (grid_links rows cols)"
  "r < rows \<Longrightarrow> Suc c < cols \<Longrightarrow> ((r, Suc c), (r, c)) \<in> set (grid_links rows cols)"
  "Suc r < rows \<Longrightarrow> c < cols \<Longrightarrow> ((r, c), (Suc r, c)) \<in> set (grid_links rows cols)"
  "Suc r < rows \<Longrightarrow> c < cols \<Longrightarrow> ((Suc r, c), (r, c)) \<in> set (grid_links rows cols)"
  by (force simp: grid_links_def cell_links_def)+

subsection \<open>Edges\<close>

lemma grid_edge_simps [simp]:
  "eID (grid_edge nodes l) = grid_edge_id (fst l) (snd l)" "eFrom (grid_edge nodes l) = fst l"
  "eTo (grid_edge nodes l) = snd l" "eClosed (grid_edge nodes l) = False"
  by (simp_all add: grid_edge_def Let_def case_prod_beta)

lemma grid_edge_weight: "cNodes c = nodes \<Longrightarrow> eWeight (grid_edge nodes l) = euclid c (fst l) (snd l)"
  by (simp add: grid_edge_def euclid_def node_at_def Let_def case_prod_beta power2_eq_square)

lemma foldl_add_edge_lookup:
  "get_or [] (foldl (add_edge nodes) edges ls) n =
   get_or [] edges n @ map (grid_edge nodes) (filter (\<lambda>l. fst l = n) ls)"
proof (induction ls arbitrary: edges)
  case (Cons l ls)
  have "get_or [] (add_edge nodes edges l) n =
        get_or [] edges n @ (if fst l = n then [grid_edge nodes l] else [])"
    by (simp add: add_edge_def get_or_def map_simps)
  with Cons show ?case by simp
qed simp

lemma foldl_add_edge_distinct: "distinct_keys edges \<Longrightarrow> distinct_keys (foldl (add_edge nodes) edges ls)"
  by (induction ls arbitrary: edges) (simp_all add: add_edge_def)

lemma mset_update_append:
  "mset (concat (map snd (AList.update k (get_or [] m k @ [x]) m))) = add_mset x (mset (concat (map snd m)))"
  by (induction m) (auto simp: get_or_code)

lemma foldl_add_edge_mset:
  "mset (concat (map snd (foldl (add_edge nodes) edges ls))) =
   mset (concat (map snd edges)) + mset (map (grid_edge nodes) ls)"
  by (induction ls arbitrary: edges) (simp_all add: add_edge_def mset_update_append)

subsection \<open>The generated city\<close>

definition grid_node_map :: "rand_source \<Rightarrow> grid_config \<Rightarrow> (node_id, node) gomap" where
  "grid_node_map draws cfg =
     place_nodes cfg (draws (gcSeed cfg)) 0 (grid_cells (gcRows cfg) (gcCols cfg)) []"

lemma GenerateGrid_simps:
  "cNodes (GenerateGrid draws cfg) = grid_node_map draws cfg"
  "cEdges (GenerateGrid draws cfg) =
     foldl (add_edge (grid_node_map draws cfg)) [] (map link_ids (grid_links (gcRows cfg) (gcCols cfg)))"
  by (simp_all add: GenerateGrid_def grid_node_map_def Let_def)

lemma GenerateGrid_edges_from:
  "edges_from (GenerateGrid draws cfg) n =
     map (grid_edge (grid_node_map draws cfg))
       (filter (\<lambda>l. fst l = n) (map link_ids (grid_links (gcRows cfg) (gcCols cfg))))"
  by (simp add: edges_from_def GenerateGrid_simps foldl_add_edge_lookup get_or_code)

lemma GenerateGrid_all_edges:
  "mset (all_edges (GenerateGrid draws cfg)) =
   mset (map (grid_edge (grid_node_map draws cfg)) (map link_ids (grid_links (gcRows cfg) (gcCols cfg))))"
  by (simp add: all_edges_def GenerateGrid_simps foldl_add_edge_mset)

lemma GenerateGrid_edge_ids: "distinct (map eID (all_edges (GenerateGrid draws cfg)))"
proof -
  let ?ls = "grid_links (gcRows cfg) (gcCols cfg)"
  have "inj_on (\<lambda>l. grid_edge_id (fst (link_ids l)) (snd (link_ids l))) (set ?ls)"
    by (rule inj_onI) (auto simp: link_ids_def dest!: grid_edge_id_inj)
  then have "distinct (map eID (map (grid_edge (grid_node_map draws cfg)) (map link_ids ?ls)))"
    by (simp add: distinct_map distinct_grid_links comp_def)
  moreover have "mset (map eID (all_edges (GenerateGrid draws cfg))) =
      mset (map eID (map (grid_edge (grid_node_map draws cfg)) (map link_ids ?ls)))"
    unfolding mset_map GenerateGrid_all_edges by simp
  ultimately show ?thesis by (metis mset_eq_imp_distinct_iff)
qed

lemma GenerateGrid_city_edges_wf: "city_edges_wf (GenerateGrid draws cfg)"
proof -
  have d: "distinct_keys (cEdges (GenerateGrid draws cfg))"
    by (simp add: GenerateGrid_simps foldl_add_edge_distinct)
  have "eFrom e = n" if "(n, es) \<in> set (cEdges (GenerateGrid draws cfg))" "e \<in> set es" for n es e
  proof -
    have "e \<in> set (edges_from (GenerateGrid draws cfg) n)"
      using that d by (simp add: edges_from_def)
    then show ?thesis by (auto simp: GenerateGrid_edges_from)
  qed
  with d GenerateGrid_edge_ids show ?thesis by (auto simp: city_edges_wf_def)
qed

lemma GenerateGrid_metric: "metric_city (GenerateGrid draws cfg)"
proof -
  let ?c = "GenerateGrid draws cfg"
  have "euclid ?c n (eTo e) \<le> eWeight e" if "(n, es) \<in> set (cEdges ?c)" "e \<in> set es" for n es e
  proof -
    have "e \<in> set (edges_from ?c n)"
      using that GenerateGrid_city_edges_wf [of draws cfg] by (simp add: city_edges_wf_def edges_from_def)
    then obtain l where "e = grid_edge (grid_node_map draws cfg) l" "fst l = n"
      by (auto simp: GenerateGrid_edges_from)
    then show ?thesis by (simp add: grid_edge_weight [of ?c] GenerateGrid_simps)
  qed
  then show ?thesis by (auto simp: metric_city_def)
qed

lemma GenerateGrid_open: "e \<in> set (edges_from (GenerateGrid draws cfg) n) \<Longrightarrow> \<not> eClosed e"
  by (auto simp: GenerateGrid_edges_from)

lemma GenerateGrid_edge:
  assumes "((r, c), (r', c')) \<in> set (grid_links (gcRows cfg) (gcCols cfg))"
  shows "grid_edge (grid_node_map draws cfg) (grid_node_id r c, grid_node_id r' c')
           \<in> set (edges_from (GenerateGrid draws cfg) (grid_node_id r c))"
proof -
  have "link_ids ((r, c), (r', c')) \<in> link_ids ` set (grid_links (gcRows cfg) (gcCols cfg))"
    using assms by (rule imageI)
  then show ?thesis by (auto simp: GenerateGrid_edges_from link_ids_def image_iff)
qed

lemma GenerateGrid_edge_cells:
  assumes "e \<in> set (edges_from (GenerateGrid draws cfg) n)"
  obtains r c r' c' where "((r, c), (r', c')) \<in> set (grid_links (gcRows cfg) (gcCols cfg))"
    "n = grid_node_id r c" "e = grid_edge (grid_node_map draws cfg) (grid_node_id r c, grid_node_id r' c')"
  using assms by (force simp: GenerateGrid_edges_from link_ids_def)


subsection \<open>Node positions and road lengths\<close>

definition near_cell :: "grid_config \<Rightarrow> nat \<Rightarrow> nat \<Rightarrow> node \<Rightarrow> bool" where
  "near_cell cfg r c n \<longleftrightarrow>
     nID n = grid_node_id r c \<and>
     \<bar>nX n - real c * gcCellSpacing cfg\<bar> \<le> gcJitterFraction cfg * gcCellSpacing cfg \<and>
     \<bar>nY n - real r * gcCellSpacing cfg\<bar> \<le> gcJitterFraction cfg * gcCellSpacing cfg"

lemma jitter_bound:
  assumes "0 \<le> (x::real)" "x < 1" "0 \<le> j"
  shows "\<bar>(x * 2 - 1) * j\<bar> \<le> j"
proof -
  have "\<bar>x * 2 - 1\<bar> \<le> 1" using assms(1,2) by (auto simp: abs_le_iff)
  then have "\<bar>x * 2 - 1\<bar> * j \<le> 1 * j" by (rule mult_right_mono) (fact assms(3))
  then show ?thesis using assms(3) by (simp add: abs_mult)
qed

lemma place_nodes_other:
  "(\<And>r c. (r, c) \<in> set cells \<Longrightarrow> i \<noteq> grid_node_id r c) \<Longrightarrow>
   map_of (place_nodes cfg draw k cells nodes) i = map_of nodes i"
  by (induction cfg draw k cells nodes rule: place_nodes.induct) (simp_all add: Let_def map_simps)

lemma place_nodes_at:
  assumes "\<And>k. 0 \<le> draw k \<and> draw k < 1" "0 \<le> gcJitterFraction cfg * gcCellSpacing cfg"
    and "distinct cells" "(r, c) \<in> set cells"
  shows "\<exists>n. map_of (place_nodes cfg draw k cells nodes) (grid_node_id r c) = Some n \<and> near_cell cfg r c n"
  using assms(3,4)
proof (induction cells arbitrary: k nodes)
  case (Cons x cells)
  obtain r' c' where x: "x = (r', c')" by (cases x)
  show ?case
  proof (cases "(r, c) = x")
    case True
    with Cons.prems x have "map_of (place_nodes cfg draw k' cells m) (grid_node_id r c) = map_of m (grid_node_id r c)"
      for k' m by (intro place_nodes_other) auto
    then show ?thesis
      using True x jitter_bound [OF _ _ assms(2)] assms(1)
      by (simp add: Let_def map_simps near_cell_def mult.assoc)
  next
    case False
    then have "(r, c) \<in> set cells" using Cons.prems(2) by auto
    then show ?thesis using Cons.IH Cons.prems(1) x by (simp add: Let_def)
  qed
qed simp

lemma place_nodes_keys:
  "fst ` set (place_nodes cfg draw k cells nodes) = fst ` set nodes \<union> (\<lambda>(r, c). grid_node_id r c) ` set cells"
  by (induction cfg draw k cells nodes rule: place_nodes.induct) (auto simp: Let_def)

lemma place_nodes_distinct: "distinct_keys nodes \<Longrightarrow> distinct_keys (place_nodes cfg draw k cells nodes)"
  by (induction cfg draw k cells nodes rule: place_nodes.induct) (simp_all add: Let_def)

lemma place_nodes_length:
  assumes "distinct cells" "\<And>r c. (r, c) \<in> set cells \<Longrightarrow> grid_node_id r c \<notin> fst ` set nodes"
  shows "length (place_nodes cfg draw k cells nodes) = length nodes + length cells"
  using assms
proof (induction cfg draw k cells nodes rule: place_nodes.induct)
  case (2 cfg draw k r c cells nodes)
  then show ?case by (auto simp: Let_def length_update_new)
qed simp

lemma GenerateGrid_nodes:
  "distinct_keys (cNodes (GenerateGrid draws cfg))"
  "fst ` set (cNodes (GenerateGrid draws cfg)) =
     {grid_node_id r c | r c. r < gcRows cfg \<and> c < gcCols cfg}"
  "length (cNodes (GenerateGrid draws cfg)) = gcRows cfg * gcCols cfg"
proof -
  show "distinct_keys (cNodes (GenerateGrid draws cfg))"
    by (simp add: GenerateGrid_simps grid_node_map_def place_nodes_distinct)
  show "fst ` set (cNodes (GenerateGrid draws cfg)) =
     {grid_node_id r c | r c. r < gcRows cfg \<and> c < gcCols cfg}"
    by (auto simp: GenerateGrid_simps grid_node_map_def place_nodes_keys)
  have "length (grid_cells (gcRows cfg) (gcCols cfg)) = gcRows cfg * gcCols cfg"
    using distinct_card [OF distinct_grid_cells [of "gcRows cfg" "gcCols cfg"]]
    by (simp add: card_cartesian_product)
  then show "length (cNodes (GenerateGrid draws cfg)) = gcRows cfg * gcCols cfg"
    by (simp add: GenerateGrid_simps grid_node_map_def place_nodes_length [OF distinct_grid_cells])
qed

lemma GenerateGrid_near:
  assumes "rand_ok draws" "0 \<le> gcJitterFraction cfg * gcCellSpacing cfg" "r < gcRows cfg" "c < gcCols cfg"
  shows "near_cell cfg r c (node_at (GenerateGrid draws cfg) (grid_node_id r c))"
proof -
  obtain n where "map_of (cNodes (GenerateGrid draws cfg)) (grid_node_id r c) = Some n" "near_cell cfg r c n"
    using place_nodes_at [of "draws (gcSeed cfg)" cfg "grid_cells (gcRows cfg) (gcCols cfg)" r c 0 "[]"] assms
    by (auto simp: GenerateGrid_simps grid_node_map_def distinct_grid_cells rand_ok_def)
  then show ?thesis by (simp add: node_at_def)
qed

lemma gap_bound:
  fixes a b :: real
  assumes "\<bar>a - real m * s\<bar> \<le> j" "\<bar>b - real n * s\<bar> \<le> j" "m = n + 1 \<or> n = m + 1" "0 \<le> s"
  shows "s - 2 * j \<le> \<bar>a - b\<bar>"
  using assms by (auto simp: abs_le_iff distrib_right)

lemma GenerateGrid_weight_lower:
  assumes "rand_ok draws" "0 \<le> gcJitterFraction cfg" "0 \<le> gcCellSpacing cfg"
    and e: "e \<in> set (edges_from (GenerateGrid draws cfg) n)"
  shows "(1 - 2 * gcJitterFraction cfg) * gcCellSpacing cfg \<le> eWeight e"
proof -
  let ?c = "GenerateGrid draws cfg" and ?s = "gcCellSpacing cfg"
  let ?j = "gcJitterFraction cfg * ?s"
  have j: "0 \<le> ?j" using assms(2,3) by simp
  obtain r c r' c' where l: "((r, c), (r', c')) \<in> set (grid_links (gcRows cfg) (gcCols cfg))"
    and w: "eWeight e = euclid ?c (grid_node_id r c) (grid_node_id r' c')"
    by (rule GenerateGrid_edge_cells [OF e]) (simp add: grid_edge_weight [of ?c] GenerateGrid_simps)
  note R = grid_links_range [OF l]
  define a b where "a = node_at ?c (grid_node_id r c)" and "b = node_at ?c (grid_node_id r' c')"
  have near: "near_cell cfg r c a" "near_cell cfg r' c' b"
    unfolding a_def b_def using GenerateGrid_near [OF assms(1) j] R by auto
  have "?s - 2 * ?j \<le> \<bar>nX a - nX b\<bar> \<or> ?s - 2 * ?j \<le> \<bar>nY a - nY b\<bar>"
    using R(6) gap_bound [of "nX a" c ?s ?j "nX b" c'] gap_bound [of "nY a" r ?s ?j "nY b" r']
      near assms(3) by (auto simp: near_cell_def)
  moreover have "\<bar>nX a - nX b\<bar> \<le> eWeight e" "\<bar>nY a - nY b\<bar> \<le> eWeight e"
    using real_sqrt_sum_squares_ge1 [of "\<bar>nX a - nX b\<bar>" "nY a - nY b"]
      real_sqrt_sum_squares_ge2 [of "\<bar>nY a - nY b\<bar>" "nX a - nX b"] w
    by (simp_all add: euclid_def a_def b_def)
  ultimately show ?thesis by (auto simp: algebra_simps)
qed

subsection \<open>Every road has its reverse, and the city is connected\<close>

definition reachable_in :: "city \<Rightarrow> node_id \<Rightarrow> node_id \<Rightarrow> bool" where
  "reachable_in c u v \<longleftrightarrow> (\<exists>es. open_path c u es v)"

lemma reachable_refl [simp]: "reachable_in c u u"
  by (auto simp: reachable_in_def intro!: exI [of _ "[]"])

lemma reachable_trans: "reachable_in c u v \<Longrightarrow> reachable_in c v w \<Longrightarrow> reachable_in c u w"
  by (metis open_path_append reachable_in_def)

lemma reachable_edge: "e \<in> set (edges_from c u) \<Longrightarrow> \<not> eClosed e \<Longrightarrow> reachable_in c u (eTo e)"
  by (auto simp: reachable_in_def intro!: exI [of _ "[e]"])

lemma GenerateGrid_link:
  "((r, c), (r', c')) \<in> set (grid_links (gcRows cfg) (gcCols cfg)) \<Longrightarrow>
   reachable_in (GenerateGrid draws cfg) (grid_node_id r c) (grid_node_id r' c')"
  using reachable_edge [OF GenerateGrid_edge] by fastforce

lemma GenerateGrid_to_origin:
  assumes "r < gcRows cfg" "c < gcCols cfg"
  shows "reachable_in (GenerateGrid draws cfg) (grid_node_id r c) (grid_node_id 0 0)"
    and "reachable_in (GenerateGrid draws cfg) (grid_node_id 0 0) (grid_node_id r c)"
proof -
  let ?c = "GenerateGrid draws cfg"
  have col: "reachable_in ?c (grid_node_id r c) (grid_node_id r 0) \<and>
      reachable_in ?c (grid_node_id r 0) (grid_node_id r c)" if "r < gcRows cfg" "c < gcCols cfg" for r c
    using that
  proof (induction c)
    case (Suc c)
    then show ?case
      using GenerateGrid_link [OF grid_links_step(1)] GenerateGrid_link [OF grid_links_step(2)]
      by (metis Suc_lessD reachable_trans)
  qed simp
  have row: "reachable_in ?c (grid_node_id r 0) (grid_node_id 0 0) \<and>
      reachable_in ?c (grid_node_id 0 0) (grid_node_id r 0)" if "r < gcRows cfg" "0 < gcCols cfg" for r
    using that
  proof (induction r)
    case (Suc r)
    then show ?case
      using GenerateGrid_link [OF grid_links_step(3)] GenerateGrid_link [OF grid_links_step(4)]
      by (metis Suc_lessD reachable_trans)
  qed simp
  show "reachable_in ?c (grid_node_id r c) (grid_node_id 0 0)"
    "reachable_in ?c (grid_node_id 0 0) (grid_node_id r c)"
    using col [OF assms] row [of r] assms by (auto intro: reachable_trans)
qed

definition grid_nodes :: "grid_config \<Rightarrow> node_id set" where
  "grid_nodes cfg = {grid_node_id r c | r c. r < gcRows cfg \<and> c < gcCols cfg}"

lemma GenerateGrid_connected:
  "u \<in> grid_nodes cfg \<Longrightarrow> v \<in> grid_nodes cfg \<Longrightarrow> reachable_in (GenerateGrid draws cfg) u v"
  unfolding grid_nodes_def using GenerateGrid_to_origin by (blast intro: reachable_trans)

text \<open>
  C33. The generated city is well formed for every seed, size, spacing and jitter: rows times
  columns intersections, road ids distinct and filed under the node they leave, every road open and
  as long as the distance between its ends, and \<open>FindRoute\<close> finds a shortest route between any two
  intersections.
\<close>

theorem GenerateGrid_routable:
  "length (cNodes (GenerateGrid draws cfg)) = gcRows cfg * gcCols cfg \<and>
   city_edges_wf (GenerateGrid draws cfg) \<and> metric_city (GenerateGrid draws cfg) \<and>
   (\<forall>e \<in> set (all_edges (GenerateGrid draws cfg)). \<not> eClosed e) \<and>
   (\<forall>u \<in> grid_nodes cfg. \<forall>v \<in> grid_nodes cfg.
      \<exists>r. FindRoute (GenerateGrid draws cfg) u v = Some r \<and> shortest_route (GenerateGrid draws cfg) u v r)"
proof (intro conjI ballI)
  let ?c = "GenerateGrid draws cfg"
  show "\<not> eClosed e" if "e \<in> set (all_edges ?c)" for e
    using GenerateGrid_open edges_from_complete [OF GenerateGrid_city_edges_wf that] by blast
  fix u v assume uv: "u \<in> grid_nodes cfg" "v \<in> grid_nodes cfg"
  have "fst ` set (cNodes ?c) = grid_nodes cfg" by (simp add: GenerateGrid_nodes(2) grid_nodes_def)
  then have "map_of (cNodes ?c) u \<noteq> None" "map_of (cNodes ?c) v \<noteq> None"
    using uv by (auto simp: map_of_eq_None_iff)
  moreover obtain es where "open_path ?c u es v"
    using GenerateGrid_connected [OF uv, of draws] by (auto simp: reachable_in_def)
  ultimately show "\<exists>r. FindRoute ?c u v = Some r \<and> shortest_route ?c u v r"
    using FindRoute_cases [OF GenerateGrid_metric [of draws cfg], of u v] by metis
qed (simp_all add: GenerateGrid_nodes GenerateGrid_city_edges_wf GenerateGrid_metric)

theorem GenerateGrid_routable_witness:
  "\<exists>r. FindRoute (GenerateGrid (\<lambda>_ _. 1 / 2) (DefaultGridConfig 42)) ''n-0-0'' ''n-1-0'' = Some r"
proof -
  have "grid_node_id 0 0 \<in> grid_nodes (DefaultGridConfig 42)" "grid_node_id 1 0 \<in> grid_nodes (DefaultGridConfig 42)"
    by (auto simp: grid_nodes_def DefaultGridConfig_def)
  moreover have "grid_node_id 0 0 = ''n-0-0''" "grid_node_id 1 0 = ''n-1-0''"
    by code_simp+
  ultimately show ?thesis using GenerateGrid_routable [of "\<lambda>_ _. 1 / 2" "DefaultGridConfig 42"] by metis
qed

text \<open>
  With the default grid every road is at least 70 units long, whatever the seed, so that a
  driver (25 units a tick) never crosses a whole road in one tick.
\<close>

theorem GenerateGrid_default_roads:
  assumes "rand_ok draws" "e \<in> set (edges_from (GenerateGrid draws (DefaultGridConfig seed)) n)"
  shows "70 \<le> eWeight e"
  using GenerateGrid_weight_lower [OF assms(1) _ _ assms(2)] by (simp add: DefaultGridConfig_def)

theorem GenerateGrid_default_roads_witness:
  "\<exists>e \<in> set (edges_from (GenerateGrid (\<lambda>_ _. 1 / 2) (DefaultGridConfig 42)) (grid_node_id 0 0)). 70 \<le> eWeight e"
proof -
  have r: "rand_ok (\<lambda>_ _. 1 / 2)" by (simp add: rand_ok_def)
  have "((0, 0), (0, 1)) \<in> set (grid_links 6 6)"
    using grid_links_step(1) [of 0 6 0 6] by simp
  then obtain e where "e \<in> set (edges_from (GenerateGrid (\<lambda>_ _. 1 / 2) (DefaultGridConfig 42)) (grid_node_id 0 0))"
    using GenerateGrid_edge [of 0 0 0 1 "DefaultGridConfig 42" "\<lambda>_ _. 1 / 2"] by (auto simp: DefaultGridConfig_def)
  then show ?thesis using GenerateGrid_default_roads [OF r] by blast
qed

end
