(* ===== verification/Spatial.thy ===== *)
theory Spatial
  imports Prelude "HOL-Library.Product_Lexorder"
begin

text \<open>
  \<open>internal/spatial/grid.go\<close>: the uniform grid that buckets ids by cell, with \<open>Set\<close>,
  \<open>Remove\<close>, \<open>Len\<close> and the ring-by-ring \<open>Candidates\<close> query.  The ring loop stops only when
  enough ids are found or all of them, so it is a partial function (\<open>None\<close>: does not return); the
  representation invariant \<open>grid_wf\<close>, which every operation keeps, makes it return.  The locale
  \<open>candidate_index\<close> states what matching and the simulation rely on, and the grid interprets it.
\<close>

record point =
  ptX :: real
  ptY :: real

type_synonym cell_key = "int \<times> int"

record grid =
  gCellSize :: real
  gCells :: "(cell_key, (string, point) gomap) gomap"
  gPoints :: "(string, point) gomap"

definition NewGrid :: "real \<Rightarrow> grid" where
  "NewGrid cellSize =
     \<lparr>gCellSize = (if cellSize \<le> 0 then 1 else cellSize), gCells = [], gPoints = []\<rparr>"

definition cellOf :: "grid \<Rightarrow> point \<Rightarrow> cell_key" where
  "cellOf g p = (\<lfloor>ptX p / gCellSize g\<rfloor>, \<lfloor>ptY p / gCellSize g\<rfloor>)"

definition distSq :: "point \<Rightarrow> point \<Rightarrow> real" where
  "distSq a b = (let dx = ptX a - ptX b; dy = ptY a - ptY b in dx * dx + dy * dy)"

definition grid_remove :: "string \<Rightarrow> grid \<Rightarrow> grid" where
  "grid_remove i g =
     (case map_of (gPoints g) i of
        None \<Rightarrow> g
      | Some old \<Rightarrow>
          let key = cellOf g old;
              cell = AList.delete i (get_or [] (gCells g) key);
              cells = (if cell = [] then AList.delete key (gCells g)
                       else AList.update key cell (gCells g))
          in g\<lparr>gCells := cells, gPoints := AList.delete i (gPoints g)\<rparr>)"

definition grid_set :: "string \<Rightarrow> point \<Rightarrow> grid \<Rightarrow> grid" where
  "grid_set i p g =
     (let g1 = grid_remove i g;
          key = cellOf g1 p
      in g1\<lparr>gPoints := AList.update i p (gPoints g1),
            gCells := AList.update key (AList.update i p (get_or [] (gCells g1) key)) (gCells g1)\<rparr>)"

definition grid_len :: "grid \<Rightarrow> nat" where
  "grid_len g = length (gPoints g)"

definition ring_cells :: "cell_key \<Rightarrow> int \<Rightarrow> cell_key list" where
  \<comment> \<open>the cells on the ring of a radius, in the order of the two nested loops\<close>
  "ring_cells origin radius =
     filter (\<lambda>(cx, cy). radius = 0 \<or> cx = fst origin - radius \<or> cx = fst origin + radius \<or>
                        cy = snd origin - radius \<or> cy = snd origin + radius)
       (concat (map (\<lambda>cx. map (\<lambda>cy. (cx, cy)) [snd origin - radius..snd origin + radius])
                  [fst origin - radius..fst origin + radius]))"

definition add_found :: "(string, point) gomap \<Rightarrow> (string, point) gomap \<Rightarrow> (string, point) gomap" where
  "add_found found cell = foldl (\<lambda>m (i, p). AList.update i p m) found cell"

definition scan_ring :: "grid \<Rightarrow> cell_key \<Rightarrow> int \<Rightarrow> (string, point) gomap \<Rightarrow> (string, point) gomap" where
  "scan_ring g origin radius found =
     foldl (\<lambda>m key. add_found m (get_or [] (gCells g) key)) found (ring_cells origin radius)"

partial_function (option) ring_loop ::
  "grid \<Rightarrow> int \<Rightarrow> cell_key \<Rightarrow> int \<Rightarrow> (string, point) gomap \<Rightarrow> (string, point) gomap option" where
  "ring_loop g maxResults origin radius found =
     (if int (length found) < maxResults \<and> length found < length (gPoints g)
      then ring_loop g maxResults origin (radius + 1) (scan_ring g origin radius found)
      else Some found)"

definition zero_point :: point where
  "zero_point = \<lparr>ptX = 0, ptY = 0\<rparr>"

definition rank :: "(string, point) gomap \<Rightarrow> point \<Rightarrow> string \<Rightarrow> real \<times> string" where
  \<comment> \<open>the key of the final sort: distance, then id\<close>
  "rank found query i = (distSq (get_or zero_point found i) query, i)"

definition Candidates_run :: "grid \<Rightarrow> point \<Rightarrow> int \<Rightarrow> string list option" where
  "Candidates_run g query maxResults =
     (if maxResults \<le> 0 \<or> length (gPoints g) = 0 then Some []
      else map_option (\<lambda>found. take (nat maxResults) (sort_key (rank found query) (map fst found)))
             (ring_loop g maxResults (cellOf g query) 0 []))"

definition Candidates :: "grid \<Rightarrow> point \<Rightarrow> int \<Rightarrow> string list" where
  "Candidates g query maxResults =
     (case Candidates_run g query maxResults of None \<Rightarrow> [] | Some ids \<Rightarrow> ids)"

subsection \<open>The representation invariant\<close>

definition in_cell :: "grid \<Rightarrow> cell_key \<Rightarrow> string \<Rightarrow> point option" where
  "in_cell g key i =
     (case map_of (gPoints g) i of None \<Rightarrow> None | Some p \<Rightarrow> if cellOf g p = key then Some p else None)"

definition cells_ok :: "(cell_key, (string, point) gomap) gomap \<Rightarrow> bool" where
  "cells_ok cells \<longleftrightarrow> distinct_keys cells \<and> (\<forall>cell \<in> snd ` set cells. cell \<noteq> [] \<and> distinct_keys cell)"

definition grid_wf :: "grid \<Rightarrow> bool" where
  \<comment> \<open>an id is in exactly the cell its point lies in, and no empty cell is kept\<close>
  "grid_wf g \<longleftrightarrow>
     0 < gCellSize g \<and> distinct_keys (gPoints g) \<and> cells_ok (gCells g) \<and>
     (\<forall>key. map_of (get_or [] (gCells g) key) = in_cell g key)"

lemma grid_wfD:
  assumes "grid_wf g"
  shows "0 < gCellSize g" "distinct_keys (gPoints g)" "cells_ok (gCells g)"
    and "map_of (get_or [] (gCells g) key) = in_cell g key"
  using assms unfolding grid_wf_def by blast+

lemma grid_wfI:
  assumes "0 < gCellSize g" "distinct_keys (gPoints g)" "cells_ok (gCells g)"
    and "\<And>key i. map_of (get_or [] (gCells g) key) i = in_cell g key i"
  shows "grid_wf g"
  using assms unfolding grid_wf_def by blast

lemma get_or_update: "get_or z (AList.update k v m) k' = (if k' = k then v else get_or z m k')"
  by (simp add: get_or_def map_simps)

lemma get_or_delete: "get_or z (AList.delete k m) k' = (if k' = k then z else get_or z m k')"
  by (simp add: get_or_def map_simps)

lemma set_update_subset: "set (AList.update k v m) \<subseteq> insert (k, v) (set m)"
  by (induction m) auto

lemma set_delete_subset: "set (AList.delete k m) \<subseteq> set m"
  by (induction m) auto

lemma cells_ok_update:
  assumes "cells_ok cells" "cell \<noteq> []" "distinct_keys cell"
  shows "cells_ok (AList.update key cell cells)"
  using assms set_update_subset [of key cell cells] unfolding cells_ok_def
  by (auto simp: distinct_update)

lemma cells_ok_delete: "cells_ok cells \<Longrightarrow> cells_ok (AList.delete key cells)"
  using set_delete_subset [of key cells] unfolding cells_ok_def
  by (auto simp: distinct_delete)

lemma cells_ok_cell: "cells_ok cells \<Longrightarrow> distinct_keys (get_or [] cells key)"
proof (cases "map_of cells key")
  case (Some cell)
  assume "cells_ok cells"
  with map_of_SomeD [OF Some] show ?thesis using Some by (force simp: cells_ok_def)
qed simp

lemma NewGrid_wf [wf_intros]: "grid_wf (NewGrid s)"
  by (simp add: grid_wf_def NewGrid_def get_or_def cells_ok_def in_cell_def fun_eq_iff)

lemma NewGrid_points [simp]: "gPoints (NewGrid s) = []"
  by (simp add: NewGrid_def)

lemma cellOf_frame: "gCellSize g' = gCellSize g \<Longrightarrow> cellOf g' = cellOf g"
  by (simp add: cellOf_def fun_eq_iff)

lemma grid_remove_points [simp]: "map_of (gPoints (grid_remove i g)) = (map_of (gPoints g))(i := None)"
  by (auto simp: grid_remove_def Let_def map_simps fun_eq_iff split: option.splits)

lemma grid_remove_size [simp]: "gCellSize (grid_remove i g) = gCellSize g"
  by (auto simp: grid_remove_def Let_def split: option.splits)

lemma cellOf_grid_remove [simp]: "cellOf (grid_remove i g) = cellOf g"
  by (rule cellOf_frame) simp

lemma grid_remove_wf [wf_intros]:
  assumes wf: "grid_wf g"
  shows "grid_wf (grid_remove i g)"
proof (cases "map_of (gPoints g) i")
  case None
  then show ?thesis using wf by (simp add: grid_remove_def)
next
  case (Some old)
  let ?key = "cellOf g old"
  let ?cell = "AList.delete i (get_or [] (gCells g) ?key)"
  have cells: "gCells (grid_remove i g) =
      (if ?cell = [] then AList.delete ?key (gCells g) else AList.update ?key ?cell (gCells g))"
    and points: "gPoints (grid_remove i g) = AList.delete i (gPoints g)"
    using Some by (simp_all add: grid_remove_def Let_def)
  have "cells_ok (gCells (grid_remove i g))"
    using grid_wfD(3) [OF wf] cells_ok_cell [OF grid_wfD(3) [OF wf]]
    by (simp add: cells cells_ok_update cells_ok_delete distinct_delete)
  moreover have "map_of (get_or [] (gCells (grid_remove i g)) key) j = in_cell (grid_remove i g) key j"
    for key j
  proof -
    have "map_of (get_or [] (gCells (grid_remove i g)) key) j =
        (if key = ?key \<and> j = i then None else in_cell g key j)"
    proof (cases "key = ?key")
      case True
      then have "get_or [] (gCells (grid_remove i g)) key = ?cell"
        by (simp add: cells get_or_update get_or_delete)
      then show ?thesis using True by (simp add: map_simps grid_wfD(4) [OF wf])
    next
      case False
      then have "get_or [] (gCells (grid_remove i g)) key = get_or [] (gCells g) key"
        by (simp add: cells get_or_update get_or_delete)
      then show ?thesis using False by (simp add: grid_wfD(4) [OF wf])
    qed
    then show ?thesis using Some by (auto simp: in_cell_def split: option.splits)
  qed
  ultimately show ?thesis
    using grid_wfD(1,2) [OF wf] by (intro grid_wfI) (simp_all add: points distinct_delete)
qed

lemma grid_set_points [simp]: "map_of (gPoints (grid_set i p g)) = (map_of (gPoints g))(i \<mapsto> p)"
  by (auto simp: grid_set_def Let_def map_simps fun_eq_iff)

lemma grid_set_size [simp]: "gCellSize (grid_set i p g) = gCellSize g"
  by (simp add: grid_set_def Let_def)

lemma grid_set_wf [wf_intros]:
  assumes "grid_wf g"
  shows "grid_wf (grid_set i p g)"
proof -
  let ?g = "grid_remove i g"
  have wf: "grid_wf ?g" by (rule grid_remove_wf [OF assms])
  let ?key = "cellOf ?g p"
  let ?cell = "AList.update i p (get_or [] (gCells ?g) ?key)"
  have cells: "gCells (grid_set i p g) = AList.update ?key ?cell (gCells ?g)"
    and points: "gPoints (grid_set i p g) = AList.update i p (gPoints ?g)"
    by (simp_all add: grid_set_def Let_def)
  have cell: "?cell \<noteq> []" by (cases "get_or [] (gCells ?g) ?key") (auto split: prod.splits)
  have "cells_ok (gCells (grid_set i p g))"
    unfolding cells
    by (intro cells_ok_update cell distinct_update cells_ok_cell grid_wfD(3) [OF wf])
  moreover have "map_of (get_or [] (gCells (grid_set i p g)) key) j = in_cell (grid_set i p g) key j"
    for key j
  proof -
    have c: "cellOf (grid_set i p g) = cellOf ?g" by (rule cellOf_frame) simp
    have "map_of (get_or [] (gCells (grid_set i p g)) key) j =
        (if key = ?key \<and> j = i then Some p else in_cell ?g key j)"
      by (cases "key = ?key") (simp_all add: cells get_or_update map_simps grid_wfD(4) [OF wf])
    then show ?thesis by (auto simp: in_cell_def c split: option.splits)
  qed
  ultimately show ?thesis
    using grid_wfD(1,2) [OF wf] by (intro grid_wfI) (simp_all add: points distinct_update)
qed


subsection \<open>Scanning outward\<close>

lemma map_of_add_found:
  "distinct_keys cell \<Longrightarrow>
   map_of (add_found found cell) i = (case map_of cell i of Some p \<Rightarrow> Some p | None \<Rightarrow> map_of found i)"
  unfolding add_found_def
proof (induction cell arbitrary: found)
  case (Cons x cell)
  then show ?case
    by (cases x) (auto simp: map_simps split: option.splits dest!: map_of_SomeD intro: rev_image_eqI)
qed simp

lemma add_found_distinct: "distinct_keys found \<Longrightarrow> distinct_keys (add_found found cell)"
  unfolding add_found_def
  by (induction cell arbitrary: found) (auto simp: distinct_update)

definition scanned :: "grid \<Rightarrow> cell_key set \<Rightarrow> (string, point) gomap \<Rightarrow> bool" where
  \<comment> \<open>\<open>found\<close> holds exactly the indexed ids that lie in the given cells\<close>
  "scanned g cells found \<longleftrightarrow>
     distinct_keys found \<and>
     (\<forall>i p. map_of found i = Some p \<longleftrightarrow> map_of (gPoints g) i = Some p \<and> cellOf g p \<in> cells)"

lemma scanned_step:
  assumes wf: "grid_wf g" and s: "scanned g cells found"
  shows "scanned g (insert key cells) (add_found found (get_or [] (gCells g) key))"
proof -
  have "map_of (add_found found (get_or [] (gCells g) key)) i = Some p \<longleftrightarrow>
        map_of (gPoints g) i = Some p \<and> cellOf g p \<in> insert key cells" for i p
  proof (cases "in_cell g key i")
    case None
    then have "map_of (gPoints g) i = Some p \<Longrightarrow> cellOf g p \<noteq> key"
      by (auto simp: in_cell_def)
    moreover have "map_of found i = Some p \<longleftrightarrow> map_of (gPoints g) i = Some p \<and> cellOf g p \<in> cells"
      using s unfolding scanned_def by blast
    ultimately show ?thesis
      using None map_of_add_found [OF cells_ok_cell [OF grid_wfD(3) [OF wf]], of found key i]
      by (auto simp: grid_wfD(4) [OF wf])
  next
    case (Some q)
    then have "map_of (gPoints g) i = Some q" "cellOf g q = key"
      by (auto simp: in_cell_def split: option.splits if_splits)
    then show ?thesis
      using Some map_of_add_found [OF cells_ok_cell [OF grid_wfD(3) [OF wf]], of found key i]
      by (auto simp: grid_wfD(4) [OF wf])
  qed
  then show ?thesis
    using s add_found_distinct unfolding scanned_def by blast
qed

lemma scanned_fold:
  "grid_wf g \<Longrightarrow> scanned g cells found \<Longrightarrow>
   scanned g (cells \<union> set ks)
     (foldl (\<lambda>m key. add_found m (get_or [] (gCells g) key)) found ks)"
proof (induction ks arbitrary: cells found)
  case (Cons key ks)
  then have "scanned g (insert key cells \<union> set ks)
     (foldl (\<lambda>m key. add_found m (get_or [] (gCells g) key))
        (add_found found (get_or [] (gCells g) key)) ks)"
    by (intro Cons.IH scanned_step)
  then show ?case by simp
qed simp

definition square :: "cell_key \<Rightarrow> int \<Rightarrow> cell_key set" where
  \<comment> \<open>the cells within a Chebyshev distance less than the radius\<close>
  "square origin radius =
     {(cx, cy). \<bar>cx - fst origin\<bar> < radius \<and> \<bar>cy - snd origin\<bar> < radius}"

lemma square_step:
  assumes "0 \<le> radius"
  shows "square origin radius \<union> set (ring_cells origin radius) = square origin (radius + 1)"
proof -
  have "(cx, cy) \<in> square origin radius \<union> set (ring_cells origin radius) \<longleftrightarrow>
        (cx, cy) \<in> square origin (radius + 1)" for cx cy
    using assms by (auto simp: square_def ring_cells_def image_iff)
  then show ?thesis by auto
qed

lemma scan_ring_scanned:
  "grid_wf g \<Longrightarrow> 0 \<le> radius \<Longrightarrow> scanned g (square origin radius) found \<Longrightarrow>
   scanned g (square origin (radius + 1)) (scan_ring g origin radius found)"
  using scanned_fold [of g "square origin radius" found "ring_cells origin radius"]
  by (simp add: scan_ring_def square_step)

lemma scanned_subset: "scanned g cells found \<Longrightarrow> fst ` set found \<subseteq> fst ` set (gPoints g)"
  unfolding scanned_def by (metis in_keys_iff list.set_map subsetI)

lemma length_keys: "distinct_keys m \<Longrightarrow> length m = card (fst ` set m)"
  using distinct_card [of "map fst m"] by simp

lemma scanned_le: "grid_wf g \<Longrightarrow> scanned g cells found \<Longrightarrow> length found \<le> length (gPoints g)"
  using card_mono [OF _ scanned_subset [of g cells found]] length_keys [of found]
    length_keys [OF grid_wfD(2), of g]
  by (simp add: scanned_def)

lemma scanned_all:
  assumes "grid_wf g" "scanned g cells found" "\<And>i p. (i, p) \<in> set (gPoints g) \<Longrightarrow> cellOf g p \<in> cells"
  shows "length found = length (gPoints g)"
proof -
  have "fst ` set (gPoints g) \<subseteq> fst ` set found"
  proof
    fix i assume "i \<in> fst ` set (gPoints g)"
    then obtain p where p: "map_of (gPoints g) i = Some p" by (metis in_keys_iff list.set_map)
    then have "map_of found i = Some p"
      using assms(2,3) map_of_SomeD [OF p] unfolding scanned_def by blast
    then show "i \<in> fst ` set found" by (metis in_keys_iff list.set_map)
  qed
  then show ?thesis
    using scanned_subset [OF assms(2)] length_keys [of found] length_keys [OF grid_wfD(2) [OF assms(1)]]
      assms(2) by (auto simp: scanned_def)
qed

definition reach_radius :: "grid \<Rightarrow> cell_key \<Rightarrow> nat" where
  "reach_radius g origin =
     (\<Sum>(i, p) \<leftarrow> gPoints g. nat (\<bar>fst (cellOf g p) - fst origin\<bar> + \<bar>snd (cellOf g p) - snd origin\<bar>) + 1)"

lemma reach_radius_covers:
  assumes "(i, p) \<in> set (gPoints g)" "int (reach_radius g origin) \<le> radius"
  shows "cellOf g p \<in> square origin radius"
proof -
  let ?f = "\<lambda>(i, p). nat (\<bar>fst (cellOf g p) - fst origin\<bar> + \<bar>snd (cellOf g p) - snd origin\<bar>) + 1"
  have "?f (i, p) \<le> reach_radius g origin"
    unfolding reach_radius_def using assms(1) by (intro member_le_sum_list) (force, simp)
  then have "\<bar>fst (cellOf g p) - fst origin\<bar> + \<bar>snd (cellOf g p) - snd origin\<bar> + 1 \<le> radius"
    using assms(2) by simp
  then show ?thesis by (cases "cellOf g p") (auto simp: square_def)
qed

lemma ring_loop_returns:
  assumes "grid_wf g" "0 \<le> radius" "scanned g (square origin radius) found"
  shows "\<exists>r found'. ring_loop g k origin radius found = Some found' \<and> radius \<le> r \<and>
           scanned g (square origin r) found' \<and>
           (k \<le> int (length found') \<or> length found' = length (gPoints g))"
  using assms(2,3)
proof (induction "nat (int (reach_radius g origin) - radius)" arbitrary: radius found rule: less_induct)
  case less
  show ?case
  proof (cases "int (length found) < k \<and> length found < length (gPoints g)")
    case False
    then have "ring_loop g k origin radius found = Some found"
      by (subst ring_loop.simps) auto
    moreover have "length found \<le> length (gPoints g)"
      by (rule scanned_le [OF assms(1) less.prems(2)])
    ultimately show ?thesis using False less.prems
      by (intro exI [of _ radius] exI [of _ found]) auto
  next
    case True
    have "radius < int (reach_radius g origin)"
    proof (rule ccontr)
      assume "\<not> ?thesis"
      then have "int (reach_radius g origin) \<le> radius" by simp
      then have "length found = length (gPoints g)"
        by (intro scanned_all [OF assms(1) less.prems(2)] reach_radius_covers)
      with True show False by simp
    qed
    then obtain r found' where
      "ring_loop g k origin (radius + 1) (scan_ring g origin radius found) = Some found'"
      "radius + 1 \<le> r" "scanned g (square origin r) found'"
      "k \<le> int (length found') \<or> length found' = length (gPoints g)"
      using less.hyps [of "radius + 1" "scan_ring g origin radius found"]
        scan_ring_scanned [OF assms(1) less.prems] less.prems(1) by force
    moreover have "ring_loop g k origin radius found =
        ring_loop g k origin (radius + 1) (scan_ring g origin radius found)"
      using True by (subst ring_loop.simps) simp
    ultimately show ?thesis by (intro exI [of _ r] exI [of _ found']) auto
  qed
qed

lemma ring_loop_start:
  assumes "grid_wf g"
  obtains r found where "ring_loop g k origin 0 [] = Some found" "0 \<le> r"
    "scanned g (square origin r) found" "k \<le> int (length found) \<or> length found = length (gPoints g)"
proof -
  have "scanned g (square origin 0) []" by (simp add: scanned_def square_def)
  then show ?thesis using that ring_loop_returns [OF assms, of 0 origin "[]" k] by auto
qed


subsection \<open>What a query returns\<close>

lemma Candidates_run_found:
  assumes "grid_wf g" "0 < k" "gPoints g \<noteq> []"
  obtains r found where "0 \<le> r" "scanned g (square (cellOf g query) r) found"
    "k \<le> int (length found) \<or> length found = length (gPoints g)"
    "Candidates_run g query k = Some (take (nat k) (sort_key (rank found query) (map fst found)))"
proof -
  obtain r found where "ring_loop g k (cellOf g query) 0 [] = Some found" "0 \<le> r"
    "scanned g (square (cellOf g query) r) found" "k \<le> int (length found) \<or> length found = length (gPoints g)"
    by (rule ring_loop_start [OF assms(1)])
  with that assms(2,3) show ?thesis by (simp add: Candidates_run_def)
qed

definition candidate_list :: "grid \<Rightarrow> point \<Rightarrow> int \<Rightarrow> string list \<Rightarrow> bool" where
  \<comment> \<open>what a query promises: distinct indexed ids, as many as asked for or all of them, nearest
      first with ties by id\<close>
  "candidate_list g query k ids \<longleftrightarrow>
     distinct ids \<and> set ids \<subseteq> fst ` set (gPoints g) \<and>
     length ids = min (nat k) (length (gPoints g)) \<and>
     sorted (map (rank (gPoints g) query) ids)"

lemma sorted_map_take: "sorted (map f xs) \<Longrightarrow> sorted (map f (take n xs))"
  using sorted_wrt_take [of "(\<le>)" "map f xs" n] by (simp add: take_map)

lemma scanned_rank:
  assumes "scanned g cells found" "i \<in> fst ` set found"
  shows "rank found query i = rank (gPoints g) query i"
proof -
  obtain p where "map_of found i = Some p" using assms(2) by (metis in_keys_iff list.set_map)
  with assms(1) have "map_of (gPoints g) i = Some p" unfolding scanned_def by blast
  with \<open>map_of found i = Some p\<close> show ?thesis by (simp add: rank_def)
qed

lemma candidate_list_take:
  assumes wf: "grid_wf g" and s: "scanned g cells found" and k: "0 < k"
    and enough: "k \<le> int (length found) \<or> length found = length (gPoints g)"
  shows "candidate_list g query k (take (nat k) (sort_key (rank found query) (map fst found)))"
proof -
  let ?ids = "sort_key (rank found query) (map fst found)"
  have d: "distinct ?ids" using s by (simp add: scanned_def)
  have eq: "map (rank (gPoints g) query) ?ids = map (rank found query) ?ids"
    using scanned_rank [OF s] by (intro map_cong) auto
  have "sorted (map (rank (gPoints g) query) ?ids)"
    unfolding eq by (rule sorted_sort_key)
  then have "sorted (map (rank (gPoints g) query) (take (nat k) ?ids))" by (rule sorted_map_take)
  moreover have "set (take (nat k) ?ids) \<subseteq> fst ` set (gPoints g)"
    using scanned_subset [OF s] set_take_subset [of "nat k" ?ids] by auto
  moreover have "length (take (nat k) ?ids) = min (nat k) (length (gPoints g))"
    using enough k scanned_le [OF wf s] by auto
  ultimately show ?thesis using d by (simp add: candidate_list_def)
qed

lemma Candidates_spec:
  assumes "grid_wf g"
  shows "Candidates_run g query k = Some (Candidates g query k)" "candidate_list g query k (Candidates g query k)"
proof -
  have "\<exists>ids. Candidates_run g query k = Some ids \<and> candidate_list g query k ids"
  proof (cases "k \<le> 0 \<or> gPoints g = []")
    case True
    then show ?thesis by (auto simp: Candidates_run_def candidate_list_def)
  next
    case False
    then have k: "0 < k" "gPoints g \<noteq> []" by auto
    obtain r found where f: "scanned g (square (cellOf g query) r) found"
      "k \<le> int (length found) \<or> length found = length (gPoints g)"
      "Candidates_run g query k = Some (take (nat k) (sort_key (rank found query) (map fst found)))"
      by (rule Candidates_run_found [OF assms k])
    with candidate_list_take [OF assms f(1) k(1) f(2)] show ?thesis by blast
  qed
  then show "Candidates_run g query k = Some (Candidates g query k)"
    "candidate_list g query k (Candidates g query k)" by (auto simp: Candidates_def)
qed

lemma take_sorted_le:
  assumes "sorted xs" "x \<in> set (take n xs)" "y \<in> set (drop n xs)"
  shows "x \<le> y"
  using assms by (metis append_take_drop_id sorted_append)

lemma Candidates_nearest_in_square:
  assumes wf: "grid_wf g" and k: "0 < k" "gPoints g \<noteq> []"
  obtains r where "0 \<le> r" "\<And>i j q. i \<in> set (Candidates g query k) \<Longrightarrow>
      map_of (gPoints g) j = Some q \<Longrightarrow> j \<notin> set (Candidates g query k) \<Longrightarrow>
      cellOf g q \<in> square (cellOf g query) r \<Longrightarrow>
      rank (gPoints g) query i \<le> rank (gPoints g) query j"
    "\<And>i p. i \<in> set (Candidates g query k) \<Longrightarrow> map_of (gPoints g) i = Some p \<Longrightarrow>
      cellOf g p \<in> square (cellOf g query) r"
proof -
  obtain r found where r: "0 \<le> r" and s: "scanned g (square (cellOf g query) r) found"
    and run: "Candidates_run g query k = Some (take (nat k) (sort_key (rank found query) (map fst found)))"
    by (rule Candidates_run_found [OF wf k])
  let ?ids = "sort_key (rank found query) (map fst found)"
  have ids: "Candidates g query k = take (nat k) ?ids" using run by (simp add: Candidates_def)
  have found: "i \<in> fst ` set found" if "i \<in> set (Candidates g query k)" for i
    using that set_take_subset [of "nat k" ?ids] by (auto simp: ids)
  have near: "rank (gPoints g) query i \<le> rank (gPoints g) query j"
    if i: "i \<in> set (Candidates g query k)" and q: "map_of (gPoints g) j = Some q"
      and j: "j \<notin> set (Candidates g query k)" and c: "cellOf g q \<in> square (cellOf g query) r" for i j q
  proof -
    have "map_of found j = Some q" using s q c unfolding scanned_def by blast
    then have jf: "j \<in> fst ` set found" by (metis in_keys_iff list.set_map)
    then have "j \<in> set (take (nat k) ?ids @ drop (nat k) ?ids)" by simp
    then have "j \<in> set (drop (nat k) ?ids)" using j unfolding ids set_append by blast
    then have "rank found query i \<le> rank found query j"
      using take_sorted_le [of "map (rank found query) ?ids" "rank found query i" "nat k" "rank found query j"] i
      by (auto simp: ids take_map drop_map)
    then show ?thesis using scanned_rank [OF s found [OF i]] scanned_rank [OF s jf] by simp
  qed
  have inside: "cellOf g p \<in> square (cellOf g query) r"
    if "i \<in> set (Candidates g query k)" "map_of (gPoints g) i = Some p" for i p
    using found [OF that(1)] s that(2) unfolding scanned_def
    by (metis in_keys_iff list.set_map option.inject)
  show ?thesis by (rule that [OF r]) (use near inside in blast)+
qed

subsection \<open>The interface matching relies on\<close>

locale candidate_index =
  fixes set_point :: "string \<Rightarrow> point \<Rightarrow> 'g \<Rightarrow> 'g"
    and remove_point :: "string \<Rightarrow> 'g \<Rightarrow> 'g"
    and lookup :: "'g \<Rightarrow> string \<rightharpoonup> point"
    and candidates :: "'g \<Rightarrow> point \<Rightarrow> int \<Rightarrow> string list"
    and wf :: "'g \<Rightarrow> bool"
  assumes wf_set: "wf g \<Longrightarrow> wf (set_point i p g)"
    and wf_remove: "wf g \<Longrightarrow> wf (remove_point i g)"
    and lookup_set: "lookup (set_point i p g) = (lookup g)(i \<mapsto> p)"
    and lookup_remove: "lookup (remove_point i g) = (lookup g)(i := None)"
    and candidates_dom: "wf g \<Longrightarrow> set (candidates g q k) \<subseteq> dom (lookup g)"
    and candidates_distinct: "wf g \<Longrightarrow> distinct (candidates g q k)"
    and candidates_bound: "wf g \<Longrightarrow> length (candidates g q k) \<le> nat k"
    and candidates_some: "wf g \<Longrightarrow> 0 < k \<Longrightarrow> dom (lookup g) \<noteq> {} \<Longrightarrow> candidates g q k \<noteq> []"
begin

lemma index_all_wf: "wf g \<Longrightarrow> wf (foldl (\<lambda>g (i, p). set_point i p g) g ps)"
  by (induction ps arbitrary: g) (auto simp: wf_set)

lemma index_all_lookup:
  "distinct (map fst ps) \<Longrightarrow>
   lookup (foldl (\<lambda>g (i, p). set_point i p g) g ps) = lookup g ++ map_of ps"
proof (induction ps arbitrary: g)
  case (Cons x ps)
  obtain i p where x: "x = (i, p)" by (cases x)
  have "map_of ps i = None" using Cons.prems x by (simp add: map_of_eq_None_iff)
  then have "(lookup g)(i \<mapsto> p) ++ map_of ps = (lookup g ++ map_of ps)(i \<mapsto> p)"
    by (auto simp: fun_eq_iff map_add_def split: option.splits)
  moreover have "lookup g ++ (map_of ps)(i \<mapsto> p) = (lookup g ++ map_of ps)(i \<mapsto> p)"
    by (rule map_add_upd)
  ultimately show ?case using Cons x by (simp add: lookup_set del: fun_upd_apply)
qed simp

lemma never_offers_removed: "wf g \<Longrightarrow> i \<notin> set (candidates (remove_point i g) q k)"
  using candidates_dom [OF wf_remove, of g i q k] by (auto simp: lookup_remove)

end

interpretation grid_index: candidate_index grid_set grid_remove "\<lambda>g. map_of (gPoints g)" Candidates grid_wf
proof
  fix g :: grid and q k
  assume wf: "grid_wf g"
  note C = Candidates_spec(2) [OF wf, of q k, unfolded candidate_list_def]
  show "set (Candidates g q k) \<subseteq> dom (map_of (gPoints g))"
    using C by (simp add: dom_map_of_conv_image_fst)
  show "distinct (Candidates g q k)" using C by simp
  show "length (Candidates g q k) \<le> nat k" using C by simp
  show "Candidates g q k \<noteq> []" if "0 < k" "dom (map_of (gPoints g)) \<noteq> {}"
  proof -
    have "0 < min (nat k) (length (gPoints g))" using that by auto
    then show ?thesis using C by (metis length_0_conv less_numeral_extra(3))
  qed
qed (auto intro: wf_intros)

subsection \<open>What the index promises\<close>

text \<open>
  Setting and removing a point keep the spatial index consistent (every point filed in the
  cell of its coordinates, in no other, and no empty cell kept), change the position of that id
  only, and a removed id is never offered as a candidate again.
\<close>

theorem grid_updates:
  assumes "grid_wf g"
  shows "grid_wf (grid_set i p g) \<and> map_of (gPoints (grid_set i p g)) = (map_of (gPoints g))(i \<mapsto> p) \<and>
    grid_wf (grid_remove i g) \<and> map_of (gPoints (grid_remove i g)) = (map_of (gPoints g))(i := None) \<and>
    (\<forall>q k. i \<notin> set (Candidates (grid_remove i g) q k))"
  using grid_set_wf [OF assms] grid_remove_wf [OF assms] grid_index.never_offers_removed [OF assms] by simp

definition two_points :: grid where
  "two_points = grid_set ''b'' \<lparr>ptX = 10, ptY = 5\<rparr> (grid_set ''a'' \<lparr>ptX = 0, ptY = 5\<rparr> (NewGrid 10))"

lemma two_points_wf: "grid_wf two_points"
  by (simp add: two_points_def grid_set_wf NewGrid_wf)

theorem grid_updates_witness: "\<forall>q k. ''a'' \<notin> set (Candidates (grid_remove ''a'' two_points) q k)"
  using grid_updates [OF two_points_wf] by blast

text \<open>
  A candidate query always returns (its search over growing rings of cells ends), and its
  answer lists distinct indexed ids, as many as were asked for or all of them, sorted by distance
  with ties broken by id.
\<close>

theorem Candidates_answer:
  assumes "grid_wf g"
  shows "Candidates_run g query k = Some (Candidates g query k) \<and> candidate_list g query k (Candidates g query k)"
  using Candidates_spec [OF assms] by simp

theorem Candidates_answer_witness:
  "Candidates_run two_points \<lparr>ptX = 9, ptY = 5\<rparr> 5 = Some (Candidates two_points \<lparr>ptX = 9, ptY = 5\<rparr> 5) \<and>
   candidate_list two_points \<lparr>ptX = 9, ptY = 5\<rparr> 5 (Candidates two_points \<lparr>ptX = 9, ptY = 5\<rparr> 5)"
  by (rule Candidates_answer [OF two_points_wf])



text \<open>
  The candidates are not always the nearest ids overall: the ring search stops as soon as it
  has enough ids, and an id of the next ring can be closer than one it found.
\<close>

theorem Candidates_can_miss_the_nearest:
  "Candidates two_points \<lparr>ptX = 9, ptY = 5\<rparr> 1 = [''a''] \<and>
   distSq (the (map_of (gPoints two_points) ''b'')) \<lparr>ptX = 9, ptY = 5\<rparr>
     < distSq (the (map_of (gPoints two_points) ''a'')) \<lparr>ptX = 9, ptY = 5\<rparr>"
proof -
  have floors: "\<lfloor>9 / 10 :: real\<rfloor> = 0" "\<lfloor>5 / 10 :: real\<rfloor> = 0" "\<lfloor>1 / 2 :: real\<rfloor> = 0" by (simp_all add: floor_eq_iff)
  have "Candidates two_points \<lparr>ptX = 9, ptY = 5\<rparr> 1 = [''a'']"
    by (simp add: Candidates_def Candidates_run_def two_points_def grid_set_def grid_remove_def NewGrid_def
        cellOf_def get_or_def floors ring_loop.simps scan_ring_def ring_cells_def add_found_def)
  then show ?thesis by (simp add: two_points_def distSq_def)
qed

end
