(* ===== verification/Hungarian.thy ===== *)
theory Hungarian
  imports Prelude
begin

text \<open>
  \<open>internal/matching/assignment.go\<close>: the Hungarian algorithm with potentials.

  The 1-indexed slices \<open>u, v, p, way, minv, used\<close> are functions on \<open>nat\<close>: every index the code
  uses lies between 0 and the bounds of its loops, except \<open>j1 = -1\<close> when no column has
  \<open>minv < inf\<close>; that index panics in Go, and the round is \<open>None\<close> here.  The two inner loops that
  end on a condition (\<open>search_loop\<close>, \<open>augment_loop\<close>) are partial functions.

  \<open>MinCostAssignment_run\<close> returns \<open>None\<close> when the code would panic or not return.
\<close>

definition Unreachable :: real where
  "Unreachable = 10 ^ 12"

definition hung_inf :: real where
  \<comment> \<open>\<open>math.MaxFloat64 / 4\<close>\<close>
  "hung_inf = (2 - 1 / 2 ^ 52) * 2 ^ 1023 / 4"

record pair =
  prRow :: nat
  prCol :: nat
  prCost :: real

type_synonym matrix = "real list list"

definition transpose_matrix :: "matrix \<Rightarrow> matrix" where
  "transpose_matrix m =
     map (\<lambda>j. map (\<lambda>i. m ! i ! j) [0..<length m]) [0..<length (hd m)]"

record hung =
  hU :: "nat \<Rightarrow> real"
  hV :: "nat \<Rightarrow> real"
  hP :: "nat \<Rightarrow> nat"
  hWay :: "nat \<Rightarrow> nat"

record hung_row = hung +
  hMinv :: "nat \<Rightarrow> real"
  hUsed :: "nat \<Rightarrow> bool"

subsection \<open>One round of the search for an augmenting path\<close>

definition scan_col ::
  "(nat \<Rightarrow> nat \<Rightarrow> real) \<Rightarrow> nat \<Rightarrow> nat \<Rightarrow> hung_row \<times> real \<times> nat option \<Rightarrow> nat \<Rightarrow> hung_row \<times> real \<times> nat option" where
  \<comment> \<open>the body of \<open>for j := 1; j <= cols; j++\<close>; \<open>j1 = -1\<close> is \<open>None\<close>\<close>
  "scan_col a i0 j0 = (\<lambda>(st, delta, j1) j.
     if hUsed st j then (st, delta, j1)
     else
       let cur = a i0 j - hU st i0 - hV st j;
           st' = (if cur < hMinv st j
                  then st\<lparr>hMinv := (hMinv st)(j := cur), hWay := (hWay st)(j := j0)\<rparr> else st)
       in if hMinv st' j < delta then (st', hMinv st' j, Some j) else (st', delta, j1))"

definition shift_col :: "real \<Rightarrow> hung_row \<Rightarrow> nat \<Rightarrow> hung_row" where
  \<comment> \<open>the body of \<open>for j := 0; j <= cols; j++\<close>\<close>
  "shift_col delta st j =
     (if hUsed st j
      then st\<lparr>hU := (hU st)(hP st j := hU st (hP st j) + delta), hV := (hV st)(j := hV st j - delta)\<rparr>
      else st\<lparr>hMinv := (hMinv st)(j := hMinv st j - delta)\<rparr>)"

definition search_round :: "(nat \<Rightarrow> nat \<Rightarrow> real) \<Rightarrow> nat \<Rightarrow> nat \<Rightarrow> hung_row \<Rightarrow> (hung_row \<times> nat) option" where
  "search_round a cols j0 st =
     (let st1 = st\<lparr>hUsed := (hUsed st)(j0 := True)\<rparr>;
          (st2, delta, j1) = foldl (scan_col a (hP st1 j0) j0) (st1, hung_inf, None) [1..<Suc cols];
          st3 = foldl (shift_col delta) st2 [0..<Suc cols]
      in map_option (\<lambda>j. (st3, j)) j1)"

partial_function (option) search_loop ::
  "(nat \<Rightarrow> nat \<Rightarrow> real) \<Rightarrow> nat \<Rightarrow> nat \<Rightarrow> hung_row \<Rightarrow> (hung_row \<times> nat) option" where
  "search_loop a cols j0 st =
     (case search_round a cols j0 st of
        None \<Rightarrow> None
      | Some (st', j1) \<Rightarrow>
          if hP st' j1 = 0 then Some (st', j1) else search_loop a cols j1 st')"

partial_function (option) augment_loop :: "(nat \<Rightarrow> nat) \<Rightarrow> nat \<Rightarrow> (nat \<Rightarrow> nat) \<Rightarrow> (nat \<Rightarrow> nat) option" where
  "augment_loop way j0 p =
     (if j0 = 0 then Some p else augment_loop way (way j0) (p(j0 := p (way j0))))"

definition add_row :: "(nat \<Rightarrow> nat \<Rightarrow> real) \<Rightarrow> nat \<Rightarrow> nat \<Rightarrow> hung \<Rightarrow> hung option" where
  \<comment> \<open>the body of \<open>for i := 1; i <= rows; i++\<close>\<close>
  "add_row a cols i st =
     (let st0 = \<lparr>hU = hU st, hV = hV st, hP = (hP st)(0 := i), hWay = hWay st,
                 hMinv = (\<lambda>_. hung_inf), hUsed = (\<lambda>_. False)\<rparr>
      in case search_loop a cols 0 st0 of
           None \<Rightarrow> None
         | Some (st1, j0) \<Rightarrow>
             map_option (\<lambda>p. \<lparr>hU = hU st1, hV = hV st1, hP = p, hWay = hWay st1\<rparr>)
               (augment_loop (hWay st1) j0 (hP st1)))"

fun add_rows :: "(nat \<Rightarrow> nat \<Rightarrow> real) \<Rightarrow> nat \<Rightarrow> nat list \<Rightarrow> hung \<Rightarrow> hung option" where
  "add_rows a cols [] st = Some st"
| "add_rows a cols (i # is) st =
     (case add_row a cols i st of None \<Rightarrow> None | Some st' \<Rightarrow> add_rows a cols is st')"

definition hung_init :: hung where
  "hung_init = \<lparr>hU = (\<lambda>_. 0), hV = (\<lambda>_. 0), hP = (\<lambda>_. 0), hWay = (\<lambda>_. 0)\<rparr>"

definition collect_pairs :: "matrix \<Rightarrow> bool \<Rightarrow> nat \<Rightarrow> (nat \<Rightarrow> nat) \<Rightarrow> pair list" where
  "collect_pairs original transposed cols p =
     map (\<lambda>j. let r = (if transposed then j - 1 else p j - 1);
                  c = (if transposed then p j - 1 else j - 1)
              in \<lparr>prRow = r, prCol = c, prCost = original ! r ! c\<rparr>)
       (filter (\<lambda>j. p j \<noteq> 0) [1..<Suc cols])"

definition MinCostAssignment_run :: "matrix \<Rightarrow> pair list option" where
  "MinCostAssignment_run cost =
     (if cost = [] then Some []
      else if hd cost = [] then Some []
      else
        let rows0 = length cost; cols0 = length (hd cost);
            transposed = (rows0 > cols0);
            work = (if transposed then transpose_matrix cost else cost);
            rows = (if transposed then cols0 else rows0);
            cols = (if transposed then rows0 else cols0)
        in map_option (\<lambda>st. sort_key prRow (collect_pairs cost transposed cols (hP st)))
             (add_rows (\<lambda>i j. work ! (i - 1) ! (j - 1)) cols [1..<Suc rows] hung_init))"

definition MinCostAssignment :: "matrix \<Rightarrow> pair list" where
  "MinCostAssignment cost = (case MinCostAssignment_run cost of None \<Rightarrow> [] | Some ps \<Rightarrow> ps)"

subsection \<open>The two column loops in closed form\<close>

definition red :: "(nat \<Rightarrow> nat \<Rightarrow> real) \<Rightarrow> ('a hung_scheme) \<Rightarrow> nat \<Rightarrow> nat \<Rightarrow> real" where
  \<comment> \<open>the reduced cost of a pair\<close>
  "red a st i j = a i j - hU st i - hV st j"

lemma foldl_shift_col:
  assumes "distinct js" "\<And>j k. j \<in> set js \<Longrightarrow> k \<in> set js \<Longrightarrow> hUsed st j \<Longrightarrow> hUsed st k \<Longrightarrow> hP st j = hP st k \<Longrightarrow> j = k"
  shows "hP (foldl (shift_col d) st js) = hP st" "hWay (foldl (shift_col d) st js) = hWay st"
    "hUsed (foldl (shift_col d) st js) = hUsed st"
    "hV (foldl (shift_col d) st js) = (\<lambda>j. if j \<in> set js \<and> hUsed st j then hV st j - d else hV st j)"
    "hMinv (foldl (shift_col d) st js) = (\<lambda>j. if j \<in> set js \<and> \<not> hUsed st j then hMinv st j - d else hMinv st j)"
    "hU (foldl (shift_col d) st js) =
       (\<lambda>r. if \<exists>j \<in> set js. hUsed st j \<and> hP st j = r then hU st r + d else hU st r)"
proof -
  have "hP (foldl (shift_col d) st js) = hP st \<and> hWay (foldl (shift_col d) st js) = hWay st \<and>
    hUsed (foldl (shift_col d) st js) = hUsed st \<and>
    hV (foldl (shift_col d) st js) = (\<lambda>j. if j \<in> set js \<and> hUsed st j then hV st j - d else hV st j) \<and>
    hMinv (foldl (shift_col d) st js) = (\<lambda>j. if j \<in> set js \<and> \<not> hUsed st j then hMinv st j - d else hMinv st j) \<and>
    hU (foldl (shift_col d) st js) =
       (\<lambda>r. if \<exists>j \<in> set js. hUsed st j \<and> hP st j = r then hU st r + d else hU st r)"
    using assms
  proof (induction js arbitrary: st)
    case (Cons j js)
    let ?st = "shift_col d st j"
    have frame: "hP ?st = hP st" "hWay ?st = hWay st" "hUsed ?st = hUsed st"
      "hV ?st = (if hUsed st j then (hV st)(j := hV st j - d) else hV st)"
      "hMinv ?st = (if hUsed st j then hMinv st else (hMinv st)(j := hMinv st j - d))"
      "hU ?st = (if hUsed st j then (hU st)(hP st j := hU st (hP st j) + d) else hU st)"
      by (simp_all add: shift_col_def)
    have IH: "hP (foldl (shift_col d) ?st js) = hP ?st \<and> hWay (foldl (shift_col d) ?st js) = hWay ?st \<and>
      hUsed (foldl (shift_col d) ?st js) = hUsed ?st \<and>
      hV (foldl (shift_col d) ?st js) = (\<lambda>j. if j \<in> set js \<and> hUsed ?st j then hV ?st j - d else hV ?st j) \<and>
      hMinv (foldl (shift_col d) ?st js) = (\<lambda>j. if j \<in> set js \<and> \<not> hUsed ?st j then hMinv ?st j - d else hMinv ?st j) \<and>
      hU (foldl (shift_col d) ?st js) =
         (\<lambda>r. if \<exists>j \<in> set js. hUsed ?st j \<and> hP ?st j = r then hU ?st r + d else hU ?st r)"
      by (rule Cons.IH) (use Cons.prems in \<open>auto simp: frame\<close>)
    have fresh: "\<not> (\<exists>k \<in> set js. hUsed st k \<and> hP st k = hP st j)" if "hUsed st j"
      using Cons.prems that by (metis distinct.simps(2) list.set_intros(1,2))
    show ?case
      using IH fresh Cons.prems(1) unfolding foldl_Cons frame by (auto simp: fun_eq_iff)
  qed simp
  then show "hP (foldl (shift_col d) st js) = hP st" "hWay (foldl (shift_col d) st js) = hWay st"
    "hUsed (foldl (shift_col d) st js) = hUsed st"
    "hV (foldl (shift_col d) st js) = (\<lambda>j. if j \<in> set js \<and> hUsed st j then hV st j - d else hV st j)"
    "hMinv (foldl (shift_col d) st js) = (\<lambda>j. if j \<in> set js \<and> \<not> hUsed st j then hMinv st j - d else hMinv st j)"
    "hU (foldl (shift_col d) st js) =
       (\<lambda>r. if \<exists>j \<in> set js. hUsed st j \<and> hP st j = r then hU st r + d else hU st r)"
    by blast+
qed

lemma foldl_scan_col:
  fixes st :: hung_row
  assumes "foldl (scan_col a i0 j0) (st, delta, j1) js = (st', delta', j1')" "distinct js"
  shows "hP st' = hP st \<and> hU st' = hU st \<and> hV st' = hV st \<and> hUsed st' = hUsed st \<and>
    (\<forall>j. hMinv st' j = (if j \<in> set js \<and> \<not> hUsed st j then min (hMinv st j) (red a st i0 j) else hMinv st j)) \<and>
    (\<forall>j. hWay st' j = (if j \<in> set js \<and> \<not> hUsed st j \<and> red a st i0 j < hMinv st j then j0 else hWay st j)) \<and>
    delta' \<le> delta \<and> (\<forall>j \<in> set js. \<not> hUsed st j \<longrightarrow> delta' \<le> hMinv st' j) \<and>
    (delta' = delta \<and> j1' = j1 \<or>
      (\<exists>j \<in> set js. \<not> hUsed st j \<and> j1' = Some j \<and> delta' = hMinv st' j))"
  using assms
proof (induction js arbitrary: st delta j1)
  case (Cons j js)
  show ?case
  proof (cases "hUsed st j")
    case True
    then have "foldl (scan_col a i0 j0) (st, delta, j1) js = (st', delta', j1')"
      using Cons.prems(1) by (simp add: scan_col_def)
    from Cons.IH [OF this] show ?thesis using Cons.prems(2) True by auto
  next
    case False
    define m where "m = min (hMinv st j) (red a st i0 j)"
    define st1 where "st1 = (if red a st i0 j < hMinv st j
      then st\<lparr>hMinv := (hMinv st)(j := red a st i0 j), hWay := (hWay st)(j := j0)\<rparr> else st)"
    have st1: "hP st1 = hP st" "hU st1 = hU st" "hV st1 = hV st" "hUsed st1 = hUsed st"
      "hMinv st1 = (hMinv st)(j := m)"
      "hWay st1 = (if red a st i0 j < hMinv st j then (hWay st)(j := j0) else hWay st)"
      by (auto simp: st1_def m_def)
    have red1: "red a st1 = red a st" by (simp add: red_def st1 fun_eq_iff)
    have "scan_col a i0 j0 (st, delta, j1) j = (if m < delta then (st1, m, Some j) else (st1, delta, j1))"
      using False by (auto simp: scan_col_def st1_def m_def red_def Let_def)
    then have "foldl (scan_col a i0 j0) (st1, min m delta, if m < delta then Some j else j1) js = (st', delta', j1')"
      using Cons.prems(1) by (auto simp: min_def split: if_splits)
    note IH = Cons.IH [OF this, unfolded st1(1-4) red1]
    have jnot: "j \<notin> set js" "distinct js" using Cons.prems(2) by auto
    have minv: "\<forall>k. hMinv st' k = (if k \<in> set (j # js) \<and> \<not> hUsed st k then min (hMinv st k) (red a st i0 k) else hMinv st k)"
      using IH [OF jnot(2)] jnot False by (auto simp: st1(5) m_def)
    have way: "\<forall>k. hWay st' k = (if k \<in> set (j # js) \<and> \<not> hUsed st k \<and> red a st i0 k < hMinv st k then j0 else hWay st k)"
      using IH [OF jnot(2)] jnot False by (auto simp: st1(5,6))
    have m: "hMinv st' j = m" using minv False by (simp add: m_def)
    have dm: "delta' \<le> min m delta" using IH [OF jnot(2)] by blast
    have "\<forall>k \<in> set js. \<not> hUsed st k \<longrightarrow> delta' \<le> hMinv st' k" using IH [OF jnot(2)] by blast
    then have "\<forall>k \<in> set (j # js). \<not> hUsed st k \<longrightarrow> delta' \<le> hMinv st' k"
      using m dm by simp
    moreover have "delta' = min m delta \<and> j1' = (if m < delta then Some j else j1) \<or>
      (\<exists>k \<in> set js. \<not> hUsed st k \<and> j1' = Some k \<and> delta' = hMinv st' k)"
      using IH [OF jnot(2)] by blast
    then have "delta' = delta \<and> j1' = j1 \<or>
      (\<exists>k \<in> set (j # js). \<not> hUsed st k \<and> j1' = Some k \<and> delta' = hMinv st' k)"
      using m False by (auto simp: min_def split: if_splits)
    moreover have "delta' \<le> delta" using dm by simp
    moreover have "hP st' = hP st \<and> hU st' = hU st \<and> hV st' = hV st \<and> hUsed st' = hUsed st"
      using IH [OF jnot(2)] by blast
    ultimately show ?thesis using minv way by blast
  qed
qed simp

end
