(* ===== verification/Hungarian_Correct.thy ===== *)
theory Hungarian_Correct
  imports Hungarian
begin

text \<open>
  Correctness of the Hungarian algorithm.  Between rows the potentials are feasible, matched pairs
  are tight and free columns have potential 0 (\<open>hung_inv\<close>); during the search the columns used so
  far form a tree of tight edges rooted at column 0 (\<open>phase_inv\<close>).  Every round succeeds (no index
  \<open>-1\<close>), the search ends within one round per column, the augmenting walk ends at column 0, and the
  final matching is optimal by duality.
\<close>

definition cost_ok :: "(nat \<Rightarrow> nat \<Rightarrow> real) \<Rightarrow> nat \<Rightarrow> nat \<Rightarrow> real \<Rightarrow> bool" where
  \<comment> \<open>at least as many columns as rows, and entries far below the sentinel \<open>inf\<close>\<close>
  "cost_ok a R C M \<longleftrightarrow>
     R \<le> C \<and> 0 \<le> M \<and> (\<forall>i \<in> {1..R}. \<forall>j \<in> {1..C}. \<bar>a i j\<bar> \<le> M) \<and> (2 * real R + 2) * M < hung_inf"

definition matched :: "nat \<Rightarrow> nat \<Rightarrow> nat \<Rightarrow> (nat \<Rightarrow> nat) \<Rightarrow> bool" where
  \<comment> \<open>leaving out column \<open>h\<close>, the columns \<open>0..C\<close> hold each of the rows \<open>1..i\<close> exactly once\<close>
  "matched C i h p \<longleftrightarrow>
     (\<forall>j \<le> C. j \<noteq> h \<longrightarrow> p j \<le> i) \<and> (\<forall>r \<in> {1..i}. \<exists>!j. j \<le> C \<and> j \<noteq> h \<and> p j = r)"

definition feasible :: "(nat \<Rightarrow> nat \<Rightarrow> real) \<Rightarrow> nat \<Rightarrow> nat \<Rightarrow> 'a hung_scheme \<Rightarrow> bool" where
  "feasible a C i st \<longleftrightarrow> (\<forall>r \<in> {1..i}. \<forall>j \<in> {1..C}. 0 \<le> red a st r j)"

definition tight :: "(nat \<Rightarrow> nat \<Rightarrow> real) \<Rightarrow> nat \<Rightarrow> 'a hung_scheme \<Rightarrow> (nat \<Rightarrow> nat) \<Rightarrow> bool" where
  "tight a C st p \<longleftrightarrow> (\<forall>j \<in> {1..C}. p j \<noteq> 0 \<longrightarrow> red a st (p j) j = 0)"

definition col_pot :: "nat \<Rightarrow> 'a hung_scheme \<Rightarrow> (nat \<Rightarrow> nat) \<Rightarrow> bool" where
  "col_pot C st p \<longleftrightarrow> (\<forall>j \<in> {1..C}. hV st j \<le> 0 \<and> (p j = 0 \<longrightarrow> hV st j = 0))"

definition row_pot :: "nat \<Rightarrow> real \<Rightarrow> 'a hung_scheme \<Rightarrow> bool" where
  "row_pot i M st \<longleftrightarrow> (\<forall>r \<in> {1..i}. - M \<le> hU st r) \<and> (\<forall>r > i. hU st r = 0)"

definition hung_inv :: "(nat \<Rightarrow> nat \<Rightarrow> real) \<Rightarrow> nat \<Rightarrow> real \<Rightarrow> nat \<Rightarrow> hung \<Rightarrow> bool" where
  "hung_inv a C M k st \<longleftrightarrow>
     matched C k 0 (hP st) \<and> feasible a C k st \<and> tight a C st (hP st) \<and> col_pot C st (hP st) \<and>
     row_pot k M st \<and> (\<forall>j \<in> {1..C}. - (2 * real k * M) \<le> hV st j)"

definition frontier :: "(nat \<Rightarrow> nat \<Rightarrow> real) \<Rightarrow> nat \<Rightarrow> hung_row \<Rightarrow> bool" where
  \<comment> \<open>\<open>minv j\<close> is the least reduced cost from a used column's row, attained at \<open>way j\<close>\<close>
  "frontier a C st \<longleftrightarrow>
     (\<forall>j \<in> {1..C}. \<not> hUsed st j \<longrightarrow>
        hUsed st (hWay st j) \<and> red a st (hP st (hWay st j)) j = hMinv st j \<and>
        (\<forall>k. hUsed st k \<longrightarrow> hMinv st j \<le> red a st (hP st k) j))"

definition tight_tree :: "(nat \<Rightarrow> nat \<Rightarrow> real) \<Rightarrow> hung_row \<Rightarrow> bool" where
  "tight_tree a st \<longleftrightarrow>
     (\<exists>rank :: nat \<Rightarrow> nat. \<forall>j. hUsed st j \<and> j \<noteq> 0 \<longrightarrow>
        hUsed st (hWay st j) \<and> rank (hWay st j) < rank j \<and> red a st (hP st (hWay st j)) j = 0)"

definition phase_inv :: "(nat \<Rightarrow> nat \<Rightarrow> real) \<Rightarrow> nat \<Rightarrow> real \<Rightarrow> nat \<Rightarrow> hung_row \<Rightarrow> nat \<Rightarrow> bool" where
  "phase_inv a C M k st j0 \<longleftrightarrow>
     hP st 0 = Suc k \<and> hUsed st 0 \<and> (\<forall>j. hUsed st j \<longrightarrow> j \<le> C \<and> hP st j \<noteq> 0) \<and>
     j0 \<in> {1..C} \<and> \<not> hUsed st j0 \<and> hMinv st j0 = 0 \<and>
     (\<forall>r \<in> {1..Suc k}. \<exists>!j. j \<le> C \<and> hP st j = r) \<and> (\<forall>j \<le> C. hP st j \<le> Suc k) \<and>
     feasible a C (Suc k) st \<and> tight a C st (hP st) \<and> col_pot C st (hP st) \<and>
     row_pot (Suc k) M st \<and> (\<forall>j \<in> {1..C}. - (2 * real k * M) - (hU st (Suc k) + M) \<le> hV st j) \<and>
     frontier a C st \<and> tight_tree a st"

subsection \<open>One round\<close>

lemma round_effect:
  fixes st :: hung_row and a :: "nat \<Rightarrow> nat \<Rightarrow> real" and j0 :: nat
  defines "used \<equiv> (hUsed st)(j0 := True)"
  defines "mm \<equiv> \<lambda>j. min (hMinv st j) (red a st (hP st j0) j)"
  assumes used: "\<And>j. used j \<Longrightarrow> j \<le> C"
    and inj: "\<And>j k. used j \<Longrightarrow> used k \<Longrightarrow> hP st j = hP st k \<Longrightarrow> j = k"
    and open_col: "jx \<in> {1..C}" "\<not> used jx" "mm jx < hung_inf"
  obtains st' \<delta> j1 where "search_round a C j0 st = Some (st', j1)"
    and "j1 \<in> {1..C}" "\<not> used j1" "\<delta> = mm j1" "\<And>j. j \<in> {1..C} \<Longrightarrow> \<not> used j \<Longrightarrow> \<delta> \<le> mm j"
    and "hP st' = hP st" "hUsed st' = used"
    and "\<And>j. hV st' j = (if used j then hV st j - \<delta> else hV st j)"
    and "\<And>r. hU st' r = (if \<exists>j. used j \<and> hP st j = r then hU st r + \<delta> else hU st r)"
    and "\<And>j. j \<in> {1..C} \<Longrightarrow> \<not> used j \<Longrightarrow> hMinv st' j = mm j - \<delta>"
    and "\<And>j. hWay st' j = (if j \<in> {1..C} \<and> \<not> used j \<and> red a st (hP st j0) j < hMinv st j then j0 else hWay st j)"
proof -
  define st1 where "st1 = st\<lparr>hUsed := used\<rparr>"
  have st1: "hP st1 = hP st" "hU st1 = hU st" "hV st1 = hV st" "hUsed st1 = used" "hMinv st1 = hMinv st"
    "hWay st1 = hWay st"
    by (simp_all add: st1_def)
  have red1: "red a st1 = red a st" by (simp add: red_def st1 fun_eq_iff)
  obtain st2 \<delta> j1 where scan: "foldl (scan_col a (hP st j0) j0) (st1, hung_inf, None) [1..<Suc C] = (st2, \<delta>, j1)"
    by (meson prod_cases3)
  have js: "set [1..<Suc C] = {1..C}" "distinct [1..<Suc C]" by auto
  note eff = foldl_scan_col [OF scan js(2), unfolded st1 red1 js(1)]
  have frame: "hP st2 = hP st" "hU st2 = hU st" "hV st2 = hV st" "hUsed st2 = used"
    using eff by blast+
  have minv: "hMinv st2 j = mm j" if "j \<in> {1..C}" "\<not> used j" for j
    using eff that by (simp add: mm_def)
  have way: "hWay st2 j = (if j \<in> {1..C} \<and> \<not> used j \<and> red a st (hP st j0) j < hMinv st j then j0 else hWay st j)" for j
    using eff by simp
  have least: "\<delta> \<le> mm j" if "j \<in> {1..C}" "\<not> used j" for j
    using eff that minv by metis
  have "\<delta> < hung_inf" using least [OF open_col(1,2)] open_col(3) by simp
  then obtain j where j: "j \<in> {1..C}" "\<not> used j" "j1 = Some j" "\<delta> = mm j"
    using eff minv by (metis less_irrefl)
  let ?st3 = "foldl (shift_col \<delta>) st2 [0..<Suc C]"
  have cols: "set [0..<Suc C] = {..C}" "distinct [0..<Suc C]" by auto
  have inj2: "\<forall>j k. j \<in> {..C} \<longrightarrow> k \<in> {..C} \<longrightarrow> hUsed st2 j \<longrightarrow> hUsed st2 k \<longrightarrow> hP st2 j = hP st2 k \<longrightarrow> j = k"
    using inj by (simp add: frame)
  note shift = foldl_shift_col [OF cols(2), of st2 \<delta>, unfolded cols(1), OF inj2 [rule_format], simplified frame]
  have "search_round a C j0 st = Some (?st3, j)"
    using scan j(3) by (simp add: search_round_def st1_def used_def Let_def del: upt_Suc)
  then show thesis
  proof (rule that [OF _ j(1,2,4)])
    show "hP ?st3 = hP st" "hUsed ?st3 = used" using shift by blast+
    show "hV ?st3 j = (if used j then hV st j - \<delta> else hV st j)" for j
      using shift(4) used by (auto simp: fun_eq_iff)
    show "hU ?st3 r = (if \<exists>j. used j \<and> hP st j = r then hU st r + \<delta> else hU st r)" for r
      using shift(6) used by (auto simp: fun_eq_iff Bex_def)
    show "hMinv ?st3 j = mm j - \<delta>" if "j \<in> {1..C}" "\<not> used j" for j
      using shift(5) minv that by (auto simp: fun_eq_iff)
    show "hWay ?st3 j = (if j \<in> {1..C} \<and> \<not> used j \<and> red a st (hP st j0) j < hMinv st j then j0 else hWay st j)" for j
      using shift(2) way by simp
  qed (use least in blast)
qed

lemma cost_okD:
  assumes "cost_ok a R C M" "r \<in> {1..R}" "j \<in> {1..C}"
  shows "- M \<le> a r j" "a r j \<le> M"
proof -
  have "\<bar>a r j\<bar> \<le> M" using assms unfolding cost_ok_def by blast
  then show "- M \<le> a r j" "a r j \<le> M" by auto
qed

lemma unique_rows:
  assumes "\<forall>r \<in> {1..i}. \<exists>!j. j \<le> C \<and> p j = r" "\<forall>j \<le> C. p j \<le> i"
    and "j \<le> C" "j' \<le> C" "p j = p j'" "p j \<noteq> (0::nat)"
  shows "j = j'"
proof -
  have "p j \<in> {1..i}" using assms(2,3,6) by auto
  then show ?thesis using assms(1,3,4,5) by metis
qed

lemma free_column:
  assumes "\<forall>r \<in> {1..i}. \<exists>!j. j \<le> C \<and> p j = r" "\<forall>j \<le> C. p j \<le> i" "p 0 \<noteq> (0::nat)" "i \<le> C"
  obtains jf where "jf \<in> {1..C}" "p jf = 0"
proof -
  have "\<exists>jf \<in> {1..C}. p jf = 0"
  proof (rule ccontr)
    assume none: "\<not> ?thesis"
    have nz: "p j \<noteq> 0" if "j \<le> C" for j
      using none that assms(3) by (cases "j = 0") auto
    have "inj_on p {..C}"
      by (rule inj_onI, rule unique_rows [OF assms(1,2)]) (use nz in auto)
    moreover have "p ` {..C} \<subseteq> {1..i}" using assms(2) nz by (auto simp: Suc_le_eq)
    ultimately have "card {..C} \<le> card {1..i}" by (metis card_inj_on_le finite_atLeastAtMost)
    then show False using assms(4) by simp
  qed
  then show thesis using that by blast
qed

lemma first_round:
  assumes ok: "cost_ok a R C M" and k: "Suc k \<le> R" and inv: "hung_inv a C M k st"
  defines "st0 \<equiv> \<lparr>hU = hU st, hV = hV st, hP = (hP st)(0 := Suc k), hWay = hWay st,
                  hMinv = (\<lambda>_. hung_inf), hUsed = (\<lambda>_. False)\<rparr>"
  obtains st' j1 where "search_round a C 0 st0 = Some (st', j1)" "phase_inv a C M k st' j1"
    "hUsed st' = (\<lambda>_. False)(0 := True)"
proof -
  have inv': "matched C k 0 (hP st)" "feasible a C k st" "tight a C st (hP st)" "col_pot C st (hP st)"
    "row_pot k M st" "\<And>j. j \<in> {1..C} \<Longrightarrow> - (2 * real k * M) \<le> hV st j"
    using inv unfolding hung_inv_def by blast+
  have C: "C \<ge> 1" "Suc k \<le> C" using ok k by (auto simp: cost_ok_def)
  have M: "0 \<le> M" "(2 * real R + 2) * M < hung_inf" using ok by (auto simp: cost_ok_def)
  have kM: "(2 * real k + 1) * M \<le> (2 * real R + 2) * M"
    by (rule mult_right_mono) (use k M in auto)
  let ?p = "(hP st)(0 := Suc k)"
  have red0: "red a st0 r j = a r j - hU st r - hV st j" for r j by (simp add: red_def st0_def)
  have u0: "hU st (Suc k) = 0" using inv'(5) by (simp add: row_pot_def)
  have small: "red a st0 (Suc k) j < hung_inf" if "j \<in> {1..C}" for j
  proof -
    have "a (Suc k) j \<le> M" by (rule cost_okD(2) [OF ok _ that]) (use k in simp)
    moreover have "- (2 * real k * M) \<le> hV st j" by (rule inv'(6) [OF that])
    ultimately show ?thesis using kM M(2) u0 by (simp add: red0 algebra_simps)
  qed
  have mm: "min (hMinv st0 j) (red a st0 (hP st0 0) j) = red a st0 (Suc k) j" if "j \<in> {1..C}" for j
    using small [OF that] by (simp add: st0_def min_def)
  obtain st' \<delta> j1 where eff: "search_round a C 0 st0 = Some (st', j1)"
    "j1 \<in> {1..C}" "\<not> ((hUsed st0)(0 := True)) j1" "\<delta> = min (hMinv st0 j1) (red a st0 (hP st0 0) j1)"
    "\<And>j. j \<in> {1..C} \<Longrightarrow> \<not> ((hUsed st0)(0 := True)) j \<Longrightarrow> \<delta> \<le> min (hMinv st0 j) (red a st0 (hP st0 0) j)"
    "hP st' = hP st0" "hUsed st' = (hUsed st0)(0 := True)"
    "\<And>j. hV st' j = (if ((hUsed st0)(0 := True)) j then hV st0 j - \<delta> else hV st0 j)"
    "\<And>r. hU st' r = (if \<exists>j. ((hUsed st0)(0 := True)) j \<and> hP st0 j = r then hU st0 r + \<delta> else hU st0 r)"
    "\<And>j. j \<in> {1..C} \<Longrightarrow> \<not> ((hUsed st0)(0 := True)) j \<Longrightarrow> hMinv st' j = min (hMinv st0 j) (red a st0 (hP st0 0) j) - \<delta>"
    "\<And>j. hWay st' j = (if j \<in> {1..C} \<and> \<not> ((hUsed st0)(0 := True)) j \<and> red a st0 (hP st0 0) j < hMinv st0 j then 0 else hWay st0 j)"
    by (rule round_effect [of st0 0 C 1 a]) (use C small [of 1] in \<open>auto simp: st0_def split: if_splits\<close>)
  have p': "hP st' = ?p" and used': "hUsed st' j \<longleftrightarrow> j = 0" for j
    using eff(6,7) by (auto simp: st0_def)
  have v': "hV st' j = hV st j" if "j \<in> {1..C}" for j using eff(8) [of j] that by (simp add: st0_def)
  have u': "hU st' r = (if r = Suc k then \<delta> else hU st r)" for r
    using eff(9) [of r] u0 by (auto simp: st0_def)
  have delta: "\<delta> = red a st0 (Suc k) j1" using eff(2,4) mm by simp
  have least: "\<delta> \<le> red a st0 (Suc k) j" if "j \<in> {1..C}" for j
    using eff(5) [OF that] mm [OF that] that by (auto simp: st0_def)
  have minv': "hMinv st' j = red a st0 (Suc k) j - \<delta>" if "j \<in> {1..C}" for j
    using eff(10) [OF that] mm [OF that] that by (auto simp: st0_def)
  have way': "hWay st' j = 0" if "j \<in> {1..C}" for j
    using eff(11) [of j] small [OF that] that by (auto simp: st0_def)
  have red': "red a st' r j = (if r = Suc k then red a st0 (Suc k) j - \<delta> else red a st r j)" if "j \<in> {1..C}" for r j
    using u0 by (simp add: red_def u' v' [OF that] st0_def)
  have rows: "hP st j \<le> k" if "j \<in> {1..C}" for j using inv'(1) that by (auto simp: matched_def)
  have "\<exists>!j. j \<le> C \<and> ?p j = r" if "r \<in> {1..Suc k}" for r
  proof (cases "r = Suc k")
    case True
    have "j = 0" if "j \<le> C" "?p j = r" for j
      using rows [of j] that True by (cases "j = 0") auto
    then show ?thesis using True by (intro ex1I [of _ 0]) auto
  next
    case False
    then have "\<exists>!j. j \<le> C \<and> j \<noteq> 0 \<and> hP st j = r" using inv'(1) that by (auto simp: matched_def)
    then show ?thesis using False by (auto simp: fun_upd_def)
  qed
  moreover have "?p j \<le> Suc k" if "j \<le> C" for j
    using rows [of j] that by (cases "j = 0") auto
  moreover have dM: "- M \<le> \<delta>"
  proof -
    have "- M \<le> a (Suc k) j1" by (rule cost_okD(1) [OF ok _ eff(2)]) (use k in simp)
    moreover have "hV st j1 \<le> 0" using inv'(4) eff(2) by (simp add: col_pot_def)
    ultimately show ?thesis using u0 by (simp add: delta red0)
  qed
  moreover have "feasible a C (Suc k) st'"
    using inv'(2) least by (auto simp: feasible_def red' le_Suc_eq)
  moreover have "tight a C st' ?p"
    using inv'(3) rows by (force simp: tight_def red')
  moreover have "col_pot C st' ?p" using inv'(4) v' by (simp add: col_pot_def)
  moreover have "row_pot (Suc k) M st'" using inv'(5) dM by (auto simp: row_pot_def u' le_Suc_eq)
  moreover have "- (2 * real k * M) - (hU st' (Suc k) + M) \<le> hV st' j" if "j \<in> {1..C}" for j
    using inv'(6) [OF that] v' [OF that] dM by (simp add: u')
  moreover have "frontier a C st'" by (auto simp: frontier_def used' way' minv' red' p')
  moreover have "tight_tree a st'" by (auto simp: tight_tree_def used')
  moreover have "hMinv st' j1 = 0" using minv' [OF eff(2)] delta by simp
  ultimately have "phase_inv a C M k st' j1"
    unfolding phase_inv_def p' using eff(2) used' by simp
  then show thesis using that eff(1) eff(7) by (simp add: st0_def)
qed

lemma phase_invD:
  assumes "phase_inv a C M k st j0"
  shows "hP st 0 = Suc k" "hUsed st 0" "\<And>j. hUsed st j \<Longrightarrow> j \<le> C \<and> hP st j \<noteq> 0"
    "j0 \<in> {1..C}" "\<not> hUsed st j0" "hMinv st j0 = 0"
    "\<forall>r \<in> {1..Suc k}. \<exists>!j. j \<le> C \<and> hP st j = r" "\<forall>j \<le> C. hP st j \<le> Suc k"
    "feasible a C (Suc k) st" "tight a C st (hP st)" "col_pot C st (hP st)" "row_pot (Suc k) M st"
    "\<And>j. j \<in> {1..C} \<Longrightarrow> - (2 * real k * M) - (hU st (Suc k) + M) \<le> hV st j"
    "frontier a C st" "tight_tree a st"
  using assms unfolding phase_inv_def by blast+

text \<open>The effect of a later round on the invariants, stated on the closed form of the new state.\<close>

lemma tight_tree_step:
  assumes tree: "tight_tree a st" and front: "frontier a C st" and j0: "j0 \<in> {1..C}" "\<not> hUsed st j0" "hMinv st j0 = 0"
    and used': "hUsed st' = (hUsed st)(j0 := True)" and p': "hP st' = hP st"
    and way': "\<And>j. hUsed st' j \<Longrightarrow> hWay st' j = hWay st j"
    and red': "\<And>j k. hUsed st' j \<Longrightarrow> hUsed st' k \<Longrightarrow> red a st' (hP st k) j = red a st (hP st k) j"
  shows "tight_tree a st'"
proof -
  obtain rank :: "nat \<Rightarrow> nat" where rank: "\<And>j. hUsed st j \<Longrightarrow> j \<noteq> 0 \<Longrightarrow>
      hUsed st (hWay st j) \<and> rank (hWay st j) < rank j \<and> red a st (hP st (hWay st j)) j = 0"
    using tree unfolding tight_tree_def by blast
  have new: "hUsed st (hWay st j0)" "red a st (hP st (hWay st j0)) j0 = 0"
    using front j0 by (auto simp: frontier_def)
  let ?rank = "rank(j0 := Suc (rank (hWay st j0)))"
  have "hUsed st' (hWay st' j) \<and> ?rank (hWay st' j) < ?rank j \<and> red a st' (hP st' (hWay st' j)) j = 0"
    if j: "hUsed st' j" "j \<noteq> 0" for j
  proof (cases "j = j0")
    case True
    have "hWay st j0 \<noteq> j0" using new(1) j0(2) by auto
    then show ?thesis using True new way' [OF j(1)] red' used' by (simp add: p')
  next
    case False
    then have old: "hUsed st j" using j used' by simp
    have "hWay st j \<noteq> j0" using rank [OF old j(2)] j0(2) by auto
    moreover have "hUsed st' (hWay st j)" using rank [OF old j(2)] used' by simp
    ultimately show ?thesis
      using False rank [OF old j(2)] way' [OF j(1)] red' [OF j(1)] used' by (simp add: p')
  qed
  then show ?thesis unfolding tight_tree_def by blast
qed

lemma frontier_step:
  assumes front: "frontier a C st" and used': "hUsed st' = (hUsed st)(j0 := True)" and p': "hP st' = hP st"
    and minv': "\<And>j. j \<in> {1..C} \<Longrightarrow> \<not> hUsed st' j \<Longrightarrow> hMinv st' j = min (hMinv st j) (red a st (hP st j0) j) - \<delta>"
    and way': "\<And>j. j \<in> {1..C} \<Longrightarrow> \<not> hUsed st' j \<Longrightarrow>
      hWay st' j = (if red a st (hP st j0) j < hMinv st j then j0 else hWay st j)"
    and red': "\<And>j k. j \<in> {1..C} \<Longrightarrow> \<not> hUsed st' j \<Longrightarrow> hUsed st' k \<Longrightarrow> red a st' (hP st k) j = red a st (hP st k) j - \<delta>"
  shows "frontier a C st'"
  unfolding frontier_def
proof (intro ballI impI)
  fix j assume j: "j \<in> {1..C}" "\<not> hUsed st' j"
  then have old: "hUsed st (hWay st j)" "red a st (hP st (hWay st j)) j = hMinv st j"
    "\<And>k. hUsed st k \<Longrightarrow> hMinv st j \<le> red a st (hP st k) j"
    using front used' by (auto simp: frontier_def split: if_splits)
  have w: "hUsed st' (hWay st' j)" using old(1) way' [OF j] used' by simp
  have "red a st' (hP st' (hWay st' j)) j = hMinv st' j"
    using red' [OF j w] way' [OF j] minv' [OF j] old(2) by (simp add: p' min_def)
  moreover have "hMinv st' j \<le> red a st' (hP st' k) j" if "hUsed st' k" for k
    using red' [OF j that] minv' [OF j] old(3) [of k] that used' by (auto simp: p' min_def split: if_splits)
  ultimately show "hUsed st' (hWay st' j) \<and> red a st' (hP st' (hWay st' j)) j = hMinv st' j \<and>
      (\<forall>k. hUsed st' k \<longrightarrow> hMinv st' j \<le> red a st' (hP st' k) j)"
    using w by blast
qed

lemma later_round:
  assumes ok: "cost_ok a R C M" and k: "Suc k \<le> R" and inv: "phase_inv a C M k st j0" and p0: "hP st j0 \<noteq> 0"
  obtains st' j1 where "search_round a C j0 st = Some (st', j1)" "phase_inv a C M k st' j1"
    "hUsed st' = (hUsed st)(j0 := True)"
proof -
  note I = phase_invD [OF inv]
  have C: "Suc k \<le> C" and M: "0 \<le> M" "(2 * real R + 2) * M < hung_inf" using ok k by (auto simp: cost_ok_def)
  define used where "used = (hUsed st)(j0 := True)"
  define mm where "mm j = min (hMinv st j) (red a st (hP st j0) j)" for j
  have used: "j \<le> C \<and> hP st j \<noteq> 0" if "used j" for j
    using that I(3) I(4) p0 by (auto simp: used_def split: if_splits)
  have inj: "j = j'" if "used j" "used j'" "hP st j = hP st j'" for j j'
    using unique_rows [OF I(7,8)] used that by metis
  have row: "hP st j \<in> {1..Suc k}" if "used j" for j using used [OF that] I(8) by (auto simp: Suc_le_eq)
  obtain jf where jf: "jf \<in> {1..C}" "hP st jf = 0" using free_column [OF I(7,8)] I(1) C by auto
  have jf_unused: "\<not> used jf" using used [of jf] jf(2) by auto
  have vjf: "hV st jf = 0" using I(11) jf by (simp add: col_pot_def)
  have j0u: "used j0" by (simp add: used_def)
  have small: "mm jf < hung_inf"
  proof -
    have "a (hP st j0) jf \<le> M" by (rule cost_okD(2) [OF ok _ jf(1)]) (use row [OF j0u] k in auto)
    moreover have "- M \<le> hU st (hP st j0)" using I(12) row [OF j0u] by (simp add: row_pot_def)
    moreover have "2 * M \<le> (2 * real R + 2) * M" by (rule mult_right_mono) (use M in auto)
    ultimately have "red a st (hP st j0) jf < hung_inf" using M(2) vjf by (simp add: red_def)
    then show ?thesis by (simp add: mm_def)
  qed
  obtain st' \<delta> j1 where eff: "search_round a C j0 st = Some (st', j1)"
    "j1 \<in> {1..C}" "\<not> used j1" "\<delta> = mm j1" "\<And>j. j \<in> {1..C} \<Longrightarrow> \<not> used j \<Longrightarrow> \<delta> \<le> mm j"
    "hP st' = hP st" "hUsed st' = used"
    "\<And>j. hV st' j = (if used j then hV st j - \<delta> else hV st j)"
    "\<And>r. hU st' r = (if \<exists>j. used j \<and> hP st j = r then hU st r + \<delta> else hU st r)"
    "\<And>j. j \<in> {1..C} \<Longrightarrow> \<not> used j \<Longrightarrow> hMinv st' j = mm j - \<delta>"
    "\<And>j. hWay st' j = (if j \<in> {1..C} \<and> \<not> used j \<and> red a st (hP st j0) j < hMinv st j then j0 else hWay st j)"
  proof (rule round_effect [of st j0 C jf a, folded used_def mm_def])
    show "j \<le> C" if "used j" for j using used [OF that] by simp
    show "j = j'" if "used j" "used j'" "hP st j = hP st j'" for j j' by (rule inj [OF that])
  qed (rule jf(1) | rule jf_unused | rule small | (rule that; assumption))+
  have nonneg: "0 \<le> red a st r j" if "r \<in> {1..Suc k}" "j \<in> {1..C}" for r j
    using I(9) that by (simp add: feasible_def)
  have below: "\<delta> \<le> red a st (hP st i) j" if "used i" "j \<in> {1..C}" "\<not> used j" for i j
  proof (cases "i = j0")
    case True
    then show ?thesis using eff(5) [OF that(2,3)] by (simp add: mm_def)
  next
    case False
    then have "hMinv st j \<le> red a st (hP st i) j"
      using I(14) that by (auto simp: frontier_def used_def split: if_splits)
    then show ?thesis using eff(5) [OF that(2,3)] by (simp add: mm_def)
  qed
  have d0: "0 \<le> \<delta>"
  proof -
    have "hMinv st j1 = red a st (hP st (hWay st j1)) j1" "used (hWay st j1)"
      using I(14) eff(2,3) by (auto simp: frontier_def used_def split: if_splits)
    then have "0 \<le> hMinv st j1" using nonneg [OF row eff(2)] by simp
    then show ?thesis using eff(4) nonneg [OF row [OF j0u] eff(2)] by (simp add: mm_def)
  qed
  have tree_row: "(\<exists>i. used i \<and> hP st i = r) \<longleftrightarrow> r \<in> hP st ` {i. used i}" for r by auto
  have red': "red a st' r j = red a st r j - (if r \<in> hP st ` {i. used i} then \<delta> else 0) + (if used j then \<delta> else 0)" for r j
    by (simp add: red_def eff(8,9) tree_row)
  have redu: "red a st' (hP st i) j = red a st (hP st i) j - \<delta> + (if used j then \<delta> else 0)" if "used i" for i j
    using that by (auto simp: red')
  have "feasible a C (Suc k) st'"
    unfolding feasible_def red' using nonneg below d0 by (auto simp: add_increasing2)
  moreover have "tight a C st' (hP st)"
    unfolding tight_def
  proof (intro ballI impI)
    fix j assume j: "j \<in> {1..C}" "hP st j \<noteq> 0"
    have "hP st j \<in> hP st ` {i. used i} \<longleftrightarrow> used j"
      using unique_rows [OF I(7,8)] used j by (metis (mono_tags, lifting) atLeastAtMost_iff image_iff mem_Collect_eq)
    then show "red a st' (hP st j) j = 0" using I(10) j by (simp add: red' tight_def)
  qed
  moreover have "col_pot C st' (hP st)"
    using I(11) d0 used by (fastforce simp: col_pot_def eff(8))
  moreover have "row_pot (Suc k) M st'"
    unfolding row_pot_def eff(9) tree_row
  proof (intro conjI ballI allI impI)
    show "- M \<le> (if r \<in> hP st ` {i. used i} then hU st r + \<delta> else hU st r)" if "r \<in> {1..Suc k}" for r
      using I(12) that d0 by (force simp: row_pot_def)
    show "(if r \<in> hP st ` {i. used i} then hU st r + \<delta> else hU st r) = 0" if "Suc k < r" for r
      using I(12) that row by (force simp: row_pot_def)
  qed
  moreover have "- (2 * real k * M) - (hU st' (Suc k) + M) \<le> hV st' j" if "j \<in> {1..C}" for j
  proof -
    have "hU st' (Suc k) = hU st (Suc k) + \<delta>"
      using I(1,2) eff(9) [of "Suc k"] by (auto simp: used_def)
    then show ?thesis using I(13) [OF that] d0 by (simp add: eff(8))
  qed
  moreover have "frontier a C st'"
    by (rule frontier_step [OF I(14), of _ j0 \<delta>])
      (use eff(7,10,11) redu in \<open>auto simp: eff(6) used_def mm_def\<close>)
  moreover have "tight_tree a st'"
    by (rule tight_tree_step [OF I(15,14,4,5,6)]) (use eff(6,7,11) redu in \<open>auto simp: used_def\<close>)
  moreover have "hMinv st' j1 = 0" using eff(4) eff(10) [OF eff(2,3)] by simp
  ultimately have "phase_inv a C M k st' j1"
    unfolding phase_inv_def using I(1,2,7,8) eff(2,3,6,7) used by (auto simp: used_def)
  then show thesis using that eff(1) eff(7) by (simp add: used_def)
qed

subsection \<open>The search and the augmenting walk end\<close>

lemma search_loop_from_phase:
  assumes ok: "cost_ok a R C M" and k: "Suc k \<le> R" and inv: "phase_inv a C M k st j0" and p0: "hP st j0 \<noteq> 0"
  obtains st' j1 where "search_loop a C j0 st = Some (st', j1)" "phase_inv a C M k st' j1" "hP st' j1 = 0"
proof -
  have "\<exists>st' j1. search_loop a C j0 st = Some (st', j1) \<and> phase_inv a C M k st' j1 \<and> hP st' j1 = 0"
    using inv p0
  proof (induction "card {j. j \<le> C \<and> \<not> hUsed st j}" arbitrary: st j0 rule: less_induct)
    case less
    obtain st' j1 where r: "search_round a C j0 st = Some (st', j1)" "phase_inv a C M k st' j1"
      "hUsed st' = (hUsed st)(j0 := True)"
      by (rule later_round [OF ok k less.prems])
    have j0: "j0 \<le> C" "\<not> hUsed st j0" using phase_invD(4,5) [OF less.prems(1)] by auto
    have "{j. j \<le> C \<and> \<not> hUsed st' j} \<subset> {j. j \<le> C \<and> \<not> hUsed st j}"
      unfolding r(3) using j0 by (auto split: if_splits)
    then have "card {j. j \<le> C \<and> \<not> hUsed st' j} < card {j. j \<le> C \<and> \<not> hUsed st j}"
      by (intro psubset_card_mono) auto
    note IH = less.hyps [OF this r(2)]
    show ?case
      using IH r by (subst search_loop.simps) (cases "hP st' j1 = 0"; auto)
  qed
  then show thesis using that by blast
qed

lemma search_loop_row:
  assumes ok: "cost_ok a R C M" and k: "Suc k \<le> R" and inv: "hung_inv a C M k st"
  defines "st0 \<equiv> \<lparr>hU = hU st, hV = hV st, hP = (hP st)(0 := Suc k), hWay = hWay st,
                  hMinv = (\<lambda>_. hung_inf), hUsed = (\<lambda>_. False)\<rparr>"
  obtains st' j1 where "search_loop a C 0 st0 = Some (st', j1)" "phase_inv a C M k st' j1" "hP st' j1 = 0"
proof -
  obtain st1 j where r: "search_round a C 0 st0 = Some (st1, j)" "phase_inv a C M k st1 j"
    by (rule first_round [OF ok k inv, folded st0_def])
  show thesis
  proof (cases "hP st1 j = 0")
    case True
    then show thesis using that [OF _ r(2)] r(1) by (simp add: search_loop.simps)
  next
    case False
    obtain st' j1 where "search_loop a C j st1 = Some (st', j1)" "phase_inv a C M k st' j1" "hP st' j1 = 0"
      by (rule search_loop_from_phase [OF ok k r(2) False])
    then show thesis using that r(1) False by (simp add: search_loop.simps [of a C 0])
  qed
qed

lemma augment_loop_correct:
  fixes rank :: "nat \<Rightarrow> nat"
  assumes tree: "\<And>j. j \<in> U \<Longrightarrow> j \<noteq> 0 \<Longrightarrow> way j \<in> U \<and> rank (way j) < rank j \<and> p0 (way j) \<noteq> 0 \<and>
      red a st (p0 (way j)) j = 0"
    and U: "U \<subseteq> {..C}"
    and hole: "h \<in> U" "\<And>j. j \<in> U \<Longrightarrow> rank j < rank h \<Longrightarrow> p j = p0 j"
    and m: "matched C i h p" and t: "\<And>j. j \<in> {1..C} \<Longrightarrow> j \<noteq> h \<Longrightarrow> p j \<noteq> 0 \<Longrightarrow> red a st (p j) j = 0"
  obtains q where "augment_loop way h p = Some q" "matched C i 0 q" "tight a C st q"
    "\<And>j. j \<in> {1..C} \<Longrightarrow> q j = 0 \<Longrightarrow> p j = 0"
proof -
  have "\<exists>q. augment_loop way h p = Some q \<and> matched C i 0 q \<and> tight a C st q \<and> (\<forall>j \<in> {1..C}. q j = 0 \<longrightarrow> p j = 0)"
    using hole m t
  proof (induction "rank h" arbitrary: h p rule: less_induct)
    case less
    show ?case
    proof (cases "h = 0")
      case True
      then show ?thesis using less.prems by (simp add: augment_loop.simps tight_def)
    next
      case False
      let ?w = "way h" and ?p = "p(h := p (way h))"
      note T = tree [OF less.prems(1) False]
      have pw: "p ?w = p0 ?w" using less.prems(2) T by blast
      have hw: "?w \<noteq> h" using T by auto
      have hC: "h \<le> C" "?w \<le> C" using less.prems(1) T U by auto
      have "matched C i ?w ?p"
        unfolding matched_def
      proof (intro conjI allI impI ballI)
        show "?p j \<le> i" if "j \<le> C" "j \<noteq> ?w" for j
          using less.prems(3) that hw hC by (auto simp: matched_def)
        show "\<exists>!j. j \<le> C \<and> j \<noteq> ?w \<and> ?p j = r" if "r \<in> {1..i}" for r
        proof -
          have "\<exists>!j. j \<le> C \<and> j \<noteq> h \<and> p j = r" using less.prems(3) that unfolding matched_def by blast
          then obtain j where j: "j \<le> C" "j \<noteq> h" "p j = r" "\<And>x. x \<le> C \<Longrightarrow> x \<noteq> h \<Longrightarrow> p x = r \<Longrightarrow> x = j"
            by blast
          let ?j = "if j = ?w then h else j"
          have "?j \<le> C \<and> ?j \<noteq> ?w \<and> ?p ?j = r" using j(1-3) hw hC by (cases "j = ?w") auto
          moreover have "x = ?j" if x: "x \<le> C \<and> x \<noteq> ?w \<and> ?p x = r" for x
          proof (cases "x = h")
            case True
            then have "j = ?w" using x j(4) [of ?w] hw hC by simp
            then show ?thesis using True by simp
          next
            case False
            then have "x = j" using x j(4) [of x] by simp
            then show ?thesis using x by auto
          qed
          ultimately show ?thesis by (rule ex1I)
        qed
      qed
      moreover have "red a st (?p j) j = 0" if "j \<in> {1..C}" "j \<noteq> ?w" "?p j \<noteq> 0" for j
        using less.prems(4) [of j] that T pw by (cases "j = h") auto
      moreover have "?p j = p0 j" if "j \<in> U" "rank j < rank ?w" for j
        using less.prems(2) [of j] that T by (cases "j = h") auto
      ultimately obtain q where q: "augment_loop way ?w ?p = Some q" "matched C i 0 q" "tight a C st q"
          "\<forall>j \<in> {1..C}. q j = 0 \<longrightarrow> ?p j = 0"
        using less.hyps [of ?w ?p] T by blast
      moreover have "p j = 0" if "?p j = 0" for j
        using that T pw by (cases "j = h") auto
      moreover have "augment_loop way h p = Some q"
        using False q(1) by (simp only: augment_loop.simps [of way h p] if_False)
      ultimately show ?thesis using q(2-4) by blast
    qed
  qed
  then show thesis using that by blast
qed

subsection \<open>Rows\<close>

lemma add_row_correct:
  assumes ok: "cost_ok a R C M" and k: "Suc k \<le> R" and inv: "hung_inv a C M k st"
  obtains st' where "add_row a C (Suc k) st = Some st'" "hung_inv a C M (Suc k) st'"
proof -
  obtain st1 j1 where s: "search_loop a C 0 \<lparr>hU = hU st, hV = hV st, hP = (hP st)(0 := Suc k), hWay = hWay st,
      hMinv = (\<lambda>_. hung_inf), hUsed = (\<lambda>_. False)\<rparr> = Some (st1, j1)" "phase_inv a C M k st1 j1" "hP st1 j1 = 0"
    by (rule search_loop_row [OF ok k inv])
  note I = phase_invD [OF s(2)]
  have C: "Suc k \<le> C" and M: "0 \<le> M" using ok k by (auto simp: cost_ok_def)
  obtain rank :: "nat \<Rightarrow> nat" where rank: "\<And>j. hUsed st1 j \<Longrightarrow> j \<noteq> 0 \<Longrightarrow>
      hUsed st1 (hWay st1 j) \<and> rank (hWay st1 j) < rank j \<and> red a st1 (hP st1 (hWay st1 j)) j = 0"
    using I(15) unfolding tight_tree_def by blast
  have last: "hUsed st1 (hWay st1 j1)" "red a st1 (hP st1 (hWay st1 j1)) j1 = 0"
    using I(14) I(4,5,6) by (auto simp: frontier_def)
  let ?U = "insert j1 {j. hUsed st1 j}" and ?rank = "rank(j1 := Suc (rank (hWay st1 j1)))"
  obtain q where q: "augment_loop (hWay st1) j1 (hP st1) = Some q" "matched C (Suc k) 0 q" "tight a C st1 q"
    "\<And>j. j \<in> {1..C} \<Longrightarrow> q j = 0 \<Longrightarrow> hP st1 j = 0"
  proof (rule augment_loop_correct [of ?U "hWay st1" ?rank "hP st1" a st1 C j1 "hP st1" "Suc k"])
    show "hWay st1 j \<in> ?U \<and> ?rank (hWay st1 j) < ?rank j \<and> hP st1 (hWay st1 j) \<noteq> 0 \<and>
        red a st1 (hP st1 (hWay st1 j)) j = 0" if "j \<in> ?U" "j \<noteq> 0" for j
    proof (cases "j = j1")
      case True
      then show ?thesis using last I(3,5) by auto
    next
      case False
      then have "hUsed st1 j" using that by simp
      then show ?thesis using rank [OF _ that(2)] I(3,5) False by fastforce
    qed
    show "?U \<subseteq> {..C}" using I(3,4) by auto
    show "matched C (Suc k) j1 (hP st1)"
      unfolding matched_def
    proof (intro conjI allI impI ballI)
      show "\<exists>!j. j \<le> C \<and> j \<noteq> j1 \<and> hP st1 j = r" if "r \<in> {1..Suc k}" for r
      proof -
        have "(j \<le> C \<and> j \<noteq> j1 \<and> hP st1 j = r) = (j \<le> C \<and> hP st1 j = r)" for j
          using that s(3) by auto
        then have "(\<lambda>j. j \<le> C \<and> j \<noteq> j1 \<and> hP st1 j = r) = (\<lambda>j. j \<le> C \<and> hP st1 j = r)" by blast
        moreover have "\<exists>!j. j \<le> C \<and> hP st1 j = r" using I(7) that by blast
        ultimately show ?thesis by (simp only:)
      qed
    qed (use I(8) in blast)
    show "red a st1 (hP st1 j) j = 0" if "j \<in> {1..C}" "hP st1 j \<noteq> 0" for j
      using I(10) that by (simp add: tight_def)
  qed (auto simp: that)
  define st' where "st' = \<lparr>hU = hU st1, hV = hV st1, hP = q, hWay = hWay st1\<rparr>"
  have run: "add_row a C (Suc k) st = Some st'"
    using s(1) q(1) by (simp add: add_row_def Let_def st'_def)
  have red': "red a st' = red a st1" and hP': "hP st' = q" by (simp_all add: red_def st'_def fun_eq_iff)
  obtain jf where jf: "jf \<in> {1..C}" "hP st1 jf = 0" using free_column [OF I(7,8)] I(1) C by auto
  have "hU st1 (Suc k) \<le> M"
  proof -
    have "0 \<le> red a st1 (Suc k) jf" using I(9) jf(1) by (simp add: feasible_def)
    moreover have "hV st1 jf = 0" using I(11) jf by (simp add: col_pot_def)
    moreover have "a (Suc k) jf \<le> M" by (rule cost_okD(2) [OF ok _ jf(1)]) (use k in simp)
    ultimately show ?thesis by (simp add: red_def)
  qed
  then have "- (2 * real (Suc k) * M) \<le> hV st' j" if "j \<in> {1..C}" for j
    using I(13) [OF that] by (simp add: st'_def algebra_simps)
  moreover have "matched C (Suc k) 0 (hP st')" using q(2) by (simp add: st'_def)
  moreover have "feasible a C (Suc k) st'" "tight a C st' (hP st')"
    using I(9) q(3) hP' by (simp_all add: feasible_def tight_def red')
  moreover have "col_pot C st' (hP st')" "row_pot (Suc k) M st'"
    using I(11,12) q(4) by (auto simp: col_pot_def row_pot_def st'_def)
  ultimately have "hung_inv a C M (Suc k) st'" unfolding hung_inv_def by blast
  then show thesis using that run by blast
qed

lemma hung_init_inv: "cost_ok a R C M \<Longrightarrow> hung_inv a C M 0 hung_init"
  by (auto simp: hung_inv_def hung_init_def matched_def feasible_def tight_def col_pot_def row_pot_def)

lemma add_rows_correct:
  assumes ok: "cost_ok a R C M"
  shows "k \<le> R \<Longrightarrow> hung_inv a C M k st \<Longrightarrow>
    \<exists>st'. add_rows a C [Suc k..<Suc R] st = Some st' \<and> hung_inv a C M R st'"
proof (induction "R - k" arbitrary: k st)
  case 0
  then show ?case by simp
next
  case (Suc d)
  then have k: "Suc k \<le> R" by simp
  obtain st' where st': "add_row a C (Suc k) st = Some st'" "hung_inv a C M (Suc k) st'"
    by (rule add_row_correct [OF ok k Suc.prems(2)])
  have "[Suc k..<Suc R] = Suc k # [Suc (Suc k)..<Suc R]" using k by (simp add: upt_conv_Cons del: upt_Suc)
  moreover have "\<exists>st''. add_rows a C [Suc (Suc k)..<Suc R] st' = Some st'' \<and> hung_inv a C M R st''"
    by (rule Suc.hyps(1)) (use Suc.hyps(2) k st'(2) in auto)
  ultimately show ?case using st'(1) by (simp del: upt_Suc)
qed

subsection \<open>Optimality by duality\<close>

definition assigns :: "nat \<Rightarrow> nat \<Rightarrow> (nat \<times> nat) set \<Rightarrow> bool" where
  \<comment> \<open>one column for every row \<open>1..R\<close>, no column twice\<close>
  "assigns R C A \<longleftrightarrow> A \<subseteq> {1..R} \<times> {1..C} \<and> inj_on fst A \<and> inj_on snd A \<and> card A = R"

definition final_pairs :: "nat \<Rightarrow> (nat \<Rightarrow> nat) \<Rightarrow> (nat \<times> nat) set" where
  "final_pairs C p = (\<lambda>j. (p j, j)) ` {j \<in> {1..C}. p j \<noteq> 0}"

lemma assigns_rows: "assigns R C A \<Longrightarrow> fst ` A = {1..R}"
  unfolding assigns_def by (intro card_subset_eq) (auto simp: card_image)

lemma assigns_potential:
  assumes "assigns R C A"
  shows "(\<Sum>x \<in> A. u (fst x) + v (snd x)) = (\<Sum>r \<in> {1..R}. u r) + (\<Sum>j \<in> snd ` A. v j :: real)"
proof -
  have "inj_on fst A" "inj_on snd A" using assms by (auto simp: assigns_def)
  then show ?thesis
    using assigns_rows [OF assms] by (simp add: sum.distrib sum.reindex [symmetric])
      (metis (no_types, lifting) comp_apply sum.cong sum.reindex)
qed

lemma final_pairs_assigns:
  assumes "matched C R 0 p"
  shows "assigns R C (final_pairs C p)"
proof -
  have m: "\<exists>!j. j \<le> C \<and> j \<noteq> 0 \<and> p j = r" if "r \<in> {1..R}" for r
    using assms that unfolding matched_def by blast
  have rows: "p j \<in> {1..R}" if "j \<in> {1..C}" "p j \<noteq> 0" for j
    using assms that by (auto simp: matched_def Suc_le_eq)
  have "fst ` final_pairs C p = {1..R}"
  proof
    show "fst ` final_pairs C p \<subseteq> {1..R}" using rows by (auto simp: final_pairs_def)
    show "{1..R} \<subseteq> fst ` final_pairs C p"
    proof
      fix r assume r: "r \<in> {1..R}"
      then obtain j where "j \<le> C" "j \<noteq> 0" "p j = r" using m by blast
      then show "r \<in> fst ` final_pairs C p" using r
        by (intro image_eqI [of _ fst "(p j, j)"]) (auto simp: final_pairs_def)
    qed
  qed
  moreover have inj: "inj_on fst (final_pairs C p)"
  proof (rule inj_onI)
    fix x y assume "x \<in> final_pairs C p" "y \<in> final_pairs C p" "fst x = fst y"
    then obtain j k where "x = (p j, j)" "y = (p k, k)" "j \<in> {1..C}" "k \<in> {1..C}" "p j \<noteq> 0" "p j = p k"
      by (auto simp: final_pairs_def)
    moreover from this have "j = k" using m [OF rows [of j]] by (metis atLeastAtMost_iff not_one_le_zero)
    ultimately show "x = y" by simp
  qed
  ultimately have "card (final_pairs C p) = R" using card_image [OF inj] by simp
  then show ?thesis using inj rows by (auto simp: assigns_def final_pairs_def inj_on_def)
qed

lemma final_pairs_optimal:
  assumes inv: "hung_inv a C M R st" and A: "assigns R C A"
  shows "(\<Sum>x \<in> final_pairs C (hP st). a (fst x) (snd x)) \<le> (\<Sum>x \<in> A. a (fst x) (snd x))"
proof -
  let ?S = "final_pairs C (hP st)"
  have I: "matched C R 0 (hP st)" "feasible a C R st" "tight a C st (hP st)" "col_pot C st (hP st)"
    using inv unfolding hung_inv_def by blast+
  have S: "assigns R C ?S" by (rule final_pairs_assigns [OF I(1)])
  have sndS: "snd ` ?S = {j \<in> {1..C}. hP st j \<noteq> 0}" by (force simp: final_pairs_def)
  have colA: "snd ` A \<subseteq> {1..C}" using A by (auto simp: assigns_def)
  have "(\<Sum>x \<in> ?S. a (fst x) (snd x)) = (\<Sum>x \<in> ?S. hU st (fst x) + hV st (snd x))"
  proof (rule sum.cong [OF refl])
    fix x assume "x \<in> ?S"
    then obtain j where "x = (hP st j, j)" "j \<in> {1..C}" "hP st j \<noteq> 0" by (auto simp: final_pairs_def)
    moreover from this have "red a st (hP st j) j = 0" using I(3) by (simp add: tight_def)
    ultimately show "a (fst x) (snd x) = hU st (fst x) + hV st (snd x)" by (simp add: red_def)
  qed
  also have "\<dots> = (\<Sum>r \<in> {1..R}. hU st r) + (\<Sum>j \<in> snd ` ?S. hV st j)" by (rule assigns_potential [OF S])
  also have "(\<Sum>j \<in> snd ` ?S. hV st j) = (\<Sum>j \<in> {1..C}. hV st j)"
    unfolding sndS by (intro sum.mono_neutral_left) (use I(4) in \<open>auto simp: col_pot_def\<close>)
  also have "\<dots> \<le> (\<Sum>j \<in> snd ` A. hV st j)"
  proof -
    have "(\<Sum>j \<in> {1..C}. hV st j) = (\<Sum>j \<in> {1..C} - snd ` A. hV st j) + (\<Sum>j \<in> snd ` A. hV st j)"
      by (rule sum.subset_diff [OF colA]) simp
    moreover have "(\<Sum>j \<in> {1..C} - snd ` A. hV st j) \<le> 0"
      by (rule sum_nonpos) (use I(4) in \<open>auto simp: col_pot_def\<close>)
    ultimately show ?thesis by simp
  qed
  also have "(\<Sum>r \<in> {1..R}. hU st r) + (\<Sum>j \<in> snd ` A. hV st j) = (\<Sum>x \<in> A. hU st (fst x) + hV st (snd x))"
    by (rule assigns_potential [OF A, symmetric])
  also have "\<dots> \<le> (\<Sum>x \<in> A. a (fst x) (snd x))"
  proof (rule sum_mono)
    fix x assume "x \<in> A"
    then have "fst x \<in> {1..R}" "snd x \<in> {1..C}" using A by (auto simp: assigns_def)
    then have "0 \<le> red a st (fst x) (snd x)" using I(2) by (simp add: feasible_def)
    then show "hU st (fst x) + hV st (snd x) \<le> a (fst x) (snd x)" by (simp add: red_def)
  qed
  finally show ?thesis by simp
qed

subsection \<open>The matrix level\<close>

definition rectangular :: "nat \<Rightarrow> nat \<Rightarrow> matrix \<Rightarrow> bool" where
  "rectangular n m cost \<longleftrightarrow> length cost = n \<and> (\<forall>row \<in> set cost. length row = m)"

definition entries_within :: "real \<Rightarrow> matrix \<Rightarrow> bool" where
  "entries_within M cost \<longleftrightarrow> (\<forall>row \<in> set cost. \<forall>x \<in> set row. \<bar>x\<bar> \<le> M)"

definition valid_pairs :: "nat \<Rightarrow> nat \<Rightarrow> (nat \<times> nat) set \<Rightarrow> bool" where
  \<comment> \<open>no row twice, no column twice, and as many pairs as the matrix admits\<close>
  "valid_pairs n m A \<longleftrightarrow> A \<subseteq> {..<n} \<times> {..<m} \<and> inj_on fst A \<and> inj_on snd A \<and> card A = min n m"

definition pairs_cost :: "matrix \<Rightarrow> (nat \<times> nat) set \<Rightarrow> real" where
  "pairs_cost cost A = (\<Sum>x \<in> A. cost ! fst x ! snd x)"

definition pair_rc :: "pair \<Rightarrow> nat \<times> nat" where
  "pair_rc x = (prRow x, prCol x)"

definition embed :: "bool \<Rightarrow> nat \<times> nat \<Rightarrow> nat \<times> nat" where
  \<comment> \<open>a pair of the matrix as the 1-indexed pair of the (possibly transposed) work matrix\<close>
  "embed t x = (if t then (Suc (snd x), Suc (fst x)) else (Suc (fst x), Suc (snd x)))"

definition work_entry :: "matrix \<Rightarrow> bool \<Rightarrow> nat \<Rightarrow> nat \<Rightarrow> real" where
  "work_entry cost t i j = (if t then transpose_matrix cost else cost) ! (i - 1) ! (j - 1)"

lemma inj_embed: "inj (embed t)"
  by (auto simp: inj_def embed_def split: if_splits)

lemma inj_embed_coord:
  assumes "inj_on fst (embed t ` A)" "inj_on snd (embed t ` A)"
  shows "inj_on fst A" "inj_on snd A"
proof -
  have "inj_on fst A \<and> inj_on snd A"
  proof (cases t)
    case True
    then have "fst \<circ> embed t = Suc \<circ> snd" "snd \<circ> embed t = Suc \<circ> fst" by (auto simp: embed_def)
    then show ?thesis using assms by (metis comp_inj_on_iff inj_embed inj_on_imageI2 inj_on_subset subset_UNIV)
  next
    case False
    then have "fst \<circ> embed t = Suc \<circ> fst" "snd \<circ> embed t = Suc \<circ> snd" by (auto simp: embed_def)
    then show ?thesis using assms by (metis comp_inj_on_iff inj_embed inj_on_imageI2 inj_on_subset subset_UNIV)
  qed
  then show "inj_on fst A" "inj_on snd A" by auto
qed

lemma work_entry_embed:
  assumes "rectangular n m cost" "r < n" "c < m"
  shows "work_entry cost t (fst (embed t (r, c))) (snd (embed t (r, c))) = cost ! r ! c"
proof -
  have "cost \<noteq> []" using assms by (auto simp: rectangular_def)
  then have "length (hd cost) = m" using assms(1) by (simp add: rectangular_def)
  then show ?thesis using assms by (simp add: work_entry_def embed_def transpose_matrix_def rectangular_def)
qed

lemma work_cost_ok:
  assumes "rectangular n m cost" "entries_within M cost" "0 < n" "0 < m" "0 \<le> M"
    and "(2 * real (min n m) + 2) * M < hung_inf"
  shows "cost_ok (work_entry cost (n > m)) (min n m) (max n m) M"
proof -
  have "\<bar>work_entry cost (n > m) i j\<bar> \<le> M" if "i \<in> {1..min n m}" "j \<in> {1..max n m}" for i j
  proof -
    have "\<exists>r < n. \<exists>c < m. embed (n > m) (r, c) = (i, j)"
      using that by (cases i; cases j) (auto simp: embed_def max_def split: if_splits)
    then obtain r c where rc: "r < n" "c < m" "embed (n > m) (r, c) = (i, j)" by blast
    then have "work_entry cost (n > m) i j = cost ! r ! c" using work_entry_embed [OF assms(1) rc(1,2), of "n > m"] by simp
    moreover have "cost ! r \<in> set cost" "cost ! r ! c \<in> set (cost ! r)"
      using assms(1) rc(1,2) by (auto simp: rectangular_def)
    then have "\<bar>cost ! r ! c\<bar> \<le> M" using assms(2) by (auto simp: entries_within_def)
    ultimately show ?thesis by simp
  qed
  then show ?thesis using assms(5,6) by (simp add: cost_ok_def)
qed

lemma embed_assigns:
  assumes "valid_pairs n m A"
  shows "assigns (min n m) (max n m) (embed (n > m) ` A)"
proof -
  have A: "A \<subseteq> {..<n} \<times> {..<m}" "inj_on fst A" "inj_on snd A" "card A = min n m"
    using assms by (auto simp: valid_pairs_def)
  have "inj_on fst (embed (n > m) ` A)" "inj_on snd (embed (n > m) ` A)"
    using A(2,3) by (auto simp: inj_on_def embed_def)
  moreover have "card (embed (n > m) ` A) = min n m"
    by (subst card_image) (auto intro: inj_on_subset [OF inj_embed] simp: A(4))
  moreover have "embed (n > m) ` A \<subseteq> {1..min n m} \<times> {1..max n m}"
    using A(1) by (auto simp: embed_def split: if_splits)
  ultimately show ?thesis by (simp add: assigns_def)
qed

lemma pairs_cost_embed:
  assumes "rectangular n m cost" "A \<subseteq> {..<n} \<times> {..<m}"
  shows "pairs_cost cost A = (\<Sum>x \<in> embed t ` A. work_entry cost t (fst x) (snd x))"
proof -
  have "(\<Sum>x \<in> embed t ` A. work_entry cost t (fst x) (snd x)) =
      (\<Sum>x \<in> A. work_entry cost t (fst (embed t x)) (snd (embed t x)))"
    by (subst sum.reindex) (auto intro: inj_on_subset [OF inj_embed])
  also have "\<dots> = pairs_cost cost A"
    unfolding pairs_cost_def
  proof (rule sum.cong [OF refl])
    fix x assume "x \<in> A"
    then have "fst x < n" "snd x < m" using assms(2) by auto
    then show "work_entry cost t (fst (embed t x)) (snd (embed t x)) = cost ! fst x ! snd x"
      using work_entry_embed [OF assms(1), of "fst x" "snd x" t] by simp
  qed
  finally show ?thesis by simp
qed

lemma collect_pairs_set:
  "embed t ` pair_rc ` set (collect_pairs cost t C p) = final_pairs C p"
proof -
  have pos: "p j \<noteq> 0 \<Longrightarrow> Suc (p j - Suc 0) = p j" for j by simp
  show ?thesis
    by (force simp: collect_pairs_def final_pairs_def embed_def pair_rc_def Let_def image_image pos
        simp del: upt_Suc)
qed

lemma distinct_collect_pairs: "distinct (map pair_rc (collect_pairs cost t C p))"
proof -
  have "inj_on (\<lambda>j. embed t (pair_rc (let r = (if t then j - 1 else p j - 1); c = (if t then p j - 1 else j - 1)
          in \<lparr>prRow = r, prCol = c, prCost = cost ! r ! c\<rparr>))) {j. p j \<noteq> 0 \<and> j \<in> {1..C}}"
    by (auto simp: inj_on_def embed_def pair_rc_def Let_def)
  then have "distinct (map (embed t \<circ> pair_rc) (collect_pairs cost t C p))"
    by (simp add: collect_pairs_def distinct_map comp_def inj_on_def Let_def del: upt_Suc)
  then show ?thesis
    by (simp add: distinct_map inj_on_def)
qed

lemma MinCostAssignment_run_optimal:
  assumes "rectangular n m cost" "entries_within M cost" "0 \<le> M" "(2 * real (min n m) + 2) * M < hung_inf"
  obtains ps where "MinCostAssignment_run cost = Some ps" "sorted (map prRow ps)"
    "distinct (map pair_rc ps)" "valid_pairs n m (pair_rc ` set ps)"
    "\<And>x. x \<in> set ps \<Longrightarrow> prCost x = cost ! prRow x ! prCol x"
    "\<And>A. valid_pairs n m A \<Longrightarrow> pairs_cost cost (pair_rc ` set ps) \<le> pairs_cost cost A"
proof (cases "n = 0 \<or> m = 0")
  case True
  then have run: "MinCostAssignment_run cost = Some []"
    using assms(1) by (cases cost) (auto simp: MinCostAssignment_run_def rectangular_def)
  have empty: "A = {}" if "valid_pairs n m A" for A
    using that True by (auto simp: valid_pairs_def)
  have "pairs_cost cost (pair_rc ` set []) \<le> pairs_cost cost A" if "valid_pairs n m A" for A
    using empty [OF that] by (simp add: pairs_cost_def)
  moreover have "valid_pairs n m (pair_rc ` set [])" using True by (auto simp: valid_pairs_def)
  ultimately show thesis using that [OF run] by simp
next
  case False
  then have nm: "0 < n" "0 < m" by auto
  let ?t = "n > m" and ?R = "min n m" and ?C = "max n m"
  note ok = work_cost_ok [OF assms(1,2) nm assms(3,4)]
  obtain st where st: "add_rows (work_entry cost ?t) ?C [Suc 0..<Suc ?R] hung_init = Some st"
    "hung_inv (work_entry cost ?t) ?C M ?R st"
    using add_rows_correct [OF ok le0 hung_init_inv [OF ok]] by blast
  let ?ps = "collect_pairs cost ?t ?C (hP st)"
  have ne: "cost \<noteq> []" "hd cost \<noteq> []" "length (hd cost) = m" "length cost = n"
    using assms(1) nm by (auto simp: rectangular_def neq_Nil_conv)
  have run: "MinCostAssignment_run cost = Some (sort_key prRow ?ps)"
  proof -
    have "(\<lambda>i j. (if ?t then transpose_matrix cost else cost) ! (i - 1) ! (j - 1)) = work_entry cost ?t"
      by (simp add: fun_eq_iff work_entry_def)
    moreover have "?R = (if ?t then m else n)" "?C = (if ?t then n else m)" by auto
    ultimately show ?thesis using ne st(1) by (simp add: MinCostAssignment_run_def Let_def del: upt_Suc)
  qed
  let ?A = "pair_rc ` set ?ps"
  have S: "embed ?t ` ?A = final_pairs ?C (hP st)" by (rule collect_pairs_set)
  have "matched ?C ?R 0 (hP st)" using st(2) by (simp add: hung_inv_def)
  then have as: "assigns ?R ?C (embed ?t ` ?A)" unfolding S by (rule final_pairs_assigns)
  have sub: "?A \<subseteq> {..<n} \<times> {..<m}"
  proof
    fix x assume "x \<in> ?A"
    then have "embed ?t x \<in> {1..?R} \<times> {1..?C}" using as by (auto simp: assigns_def)
    then show "x \<in> {..<n} \<times> {..<m}" by (cases x) (auto simp: embed_def split: if_splits)
  qed
  have valid: "valid_pairs n m ?A"
  proof -
    have "inj_on fst ?A" "inj_on snd ?A" using inj_embed_coord [of ?t ?A] as by (simp_all add: assigns_def)
    moreover have "card ?A = ?R"
      using as card_image [OF inj_on_subset [OF inj_embed subset_UNIV]] by (metis assigns_def)
    ultimately show ?thesis using sub by (simp add: valid_pairs_def)
  qed
  have opt: "pairs_cost cost ?A \<le> pairs_cost cost A" if "valid_pairs n m A" for A
  proof -
    have "A \<subseteq> {..<n} \<times> {..<m}" using that by (simp add: valid_pairs_def)
    then show ?thesis
      using final_pairs_optimal [OF st(2) embed_assigns [OF that]]
      by (simp only: pairs_cost_embed [OF assms(1), of _ ?t] sub S)
  qed
  show thesis
  proof (rule that [OF run])
    show "distinct (map pair_rc (sort_key prRow ?ps))"
      using distinct_collect_pairs [of cost ?t ?C "hP st"] by (simp add: distinct_map)
    show "prCost x = cost ! prRow x ! prCol x" if "x \<in> set (sort_key prRow ?ps)" for x
      using that by (auto simp: collect_pairs_def Let_def simp del: upt_Suc)
  qed (use valid opt in auto)
qed

subsection \<open>The solver as callers see it\<close>

text \<open>
  C30. For a rectangular cost matrix whose entries are far below the solver's sentinel,
  \<open>MinCostAssignment\<close> returns (no index \<open>-1\<close>, no endless search): as many pairs as the smaller
  dimension, sorted by row, no row and no column twice, each with its matrix entry as cost, and the
  total cost is the least of all such assignments.
\<close>

theorem MinCostAssignment_optimal:
  assumes "rectangular n m cost" "entries_within M cost" "0 \<le> M" "(2 * real (min n m) + 2) * M < hung_inf"
  shows "MinCostAssignment_run cost = Some (MinCostAssignment cost) \<and>
    sorted (map prRow (MinCostAssignment cost)) \<and> distinct (map pair_rc (MinCostAssignment cost)) \<and>
    valid_pairs n m (pair_rc ` set (MinCostAssignment cost)) \<and>
    (\<forall>x \<in> set (MinCostAssignment cost). prCost x = cost ! prRow x ! prCol x) \<and>
    (\<forall>A. valid_pairs n m A \<longrightarrow> pairs_cost cost (pair_rc ` set (MinCostAssignment cost)) \<le> pairs_cost cost A)"
proof -
  obtain ps where ps: "MinCostAssignment_run cost = Some ps" "sorted (map prRow ps)"
    "distinct (map pair_rc ps)" "valid_pairs n m (pair_rc ` set ps)"
    "\<And>x. x \<in> set ps \<Longrightarrow> prCost x = cost ! prRow x ! prCol x"
    "\<And>A. valid_pairs n m A \<Longrightarrow> pairs_cost cost (pair_rc ` set ps) \<le> pairs_cost cost A"
    by (rule MinCostAssignment_run_optimal [OF assms]) blast
  have "MinCostAssignment cost = ps" using ps(1) by (simp add: MinCostAssignment_def)
  then show ?thesis using ps by blast
qed

theorem MinCostAssignment_optimal_witness:
  "valid_pairs 2 3 (pair_rc ` set (MinCostAssignment [[4, 1, 3], [2, 0, 5]])) \<and>
   pairs_cost [[4, 1, 3], [2, 0, 5]] (pair_rc ` set (MinCostAssignment [[4, 1, 3], [2, 0, 5]])) \<le> 3"
proof -
  have "rectangular 2 3 [[4, 1, 3], [2, 0, 5]]" "entries_within 5 [[4, 1, 3], [2, 0, 5]]"
    "(2 * real (min 2 3) + 2) * 5 < hung_inf"
    by (simp_all add: rectangular_def entries_within_def hung_inf_def)
  note opt = MinCostAssignment_optimal [OF this(1,2) _ this(3)]
  have "valid_pairs 2 3 {(0, 1), (1, 0)}" by (auto simp: valid_pairs_def inj_on_def)
  moreover have "pairs_cost [[4, 1, 3], [2, 0, 5]] {(0, 1), (1, 0)} = 3" by (simp add: pairs_cost_def)
  ultimately show ?thesis using opt by fastforce
qed

end
