(* ===== verification/Matching.thy ===== *)
theory Matching
  imports Domain Routing_Correct Spatial Hungarian_Correct
begin

text \<open>
  \<open>internal/matching/baseline.go\<close> and \<open>optimized.go\<close>: the two assignment strategies.  The batch
  timings the functions also return are wall-clock measurements and are left out.  Reading a driver
  that is not in the driver map dereferences a nil pointer in Go; \<open>Optimized\<close> is \<open>None\<close> there.

  The lemmas show what both strategies promise the simulation (\<open>batch_contract\<close>) and what each
  adds: \<open>Baseline\<close> takes the nearest reachable idle driver, \<open>Optimized\<close> serves as many orders as
  the candidate lists admit, at the least total cost.
\<close>

type_synonym drivers = "(driver_id, driver) gomap"

subsection \<open>Baseline\<close>

fun nearest_loop :: "city \<Rightarrow> drivers \<Rightarrow> node_id \<Rightarrow> driver_id list \<Rightarrow> (driver_id \<times> route) option \<Rightarrow> (driver_id \<times> route) option" where
  "nearest_loop c drivers pickup [] best = best"
| "nearest_loop c drivers pickup (i # ids) best =
     (case map_of drivers i of
        None \<Rightarrow> nearest_loop c drivers pickup ids best
      | Some d \<Rightarrow>
          (case FindRoute c (dPosition d) pickup of
             None \<Rightarrow> nearest_loop c drivers pickup ids best
           | Some r \<Rightarrow>
               nearest_loop c drivers pickup ids
                 (case best of
                    None \<Rightarrow> Some (i, r)
                  | Some (b, rb) \<Rightarrow> if rDistance r < rDistance rb then Some (i, r) else best)))"

definition baselineExcluding ::
  "city \<Rightarrow> drivers \<Rightarrow> node_id \<Rightarrow> driver_id list \<Rightarrow> (driver_id \<times> route) option" where
  "baselineExcluding c drivers pickup exclude =
     nearest_loop c drivers pickup
       (sort (map fst (filter (\<lambda>(i, d). dStatus d = DriverIdle \<and> i \<notin> set exclude) drivers))) None"

definition Baseline :: "city \<Rightarrow> drivers \<Rightarrow> node_id \<Rightarrow> (driver_id \<times> route) option" where
  "Baseline c drivers pickup = baselineExcluding c drivers pickup []"

record assignment =
  aOrderID :: order_id
  aDriverID :: driver_id
  aToPickup :: route

fun batch_loop :: "city \<Rightarrow> drivers \<Rightarrow> order list \<Rightarrow> driver_id list \<Rightarrow> assignment list" where
  "batch_loop c drivers [] taken = []"
| "batch_loop c drivers (ord # os) taken =
     (case baselineExcluding c drivers (oPickup ord) taken of
        None \<Rightarrow> batch_loop c drivers os taken
      | Some (i, r) \<Rightarrow>
          \<lparr>aOrderID = oID ord, aDriverID = i, aToPickup = r\<rparr> # batch_loop c drivers os (i # taken))"

definition BaselineBatch :: "city \<Rightarrow> drivers \<Rightarrow> order list \<Rightarrow> assignment list" where
  "BaselineBatch c drivers orders = batch_loop c drivers (sort_key oID orders) []"

subsection \<open>Optimized\<close>

record cost_weights =
  wPickupDistance :: real
  wWaitTime :: real
  wDriverIdleTime :: real

definition DefaultCostWeights :: cost_weights where
  "DefaultCostWeights = \<lparr>wPickupDistance = 1, wWaitTime = 1, wDriverIdleTime = 1 / 10\<rparr>"

definition pair_cost :: "cost_weights \<Rightarrow> real \<Rightarrow> order \<Rightarrow> driver \<Rightarrow> route \<Rightarrow> real" where
  "pair_cost w now ord d r =
     wPickupDistance w * rDistance r - wWaitTime w * (now - oCreatedAt ord) - wDriverIdleTime w * (now - dIdleSince d)"

definition order_candidates :: "city \<Rightarrow> grid \<Rightarrow> int \<Rightarrow> order \<Rightarrow> driver_id list" where
  "order_candidates c index k ord =
     Candidates index \<lparr>ptX = nX (node_at c (oPickup ord)), ptY = nY (node_at c (oPickup ord))\<rparr> k"

definition candidate_columns :: "driver_id list list \<Rightarrow> driver_id list" where
  "candidate_columns per_order = sort (remdups (concat per_order))"

definition col_index :: "driver_id list \<Rightarrow> (driver_id, nat) gomap" where
  "col_index columns = zip columns [0..<length columns]"

fun fill_row ::
  "city \<Rightarrow> drivers \<Rightarrow> cost_weights \<Rightarrow> real \<Rightarrow> driver_id list \<Rightarrow> order \<Rightarrow> driver_id list \<Rightarrow>
   real list \<times> (driver_id, route) gomap \<Rightarrow> (real list \<times> (driver_id, route) gomap) option" where
  "fill_row c drivers w now columns ord [] acc = Some acc"
| "fill_row c drivers w now columns ord (i # ids) (row, routes) =
     (case map_of drivers i of
        None \<Rightarrow> None
      | Some d \<Rightarrow>
          (case FindRoute c (dPosition d) (oPickup ord) of
             None \<Rightarrow> fill_row c drivers w now columns ord ids (row, routes)
           | Some r \<Rightarrow>
               fill_row c drivers w now columns ord ids
                 (row[get_or 0 (col_index columns) i := pair_cost w now ord d r], AList.update i r routes)))"

fun fill_rows ::
  "city \<Rightarrow> drivers \<Rightarrow> cost_weights \<Rightarrow> real \<Rightarrow> driver_id list \<Rightarrow> (order \<times> driver_id list) list \<Rightarrow>
   (real list \<times> (driver_id, route) gomap) list option" where
  "fill_rows c drivers w now columns [] = Some []"
| "fill_rows c drivers w now columns ((ord, cands) # rest) =
     (case fill_row c drivers w now columns ord cands (replicate (length columns) Unreachable, []) of
        None \<Rightarrow> None
      | Some row \<Rightarrow> map_option ((#) row) (fill_rows c drivers w now columns rest))"

definition rowIsInfeasible :: "real list \<Rightarrow> bool" where
  "rowIsInfeasible row = list_all (\<lambda>x. \<not> x < Unreachable) row"

definition zero_route :: route where
  "zero_route = \<lparr>rNodes = [], rDistance = 0\<rparr>"

definition Optimized ::
  "city \<Rightarrow> drivers \<Rightarrow> order list \<Rightarrow> grid \<Rightarrow> int \<Rightarrow> cost_weights \<Rightarrow> real \<Rightarrow> (assignment list \<times> order_id list) option" where
  "Optimized c drivers orders index k w now =
     (if orders = [] then Some ([], [])
      else
        let srt = sort_key oID orders;
            per_order = map (order_candidates c index k) srt;
            columns = candidate_columns per_order
        in case fill_rows c drivers w now columns (zip srt per_order) of
             None \<Rightarrow> None
           | Some rows \<Rightarrow>
               (case MinCostAssignment_run (map fst rows) of
                  None \<Rightarrow> None
                | Some pairs \<Rightarrow>
                    let good = filter (\<lambda>p. \<not> prCost p \<ge> Unreachable) pairs;
                        assigned = map (\<lambda>p. \<lparr>aOrderID = oID (srt ! prRow p), aDriverID = columns ! prCol p,
                          aToPickup = get_or zero_route (snd (rows ! prRow p)) (columns ! prCol p)\<rparr>) good;
                        infeasible = map (\<lambda>i. oID (srt ! i))
                          (filter (\<lambda>i. i \<notin> prRow ` set good \<and> 0 < length (per_order ! i) \<and> rowIsInfeasible (fst (rows ! i)))
                            [0..<length srt])
                    in Some (assigned, infeasible)))"

subsection \<open>The nearest driver\<close>

definition reaches :: "city \<Rightarrow> drivers \<Rightarrow> node_id \<Rightarrow> driver_id \<Rightarrow> route \<Rightarrow> bool" where
  "reaches c drivers pickup i r \<longleftrightarrow> (\<exists>d. map_of drivers i = Some d \<and> FindRoute c (dPosition d) pickup = Some r)"

definition best_of :: "city \<Rightarrow> drivers \<Rightarrow> node_id \<Rightarrow> driver_id list \<Rightarrow> (driver_id \<times> route) option \<Rightarrow> bool" where
  \<comment> \<open>the first of the least distances over a list of drivers\<close>
  "best_of c drivers pickup ids best \<longleftrightarrow>
     (case best of
        None \<Rightarrow> (\<forall>j \<in> set ids. \<forall>r. \<not> reaches c drivers pickup j r)
      | Some (i, r) \<Rightarrow> i \<in> set ids \<and> reaches c drivers pickup i r \<and>
          (\<forall>j \<in> set ids. \<forall>r'. reaches c drivers pickup j r' \<longrightarrow>
             rDistance r < rDistance r' \<or> rDistance r = rDistance r' \<and> i \<le> j))"

lemma nearest_loop_best:
  assumes "sorted (xs @ ids)" "best_of c drivers pickup xs best"
  shows "best_of c drivers pickup (xs @ ids) (nearest_loop c drivers pickup ids best)"
  using assms
proof (induction ids arbitrary: xs best)
  case (Cons i ids)
  let ?best = "case map_of drivers i of None \<Rightarrow> best | Some d \<Rightarrow>
      (case FindRoute c (dPosition d) pickup of None \<Rightarrow> best | Some r \<Rightarrow>
         (case best of None \<Rightarrow> Some (i, r) | Some (b, rb) \<Rightarrow> if rDistance r < rDistance rb then Some (i, r) else best))"
  have before: "\<forall>x \<in> set xs. x \<le> i" using Cons.prems(1) by (auto simp: sorted_append)
  have "best_of c drivers pickup (xs @ [i]) ?best"
    using Cons.prems(2) before
    by (fastforce simp: best_of_def reaches_def split: option.splits)
  then have "best_of c drivers pickup ((xs @ [i]) @ ids) (nearest_loop c drivers pickup ids ?best)"
    by (intro Cons.IH) (use Cons.prems(1) in simp)
  moreover have "nearest_loop c drivers pickup ids ?best = nearest_loop c drivers pickup (i # ids) best"
    by (simp split: option.splits)
  ultimately show ?case by simp
qed simp

definition idle_except :: "drivers \<Rightarrow> driver_id list \<Rightarrow> driver_id \<Rightarrow> bool" where
  "idle_except drivers exclude i \<longleftrightarrow> (\<exists>d. map_of drivers i = Some d \<and> dStatus d = DriverIdle) \<and> i \<notin> set exclude"

lemma baselineExcluding_best:
  assumes "distinct_keys drivers"
  shows "case baselineExcluding c drivers pickup exclude of
      None \<Rightarrow> \<forall>j r. idle_except drivers exclude j \<longrightarrow> \<not> reaches c drivers pickup j r
    | Some (i, r) \<Rightarrow> idle_except drivers exclude i \<and> reaches c drivers pickup i r \<and>
        (\<forall>j r'. idle_except drivers exclude j \<longrightarrow> reaches c drivers pickup j r' \<longrightarrow>
           rDistance r < rDistance r' \<or> rDistance r = rDistance r' \<and> i \<le> j)"
proof -
  let ?ids = "sort (map fst (filter (\<lambda>(i, d). dStatus d = DriverIdle \<and> i \<notin> set exclude) drivers))"
  have ids: "i \<in> set ?ids \<longleftrightarrow> idle_except drivers exclude i" for i
    using assms by (force simp: idle_except_def)
  have "best_of c drivers pickup ([] @ ?ids) (nearest_loop c drivers pickup ?ids None)"
    by (rule nearest_loop_best) (simp_all add: best_of_def)
  then show ?thesis
    unfolding baselineExcluding_def best_of_def append_Nil Ball_def ids by (simp split: option.splits prod.splits)
qed

subsection \<open>Minimum cost with a sentinel is maximum service\<close>

definition partial_pairs :: "nat \<Rightarrow> nat \<Rightarrow> (nat \<times> nat) set \<Rightarrow> bool" where
  "partial_pairs n m A \<longleftrightarrow> A \<subseteq> {..<n} \<times> {..<m} \<and> inj_on fst A \<and> inj_on snd A"

lemma finite_partial: "partial_pairs n m A \<Longrightarrow> finite A"
  unfolding partial_pairs_def by (meson finite_SigmaI finite_lessThan finite_subset)

lemma partial_card:
  assumes "partial_pairs n m A"
  shows "card (fst ` A) = card A" "card (snd ` A) = card A" "fst ` A \<subseteq> {..<n}" "snd ` A \<subseteq> {..<m}"
  using assms by (auto simp: partial_pairs_def card_image)

lemma partial_extends:
  assumes "partial_pairs n m A"
  obtains A' where "A \<subseteq> A'" "valid_pairs n m A'"
proof -
  have "\<exists>A'. A \<subseteq> A' \<and> valid_pairs n m A'"
    using assms
  proof (induction "min n m - card A" arbitrary: A rule: less_induct)
    case less
    note card = partial_card [OF less.prems]
    have "card A \<le> n" "card A \<le> m"
      using card_mono [OF _ card(3)] card_mono [OF _ card(4)] card(1,2) by auto
    show ?case
    proof (cases "card A = min n m")
      case True
      then show ?thesis using less.prems by (auto simp: valid_pairs_def partial_pairs_def)
    next
      case False
      then have lt: "card A < n" "card A < m" "card A < min n m" using \<open>card A \<le> n\<close> \<open>card A \<le> m\<close> by auto
      then have "fst ` A \<noteq> {..<n}" "snd ` A \<noteq> {..<m}" using card(1,2) by force+
      then obtain r c where rc: "r < n" "r \<notin> fst ` A" "c < m" "c \<notin> snd ` A" using card(3,4) by blast
      have new: "(r, c) \<notin> A" using rc(2) by force
      have p: "partial_pairs n m (insert (r, c) A)"
        using less.prems rc by (auto simp: partial_pairs_def)
      have "card (insert (r, c) A) = Suc (card A)" using new finite_partial [OF less.prems] by simp
      then have "min n m - card (insert (r, c) A) < min n m - card A" using lt by simp
      then show ?thesis using less.hyps [OF _ p] by blast
    qed
  qed
  then show thesis using that by blast
qed

lemma sentinel_bound:
  assumes "partial_pairs n m A" "A \<subseteq> A'" "valid_pairs n m A'"
    and "\<And>r c. r < n \<Longrightarrow> c < m \<Longrightarrow> cost ! r ! c \<le> U"
  shows "pairs_cost cost A' \<le> pairs_cost cost A + (real (min n m) - real (card A)) * U"
proof -
  have fin: "finite A'" using assms(3) by (auto simp: valid_pairs_def intro: finite_subset)
  have "pairs_cost cost A' = pairs_cost cost (A' - A) + pairs_cost cost A"
    unfolding pairs_cost_def by (rule sum.subset_diff [OF assms(2) fin])
  moreover have "pairs_cost cost (A' - A) \<le> real (card (A' - A)) * U"
    unfolding pairs_cost_def by (rule sum_bounded_above) (use assms(3,4) in \<open>auto simp: valid_pairs_def\<close>)
  moreover have "real (card (A' - A)) = real (min n m) - real (card A)"
    using assms(2,3) card_Diff_subset [OF finite_subset [OF assms(2) fin] assms(2)] card_mono [OF fin assms(2)]
    by (simp add: valid_pairs_def)
  ultimately show ?thesis by simp
qed

lemma sentinel_matching:
  assumes opt: "valid_pairs n m S" "\<And>A. valid_pairs n m A \<Longrightarrow> pairs_cost cost S \<le> pairs_cost cost A"
    and G: "\<And>r c. (r, c) \<in> G \<Longrightarrow> \<bar>cost ! r ! c\<bar> \<le> B"
      "\<And>r c. r < n \<Longrightarrow> c < m \<Longrightarrow> (r, c) \<notin> G \<Longrightarrow> cost ! r ! c = U"
    and small: "2 * real (min n m) * B < U" "B \<le> U"
    and A: "partial_pairs n m A" "A \<subseteq> G"
  shows "card A \<le> card (S \<inter> G)" "card A = card (S \<inter> G) \<Longrightarrow> pairs_cost cost (S \<inter> G) \<le> pairs_cost cost A"
proof -
  have S: "S \<subseteq> {..<n} \<times> {..<m}" "card S = min n m" "finite S"
    using opt(1) by (auto simp: valid_pairs_def intro: finite_subset)
  have le_U: "cost ! r ! c \<le> U" if "r < n" "c < m" for r c
    using G(1) [of r c] G(2) [OF that] small(2) by (cases "(r, c) \<in> G") auto
  obtain A' where A': "A \<subseteq> A'" "valid_pairs n m A'" by (rule partial_extends [OF A(1)])
  have upper: "pairs_cost cost S \<le> pairs_cost cost A + (real (min n m) - real (card A)) * U"
    using opt(2) [OF A'(2)] sentinel_bound [OF A(1) A' le_U] by linarith
  have split: "pairs_cost cost S = pairs_cost cost (S \<inter> G) + (real (min n m) - real (card (S \<inter> G))) * U"
  proof -
    have "pairs_cost cost S = pairs_cost cost (S \<inter> G) + pairs_cost cost (S - G)"
      unfolding pairs_cost_def by (rule sum.Int_Diff [OF S(3)])
    also have "pairs_cost cost (S - G) = (\<Sum>x \<in> S - G. U)"
      unfolding pairs_cost_def by (rule sum.cong) (use S(1) G(2) in auto)
    also have "\<dots> = real (card (S - G)) * U" by simp
    also have "real (card (S - G)) = real (card S) - real (card (S \<inter> G))"
      using card_Diff_subset_Int [of S G] card_mono [of S "S \<inter> G"] S(3) by simp
    finally show ?thesis by (simp add: S(2))
  qed
  show "pairs_cost cost (S \<inter> G) \<le> pairs_cost cost A" if "card A = card (S \<inter> G)"
    using upper split that by simp
  have bound: "\<bar>pairs_cost cost X\<bar> \<le> real (min n m) * B" if "X \<subseteq> G" "finite X" "card X \<le> min n m" "0 \<le> B" for X
  proof -
    have "\<bar>pairs_cost cost X\<bar> \<le> (\<Sum>x \<in> X. \<bar>cost ! fst x ! snd x\<bar>)" unfolding pairs_cost_def by (rule sum_abs)
    also have "\<dots> \<le> real (card X) * B"
      by (rule sum_bounded_above) (use that G(1) in auto)
    also have "\<dots> \<le> real (min n m) * B" using that by (intro mult_right_mono) auto
    finally show ?thesis .
  qed
  show "card A \<le> card (S \<inter> G)"
  proof (rule ccontr)
    assume more: "\<not> ?thesis"
    then obtain x where "x \<in> A" by (metis card.empty ex_in_conv not_le zero_le)
    then have "\<bar>cost ! fst x ! snd x\<bar> \<le> B" using A(2) G(1) [of "fst x" "snd x"] by auto
    then have B: "0 \<le> B" by linarith
    have U: "0 \<le> U" using B small(2) by simp
    have cA: "card A \<le> min n m"
    proof -
      have "finite A'" using A'(2) by (auto simp: valid_pairs_def intro: finite_subset)
      then have "card A \<le> card A'" using A'(1) by (rule card_mono)
      then show ?thesis using A'(2) by (simp add: valid_pairs_def)
    qed
    have cS: "card (S \<inter> G) \<le> min n m" using card_mono [of S "S \<inter> G"] S(2,3) by simp
    have "(real (card A) - real (card (S \<inter> G))) * U \<le> pairs_cost cost A - pairs_cost cost (S \<inter> G)"
      using upper split by (simp add: algebra_simps)
    moreover have "1 * U \<le> (real (card A) - real (card (S \<inter> G))) * U"
      using more U by (intro mult_right_mono) auto
    moreover have "pairs_cost cost A - pairs_cost cost (S \<inter> G) \<le> 2 * real (min n m) * B"
      using bound [OF A(2) finite_partial [OF A(1)] cA B] bound [of "S \<inter> G"] cS S(3) B by simp
    ultimately show False using small(1) by simp
  qed
qed

subsection \<open>The cost matrix\<close>

definition route_to :: "city \<Rightarrow> drivers \<Rightarrow> order \<Rightarrow> driver_id \<Rightarrow> route option" where
  "route_to c drivers ord i = Option.bind (map_of drivers i) (\<lambda>d. FindRoute c (dPosition d) (oPickup ord))"

definition entry :: "city \<Rightarrow> drivers \<Rightarrow> cost_weights \<Rightarrow> real \<Rightarrow> order \<Rightarrow> driver_id list \<Rightarrow> driver_id \<Rightarrow> real" where
  "entry c drivers w now ord cands i =
     (case (map_of drivers i, route_to c drivers ord i) of
        (Some d, Some r) \<Rightarrow> if i \<in> set cands then pair_cost w now ord d r else Unreachable
      | _ \<Rightarrow> Unreachable)"

lemma col_index_nth: "distinct cols \<Longrightarrow> j < length cols \<Longrightarrow> get_or 0 (col_index cols) (cols ! j) = j"
  by (simp add: col_index_def get_or_def map_of_zip_nth)

lemma entry_simps:
  "map_of drivers i = None \<Longrightarrow> entry c drivers w now ord cands i = Unreachable"
  "route_to c drivers ord i = None \<Longrightarrow> entry c drivers w now ord cands i = Unreachable"
  "i \<notin> set cands \<Longrightarrow> entry c drivers w now ord cands i = Unreachable"
  "map_of drivers i = Some d \<Longrightarrow> route_to c drivers ord i = Some r \<Longrightarrow> i \<in> set cands \<Longrightarrow>
     entry c drivers w now ord cands i = pair_cost w now ord d r"
  by (auto simp: entry_def split: option.splits)

lemma fill_row_spec:
  assumes cols: "distinct cols" and sub: "set (done @ cands) \<subseteq> set cols" "set cands \<subseteq> fst ` set drivers"
    and d: "distinct (done @ cands)"
    and row: "row = map (entry c drivers w now ord done) cols"
    and routes: "\<And>i. map_of routes i = (if i \<in> set done then route_to c drivers ord i else None)"
  shows "\<exists>routes'. fill_row c drivers w now cols ord cands (row, routes) =
      Some (map (entry c drivers w now ord (done @ cands)) cols, routes') \<and>
      (\<forall>i. map_of routes' i = (if i \<in> set (done @ cands) then route_to c drivers ord i else None))"
  using sub d row routes
proof (induction cands arbitrary: "done" row routes)
  case (Cons i ids)
  obtain d where d: "map_of drivers i = Some d" using Cons.prems(2) by (metis in_keys_iff list.set_intros(1) list.set_map subset_iff)
  have rt: "route_to c drivers ord i = FindRoute c (dPosition d) (oPickup ord)" using d by (simp add: route_to_def)
  have fresh: "i \<notin> set done" using Cons.prems(3) by auto
  have other: "entry c drivers w now ord (done @ [i]) j = entry c drivers w now ord done j" if "j \<noteq> i" for j
    using that by (simp add: entry_def split: option.splits)
  obtain k where k: "k < length cols" "cols ! k = i" using Cons.prems(1) by (auto simp: in_set_conv_nth)
  show ?case
  proof (cases "FindRoute c (dPosition d) (oPickup ord)")
    case None
    have "entry c drivers w now ord (done @ [i]) j = entry c drivers w now ord done j" for j
      using other entry_simps(2) None rt by (cases "j = i") auto
    moreover have "map_of routes j = (if j \<in> set (done @ [i]) then route_to c drivers ord j else None)" for j
      using Cons.prems(5) None rt by auto
    ultimately have "\<exists>routes'. fill_row c drivers w now cols ord ids (row, routes) =
      Some (map (entry c drivers w now ord ((done @ [i]) @ ids)) cols, routes') \<and>
      (\<forall>j. map_of routes' j = (if j \<in> set ((done @ [i]) @ ids) then route_to c drivers ord j else None))"
      by (intro Cons.IH) (use Cons.prems in auto)
    then show ?thesis using d None by simp
  next
    case (Some r)
    let ?row = "row[get_or 0 (col_index cols) i := pair_cost w now ord d r]"
    have "?row = map (entry c drivers w now ord (done @ [i])) cols"
    proof (rule nth_equalityI)
      fix j assume "j < length ?row"
      then have j: "j < length cols" using Cons.prems(4) by simp
      show "?row ! j = map (entry c drivers w now ord (done @ [i])) cols ! j"
      proof (cases "j = k")
        case True
        then show ?thesis
          using k j col_index_nth [OF cols k(1)] Cons.prems(4) entry_simps(4) [OF d, of c ord r "done @ [i]" w now] rt Some
          by simp
      next
        case False
        then have "cols ! j \<noteq> i" using k j cols by (auto simp: nth_eq_iff_index_eq)
        then show ?thesis using k j False col_index_nth [OF cols k(1)] Cons.prems(4) other by simp
      qed
    qed (use Cons.prems(4) in simp)
    moreover have "map_of (AList.update i r routes) j = (if j \<in> set (done @ [i]) then route_to c drivers ord j else None)" for j
      using Cons.prems(5) Some rt by (simp add: update_conv')
    ultimately have "\<exists>routes'. fill_row c drivers w now cols ord ids (?row, AList.update i r routes) =
      Some (map (entry c drivers w now ord ((done @ [i]) @ ids)) cols, routes') \<and>
      (\<forall>j. map_of routes' j = (if j \<in> set ((done @ [i]) @ ids) then route_to c drivers ord j else None))"
      by (intro Cons.IH) (use Cons.prems in auto)
    then show ?thesis using d Some by simp
  qed
qed simp

definition row_ok :: "city \<Rightarrow> drivers \<Rightarrow> cost_weights \<Rightarrow> real \<Rightarrow> driver_id list \<Rightarrow> order \<times> driver_id list \<Rightarrow>
    real list \<times> (driver_id, route) gomap \<Rightarrow> bool" where
  "row_ok c drivers w now cols oc row \<longleftrightarrow>
     fst row = map (entry c drivers w now (fst oc) (snd oc)) cols \<and>
     (\<forall>i. map_of (snd row) i = (if i \<in> set (snd oc) then route_to c drivers (fst oc) i else None))"

lemma fill_rows_spec:
  assumes "distinct cols" "\<And>ord cands. (ord, cands) \<in> set ocs \<Longrightarrow>
      set cands \<subseteq> set cols \<and> set cands \<subseteq> fst ` set drivers \<and> distinct cands"
  shows "\<exists>rows. fill_rows c drivers w now cols ocs = Some rows \<and> list_all2 (row_ok c drivers w now cols) ocs rows"
  using assms(2)
proof (induction ocs)
  case (Cons oc ocs)
  obtain ord cands where oc: "oc = (ord, cands)" by (cases oc)
  have cands: "set cands \<subseteq> set cols" "set cands \<subseteq> fst ` set drivers" "distinct cands"
    using Cons.prems oc by auto
  have empty: "replicate (length cols) Unreachable = map (entry c drivers w now ord []) cols"
    by (rule nth_equalityI) (simp_all add: entry_simps)
  obtain routes where "fill_row c drivers w now cols ord cands (replicate (length cols) Unreachable, []) =
      Some (map (entry c drivers w now ord cands) cols, routes)"
    "\<forall>i. map_of routes i = (if i \<in> set cands then route_to c drivers ord i else None)"
    using fill_row_spec [OF assms(1), of "[]" cands drivers _ c w now ord "[]"] cands empty by auto
  moreover obtain rows where "fill_rows c drivers w now cols ocs = Some rows"
    "list_all2 (row_ok c drivers w now cols) ocs rows"
    using Cons.IH Cons.prems by (metis list.set_intros(2))
  moreover have "row_ok c drivers w now cols oc (map (entry c drivers w now ord cands) cols, routes)"
    using calculation(2) by (simp add: row_ok_def oc)
  ultimately show ?case by (simp add: oc)
qed simp

subsection \<open>What a batch promises\<close>

definition batch_contract :: "city \<Rightarrow> drivers \<Rightarrow> order list \<Rightarrow> assignment list \<Rightarrow> bool" where
  \<comment> \<open>orders of the batch, each at most once; known drivers, each at most once; computed routes\<close>
  "batch_contract c drivers orders as \<longleftrightarrow>
     distinct (map aOrderID as) \<and> distinct (map aDriverID as) \<and>
     (\<forall>a \<in> set as. \<exists>ord \<in> set orders. aOrderID a = oID ord \<and>
        route_to c drivers ord (aDriverID a) = Some (aToPickup a))"

definition servable :: "city \<Rightarrow> drivers \<Rightarrow> grid \<Rightarrow> int \<Rightarrow> order \<Rightarrow> driver_id \<Rightarrow> bool" where
  "servable c drivers index k ord i \<longleftrightarrow>
     i \<in> set (order_candidates c index k ord) \<and> route_to c drivers ord i \<noteq> None"

definition service_plan :: "city \<Rightarrow> drivers \<Rightarrow> grid \<Rightarrow> int \<Rightarrow> order list \<Rightarrow> (order \<times> driver_id) set \<Rightarrow> bool" where
  \<comment> \<open>a way to serve some of the orders: no driver twice, every pair a candidate with a route\<close>
  "service_plan c drivers index k orders P \<longleftrightarrow>
     fst ` P \<subseteq> set orders \<and> inj_on fst P \<and> inj_on snd P \<and> (\<forall>(ord, i) \<in> P. servable c drivers index k ord i)"

definition plan_cost :: "city \<Rightarrow> drivers \<Rightarrow> cost_weights \<Rightarrow> real \<Rightarrow> (order \<times> driver_id) set \<Rightarrow> real" where
  "plan_cost c drivers w now P =
     (\<Sum>x \<in> P. pair_cost w now (fst x) (the (map_of drivers (snd x))) (the (route_to c drivers (fst x) (snd x))))"

definition batch_ready :: "city \<Rightarrow> drivers \<Rightarrow> order list \<Rightarrow> grid \<Rightarrow> bool" where
  "batch_ready c drivers orders index \<longleftrightarrow>
     grid_wf index \<and> fst ` set (gPoints index) \<subseteq> fst ` set drivers \<and> distinct (map oID orders)"

definition costs_below :: "city \<Rightarrow> drivers \<Rightarrow> order list \<Rightarrow> cost_weights \<Rightarrow> real \<Rightarrow> real \<Rightarrow> bool" where
  \<comment> \<open>every cost the batch can compute is smaller than a bound\<close>
  "costs_below c drivers orders w now B \<longleftrightarrow>
     (\<forall>ord \<in> set orders. \<forall>i d r. map_of drivers i = Some d \<longrightarrow> route_to c drivers ord i = Some r \<longrightarrow>
        \<bar>pair_cost w now ord d r\<bar> \<le> B)"

lemma batch_candidates:
  assumes "batch_ready c drivers orders index"
  shows "distinct (order_candidates c index k ord)" "set (order_candidates c index k ord) \<subseteq> fst ` set drivers"
proof -
  have wf: "grid_wf index" and sub: "fst ` set (gPoints index) \<subseteq> fst ` set drivers"
    using assms by (auto simp: batch_ready_def)
  show "distinct (order_candidates c index k ord)"
    unfolding order_candidates_def by (rule grid_index.candidates_distinct [OF wf])
  show "set (order_candidates c index k ord) \<subseteq> fst ` set drivers"
    unfolding order_candidates_def
    using grid_index.candidates_dom [OF wf] sub by (fastforce simp: dom_map_of_conv_image_fst)
qed

lemma entry_batch:
  assumes cands: "cands = order_candidates c index k ord" and ord: "ord \<in> set orders"
    and B: "costs_below c drivers orders w now B" "B < Unreachable"
  shows "servable c drivers index k ord i \<Longrightarrow> entry c drivers w now ord cands i =
      pair_cost w now ord (the (map_of drivers i)) (the (route_to c drivers ord i)) \<and>
      \<bar>entry c drivers w now ord cands i\<bar> \<le> B"
    "\<not> servable c drivers index k ord i \<Longrightarrow> entry c drivers w now ord cands i = Unreachable"
    "entry c drivers w now ord cands i < Unreachable \<longleftrightarrow> servable c drivers index k ord i"
proof -
  show serv: "entry c drivers w now ord cands i =
      pair_cost w now ord (the (map_of drivers i)) (the (route_to c drivers ord i)) \<and>
      \<bar>entry c drivers w now ord cands i\<bar> \<le> B" if s: "servable c drivers index k ord i"
  proof -
    obtain r where r: "route_to c drivers ord i = Some r" "i \<in> set cands" using s by (auto simp: servable_def cands)
    then obtain d where d: "map_of drivers i = Some d" by (auto simp: route_to_def bind_eq_Some_conv)
    then show ?thesis using r B ord entry_simps(4) [OF d r] by (simp add: costs_below_def)
  qed
  show un: "entry c drivers w now ord cands i = Unreachable" if "\<not> servable c drivers index k ord i"
    using that entry_simps by (auto simp: servable_def cands)
  show "entry c drivers w now ord cands i < Unreachable \<longleftrightarrow> servable c drivers index k ord i"
    using serv un B(2) by (cases "servable c drivers index k ord i") auto
qed

lemma Optimized_matrix:
  fixes k :: int
  assumes ready: "batch_ready c drivers orders index" and ne: "orders \<noteq> []"
    and B: "costs_below c drivers orders w now B" "B < Unreachable"
    and size: "(2 * real (length orders) + 2) * Unreachable < hung_inf"
  defines "srt \<equiv> sort_key oID orders"
  defines "per \<equiv> map (order_candidates c index k) srt"
  defines "cols \<equiv> candidate_columns per"
  obtains rows ps where "fill_rows c drivers w now cols (zip srt per) = Some rows"
    "list_all2 (row_ok c drivers w now cols) (zip srt per) rows"
    "MinCostAssignment_run (map fst rows) = Some ps" "distinct (map pair_rc ps)"
    "valid_pairs (length srt) (length cols) (pair_rc ` set ps)"
    "\<And>x. x \<in> set ps \<Longrightarrow> prCost x = fst (rows ! prRow x) ! prCol x"
    "\<And>A. valid_pairs (length srt) (length cols) A \<Longrightarrow>
       pairs_cost (map fst rows) (pair_rc ` set ps) \<le> pairs_cost (map fst rows) A"
proof -
  have dcols: "distinct cols" and scols: "set cols = (\<Union>cs \<in> set per. set cs)"
    by (auto simp: cols_def candidate_columns_def)
  obtain rows where rows: "fill_rows c drivers w now cols (zip srt per) = Some rows"
    "list_all2 (row_ok c drivers w now cols) (zip srt per) rows"
  proof -
    have "set cands \<subseteq> set cols \<and> set cands \<subseteq> fst ` set drivers \<and> distinct cands"
      if "(ord, cands) \<in> set (zip srt per)" for ord cands
    proof -
      have "cands \<in> set per" using that by (auto dest: set_zip_rightD)
      then obtain x where "cands = order_candidates c index k x" "set cands \<subseteq> set cols"
        using scols by (auto simp: per_def)
      then show ?thesis using batch_candidates [OF ready, of k x] by simp
    qed
    then show thesis using fill_rows_spec [OF dcols] that by blast
  qed
  have len: "length rows = length srt" using rows(2) by (auto dest: list_all2_lengthD simp: per_def)
  have nth: "row_ok c drivers w now cols (srt ! i, order_candidates c index k (srt ! i)) (rows ! i)"
    if "i < length srt" for i
    using list_all2_nthD [OF rows(2), of i] that by (simp add: per_def)
  have rect: "rectangular (length srt) (length cols) (map fst rows)"
    unfolding rectangular_def
  proof (intro conjI ballI)
    fix row assume "row \<in> set (map fst rows)"
    then obtain i where "i < length (map fst rows)" "row = map fst rows ! i" by (metis in_set_conv_nth)
    then have "i < length srt" "row = fst (rows ! i)" using len by auto
    then show "length row = length cols" using nth by (simp add: row_ok_def)
  qed (simp add: len)
  have "\<bar>x\<bar> \<le> Unreachable" if x: "row \<in> set (map fst rows)" "x \<in> set row" for row x
  proof -
    obtain i where "i < length (map fst rows)" "row = map fst rows ! i" using x(1) by (metis in_set_conv_nth)
    then have i: "i < length srt" "row = fst (rows ! i)" using len by auto
    then obtain j where "x = entry c drivers w now (srt ! i) (order_candidates c index k (srt ! i)) j"
      using nth [OF i(1)] x(2) by (auto simp: row_ok_def)
    moreover have "srt ! i \<in> set orders" using i(1) by (metis nth_mem set_sort srt_def)
    ultimately show ?thesis
      using entry_batch(1,2) [OF refl _ B] B(2)
      by (cases "servable c drivers index k (srt ! i) j") (fastforce simp: Unreachable_def)+
  qed
  then have ent: "entries_within Unreachable (map fst rows)" by (auto simp: entries_within_def)
  have "(2 * real (min (length srt) (length cols)) + 2) * Unreachable \<le> (2 * real (length orders) + 2) * Unreachable"
    by (intro mult_right_mono) (auto simp: srt_def Unreachable_def)
  then have small: "(2 * real (min (length srt) (length cols)) + 2) * Unreachable < hung_inf" using size by simp
  obtain ps where ps: "MinCostAssignment_run (map fst rows) = Some ps" "sorted (map prRow ps)"
    "distinct (map pair_rc ps)" "valid_pairs (length srt) (length cols) (pair_rc ` set ps)"
    "\<And>x. x \<in> set ps \<Longrightarrow> prCost x = map fst rows ! prRow x ! prCol x"
    "\<And>A. valid_pairs (length srt) (length cols) A \<Longrightarrow>
       pairs_cost (map fst rows) (pair_rc ` set ps) \<le> pairs_cost (map fst rows) A"
    by (rule MinCostAssignment_run_optimal [OF rect ent _ small]) (auto simp: Unreachable_def)
  have "prCost x = fst (rows ! prRow x) ! prCol x" if "x \<in> set ps" for x
  proof -
    have "pair_rc x \<in> {..<length srt} \<times> {..<length cols}" using ps(4) that by (auto simp: valid_pairs_def)
    then have "prRow x < length rows" using len by (simp add: pair_rc_def)
    then show ?thesis using ps(5) [OF that] by simp
  qed
  then show thesis using that [OF rows ps(1,3,4) _ ps(6)] by blast
qed

text \<open>Cells of the matrix and pairs of a plan.\<close>

definition to_plan :: "order list \<Rightarrow> driver_id list \<Rightarrow> nat \<times> nat \<Rightarrow> order \<times> driver_id" where
  "to_plan srt cols x = (srt ! fst x, cols ! snd x)"

definition serv_cells :: "city \<Rightarrow> drivers \<Rightarrow> grid \<Rightarrow> int \<Rightarrow> order list \<Rightarrow> driver_id list \<Rightarrow> (nat \<times> nat) set" where
  "serv_cells c drivers index k srt cols =
     {(i, j). i < length srt \<and> j < length cols \<and> servable c drivers index k (srt ! i) (cols ! j)}"

lemma to_plan_inj:
  assumes "distinct srt" "distinct cols"
  shows "inj_on (to_plan srt cols) ({..<length srt} \<times> {..<length cols})"
  using assms by (auto simp: inj_on_def to_plan_def nth_eq_iff_index_eq)

lemma cells_to_plan:
  assumes d: "distinct srt" "distinct cols" and A: "partial_pairs (length srt) (length cols) A"
    "A \<subseteq> serv_cells c drivers index k srt cols"
  shows "service_plan c drivers index k srt (to_plan srt cols ` A)" "card (to_plan srt cols ` A) = card A"
proof -
  have sub: "A \<subseteq> {..<length srt} \<times> {..<length cols}" "inj_on fst A" "inj_on snd A"
    using A(1) by (auto simp: partial_pairs_def)
  show "card (to_plan srt cols ` A) = card A"
    by (rule card_image, rule inj_on_subset [OF to_plan_inj [OF d] sub(1)])
  have "inj_on fst (to_plan srt cols ` A)"
  proof (rule inj_onI)
    fix x y assume "x \<in> to_plan srt cols ` A" "y \<in> to_plan srt cols ` A" "fst x = fst y"
    then obtain a b where "a \<in> A" "b \<in> A" "x = to_plan srt cols a" "y = to_plan srt cols b"
      "srt ! fst a = srt ! fst b" by (auto simp: to_plan_def)
    moreover have "fst a < length srt" "fst b < length srt" using sub(1) \<open>a \<in> A\<close> \<open>b \<in> A\<close> by auto
    ultimately have "fst a = fst b" "a \<in> A" "b \<in> A" "x = to_plan srt cols a" "y = to_plan srt cols b"
      using nth_eq_iff_index_eq [OF d(1)] by auto
    then show "x = y" using sub(2) by (metis inj_onD)
  qed
  moreover have "inj_on snd (to_plan srt cols ` A)"
  proof (rule inj_onI)
    fix x y assume "x \<in> to_plan srt cols ` A" "y \<in> to_plan srt cols ` A" "snd x = snd y"
    then obtain a b where "a \<in> A" "b \<in> A" "x = to_plan srt cols a" "y = to_plan srt cols b"
      "cols ! snd a = cols ! snd b" by (auto simp: to_plan_def)
    moreover have "snd a < length cols" "snd b < length cols" using sub(1) \<open>a \<in> A\<close> \<open>b \<in> A\<close> by auto
    ultimately have "snd a = snd b" "a \<in> A" "b \<in> A" "x = to_plan srt cols a" "y = to_plan srt cols b"
      using nth_eq_iff_index_eq [OF d(2)] by auto
    then show "x = y" using sub(3) by (metis inj_onD)
  qed
  ultimately show "service_plan c drivers index k srt (to_plan srt cols ` A)"
    unfolding service_plan_def using A(2) by (auto simp: serv_cells_def to_plan_def)
qed

lemma plan_to_cells:
  assumes Q: "service_plan c drivers index k srt Q"
    and cover: "\<And>ord i. ord \<in> set srt \<Longrightarrow> servable c drivers index k ord i \<Longrightarrow> i \<in> set cols"
  obtains A where "partial_pairs (length srt) (length cols) A" "A \<subseteq> serv_cells c drivers index k srt cols"
    "Q = to_plan srt cols ` A"
proof -
  have pre: "\<exists>x. x \<in> {..<length srt} \<times> {..<length cols} \<and> to_plan srt cols x = q" if "q \<in> Q" for q
  proof -
    have "fst q \<in> set srt" "servable c drivers index k (fst q) (snd q)" using Q that by (auto simp: service_plan_def)
    then obtain i j where "i < length srt" "srt ! i = fst q" "j < length cols" "cols ! j = snd q"
      using cover by (metis in_set_conv_nth)
    then show ?thesis by (intro exI [of _ "(i, j)"]) (auto simp: to_plan_def)
  qed
  then obtain f where f: "\<And>q. q \<in> Q \<Longrightarrow> f q \<in> {..<length srt} \<times> {..<length cols} \<and> to_plan srt cols (f q) = q"
    by metis
  have undo_f: "srt ! fst (f q) = fst q" "cols ! snd (f q) = snd q" if "q \<in> Q" for q
    using f [OF that] by (auto simp: to_plan_def prod_eq_iff)
  have "inj_on fst (f ` Q)" "inj_on snd (f ` Q)"
  proof -
    have fstQ: "inj_on fst Q" and sndQ: "inj_on snd Q" using Q by (simp_all add: service_plan_def)
    show "inj_on fst (f ` Q)"
    proof (rule inj_onI)
      fix x y assume "x \<in> f ` Q" "y \<in> f ` Q" "fst x = fst y"
      then obtain p q where "p \<in> Q" "q \<in> Q" "x = f p" "y = f q" "fst p = fst q" using undo_f(1) by (metis imageE)
      then show "x = y" using fstQ by (metis inj_onD)
    qed
    show "inj_on snd (f ` Q)"
    proof (rule inj_onI)
      fix x y assume "x \<in> f ` Q" "y \<in> f ` Q" "snd x = snd y"
      then obtain p q where "p \<in> Q" "q \<in> Q" "x = f p" "y = f q" "snd p = snd q" using undo_f(2) by (metis imageE)
      then show "x = y" using sndQ by (metis inj_onD)
    qed
  qed
  moreover have "f ` Q \<subseteq> {..<length srt} \<times> {..<length cols}" using f by blast
  moreover have "f ` Q \<subseteq> serv_cells c drivers index k srt cols"
  proof
    fix x assume "x \<in> f ` Q"
    then obtain q where q: "q \<in> Q" "x = f q" by blast
    then have "servable c drivers index k (fst q) (snd q)" using Q by (auto simp: service_plan_def)
    then show "x \<in> serv_cells c drivers index k srt cols"
      using f [OF q(1)] undo_f [OF q(1)] q(2) by (auto simp: serv_cells_def)
  qed
  moreover have "Q = to_plan srt cols ` f ` Q" using f by (force simp: image_image)
  ultimately show thesis using that by (simp add: partial_pairs_def)
qed

lemma matrix_cell:
  assumes rows: "list_all2 (row_ok c drivers w now cols) (zip srt (map (order_candidates c index k) srt)) rows"
    and r: "r < length srt" "j < length cols"
  shows "map fst rows ! r ! j = entry c drivers w now (srt ! r) (order_candidates c index k (srt ! r)) (cols ! j)"
    "fst (rows ! r) ! j = entry c drivers w now (srt ! r) (order_candidates c index k (srt ! r)) (cols ! j)"
    "map_of (snd (rows ! r)) i =
       (if i \<in> set (order_candidates c index k (srt ! r)) then route_to c drivers (srt ! r) i else None)"
proof -
  have "r < length rows" using rows r(1) by (auto dest: list_all2_lengthD)
  moreover have "row_ok c drivers w now cols (srt ! r, order_candidates c index k (srt ! r)) (rows ! r)"
    using list_all2_nthD [OF rows, of r] r(1) by simp
  ultimately show "map fst rows ! r ! j = entry c drivers w now (srt ! r) (order_candidates c index k (srt ! r)) (cols ! j)"
    "fst (rows ! r) ! j = entry c drivers w now (srt ! r) (order_candidates c index k (srt ! r)) (cols ! j)"
    "map_of (snd (rows ! r)) i =
       (if i \<in> set (order_candidates c index k (srt ! r)) then route_to c drivers (srt ! r) i else None)"
    using r(2) by (simp_all add: row_ok_def)
qed

lemma columns_cover:
  "ord \<in> set srt \<Longrightarrow> servable c drivers index k ord i \<Longrightarrow>
   i \<in> set (candidate_columns (map (order_candidates c index k) srt))"
  by (auto simp: candidate_columns_def servable_def)

lemma row_infeasible:
  assumes rows: "list_all2 (row_ok c drivers w now cols) (zip srt (map (order_candidates c index k) srt)) rows"
    and r: "r < length srt" and B: "costs_below c drivers srt w now B" "B < Unreachable"
    and cover: "\<And>ord i. ord \<in> set srt \<Longrightarrow> servable c drivers index k ord i \<Longrightarrow> i \<in> set cols"
  shows "rowIsInfeasible (fst (rows ! r)) \<longleftrightarrow> (\<forall>i. \<not> servable c drivers index k (srt ! r) i)"
proof -
  have "fst (rows ! r) = map (entry c drivers w now (srt ! r) (order_candidates c index k (srt ! r))) cols"
    using list_all2_nthD [OF rows, of r] r by (simp add: row_ok_def)
  then have "rowIsInfeasible (fst (rows ! r)) \<longleftrightarrow> (\<forall>i \<in> set cols. \<not> servable c drivers index k (srt ! r) i)"
    using entry_batch(3) [OF refl nth_mem [OF r] B] by (auto simp: rowIsInfeasible_def list_all_iff)
  then show ?thesis using cover nth_mem [OF r] by blast
qed

definition assignment_of :: "order list \<Rightarrow> driver_id list \<Rightarrow> (real list \<times> (driver_id, route) gomap) list \<Rightarrow> pair \<Rightarrow> assignment" where
  "assignment_of srt cols rows p =
     \<lparr>aOrderID = oID (srt ! prRow p), aDriverID = cols ! prCol p,
      aToPickup = get_or zero_route (snd (rows ! prRow p)) (cols ! prCol p)\<rparr>"

lemma assignments_contract:
  assumes rows: "list_all2 (row_ok c drivers w now cols) (zip srt (map (order_candidates c index k) srt)) rows"
    and ids: "distinct (map oID srt)" and cols: "distinct cols"
    and good: "distinct (map pair_rc good)" "partial_pairs (length srt) (length cols) (pair_rc ` set good)"
      "pair_rc ` set good \<subseteq> serv_cells c drivers index k srt cols"
  shows "batch_contract c drivers srt (map (assignment_of srt cols rows) good)"
    "set (map (\<lambda>a. (aOrderID a, aDriverID a)) (map (assignment_of srt cols rows) good)) =
       (\<lambda>(ord, i). (oID ord, i)) ` to_plan srt cols ` pair_rc ` set good"
proof -
  have inj: "inj_on fst (pair_rc ` set good)" "inj_on snd (pair_rc ` set good)"
    and rng: "\<And>p. p \<in> set good \<Longrightarrow> prRow p < length srt \<and> prCol p < length cols"
    using good(2) by (auto simp: partial_pairs_def pair_rc_def)
  have rc: "inj_on pair_rc (set good)" "distinct good" using good(1) by (auto simp: distinct_map)
  have row: "inj_on prRow (set good)"
    using comp_inj_on [OF rc(1) inj(1)] by (simp add: comp_def pair_rc_def)
  have col: "inj_on prCol (set good)"
    using comp_inj_on [OF rc(1) inj(2)] by (simp add: comp_def pair_rc_def)
  have "inj_on (\<lambda>p. oID (srt ! prRow p)) (set good)"
  proof (rule inj_onI)
    fix p q assume pq: "p \<in> set good" "q \<in> set good" "oID (srt ! prRow p) = oID (srt ! prRow q)"
    then have "prRow p = prRow q"
      using rng nth_eq_iff_index_eq [OF ids, of "prRow p" "prRow q"] by simp
    then show "p = q" using row pq by (metis inj_onD)
  qed
  moreover have "inj_on (\<lambda>p. cols ! prCol p) (set good)"
  proof (rule inj_onI)
    fix p q assume pq: "p \<in> set good" "q \<in> set good" "cols ! prCol p = cols ! prCol q"
    then have "prCol p = prCol q"
      using rng nth_eq_iff_index_eq [OF cols, of "prCol p" "prCol q"] by simp
    then show "p = q" using col pq by (metis inj_onD)
  qed
  moreover have "\<exists>ord \<in> set srt. oID (srt ! prRow p) = oID ord \<and>
      route_to c drivers ord (cols ! prCol p) = Some (get_or zero_route (snd (rows ! prRow p)) (cols ! prCol p))"
    if "p \<in> set good" for p
  proof -
    have "servable c drivers index k (srt ! prRow p) (cols ! prCol p)"
      using good(3) that by (auto simp: serv_cells_def pair_rc_def)
    then show ?thesis
      using matrix_cell(3) [OF rows, of "prRow p" "prCol p" "cols ! prCol p"] rng [OF that]
      by (intro bexI [of _ "srt ! prRow p"]) (auto simp: servable_def get_or_def)
  qed
  ultimately show "batch_contract c drivers srt (map (assignment_of srt cols rows) good)"
    using rc(2) by (auto simp: batch_contract_def assignment_of_def distinct_map comp_def)
  show "set (map (\<lambda>a. (aOrderID a, aDriverID a)) (map (assignment_of srt cols rows) good)) =
       (\<lambda>(ord, i). (oID ord, i)) ` to_plan srt cols ` pair_rc ` set good"
    by (simp add: image_image assignment_of_def to_plan_def pair_rc_def)
qed

lemma plan_cost_cells:
  assumes rows: "list_all2 (row_ok c drivers w now cols) (zip srt (map (order_candidates c index k) srt)) rows"
    and B: "costs_below c drivers srt w now B" "B < Unreachable"
    and d: "distinct srt" "distinct cols" and A: "partial_pairs (length srt) (length cols) A"
    "A \<subseteq> serv_cells c drivers index k srt cols"
  shows "pairs_cost (map fst rows) A = plan_cost c drivers w now (to_plan srt cols ` A)"
proof -
  have sub: "A \<subseteq> {..<length srt} \<times> {..<length cols}" using A(1) by (simp add: partial_pairs_def)
  have "plan_cost c drivers w now (to_plan srt cols ` A) =
      (\<Sum>x \<in> A. pair_cost w now (srt ! fst x) (the (map_of drivers (cols ! snd x))) (the (route_to c drivers (srt ! fst x) (cols ! snd x))))"
    unfolding plan_cost_def
    by (subst sum.reindex [OF inj_on_subset [OF to_plan_inj [OF d] sub]]) (simp add: to_plan_def)
  also have "\<dots> = pairs_cost (map fst rows) A"
    unfolding pairs_cost_def
  proof (rule sum.cong [OF refl])
    fix x assume x: "x \<in> A"
    then have rc: "fst x < length srt" "snd x < length cols" "servable c drivers index k (srt ! fst x) (cols ! snd x)"
      using A(2) by (auto simp: serv_cells_def)
    then show "pair_cost w now (srt ! fst x) (the (map_of drivers (cols ! snd x)))
        (the (route_to c drivers (srt ! fst x) (cols ! snd x))) = map fst rows ! fst x ! snd x"
      using entry_batch(1) [OF refl nth_mem [OF rc(1)] B rc(3)] matrix_cell(1) [OF rows rc(1,2)] by simp
  qed
  finally show ?thesis by simp
qed

lemma serv_cells_bounds:
  assumes rows: "list_all2 (row_ok c drivers w now cols) (zip srt (map (order_candidates c index k) srt)) rows"
    and B: "costs_below c drivers srt w now B" "B < Unreachable"
  shows "(i, j) \<in> serv_cells c drivers index k srt cols \<Longrightarrow> \<bar>map fst rows ! i ! j\<bar> \<le> B"
    "i < length srt \<Longrightarrow> j < length cols \<Longrightarrow> (i, j) \<notin> serv_cells c drivers index k srt cols \<Longrightarrow>
       map fst rows ! i ! j = Unreachable"
    "i < length srt \<Longrightarrow> j < length cols \<Longrightarrow>
       fst (rows ! i) ! j < Unreachable \<longleftrightarrow> (i, j) \<in> serv_cells c drivers index k srt cols"
proof -
  show "\<bar>map fst rows ! i ! j\<bar> \<le> B" if "(i, j) \<in> serv_cells c drivers index k srt cols"
  proof -
    have rc: "i < length srt" "j < length cols" "servable c drivers index k (srt ! i) (cols ! j)"
      using that by (auto simp: serv_cells_def)
    have "\<bar>entry c drivers w now (srt ! i) (order_candidates c index k (srt ! i)) (cols ! j)\<bar> \<le> B"
      using entry_batch(1) [OF refl nth_mem [OF rc(1)] B rc(3)] by blast
    then show ?thesis by (simp only: matrix_cell(1) [OF rows rc(1,2)])
  qed
  show "map fst rows ! i ! j = Unreachable" if "i < length srt" "j < length cols"
    "(i, j) \<notin> serv_cells c drivers index k srt cols"
    using that entry_batch(2) [OF refl nth_mem [OF that(1)] B] matrix_cell(1) [OF rows that(1,2)]
    by (simp add: serv_cells_def)
  show "fst (rows ! i) ! j < Unreachable \<longleftrightarrow> (i, j) \<in> serv_cells c drivers index k srt cols"
    if "i < length srt" "j < length cols"
    using that entry_batch(3) [OF refl nth_mem [OF that(1)] B] matrix_cell(2) [OF rows that(1,2)]
    by (simp add: serv_cells_def)
qed

lemma image_nth_where: "(\<lambda>i. f (xs ! i)) ` {i. i < length xs \<and> R (xs ! i) \<and> S (xs ! i)} = {f x | x. x \<in> set xs \<and> R x \<and> S x}"
  by (fastforce simp: in_set_conv_nth image_iff)

lemma service_plan_set: "set os = set os' \<Longrightarrow> service_plan c drivers index k os = service_plan c drivers index k os'"
  by (simp add: service_plan_def fun_eq_iff)

lemma batch_contract_set: "set os = set os' \<Longrightarrow> batch_contract c drivers os = batch_contract c drivers os'"
  by (simp add: batch_contract_def fun_eq_iff)

lemma Optimized_spec:
  fixes k :: int
  assumes ready: "batch_ready c drivers orders index"
    and B: "costs_below c drivers orders w now B" "B < Unreachable"
    and size: "(2 * real (length orders) + 2) * Unreachable < hung_inf"
  obtains as infs P where "Optimized c drivers orders index k w now = Some (as, infs)"
    "batch_contract c drivers orders as"
    "service_plan c drivers index k orders P" "card P = length as"
    "set (map (\<lambda>a. (aOrderID a, aDriverID a)) as) = (\<lambda>(ord, i). (oID ord, i)) ` P"
    "set infs = {oID ord | ord. ord \<in> set orders \<and> order_candidates c index k ord \<noteq> [] \<and>
       (\<forall>i. \<not> servable c drivers index k ord i)}" "distinct infs"
    "\<And>Q. 2 * real (length orders) * B < Unreachable \<Longrightarrow> service_plan c drivers index k orders Q \<Longrightarrow>
       card Q \<le> card P \<and> (card Q = card P \<longrightarrow> plan_cost c drivers w now P \<le> plan_cost c drivers w now Q)"
proof (cases "orders = []")
  case True
  have "Q = {}" if "service_plan c drivers index k [] Q" for Q using that by (simp add: service_plan_def)
  then show thesis
    using that [of "[]" "[]" "{}"] True by (fastforce simp: Optimized_def batch_contract_def service_plan_def)
next
  case False
  let ?srt = "sort_key oID orders"
  let ?per = "map (order_candidates c index k) ?srt"
  let ?cols = "candidate_columns ?per"
  let ?G = "serv_cells c drivers index k ?srt ?cols"
  obtain rows ps where m: "fill_rows c drivers w now ?cols (zip ?srt ?per) = Some rows"
    "list_all2 (row_ok c drivers w now ?cols) (zip ?srt ?per) rows"
    "MinCostAssignment_run (map fst rows) = Some ps" "distinct (map pair_rc ps)"
    "valid_pairs (length ?srt) (length ?cols) (pair_rc ` set ps)"
    "\<And>x. x \<in> set ps \<Longrightarrow> prCost x = fst (rows ! prRow x) ! prCol x"
    "\<And>A. valid_pairs (length ?srt) (length ?cols) A \<Longrightarrow>
       pairs_cost (map fst rows) (pair_rc ` set ps) \<le> pairs_cost (map fst rows) A"
    by (rule Optimized_matrix [OF ready False B size]) blast
  have dids: "distinct (map oID ?srt)" using ready by (simp add: batch_ready_def distinct_map)
  then have dsrt: "distinct ?srt" by (simp add: distinct_map)
  have dcols: "distinct ?cols" by (simp add: candidate_columns_def)
  have sB: "costs_below c drivers ?srt w now B" using B(1) by (simp add: costs_below_def)
  have cover: "i \<in> set ?cols" if "ord \<in> set ?srt" "servable c drivers index k ord i" for ord i
    using columns_cover [OF that] .
  let ?good = "filter (\<lambda>p. \<not> prCost p \<ge> Unreachable) ps"
  have rng: "prRow p < length ?srt \<and> prCol p < length ?cols" if "p \<in> set ps" for p
    using m(5) that by (auto simp: valid_pairs_def pair_rc_def)
  have good_iff: "\<not> prCost p \<ge> Unreachable \<longleftrightarrow> pair_rc p \<in> ?G" if "p \<in> set ps" for p
    using m(6) [OF that] rng [OF that] serv_cells_bounds(3) [OF m(2) sB B(2)] by (simp add: pair_rc_def not_le)
  have SG: "pair_rc ` set ?good = pair_rc ` set ps \<inter> ?G" using good_iff by auto
  have partial: "partial_pairs (length ?srt) (length ?cols) (pair_rc ` set ?good)"
    using m(5) unfolding SG by (auto simp: valid_pairs_def partial_pairs_def intro: inj_on_subset)
  have subG: "pair_rc ` set ?good \<subseteq> ?G" unfolding SG by blast
  have dgood: "distinct (map pair_rc ?good)" using m(4) by (rule distinct_map_filter)
  let ?as = "map (assignment_of ?srt ?cols rows) ?good"
  let ?infs = "map (\<lambda>i. oID (?srt ! i)) (filter (\<lambda>i. i \<notin> prRow ` set ?good \<and> 0 < length (?per ! i) \<and>
      rowIsInfeasible (fst (rows ! i))) [0..<length ?srt])"
  let ?P = "to_plan ?srt ?cols ` pair_rc ` set ?good"
  have run: "Optimized c drivers orders index k w now = Some (?as, ?infs)"
    using False m(1,3) by (simp add: Optimized_def Let_def assignment_of_def del: not_le)
  note plan = cells_to_plan [OF dsrt dcols partial subG]
  have cardP: "card ?P = length ?as"
    using plan(2) distinct_card [OF dgood] by simp
  have infs: "set ?infs = {oID ord | ord. ord \<in> set orders \<and> order_candidates c index k ord \<noteq> [] \<and>
       (\<forall>i. \<not> servable c drivers index k ord i)}"
  proof -
    have "i \<notin> prRow ` set ?good" if "i < length ?srt" "\<forall>j. \<not> servable c drivers index k (?srt ! i) j" for i
      using subG that by (auto simp: serv_cells_def pair_rc_def)
    then have "set ?infs = (\<lambda>i. oID (?srt ! i)) ` {i. i < length ?srt \<and> order_candidates c index k (?srt ! i) \<noteq> [] \<and>
        (\<forall>j. \<not> servable c drivers index k (?srt ! i) j)}"
      using row_infeasible [OF m(2) _ sB B(2) cover] by auto
    also have "\<dots> = {oID ord | ord. ord \<in> set ?srt \<and> order_candidates c index k ord \<noteq> [] \<and>
        (\<forall>i. \<not> servable c drivers index k ord i)}"
      by (rule image_nth_where)
    finally show ?thesis by simp
  qed
  have opt: "card Q \<le> card ?P \<and> (card Q = card ?P \<longrightarrow> plan_cost c drivers w now ?P \<le> plan_cost c drivers w now Q)"
    if Q: "2 * real (length orders) * B < Unreachable" "service_plan c drivers index k orders Q" for Q
  proof -
    have "service_plan c drivers index k ?srt Q" using Q(2) service_plan_set [of ?srt orders] by simp
    then obtain A where A: "partial_pairs (length ?srt) (length ?cols) A" "A \<subseteq> ?G" "Q = to_plan ?srt ?cols ` A"
      using plan_to_cells cover by metis
    have small: "2 * real (min (length ?srt) (length ?cols)) * B < Unreachable"
    proof (cases "0 \<le> B")
      case True
      then have "2 * real (min (length ?srt) (length ?cols)) * B \<le> 2 * real (length orders) * B"
        by (intro mult_right_mono) auto
      then show ?thesis using Q(1) by simp
    next
      case False
      then have "2 * real (min (length ?srt) (length ?cols)) * B \<le> 0" by (simp add: mult_nonneg_nonpos)
      then show ?thesis by (simp add: Unreachable_def order_le_less_trans)
    qed
    note sm = sentinel_matching [OF m(5,7) serv_cells_bounds(1,2) [OF m(2) sB B(2)] small _ A(1,2)]
    have "card A \<le> card (pair_rc ` set ps \<inter> ?G)"
      "card A = card (pair_rc ` set ps \<inter> ?G) \<longrightarrow>
         pairs_cost (map fst rows) (pair_rc ` set ps \<inter> ?G) \<le> pairs_cost (map fst rows) A"
      using sm B(2) by auto
    moreover have "card Q = card A" using cells_to_plan(2) [OF dsrt dcols A(1,2)] A(3) by simp
    moreover have "card ?P = card (pair_rc ` set ps \<inter> ?G)" using plan(2) SG by simp
    moreover have "pairs_cost (map fst rows) A = plan_cost c drivers w now Q"
      using plan_cost_cells [OF m(2) sB B(2) dsrt dcols A(1,2)] A(3) by simp
    moreover have "pairs_cost (map fst rows) (pair_rc ` set ps \<inter> ?G) = plan_cost c drivers w now ?P"
      using plan_cost_cells [OF m(2) sB B(2) dsrt dcols partial subG] SG by simp
    ultimately show ?thesis by simp
  qed
  have dinfs: "distinct ?infs"
  proof -
    have "inj_on (\<lambda>i. oID (?srt ! i)) {..<length ?srt}"
      using dids by (auto simp: inj_on_def distinct_conv_nth)
    then show ?thesis by (auto simp: distinct_map intro: inj_on_subset)
  qed
  note con = assignments_contract [OF m(2) dids dcols dgood partial subG]
  show thesis
  proof (rule that [OF run _ _ cardP con(2) infs dinfs])
    show "batch_contract c drivers orders ?as" using con(1) batch_contract_set [of ?srt orders] by simp
    show "service_plan c drivers index k orders ?P" using plan(1) service_plan_set [of ?srt orders] by simp
  qed (rule opt)
qed

subsection \<open>The contract of the nearest-driver batch\<close>

lemma batch_loop_contract:
  assumes keys: "distinct_keys drivers" and ids: "distinct (map oID os)"
  shows "distinct (map aOrderID (batch_loop c drivers os taken)) \<and>
    distinct (map aDriverID (batch_loop c drivers os taken)) \<and>
    (\<forall>a \<in> set (batch_loop c drivers os taken). aDriverID a \<notin> set taken \<and>
       (\<exists>d. map_of drivers (aDriverID a) = Some d \<and> dStatus d = DriverIdle) \<and>
       (\<exists>ord \<in> set os. aOrderID a = oID ord \<and> route_to c drivers ord (aDriverID a) = Some (aToPickup a)))"
  using ids
proof (induction os arbitrary: taken)
  case (Cons ord os)
  show ?case
  proof (cases "baselineExcluding c drivers (oPickup ord) taken")
    case None
    then show ?thesis using Cons.IH [of taken] Cons.prems by auto
  next
    case (Some p)
    obtain i r where p: "p = (i, r)" by (cases p)
    have best: "idle_except drivers taken i" "reaches c drivers (oPickup ord) i r"
      using baselineExcluding_best [OF keys, where c = c and pickup = "oPickup ord" and exclude = taken] Some p by auto
    have IH: "distinct (map aOrderID (batch_loop c drivers os (i # taken)))"
      "distinct (map aDriverID (batch_loop c drivers os (i # taken)))"
      "\<And>a. a \<in> set (batch_loop c drivers os (i # taken)) \<Longrightarrow> aDriverID a \<notin> set (i # taken) \<and>
       (\<exists>d. map_of drivers (aDriverID a) = Some d \<and> dStatus d = DriverIdle) \<and>
       (\<exists>ord \<in> set os. aOrderID a = oID ord \<and> route_to c drivers ord (aDriverID a) = Some (aToPickup a))"
      using Cons.IH [of "i # taken"] Cons.prems by auto
    have "route_to c drivers ord i = Some r" using best(2) by (auto simp: reaches_def route_to_def)
    moreover have "oID ord \<notin> aOrderID ` set (batch_loop c drivers os (i # taken))"
      using IH(3) Cons.prems by fastforce
    moreover have "i \<notin> aDriverID ` set (batch_loop c drivers os (i # taken))" using IH(3) by fastforce
    ultimately show ?thesis using IH best(1) Some p by (fastforce simp: idle_except_def)
  qed
qed simp

lemma BaselineBatch_contract:
  assumes "distinct_keys drivers" "distinct (map oID orders)"
  shows "batch_contract c drivers orders (BaselineBatch c drivers orders)"
    "a \<in> set (BaselineBatch c drivers orders) \<Longrightarrow> \<exists>d. map_of drivers (aDriverID a) = Some d \<and> dStatus d = DriverIdle"
proof -
  have "distinct (map oID (sort_key oID orders))" using assms(2) by (simp add: distinct_map)
  note C = batch_loop_contract [OF assms(1) this, where c = c and taken = "[]"]
  show "batch_contract c drivers orders (BaselineBatch c drivers orders)"
    using C by (simp add: batch_contract_def BaselineBatch_def)
  show "a \<in> set (BaselineBatch c drivers orders) \<Longrightarrow> \<exists>d. map_of drivers (aDriverID a) = Some d \<and> dStatus d = DriverIdle"
    using C by (simp add: BaselineBatch_def)
qed

lemma BaselineBatch_single:
  "BaselineBatch c drivers [ord] =
     (case Baseline c drivers (oPickup ord) of None \<Rightarrow> []
      | Some (i, r) \<Rightarrow> [\<lparr>aOrderID = oID ord, aDriverID = i, aToPickup = r\<rparr>])"
  by (simp add: BaselineBatch_def Baseline_def split: option.splits)

subsection \<open>The interface the simulation relies on\<close>

definition idle_index :: "drivers \<Rightarrow> grid \<Rightarrow> bool" where
  "idle_index drivers index \<longleftrightarrow>
     (\<forall>i \<in> fst ` set (gPoints index). \<exists>d. map_of drivers i = Some d \<and> dStatus d = DriverIdle)"

definition costs_in_range :: "city \<Rightarrow> drivers \<Rightarrow> order list \<Rightarrow> cost_weights \<Rightarrow> real \<Rightarrow> bool" where
  \<comment> \<open>the sentinel is larger than every cost, and the batch is small enough for the sentinel of the search\<close>
  "costs_in_range c drivers orders w now \<longleftrightarrow>
     (\<exists>B < Unreachable. costs_below c drivers orders w now B) \<and>
     (2 * real (length orders) + 2) * Unreachable < hung_inf"

definition greedy_assigns :: "city \<Rightarrow> drivers \<Rightarrow> order list \<Rightarrow> assignment list \<Rightarrow> bool" where
  "greedy_assigns c drivers orders as \<longleftrightarrow>
     distinct_keys drivers \<and> distinct (map oID orders) \<and> as = BaselineBatch c drivers orders"

definition joint_assigns :: "city \<Rightarrow> drivers \<Rightarrow> order list \<Rightarrow> assignment list \<Rightarrow> bool" where
  "joint_assigns c drivers orders as \<longleftrightarrow>
     (\<exists>index k w now infs. grid_wf index \<and> idle_index drivers index \<and> distinct (map oID orders) \<and>
        costs_in_range c drivers orders w now \<and> Optimized c drivers orders index k w now = Some (as, infs))"

locale batch_matcher =
  fixes assigns_batch :: "city \<Rightarrow> drivers \<Rightarrow> order list \<Rightarrow> assignment list \<Rightarrow> bool"
  assumes contract: "assigns_batch c drivers orders as \<Longrightarrow> batch_contract c drivers orders as"
    and chooses_idle: "assigns_batch c drivers orders as \<Longrightarrow> a \<in> set as \<Longrightarrow>
      \<exists>d. map_of drivers (aDriverID a) = Some d \<and> dStatus d = DriverIdle"
begin

lemma one_driver_each: "assigns_batch c drivers orders as \<Longrightarrow> distinct (map aDriverID as)"
  using contract by (simp add: batch_contract_def)

lemma one_assignment_each: "assigns_batch c drivers orders as \<Longrightarrow> distinct (map aOrderID as)"
  using contract by (simp add: batch_contract_def)

lemma assigned_pair:
  assumes "assigns_batch c drivers orders as" "a \<in> set as"
  obtains ord d where "ord \<in> set orders" "aOrderID a = oID ord" "map_of drivers (aDriverID a) = Some d"
    "dStatus d = DriverIdle" "FindRoute c (dPosition d) (oPickup ord) = Some (aToPickup a)"
proof -
  obtain ord where "ord \<in> set orders" "aOrderID a = oID ord" "route_to c drivers ord (aDriverID a) = Some (aToPickup a)"
    using contract [OF assms(1)] assms(2) by (auto simp: batch_contract_def)
  moreover obtain d where "map_of drivers (aDriverID a) = Some d" "dStatus d = DriverIdle"
    using chooses_idle [OF assms] by blast
  ultimately show thesis using that by (simp add: route_to_def)
qed

end

interpretation greedy: batch_matcher greedy_assigns
proof
  show "batch_contract c drivers orders as" if "greedy_assigns c drivers orders as" for c drivers orders as
    using that BaselineBatch_contract(1) by (simp add: greedy_assigns_def)
  show "\<exists>d. map_of drivers (aDriverID a) = Some d \<and> dStatus d = DriverIdle"
    if "greedy_assigns c drivers orders as" "a \<in> set as" for c drivers orders as a
    using that unfolding greedy_assigns_def by (metis BaselineBatch_contract(2))
qed

lemma idle_index_ready:
  "grid_wf index \<Longrightarrow> idle_index drivers index \<Longrightarrow> distinct (map oID orders) \<Longrightarrow> batch_ready c drivers orders index"
  unfolding batch_ready_def idle_index_def by (metis in_keys_iff list.set_map subsetI)

interpretation joint: batch_matcher joint_assigns
proof
  fix c drivers orders as
  assume "joint_assigns c drivers orders as"
  then obtain index k w now infs B where j: "grid_wf index" "idle_index drivers index" "distinct (map oID orders)"
    "B < Unreachable" "costs_below c drivers orders w now B" "(2 * real (length orders) + 2) * Unreachable < hung_inf"
    "Optimized c drivers orders index k w now = Some (as, infs)"
    by (auto simp: joint_assigns_def costs_in_range_def)
  note ready = idle_index_ready [OF j(1-3)]
  obtain as' infs' P where o: "Optimized c drivers orders index k w now = Some (as', infs')"
    "batch_contract c drivers orders as'" "service_plan c drivers index k orders P"
    "set (map (\<lambda>a. (aOrderID a, aDriverID a)) as') = (\<lambda>(ord, i). (oID ord, i)) ` P"
    by (rule Optimized_spec [OF ready j(5,4,6), where k = k]) blast
  have same: "as' = as" using o(1) j(7) by simp
  show "batch_contract c drivers orders as" using o(2) same by simp
  fix a assume "a \<in> set as"
  then have "(aOrderID a, aDriverID a) \<in> (\<lambda>(ord, i). (oID ord, i)) ` P"
    unfolding o(4) [symmetric] same by simp
  then obtain ord where "(ord, aDriverID a) \<in> P" by auto
  then have "servable c drivers index k ord (aDriverID a)" using o(3) by (auto simp: service_plan_def)
  then have "aDriverID a \<in> dom (map_of (gPoints index))"
    using grid_index.candidates_dom [OF j(1)] by (auto simp: servable_def order_candidates_def)
  then show "\<exists>d. map_of drivers (aDriverID a) = Some d \<and> dStatus d = DriverIdle"
    using j(2) by (auto simp: idle_index_def dom_map_of_conv_image_fst)
qed

subsection \<open>The two strategies as callers see them\<close>

text \<open>
  \<open>Baseline\<close> returns an idle driver with a route to the pickup such that no idle driver has a
  shorter route, and among equally near ones the least id; it returns none exactly when no idle
  driver has a route to the pickup.
\<close>

theorem Baseline_nearest:
  assumes "distinct_keys drivers"
  shows "case Baseline c drivers pickup of
      None \<Rightarrow> \<forall>j r. idle_except drivers [] j \<longrightarrow> \<not> reaches c drivers pickup j r
    | Some (i, r) \<Rightarrow> idle_except drivers [] i \<and> reaches c drivers pickup i r \<and>
        (\<forall>j r'. idle_except drivers [] j \<longrightarrow> reaches c drivers pickup j r' \<longrightarrow>
           rDistance r < rDistance r' \<or> rDistance r = rDistance r' \<and> i \<le> j)"
  unfolding Baseline_def by (rule baselineExcluding_best [OF assms])

definition test_driver :: driver where
  "test_driver = \<lparr>dID = ''d'', dPosition = ''a'', dStatus = DriverIdle, dRoute = [], dRouteIndex = 0,
     dAssignedOrder = '''', dIdleSince = 0, dRouteProgress = 0\<rparr>"

definition test_order :: order where
  "test_order = \<lparr>oID = ''order-1'', oPickup = ''b'', oDestination = ''a'', oCreatedAt = 0,
     oStatus = OrderPending, oAssignedDriver = ''''\<rparr>"

lemma test_route: "\<exists>r. FindRoute two_node_city ''a'' ''b'' = Some r \<and> 0 \<le> rDistance r \<and> rDistance r \<le> 3"
proof -
  have p: "open_path two_node_city ''a'' [\<lparr>eID = ''e-a-b'', eFrom = ''a'', eTo = ''b'', eWeight = 3, eClosed = False\<rparr>] ''b''"
    by (simp add: edges_from_def two_node_city_def get_or_def)
  have n: "map_of (cNodes two_node_city) ''a'' \<noteq> None" "map_of (cNodes two_node_city) ''b'' \<noteq> None"
    by (simp_all add: two_node_city_def)
  obtain r where r: "FindRoute two_node_city ''a'' ''b'' = Some r" "shortest_route two_node_city ''a'' ''b'' r"
    using FindRoute_cases [OF two_node_city_metric, of "''a''" "''b''"] p n by metis
  then have "rDistance r \<le> 3" using p unfolding shortest_route_def by fastforce
  moreover have "0 \<le> rDistance r"
    using r(2) euclidean.path_len_nonneg [OF two_node_city_metric] by (auto simp: shortest_route_def)
  ultimately show ?thesis using r(1) by blast
qed

theorem Baseline_nearest_witness:
  "\<exists>r. Baseline two_node_city [(''d'', test_driver)] ''b'' = Some (''d'', r)"
proof -
  let ?ds = "[(''d'', test_driver)]"
  obtain r where "FindRoute two_node_city ''a'' ''b'' = Some r" using test_route by blast
  then have r: "reaches two_node_city ?ds ''b'' ''d'' r" "idle_except ?ds [] ''d''"
    by (simp_all add: reaches_def idle_except_def test_driver_def)
  have only: "i = ''d''" if "idle_except ?ds [] i" for i
    using that by (auto simp: idle_except_def split: if_splits)
  have "distinct_keys ?ds" by simp
  from Baseline_nearest [OF this, of two_node_city "''b''"] show ?thesis
  proof (cases "Baseline two_node_city ?ds ''b''")
    case None
    then show ?thesis using Baseline_nearest [OF \<open>distinct_keys ?ds\<close>, of two_node_city "''b''"] r by auto
  next
    case (Some x)
    then show ?thesis using Baseline_nearest [OF \<open>distinct_keys ?ds\<close>, of two_node_city "''b''"] only
      by (cases x) auto
  qed
qed

text \<open>
  C32.  A joint batch returns, serves each order and uses each driver at most once along computed
  routes, and no other way to pair the orders with their candidate drivers serves more orders;
  among the ways that serve as many, its total cost is the least.
\<close>

theorem Optimized_serves_most:
  fixes k :: int
  assumes "batch_ready c drivers orders index" "costs_below c drivers orders w now B" "B < Unreachable"
    "2 * real (length orders) * B < Unreachable" "(2 * real (length orders) + 2) * Unreachable < hung_inf"
  shows "\<exists>as infs P. Optimized c drivers orders index k w now = Some (as, infs) \<and>
    batch_contract c drivers orders as \<and> service_plan c drivers index k orders P \<and> card P = length as \<and>
    set (map (\<lambda>a. (aOrderID a, aDriverID a)) as) = (\<lambda>(ord, i). (oID ord, i)) ` P \<and>
    (\<forall>Q. service_plan c drivers index k orders Q \<longrightarrow>
       card Q \<le> card P \<and> (card Q = card P \<longrightarrow> plan_cost c drivers w now P \<le> plan_cost c drivers w now Q))"
proof -
  obtain as infs P where o: "Optimized c drivers orders index k w now = Some (as, infs)"
    "batch_contract c drivers orders as" "service_plan c drivers index k orders P" "card P = length as"
    "set (map (\<lambda>a. (aOrderID a, aDriverID a)) as) = (\<lambda>(ord, i). (oID ord, i)) ` P"
    "\<And>Q. 2 * real (length orders) * B < Unreachable \<Longrightarrow> service_plan c drivers index k orders Q \<Longrightarrow>
       card Q \<le> card P \<and> (card Q = card P \<longrightarrow> plan_cost c drivers w now P \<le> plan_cost c drivers w now Q)"
    by (rule Optimized_spec [OF assms(1-3,5), where k = k]) blast
  then show ?thesis using o(6) [OF assms(4)] by blast
qed

definition test_index :: grid where
  "test_index = grid_set ''d'' \<lparr>ptX = 0, ptY = 0\<rparr> (NewGrid 100)"

lemma test_batch:
  "batch_ready two_node_city [(''d'', test_driver)] [test_order] test_index"
  "costs_below two_node_city [(''d'', test_driver)] [test_order] DefaultCostWeights 0 3"
  "(2 * real (length [test_order]) + 2) * Unreachable < hung_inf"
proof -
  have "map_of (gPoints test_index) = [''d'' \<mapsto> \<lparr>ptX = 0, ptY = 0\<rparr>]" by (simp add: test_index_def fun_eq_iff)
  then have "fst ` set (gPoints test_index) = {''d''}" by (metis dom_map_of_conv_image_fst dom_fun_upd dom_empty option.distinct(1))
  moreover have "grid_wf test_index" by (simp add: test_index_def grid_set_wf NewGrid_wf)
  ultimately show "batch_ready two_node_city [(''d'', test_driver)] [test_order] test_index"
    by (simp add: batch_ready_def)
  obtain r where "FindRoute two_node_city ''a'' ''b'' = Some r" "0 \<le> rDistance r" "rDistance r \<le> 3"
    using test_route by blast
  then show "costs_below two_node_city [(''d'', test_driver)] [test_order] DefaultCostWeights 0 3"
    by (auto simp: costs_below_def route_to_def pair_cost_def DefaultCostWeights_def test_order_def test_driver_def
        split: if_splits)
  show "(2 * real (length [test_order]) + 2) * Unreachable < hung_inf" by (simp add: Unreachable_def hung_inf_def)
qed

theorem Optimized_serves_most_witness:
  "\<exists>as infs. Optimized two_node_city [(''d'', test_driver)] [test_order] test_index 8 DefaultCostWeights 0 = Some (as, infs) \<and>
     batch_contract two_node_city [(''d'', test_driver)] [test_order] as"
  using Optimized_serves_most [OF test_batch(1,2) _ _ test_batch(3), of 8] by (auto simp: Unreachable_def)

text \<open>
  The orders a joint batch reports as infeasible are exactly those with at least one candidate
  driver of which none has a route to the pickup; an order without candidates, or one that only
  lost the competition, is not among them.
\<close>

theorem Optimized_infeasible_exact:
  assumes "batch_ready c drivers orders index" "costs_below c drivers orders w now B" "B < Unreachable"
    "(2 * real (length orders) + 2) * Unreachable < hung_inf" "Optimized c drivers orders index k w now = Some (as, infs)"
  shows "distinct infs \<and> set infs = {oID ord | ord. ord \<in> set orders \<and> order_candidates c index k ord \<noteq> [] \<and>
       (\<forall>i. \<not> servable c drivers index k ord i)}"
proof -
  obtain as' infs' P where "Optimized c drivers orders index k w now = Some (as', infs')"
    "set infs' = {oID ord | ord. ord \<in> set orders \<and> order_candidates c index k ord \<noteq> [] \<and>
       (\<forall>i. \<not> servable c drivers index k ord i)}" "distinct infs'"
    by (rule Optimized_spec [OF assms(1-4), where k = k]) blast
  then show ?thesis using assms(5) by simp
qed

theorem Optimized_infeasible_exact_witness:
  "\<exists>as infs. Optimized two_node_city [(''d'', test_driver)] [test_order] test_index 8 DefaultCostWeights 0 = Some (as, infs) \<and>
     distinct infs \<and> ''order-1'' \<notin> set infs"
proof -
  let ?run = "Optimized two_node_city [(''d'', test_driver)] [test_order] test_index 8 DefaultCostWeights 0"
  obtain as infs P where o: "?run = Some (as, infs)"
    by (rule Optimized_spec [OF test_batch(1,2) _ test_batch(3), where k = 8]) (auto simp: Unreachable_def)
  obtain r where "FindRoute two_node_city ''a'' ''b'' = Some r" using test_route by blast
  then have r: "route_to two_node_city [(''d'', test_driver)] test_order ''d'' \<noteq> None"
    by (simp add: route_to_def test_driver_def test_order_def)
  have "gPoints test_index = [(''d'', \<lparr>ptX = 0, ptY = 0\<rparr>)]"
    by (simp add: test_index_def grid_set_def grid_remove_def NewGrid_def Let_def)
  then have "servable two_node_city [(''d'', test_driver)] test_index 8 test_order ''d''
      \<or> order_candidates two_node_city test_index 8 test_order = []"
    using r batch_candidates(2) [OF test_batch(1), of 8 test_order] by (cases "order_candidates two_node_city test_index 8 test_order")
      (auto simp: servable_def)
  then show ?thesis
    using Optimized_infeasible_exact [OF test_batch(1,2) _ test_batch(3) o] o
    by (auto simp: Unreachable_def test_order_def)
qed

end
