(* ===== verification/Json.thy ===== *)
theory Json
  imports Domain
begin

text \<open>
  The part of \<open>encoding/json\<close> the program relies on, at the level of JSON values: event payloads
  (built from \<open>map[string]any\<close>) are values of \<open>json\<close>, \<open>json.Marshal\<close> keeps the value or fails on
  one it cannot encode, and decoding into a struct reads each field by its exact name: a missing or
  null field leaves the zero value, a value of the wrong type is an error.  Key order, white space
  and the case-insensitive fallback of Go's field matching are not modelled.

  The lemmas are the round trips between the typed values of the domain and their JSON form.
\<close>

datatype json =
    JNull | JBool bool | JNum real | JStr string | JArr "json list" | JObj "(string \<times> json) list"
  | JUnencodable

datatype raw_message = RawEmpty | RawBad string | Raw json
  \<comment> \<open>\<open>json.RawMessage\<close>: no bytes, bytes that are not JSON, or the bytes of a value\<close>

fun encodable :: "json \<Rightarrow> bool" where
  "encodable JUnencodable = False"
| "encodable (JArr xs) = list_all encodable xs"
| "encodable (JObj kvs) = list_all (\<lambda>kv. encodable (snd kv)) kvs"
| "encodable _ = True"

definition marshal :: "json \<Rightarrow> raw_message option" where
  "marshal j = (if encodable j then Some (Raw j) else None)"

definition unmarshal :: "raw_message \<Rightarrow> json option" where
  "unmarshal r = (case r of Raw j \<Rightarrow> Some j | _ \<Rightarrow> None)"

lemma unmarshal_marshal [simp]: "marshal j = Some r \<Longrightarrow> unmarshal r = Some j"
  by (auto simp: marshal_def unmarshal_def split: if_splits)

subsection \<open>Decoding\<close>

definition as_object :: "json \<Rightarrow> (string \<times> json) list option" where
  \<comment> \<open>decoding into a struct: \<open>null\<close> leaves every field zero\<close>
  "as_object j = (case j of JObj kvs \<Rightarrow> Some kvs | JNull \<Rightarrow> Some [] | _ \<Rightarrow> None)"

definition field :: "string \<Rightarrow> 'a \<Rightarrow> (json \<Rightarrow> 'a option) \<Rightarrow> (string \<times> json) list \<Rightarrow> 'a option" where
  \<comment> \<open>the last occurrence of a key wins\<close>
  "field k zero dec kvs = (case map_of (rev kvs) k of None \<Rightarrow> Some zero | Some v \<Rightarrow> dec v)"

text \<open>The decoders of the basic types: \<open>null\<close> is a no-op, which leaves the zero value.\<close>

definition dec_string :: "json \<Rightarrow> string option" where
  "dec_string j = (case j of JStr s \<Rightarrow> Some s | JNull \<Rightarrow> Some '''' | _ \<Rightarrow> None)"

definition dec_real :: "json \<Rightarrow> real option" where
  "dec_real j = (case j of JNum x \<Rightarrow> Some x | JNull \<Rightarrow> Some 0 | _ \<Rightarrow> None)"

definition dec_int :: "json \<Rightarrow> int option" where
  "dec_int j = (case j of JNum x \<Rightarrow> if of_int \<lfloor>x\<rfloor> = x then Some \<lfloor>x\<rfloor> else None | JNull \<Rightarrow> Some 0 | _ \<Rightarrow> None)"

definition dec_bool :: "json \<Rightarrow> bool option" where
  "dec_bool j = (case j of JBool b \<Rightarrow> Some b | JNull \<Rightarrow> Some False | _ \<Rightarrow> None)"

fun dec_all :: "(json \<Rightarrow> 'a option) \<Rightarrow> json list \<Rightarrow> 'a list option" where
  "dec_all dec [] = Some []"
| "dec_all dec (j # js) =
     (case dec j of None \<Rightarrow> None | Some x \<Rightarrow> map_option ((#) x) (dec_all dec js))"

definition dec_list :: "(json \<Rightarrow> 'a option) \<Rightarrow> json \<Rightarrow> 'a list option" where
  "dec_list dec j = (case j of JArr js \<Rightarrow> dec_all dec js | JNull \<Rightarrow> Some [] | _ \<Rightarrow> None)"

lemma dec_simps [simp]:
  "as_object (JObj kvs) = Some kvs" "dec_string (JStr s) = Some s" "dec_real (JNum x) = Some x"
  "dec_int (JNum (of_int n)) = Some n" "dec_int (JNum (of_nat k)) = Some (of_nat k)"
  "dec_bool (JBool b) = Some b" "dec_list dec (JArr js) = dec_all dec js"
  "dec_list dec JNull = Some []"
  by (simp_all add: as_object_def dec_string_def dec_real_def dec_int_def dec_bool_def dec_list_def)

lemma dec_all_map: "(\<And>x. x \<in> set xs \<Longrightarrow> dec (f x) = Some (g x)) \<Longrightarrow> dec_all dec (map f xs) = Some (map g xs)"
  by (induction xs) auto

lemma dec_all_strings [simp]: "dec_all dec_string (map JStr xs) = Some xs"
  using dec_all_map [of xs dec_string JStr "\<lambda>x. x"] by simp

subsection \<open>Statuses\<close>

definition driver_status_str :: "driver_status \<Rightarrow> string" where
  "driver_status_str s = (case s of
     DriverIdle \<Rightarrow> ''idle'' | DriverAssigned \<Rightarrow> ''assigned'' | DriverEnRouteToPick \<Rightarrow> ''en_route_to_pickup''
   | DriverDelivering \<Rightarrow> ''delivering'' | DriverUnavailable \<Rightarrow> ''unavailable'' | DriverStatusOther t \<Rightarrow> t)"

definition driver_status_of :: "string \<Rightarrow> driver_status" where
  "driver_status_of t =
     (if t = ''idle'' then DriverIdle else if t = ''assigned'' then DriverAssigned
      else if t = ''en_route_to_pickup'' then DriverEnRouteToPick
      else if t = ''delivering'' then DriverDelivering
      else if t = ''unavailable'' then DriverUnavailable else DriverStatusOther t)"

definition order_status_str :: "order_status \<Rightarrow> string" where
  "order_status_str s = (case s of
     OrderPending \<Rightarrow> ''pending'' | OrderAssigned \<Rightarrow> ''assigned'' | OrderEnRoute \<Rightarrow> ''en_route''
   | OrderDelivered \<Rightarrow> ''delivered'' | OrderUnassignable \<Rightarrow> ''unassignable'' | OrderStatusOther t \<Rightarrow> t)"

definition order_status_of :: "string \<Rightarrow> order_status" where
  "order_status_of t =
     (if t = ''pending'' then OrderPending else if t = ''assigned'' then OrderAssigned
      else if t = ''en_route'' then OrderEnRoute else if t = ''delivered'' then OrderDelivered
      else if t = ''unassignable'' then OrderUnassignable else OrderStatusOther t)"

definition driver_status_named :: "driver_status \<Rightarrow> bool" where
  "driver_status_named s \<longleftrightarrow> driver_status_of (driver_status_str s) = s"

definition order_status_named :: "order_status \<Rightarrow> bool" where
  "order_status_named s \<longleftrightarrow> order_status_of (order_status_str s) = s"

lemma driver_status_named_simps [simp]:
  "driver_status_of (driver_status_str DriverIdle) = DriverIdle"
  "driver_status_of (driver_status_str DriverAssigned) = DriverAssigned"
  "driver_status_of (driver_status_str DriverEnRouteToPick) = DriverEnRouteToPick"
  "driver_status_of (driver_status_str DriverDelivering) = DriverDelivering"
  "driver_status_of (driver_status_str DriverUnavailable) = DriverUnavailable"
  by (simp_all add: driver_status_of_def driver_status_str_def)

lemma order_status_named_simps [simp]:
  "order_status_of (order_status_str OrderPending) = OrderPending"
  "order_status_of (order_status_str OrderAssigned) = OrderAssigned"
  "order_status_of (order_status_str OrderEnRoute) = OrderEnRoute"
  "order_status_of (order_status_str OrderDelivered) = OrderDelivered"
  "order_status_of (order_status_str OrderUnassignable) = OrderUnassignable"
  by (simp_all add: order_status_of_def order_status_str_def)

definition dec_driver_status :: "json \<Rightarrow> driver_status option" where
  "dec_driver_status j = map_option driver_status_of (dec_string j)"

definition dec_order_status :: "json \<Rightarrow> order_status option" where
  "dec_order_status j = map_option order_status_of (dec_string j)"

end
