(* ===== verification/Simulation.thy ===== *)
theory Simulation
  imports Json City_Generate Matching
begin

text \<open>
  \<open>internal/simulation/simulation.go\<close>: one simulation's state, its commands and its clock.

  The \<open>Simulation\<close> struct is the record \<open>sim\<close>; \<open>drivers\<close> and \<open>orders\<close> hold pointers in Go, and a
  write through such a pointer is a write to the map here.  \<open>pending\<close> (the events of the current
  step) is \<open>sEvents\<close>.  Metrics, loggers, spans and the accumulated wall-clock compute time are left
  out; the wall-clock duration that \<open>road.closed\<close> carries is the argument \<open>ms\<close>.  A step is \<open>None\<close>
  where Go dereferences a nil pointer.

  The channels and the actor loop \<open>Run\<close> are in \<open>Actor\<close>.
\<close>

datatype strategy = StrategyBaseline | StrategyOptimized | StrategyOther string
  \<comment> \<open>the zero value is \<open>StrategyOther ''''''''\<close>\<close>

record event =
  evSchemaVersion :: nat
  evSimulationID :: string
  evSequence :: nat
  evVirtualTime :: real
  evType :: event_type
  evPayload :: json
  evTraceID :: string
  evCausationID :: string

record config =
  cfID :: string
  cfSeed :: int
  cfDriverCount :: int
  cfStrategy :: strategy
  cfBatchWindow :: real
  cfMinBatchSize :: int
  cfMaxWait :: real
  cfCandidates :: int
  cfWeights :: cost_weights

record sim =
  sID :: string
  sSeed :: int
  sCity :: city
  sDriverCount :: int
  sPaused :: bool
  sSpeed :: real
  sStrategy :: strategy
  sBatchWindow :: real
  sNextBatchAt :: real
  sMinBatchSize :: int
  sMaxWait :: real
  sCandidates :: int
  sWeights :: cost_weights
  sPending :: "order_id list"
  sIndex :: "grid option"
  sGridCellSize :: real
  sBatchCount :: nat
  sImmediateCount :: nat
  sDrivers :: "(driver_id, driver) gomap"
  sOrders :: "(order_id, order) gomap"
  sVirtualTime :: real
  sSequence :: nat
  sCurrentTrace :: string
  sCurrentCausation :: string
  sEvents :: "event list"
  sNextOrderID :: nat

datatype command =
    PlaceOrder (poPickup: node_id) (poDestination: node_id)
  | SetPaused bool
  | Reset
  | SetSpeed real
  | CloseRoad (crEdgeID: edge_id) (crCommandID: string)
  | ReopenRoad edge_id

definition virtualStepPerTick :: real where "virtualStepPerTick = 1"

definition driverSpeed :: real where "driverSpeed = 25"

subsection \<open>Construction\<close>

definition shortID :: "string \<Rightarrow> nat \<Rightarrow> string" where
  "shortID prefix i = prefix @ ''-'' @ show_nat i"

definition new_driver :: "driver_id \<Rightarrow> node_id \<Rightarrow> driver" where
  "new_driver i pos = \<lparr>dID = i, dPosition = pos, dStatus = DriverIdle, dRoute = [], dRouteIndex = 0,
     dAssignedOrder = '''', dIdleSince = 0, dRouteProgress = 0\<rparr>"

definition placeDrivers :: "city \<Rightarrow> int \<Rightarrow> (driver_id, driver) gomap" where
  "placeDrivers c driverCount =
     (let nodeIDs = sort (keys (cNodes c));
          n = nat driverCount
      in foldl (\<lambda>m i. let did = shortID ''driver'' i
                      in AList.update did (new_driver did (nodeIDs ! (i * length nodeIDs div n))) m)
           [] [0..<min n (length nodeIDs)])"

definition node_point :: "city \<Rightarrow> node_id \<Rightarrow> point" where
  "node_point c i = \<lparr>ptX = nX (node_at c i), ptY = nY (node_at c i)\<rparr>"

definition index_drivers :: "city \<Rightarrow> (driver_id, driver) gomap \<Rightarrow> grid \<Rightarrow> grid" where
  "index_drivers c drivers g = foldl (\<lambda>g (i, d). grid_set i (node_point c (dPosition d)) g) g drivers"

definition zero_weights :: cost_weights where
  "zero_weights = \<lparr>wPickupDistance = 0, wWaitTime = 0, wDriverIdleTime = 0\<rparr>"

definition config_defaults :: "config \<Rightarrow> config" where
  "config_defaults cfg = cfg\<lparr>
     cfStrategy := (if cfStrategy cfg = StrategyOther '''' then StrategyBaseline else cfStrategy cfg),
     cfBatchWindow := (if cfBatchWindow cfg \<le> 0 then 5 else cfBatchWindow cfg),
     cfMinBatchSize := (if cfMinBatchSize cfg \<le> 0 then 2 else cfMinBatchSize cfg),
     cfMaxWait := (if cfMaxWait cfg \<le> 0 then 2 else cfMaxWait cfg),
     cfCandidates := (if cfCandidates cfg \<le> 0 then 8 else cfCandidates cfg),
     cfWeights := (if cfWeights cfg = zero_weights then DefaultCostWeights else cfWeights cfg)\<rparr>"

definition NewWithConfig :: "rand_source \<Rightarrow> config \<Rightarrow> sim" where
  "NewWithConfig draws cfg0 =
     (let cfg = config_defaults cfg0;
          gridCfg = DefaultGridConfig (cfSeed cfg);
          c = GenerateGrid draws gridCfg;
          drivers = placeDrivers c (cfDriverCount cfg);
          index = (if cfStrategy cfg = StrategyOptimized
                   then Some (index_drivers c drivers (NewGrid (gcCellSpacing gridCfg))) else None)
      in \<lparr>sID = cfID cfg, sSeed = cfSeed cfg, sCity = c, sDriverCount = cfDriverCount cfg,
          sPaused = False, sSpeed = 1, sStrategy = cfStrategy cfg,
          sBatchWindow = cfBatchWindow cfg, sNextBatchAt = cfBatchWindow cfg,
          sMinBatchSize = cfMinBatchSize cfg, sMaxWait = cfMaxWait cfg,
          sCandidates = cfCandidates cfg, sWeights = cfWeights cfg, sPending = [],
          sIndex = index, sGridCellSize = gcCellSpacing gridCfg, sBatchCount = 0, sImmediateCount = 0,
          sDrivers = drivers, sOrders = [], sVirtualTime = 0, sSequence = 0,
          sCurrentTrace = '''', sCurrentCausation = '''', sEvents = [], sNextOrderID = 0\<rparr>)"

definition zero_config :: config where
  "zero_config = \<lparr>cfID = '''', cfSeed = 0, cfDriverCount = 0, cfStrategy = StrategyOther '''',
     cfBatchWindow = 0, cfMinBatchSize = 0, cfMaxWait = 0, cfCandidates = 0, cfWeights = zero_weights\<rparr>"

definition New :: "rand_source \<Rightarrow> string \<Rightarrow> int \<Rightarrow> int \<Rightarrow> sim" where
  "New draws i seed driverCount =
     NewWithConfig draws (zero_config\<lparr>cfID := i, cfSeed := seed, cfDriverCount := driverCount\<rparr>)"

subsection \<open>Emission and snapshots\<close>

definition emit :: "event_type \<Rightarrow> json \<Rightarrow> sim \<Rightarrow> sim" where
  "emit t payload s =
     s\<lparr>sSequence := sSequence s + 1,
       sEvents := sEvents s @
         [\<lparr>evSchemaVersion = 1, evSimulationID = sID s, evSequence = sSequence s + 1,
           evVirtualTime = sVirtualTime s, evType = t, evPayload = payload,
           evTraceID = sCurrentTrace s, evCausationID = sCurrentCausation s\<rparr>]\<rparr>"

definition takePending :: "sim \<Rightarrow> event list \<times> sim" where
  "takePending s = (sEvents s, s\<lparr>sEvents := []\<rparr>)"

definition edgeBetween :: "city \<Rightarrow> node_id \<Rightarrow> node_id \<Rightarrow> edge option" where
  "edgeBetween c u v = find (\<lambda>e. eTo e = v) (edges_from c u)"

definition driverPosition :: "sim \<Rightarrow> driver \<Rightarrow> real \<times> real" where
  "driverPosition s d =
     (if dRoute d = [] \<or> length (dRoute d) \<le> dRouteIndex d + 1
      then (nX (node_at (sCity s) (dPosition d)), nY (node_at (sCity s) (dPosition d)))
      else
        let next_id = dRoute d ! (dRouteIndex d + 1);
            n1 = node_at (sCity s) (dPosition d);
            n2 = node_at (sCity s) next_id
        in case edgeBetween (sCity s) (dPosition d) next_id of
             None \<Rightarrow> (nX n1, nY n1)
           | Some e \<Rightarrow>
               if eWeight e \<le> 0 then (nX n1, nY n1)
               else let t0 = dRouteProgress d / eWeight e;
                        t1 = (if t0 < 0 then 0 else t0);
                        t = (if t1 > 1 then 1 else t1)
                    in (nX n1 + (nX n2 - nX n1) * t, nY n1 + (nY n2 - nY n1) * t))"

definition enc_route :: "node_id list \<Rightarrow> json" where
  \<comment> \<open>a nil slice encodes as \<open>null\<close>\<close>
  "enc_route r = (if r = [] then JNull else JArr (map JStr r))"

definition enc_node :: "node \<Rightarrow> json" where
  "enc_node n = JObj [(''id'', JStr (nID n)), (''x'', JNum (nX n)), (''y'', JNum (nY n))]"

definition enc_edge :: "edge \<Rightarrow> json" where
  "enc_edge e = JObj [(''id'', JStr (eID e)), (''from'', JStr (eFrom e)), (''to'', JStr (eTo e)),
     (''closed'', JBool (eClosed e))]"

definition enc_driver :: "sim \<Rightarrow> driver \<Rightarrow> json" where
  "enc_driver s d = JObj
     [(''id'', JStr (dID d)), (''position'', JStr (dPosition d)),
      (''status'', JStr (driver_status_str (dStatus d))),
      (''x'', JNum (fst (driverPosition s d))), (''y'', JNum (snd (driverPosition s d))),
      (''route'', enc_route (dRoute d)), (''routeIndex'', JNum (of_nat (dRouteIndex d))),
      (''routeProgress'', JNum (dRouteProgress d)), (''assignedOrder'', JStr (dAssignedOrder d))]"

definition enc_order :: "order \<Rightarrow> json" where
  "enc_order ord = JObj
     [(''id'', JStr (oID ord)), (''pickup'', JStr (oPickup ord)), (''destination'', JStr (oDestination ord)),
      (''status'', JStr (order_status_str (oStatus ord))), (''assignedDriver'', JStr (oAssignedDriver ord)),
      (''createdAtVirtualTime'', JNum (oCreatedAt ord))]"

definition sorted_values :: "(string, 'v) gomap \<Rightarrow> 'v list" where
  \<comment> \<open>collect the keys, sort them, look each one up\<close>
  "sorted_values m = map (\<lambda>k. the (map_of m k)) (sort (keys m))"

definition snapshotPayload :: "sim \<Rightarrow> json" where
  "snapshotPayload s = JObj
     [(''nodes'', JArr (map enc_node (sorted_values (cNodes (sCity s))))),
      (''edges'', JArr (map enc_edge (sort_key eID (all_edges (sCity s))))),
      (''drivers'', JArr (map (enc_driver s) (sorted_values (sDrivers s)))),
      (''orders'', JArr (map enc_order (sorted_values (sOrders s)))),
      (''paused'', JBool (sPaused s)), (''speed'', JNum (sSpeed s))]"

definition buildSnapshotEvent :: "sim \<Rightarrow> event" where
  "buildSnapshotEvent s =
     \<lparr>evSchemaVersion = 1, evSimulationID = sID s, evSequence = sSequence s,
      evVirtualTime = sVirtualTime s, evType = EventSimulationSnapshot,
      evPayload = snapshotPayload s, evTraceID = '''', evCausationID = ''''\<rparr>"

definition Start :: "sim \<Rightarrow> event list \<times> sim" where
  "Start s = takePending (emit EventSimulationSnapshot (snapshotPayload s) s)"

subsection \<open>Road closures\<close>

definition set_driver :: "driver_id \<Rightarrow> (driver \<Rightarrow> driver) \<Rightarrow> sim \<Rightarrow> sim" where
  "set_driver i f s = s\<lparr>sDrivers := adjust i f (sDrivers s)\<rparr>"

definition set_order :: "order_id \<Rightarrow> (order \<Rightarrow> order) \<Rightarrow> sim \<Rightarrow> sim" where
  "set_order i f s = s\<lparr>sOrders := adjust i f (sOrders s)\<rparr>"

definition routeUsesClosedEdge :: "city \<Rightarrow> node_id list \<Rightarrow> nat \<Rightarrow> bool" where
  "routeUsesClosedEdge c r fromIndex =
     list_ex (\<lambda>i. case edgeBetween c (r ! i) (r ! (i + 1)) of None \<Rightarrow> True | Some e \<Rightarrow> eClosed e)
       [fromIndex..<length r - 1]"

definition unassignable_payload :: "order_id \<Rightarrow> string \<Rightarrow> json" where
  "unassignable_payload i reason = JObj [(''orderId'', JStr i), (''reason'', JStr reason)]"

definition driver_status_payload :: "driver_id \<Rightarrow> driver_status \<Rightarrow> json" where
  "driver_status_payload i st = JObj [(''driverId'', JStr i), (''status'', JStr (driver_status_str st))]"

definition route_payload :: "driver_id \<Rightarrow> node_id list \<Rightarrow> real \<Rightarrow> json" where
  "route_payload i nodes len =
     JObj [(''driverId'', JStr i), (''nodeIds'', JArr (map JStr nodes)), (''distance'', JNum len)]"

definition reroute_to :: "driver_id \<Rightarrow> driver \<Rightarrow> order \<Rightarrow> node_id \<Rightarrow> string \<Rightarrow> sim \<Rightarrow> sim" where
  \<comment> \<open>\<open>rerouteDriver\<close> after its \<open>switch\<close>\<close>
  "reroute_to i d ord target reason s0 =
     (let s = emit EventRouteInvalidated (JObj [(''driverId'', JStr i), (''orderId'', JStr (oID ord))]) s0
      in case FindRoute (sCity s) (dPosition d) target of
           None \<Rightarrow>
             let s1 = set_order (dAssignedOrder d) (\<lambda>x. x\<lparr>oStatus := OrderUnassignable\<rparr>) s;
                 s2 = emit EventOrderUnassignable (unassignable_payload (oID ord) reason) s1;
                 s3 = set_driver i (\<lambda>x. x\<lparr>dStatus := DriverIdle, dRoute := [], dRouteIndex := 0,
                        dAssignedOrder := ''''\<rparr>) s2
             in emit EventDriverStatusChanged (driver_status_payload i DriverIdle) s3
         | Some r \<Rightarrow>
             emit EventRouteComputed (route_payload i (rNodes r) (rDistance r))
               (set_driver i (\<lambda>x. x\<lparr>dRoute := rNodes r, dRouteIndex := 0\<rparr>) s))"

definition rerouteDriver :: "driver_id \<Rightarrow> driver \<Rightarrow> sim \<Rightarrow> sim" where
  "rerouteDriver i d s =
     (case map_of (sOrders s) (dAssignedOrder d) of
        None \<Rightarrow> s
      | Some ord \<Rightarrow>
          (case dStatus d of
             DriverEnRouteToPick \<Rightarrow> reroute_to i d ord (oPickup ord) ''road closure left no path to the pickup'' s
           | DriverDelivering \<Rightarrow>
               reroute_to i d ord (oDestination ord) ''road closure left no path to the destination'' s
           | _ \<Rightarrow> s))"

definition recalc_step :: "nat \<times> sim \<Rightarrow> driver_id \<Rightarrow> nat \<times> sim" where
  "recalc_step acc i =
     (case map_of (sDrivers (snd acc)) i of
        None \<Rightarrow> acc
      | Some d \<Rightarrow>
          if dRoute d = [] \<or> \<not> routeUsesClosedEdge (sCity (snd acc)) (dRoute d) (dRouteIndex d) then acc
          else (fst acc + 1, rerouteDriver i d (snd acc)))"

definition recalculateAffectedRoutes :: "sim \<Rightarrow> nat \<times> sim" where
  "recalculateAffectedRoutes s = foldl recalc_step (0, s) (sort (keys (sDrivers s)))"

definition close_segment :: "bool \<Rightarrow> edge \<Rightarrow> city \<Rightarrow> edge_id list \<times> city" where
  \<comment> \<open>sets both directions of a segment; the ids it touched\<close>
  "close_segment b e c0 =
     (let c = fst (SetClosed c0 (eID e) b)
      in case edgeBetween c (eTo e) (eFrom e) of
           None \<Rightarrow> ([eID e], c)
         | Some r \<Rightarrow> ([eID e, eID r], fst (SetClosed c (eID r) b)))"

definition handleCloseRoad :: "real \<Rightarrow> edge_id \<Rightarrow> string \<Rightarrow> sim \<Rightarrow> sim" where
  "handleCloseRoad ms i commandID s0 =
     (case EdgeByID (sCity s0) i of
        None \<Rightarrow> s0
      | Some e \<Rightarrow>
          if eClosed e then s0
          else
            let (edgeIDs, c) = close_segment True e (sCity s0);
                (affected, s) = recalculateAffectedRoutes (s0\<lparr>sCurrentCausation := commandID, sCity := c\<rparr>)
            in (emit EventRoadClosed
                  (JObj [(''edgeIds'', JArr (map JStr edgeIDs)), (''from'', JStr (eFrom e)), (''to'', JStr (eTo e)),
                         (''affectedRoutes'', JNum (of_nat affected)), (''recalculationMs'', JNum ms)]) s)
               \<lparr>sCurrentCausation := ''''\<rparr>)"

definition handleReopenRoad :: "edge_id \<Rightarrow> sim \<Rightarrow> sim" where
  "handleReopenRoad i s =
     (case EdgeByID (sCity s) i of
        None \<Rightarrow> s
      | Some e \<Rightarrow>
          if \<not> eClosed e then s
          else
            let (edgeIDs, c) = close_segment False e (sCity s)
            in emit EventRoadReopened
                 (JObj [(''edgeIds'', JArr (map JStr edgeIDs)), (''from'', JStr (eFrom e)), (''to'', JStr (eTo e))])
                 (s\<lparr>sCity := c\<rparr>))"

definition reset :: "sim \<Rightarrow> sim" where
  "reset s0 =
     (let drivers = placeDrivers (sCity s0) (sDriverCount s0);
          s = s0\<lparr>sDrivers := drivers, sOrders := [], sVirtualTime := 0, sNextOrderID := 0,
                sPending := [], sNextBatchAt := sBatchWindow s0, sBatchCount := 0, sImmediateCount := 0,
                sIndex := (case sIndex s0 of None \<Rightarrow> None
                           | Some _ \<Rightarrow> Some (index_drivers (sCity s0) drivers (NewGrid (sGridCellSize s0))))\<rparr>
      in emit EventSimulationSnapshot (snapshotPayload s) s)"

subsection \<open>Assignment\<close>

definition hasIdleDriver :: "sim \<Rightarrow> bool" where
  "hasIdleDriver s = list_ex (\<lambda>(i, d). dStatus d = DriverIdle) (sDrivers s)"

definition commit_assignment :: "assignment \<Rightarrow> order \<Rightarrow> driver \<Rightarrow> route \<Rightarrow> node_id list \<Rightarrow> sim \<Rightarrow> sim" where
  \<comment> \<open>\<open>applyAssignment\<close> once the destination leg is known; \<open>full\<close> is the joined route\<close>
  "commit_assignment a ord d toDest full s =
     (let atPickup = (dPosition d = oPickup ord);
          dst = (if atPickup then DriverDelivering else DriverEnRouteToPick);
          s1 = set_driver (aDriverID a) (\<lambda>x. x\<lparr>dRoute := full, dRouteIndex := 0, dStatus := dst,
                 dAssignedOrder := oID ord\<rparr>) s;
          s2 = s1\<lparr>sIndex := map_option (grid_remove (aDriverID a)) (sIndex s1)\<rparr>;
          s3 = set_order (aOrderID a) (\<lambda>x. x\<lparr>oStatus := (if atPickup then OrderEnRoute else OrderAssigned),
                 oAssignedDriver := aDriverID a\<rparr>) s2;
          s4 = emit EventRouteComputed
                 (route_payload (aDriverID a) full (rDistance (aToPickup a) + rDistance toDest)) s3;
          s5 = emit EventOrderAssigned
                 (JObj [(''orderId'', JStr (oID ord)), (''driverId'', JStr (aDriverID a)),
                        (''pickupEtaVirtualTime'', JNum (sVirtualTime s4 + rDistance (aToPickup a) / driverSpeed)),
                        (''pickupDistance'', JNum (rDistance (aToPickup a)))]) s4
      in emit EventDriverStatusChanged (driver_status_payload (aDriverID a) dst) s5)"

definition applyAssignment :: "assignment \<Rightarrow> sim \<Rightarrow> sim option" where
  "applyAssignment a s =
     (case map_of (sOrders s) (aOrderID a) of
        None \<Rightarrow> None
      | Some ord \<Rightarrow>
          (case FindRoute (sCity s) (oPickup ord) (oDestination ord) of
             None \<Rightarrow>
               Some (emit EventOrderUnassignable (unassignable_payload (oID ord) ''no path from pickup to destination'')
                 (set_order (aOrderID a) (\<lambda>x. x\<lparr>oStatus := OrderUnassignable\<rparr>) s))
           | Some toDest \<Rightarrow>
               (case (map_of (sDrivers s) (aDriverID a), rNodes toDest) of
                  (Some d, _ # rest) \<Rightarrow>
                    Some (commit_assignment a ord d toDest (rNodes (aToPickup a) @ rest) s)
                | _ \<Rightarrow> None)))"

definition assignBaseline :: "order_id \<Rightarrow> order \<Rightarrow> sim \<Rightarrow> sim option" where
  "assignBaseline i ord s =
     (case Baseline (sCity s) (sDrivers s) (oPickup ord) of
        Some (did, toPickup) \<Rightarrow>
          applyAssignment \<lparr>aOrderID = i, aDriverID = did, aToPickup = toPickup\<rparr> s
      | None \<Rightarrow>
          if hasIdleDriver s then
            Some (emit EventOrderUnassignable (unassignable_payload i ''no available driver can reach the pickup'')
              (set_order i (\<lambda>x. x\<lparr>oStatus := OrderUnassignable\<rparr>) s))
          else Some (s\<lparr>sPending := sPending s @ [i]\<rparr>))"

definition retry_one :: "order_id \<Rightarrow> sim \<Rightarrow> sim option" where
  "retry_one i s =
     (case map_of (sOrders s) i of
        None \<Rightarrow> Some s
      | Some ord \<Rightarrow> if oStatus ord \<noteq> OrderPending then Some s else assignBaseline i ord s)"

definition retryPendingBaseline :: "sim \<Rightarrow> sim option" where
  "retryPendingBaseline s =
     (if sPending s = [] \<or> \<not> hasIdleDriver s then Some s
      else fold_opt retry_one (sPending s) (s\<lparr>sPending := []\<rparr>))"

definition dispatchImmediateBaseline :: "sim \<Rightarrow> sim option" where
  "dispatchImmediateBaseline s =
     (case sPending s of
        [] \<Rightarrow> Some s
      | i # rest \<Rightarrow>
          let s' = s\<lparr>sPending := rest\<rparr>
          in case map_of (sOrders s) i of
               None \<Rightarrow> Some s'
             | Some ord \<Rightarrow>
                 if oStatus ord \<noteq> OrderPending then Some s'
                 else assignBaseline i ord (s'\<lparr>sImmediateCount := sImmediateCount s' + 1\<rparr>))"

fun all_some :: "'a option list \<Rightarrow> 'a list option" where
  "all_some [] = Some []"
| "all_some (None # xs) = None"
| "all_some (Some x # xs) = map_option ((#) x) (all_some xs)"

definition reject_order :: "order_id \<Rightarrow> sim \<Rightarrow> sim option" where
  "reject_order i s =
     (case map_of (sOrders s) i of
        None \<Rightarrow> None
      | Some ord \<Rightarrow>
          Some (emit EventOrderUnassignable (unassignable_payload i ''no available driver can reach the pickup'')
            (set_order i (\<lambda>x. x\<lparr>oStatus := OrderUnassignable\<rparr>) s)))"

definition settle_batch :: "assignment list \<Rightarrow> order_id list \<Rightarrow> sim \<Rightarrow> sim option" where
  \<comment> \<open>\<open>runBatch\<close> after the matching call\<close>
  "settle_batch assigned infeasible s =
     (case fold_opt applyAssignment assigned s of
        None \<Rightarrow> None
      | Some s1 \<Rightarrow>
          map_option (\<lambda>s2. s2\<lparr>sPending :=
              filter (\<lambda>i. i \<notin> aOrderID ` set assigned \<and> i \<notin> set infeasible) (sPending s2)\<rparr>)
            (fold_opt reject_order infeasible s1))"

definition runBatch :: "sim \<Rightarrow> sim option" where
  "runBatch s0 =
     (if sPending s0 = [] then Some s0
      else
        let s = s0\<lparr>sBatchCount := sBatchCount s0 + 1\<rparr>
        in case all_some (map (map_of (sOrders s)) (sPending s)) of
             None \<Rightarrow> None
           | Some orders \<Rightarrow>
               (case sIndex s of
                  None \<Rightarrow> None
                | Some index \<Rightarrow>
                    (case Optimized (sCity s) (sDrivers s) orders index (sCandidates s) (sWeights s) (sVirtualTime s) of
                       None \<Rightarrow> None
                     | Some res \<Rightarrow> settle_batch (fst res) (snd res) s)))"

definition dispatchOptimized :: "sim \<Rightarrow> sim option" where
  "dispatchOptimized s =
     (case sPending s of
        [] \<Rightarrow> Some s
      | oldestID # rest \<Rightarrow>
          let n = int (length (sPending s))
          in if n \<ge> sMinBatchSize s then runBatch s
             else if n = 1 \<and> hasIdleDriver s then dispatchImmediateBaseline s
             else case map_of (sOrders s) oldestID of
                    None \<Rightarrow> Some (s\<lparr>sPending := rest\<rparr>)
                  | Some oldest \<Rightarrow>
                      if oStatus oldest \<noteq> OrderPending then Some (s\<lparr>sPending := rest\<rparr>)
                      else if sVirtualTime s - oCreatedAt oldest < sMaxWait s then Some s
                      else if n \<ge> 2 then runBatch s
                      else dispatchImmediateBaseline s)"

definition placed_order :: "node_id \<Rightarrow> node_id \<Rightarrow> sim \<Rightarrow> order" where
  \<comment> \<open>the order the next \<open>PlaceOrder\<close> creates\<close>
  "placed_order pickup dest s =
     \<lparr>oID = shortID ''order'' (sNextOrderID s + 1), oPickup = pickup, oDestination = dest,
      oCreatedAt = sVirtualTime s, oStatus = OrderPending, oAssignedDriver = ''''\<rparr>"

definition record_order :: "order \<Rightarrow> sim \<Rightarrow> sim" where
  "record_order ord s =
     emit EventOrderPlaced
       (JObj [(''orderId'', JStr (oID ord)), (''pickupNodeId'', JStr (oPickup ord)),
              (''destinationNodeId'', JStr (oDestination ord))])
       (s\<lparr>sNextOrderID := sNextOrderID s + 1, sOrders := AList.update (oID ord) ord (sOrders s)\<rparr>)"

definition handlePlaceOrder :: "node_id \<Rightarrow> node_id \<Rightarrow> sim \<Rightarrow> sim option" where
  "handlePlaceOrder pickup dest s0 =
     (let ord = placed_order pickup dest s0;
          s = record_order ord s0
      in if sStrategy s = StrategyOptimized then
           let s' = s\<lparr>sPending := sPending s @ [oID ord]\<rparr>
           in if length (sPending s') = 1 \<and> hasIdleDriver s' then dispatchImmediateBaseline s' else Some s'
         else assignBaseline (oID ord) ord s)"

lemma runBatch_cases:
  assumes "runBatch s = Some s'"
  obtains "sPending s = []" "s' = s"
  | orders index as infs s1 s2 where "sPending s \<noteq> []"
    "all_some (map (map_of (sOrders s)) (sPending s)) = Some orders" "sIndex s = Some index"
    "Optimized (sCity s) (sDrivers s) orders index (sCandidates s) (sWeights s) (sVirtualTime s) = Some (as, infs)"
    "fold_opt applyAssignment as (s\<lparr>sBatchCount := sBatchCount s + 1\<rparr>) = Some s1"
    "fold_opt reject_order infs s1 = Some s2"
    "s' = s2\<lparr>sPending := filter (\<lambda>i. i \<notin> aOrderID ` set as \<and> i \<notin> set infs) (sPending s2)\<rparr>"
proof (cases "sPending s = []")
  case True
  then have "s' = s" using assms by (simp add: runBatch_def)
  with True show thesis by (rule that(1))
next
  case False
  let ?s = "s\<lparr>sBatchCount := sBatchCount s + 1\<rparr>"
  obtain orders where r: "all_some (map (map_of (sOrders s)) (sPending s)) = Some orders"
    using assms False by (cases "all_some (map (map_of (sOrders s)) (sPending s))") (auto simp: runBatch_def Let_def)
  obtain index where x: "sIndex s = Some index"
    using assms False r by (cases "sIndex s") (auto simp: runBatch_def Let_def)
  obtain as infs where res:
    "Optimized (sCity s) (sDrivers s) orders index (sCandidates s) (sWeights s) (sVirtualTime s) = Some (as, infs)"
    using assms False r x
    by (cases "Optimized (sCity s) (sDrivers s) orders index (sCandidates s) (sWeights s) (sVirtualTime s)")
      (auto simp: runBatch_def Let_def)
  have run: "settle_batch as infs ?s = Some s'"
    using assms False r x res by (simp add: runBatch_def Let_def)
  obtain s1 where s1: "fold_opt applyAssignment as ?s = Some s1"
    using run by (cases "fold_opt applyAssignment as ?s") (auto simp: settle_batch_def)
  obtain s2 where s2: "fold_opt reject_order infs s1 = Some s2"
    using run s1 by (cases "fold_opt reject_order infs s1") (auto simp: settle_batch_def)
  have "s' = s2\<lparr>sPending := filter (\<lambda>i. i \<notin> aOrderID ` set as \<and> i \<notin> set infs) (sPending s2)\<rparr>"
    using run s1 s2 by (simp add: settle_batch_def)
  then show thesis by (rule that(2) [OF False r x res s1 s2])
qed

subsection \<open>Movement\<close>

definition finish_delivery :: "driver_id \<Rightarrow> driver \<Rightarrow> order \<Rightarrow> sim \<Rightarrow> sim" where
  \<comment> \<open>the second \<open>if\<close> of \<open>handleDriverAtNode\<close>; \<open>d\<close> and \<open>ord\<close> are what the pointers hold\<close>
  "finish_delivery i d ord s =
     (let s1 = emit EventOrderDelivered (JObj [(''orderId'', JStr (oID ord)), (''driverId'', JStr i)])
                 (set_order (dAssignedOrder d) (\<lambda>x. x\<lparr>oStatus := OrderDelivered\<rparr>) s);
          s2 = set_driver i (\<lambda>x. x\<lparr>dStatus := DriverIdle, dRoute := [], dRouteIndex := 0,
                 dRouteProgress := 0, dAssignedOrder := '''', dIdleSince := sVirtualTime s1\<rparr>) s1;
          s3 = s2\<lparr>sIndex := map_option (grid_set i (node_point (sCity s2) (dPosition d))) (sIndex s2)\<rparr>
      in emit EventDriverStatusChanged (driver_status_payload i DriverIdle) s3)"

definition reach_pickup :: "driver_id \<Rightarrow> driver \<Rightarrow> sim \<Rightarrow> sim" where
  \<comment> \<open>the first \<open>if\<close>\<close>
  "reach_pickup i d s =
     emit EventDriverStatusChanged (driver_status_payload i DriverDelivering)
       (set_order (dAssignedOrder d) (\<lambda>x. x\<lparr>oStatus := OrderEnRoute\<rparr>)
         (set_driver i (\<lambda>x. x\<lparr>dStatus := DriverDelivering\<rparr>) s))"

definition handleDriverAtNode :: "driver_id \<Rightarrow> sim \<Rightarrow> sim" where
  "handleDriverAtNode i s =
     (case map_of (sDrivers s) i of
        None \<Rightarrow> s
      | Some d \<Rightarrow>
          (case map_of (sOrders s) (dAssignedOrder d) of
             None \<Rightarrow> s
           | Some ord \<Rightarrow>
               let s1 = (if dStatus d = DriverEnRouteToPick \<and> dPosition d = oPickup ord then reach_pickup i d s else s)
               in if dRouteIndex d + 1 = length (dRoute d) then finish_delivery i d ord s1 else s1))"

lemma handleDriverAtNode_driver:
  "map_of (sDrivers (handleDriverAtNode i s)) i = map_option (\<lambda>d.
     case map_of (sOrders s) (dAssignedOrder d) of None \<Rightarrow> d
     | Some ord \<Rightarrow>
         if dRouteIndex d + 1 = length (dRoute d) then
           d\<lparr>dStatus := DriverIdle, dRoute := [], dRouteIndex := 0, dRouteProgress := 0, dAssignedOrder := '''',
             dIdleSince := sVirtualTime s\<rparr>
         else if dStatus d = DriverEnRouteToPick \<and> dPosition d = oPickup ord then d\<lparr>dStatus := DriverDelivering\<rparr>
         else d) (map_of (sDrivers s) i)"
  by (simp add: handleDriverAtNode_def reach_pickup_def finish_delivery_def set_driver_def set_order_def
      emit_def Let_def split: option.splits)

definition hops_left :: "driver_id \<Rightarrow> sim \<Rightarrow> nat" where
  "hops_left i s = (case map_of (sDrivers s) i of None \<Rightarrow> 0 | Some d \<Rightarrow> length (dRoute d) - dRouteIndex d)"

definition advance_driver :: "driver_id \<Rightarrow> node_id \<Rightarrow> sim \<Rightarrow> sim" where
  \<comment> \<open>crossing a whole edge\<close>
  "advance_driver i nxt s =
     handleDriverAtNode i (set_driver i (\<lambda>x. x\<lparr>dRouteProgress := 0, dRouteIndex := dRouteIndex x + 1,
       dPosition := nxt\<rparr>) s)"

lemma hops_left_advance:
  assumes "map_of (sDrivers s) i = Some d" "dRouteIndex d + 1 < length (dRoute d)"
  shows "hops_left i (advance_driver i nxt s) < hops_left i s"
proof -
  have "hops_left i s = length (dRoute d) - dRouteIndex d" using assms by (simp add: hops_left_def)
  moreover have "hops_left i (advance_driver i nxt s) \<le> length (dRoute d) - (dRouteIndex d + 1)"
    using assms by (auto simp: hops_left_def advance_driver_def handleDriverAtNode_driver set_driver_def
        split: option.splits)
  ultimately show ?thesis using assms(2) by linarith
qed

function move_loop :: "driver_id \<Rightarrow> real \<Rightarrow> sim \<Rightarrow> sim" where
  "move_loop i budget s =
     (if \<not> budget > 0 then s
      else case map_of (sDrivers s) i of
        None \<Rightarrow> s
      | Some d \<Rightarrow>
          if length (dRoute d) \<le> dRouteIndex d + 1 then s
          else (case edgeBetween (sCity s) (dPosition d) (dRoute d ! (dRouteIndex d + 1)) of
                  None \<Rightarrow> s
                | Some e \<Rightarrow>
                    if eClosed e then s
                    else let remaining = eWeight e - dRouteProgress d
                         in if budget \<ge> remaining
                            then move_loop i (budget - remaining)
                                   (advance_driver i (dRoute d ! (dRouteIndex d + 1)) s)
                            else set_driver i (\<lambda>x. x\<lparr>dRouteProgress := dRouteProgress x + budget\<rparr>) s))"
  by pat_completeness auto
termination
  by (relation "measure (\<lambda>(i, budget, s). hops_left i s)") (auto intro!: hops_left_advance)

declare move_loop.simps [simp del]

definition halted :: "driver_id \<Rightarrow> sim \<Rightarrow> bool" where
  \<comment> \<open>the driver is at the end of its route or in front of a missing or closed road\<close>
  "halted i s \<longleftrightarrow>
     (\<forall>d e. map_of (sDrivers s) i = Some d \<longrightarrow> dRouteIndex d + 1 < length (dRoute d) \<longrightarrow>
        edgeBetween (sCity s) (dPosition d) (dRoute d ! (dRouteIndex d + 1)) = Some e \<longrightarrow> eClosed e)"

lemma move_loop_invariant:
  assumes start: "P budget s"
    and advance: "\<And>b s d e. P b s \<Longrightarrow> 0 < b \<Longrightarrow> map_of (sDrivers s) i = Some d \<Longrightarrow>
      dRouteIndex d + 1 < length (dRoute d) \<Longrightarrow>
      edgeBetween (sCity s) (dPosition d) (dRoute d ! (dRouteIndex d + 1)) = Some e \<Longrightarrow> \<not> eClosed e \<Longrightarrow>
      eWeight e - dRouteProgress d \<le> b \<Longrightarrow>
      P (b - (eWeight e - dRouteProgress d)) (advance_driver i (dRoute d ! (dRouteIndex d + 1)) s)"
    and part: "\<And>b s d e. P b s \<Longrightarrow> 0 < b \<Longrightarrow> map_of (sDrivers s) i = Some d \<Longrightarrow>
      dRouteIndex d + 1 < length (dRoute d) \<Longrightarrow>
      edgeBetween (sCity s) (dPosition d) (dRoute d ! (dRouteIndex d + 1)) = Some e \<Longrightarrow> \<not> eClosed e \<Longrightarrow>
      b < eWeight e - dRouteProgress d \<Longrightarrow>
      Q (set_driver i (\<lambda>x. x\<lparr>dRouteProgress := dRouteProgress x + b\<rparr>) s)"
    and stop: "\<And>b s. P b s \<Longrightarrow> b \<le> 0 \<or> halted i s \<Longrightarrow> Q s"
  shows "Q (move_loop i budget s)"
  using assms
proof (induction i budget s rule: move_loop.induct)
  case (1 i budget s)
  note start = "1.prems"(1) and advance = "1.prems"(2) and part = "1.prems"(3) and stop = "1.prems"(4)
  show ?case
  proof (cases "0 < budget")
    case pos: True
    show ?thesis
    proof (cases "map_of (sDrivers s) i")
      case (Some d)
      show ?thesis
      proof (cases "length (dRoute d) \<le> dRouteIndex d + 1")
        case False
        show ?thesis
        proof (cases "edgeBetween (sCity s) (dPosition d) (dRoute d ! (dRouteIndex d + 1))")
          case e: (Some e)
          show ?thesis
          proof (cases "eClosed e")
            case open_edge: False
            have idx: "dRouteIndex d + 1 < length (dRoute d)" using False by simp
            show ?thesis
            proof (cases "eWeight e - dRouteProgress d \<le> budget")
              case True
              have "P (budget - (eWeight e - dRouteProgress d)) (advance_driver i (dRoute d ! (dRouteIndex d + 1)) s)"
                by (rule advance [OF start pos Some idx e open_edge True])
              moreover have "move_loop i budget s = move_loop i (budget - (eWeight e - dRouteProgress d))
                  (advance_driver i (dRoute d ! (dRouteIndex d + 1)) s)"
                using pos Some False e open_edge True by (subst move_loop.simps) (simp only: Let_def option.case if_True if_False not_True_eq_False)
              moreover have "Q (move_loop i (budget - (eWeight e - dRouteProgress d))
                  (advance_driver i (dRoute d ! (dRouteIndex d + 1)) s))"
              proof (rule "1.IH" [OF _ Some False e open_edge refl True])
                show "\<not> \<not> 0 < budget" using pos by simp
                show "P (budget - (eWeight e - dRouteProgress d)) (advance_driver i (dRoute d ! (dRouteIndex d + 1)) s)"
                  by fact
              qed ((rule advance part stop; assumption)+)
              ultimately show ?thesis by (simp only:)
            next
              case lt: False
              then have "budget < eWeight e - dRouteProgress d" by simp
              from part [OF start pos Some idx e open_edge this] show ?thesis
                using pos Some False e open_edge lt by (subst move_loop.simps) (simp add: Let_def)
            qed
          qed (use start pos Some False stop e in \<open>subst move_loop.simps, simp add: halted_def\<close>)
        qed (use start pos Some False stop in \<open>subst move_loop.simps, simp add: halted_def\<close>)
      qed (use start pos Some stop in \<open>subst move_loop.simps, simp add: halted_def\<close>)
    qed (use start pos stop in \<open>subst move_loop.simps, simp add: halted_def\<close>)
  qed (use start stop in \<open>subst move_loop.simps, simp add: halted_def\<close>)
qed

definition emitDriverPosition :: "driver_id \<Rightarrow> driver \<Rightarrow> sim \<Rightarrow> sim" where
  "emitDriverPosition i d s =
     emit EventDriverPositionUpdate
       (JObj [(''driverId'', JStr i), (''nodeId'', JStr (dPosition d)),
              (''x'', JNum (fst (driverPosition s d))), (''y'', JNum (snd (driverPosition s d))),
              (''routeIndex'', JNum (of_nat (dRouteIndex d))), (''routeProgress'', JNum (dRouteProgress d))]) s"

definition moveDriver :: "driver_id \<Rightarrow> sim \<Rightarrow> sim" where
  "moveDriver i s =
     (case map_of (sDrivers s) i of
        None \<Rightarrow> s
      | Some d \<Rightarrow>
          if dRoute d = [] \<or> length (dRoute d) \<le> dRouteIndex d + 1 then s
          else let s' = move_loop i (driverSpeed * virtualStepPerTick) s
               in case map_of (sDrivers s') i of None \<Rightarrow> s' | Some d' \<Rightarrow> emitDriverPosition i d' s')"

subsection \<open>Commands and the clock\<close>

definition tick :: "sim \<Rightarrow> sim option" where
  "tick s0 =
     (if sPaused s0 then Some s0
      else
        let s = s0\<lparr>sVirtualTime := sVirtualTime s0 + virtualStepPerTick\<rparr>;
            s' = foldl (\<lambda>s i. moveDriver i s) s (sort (keys (sDrivers s)))
        in if sStrategy s' = StrategyOptimized then dispatchOptimized s' else retryPendingBaseline s')"

definition handle :: "real \<Rightarrow> command \<Rightarrow> sim \<Rightarrow> sim option" where
  "handle ms cmd s =
     (case cmd of
        PlaceOrder p q \<Rightarrow> handlePlaceOrder p q s
      | SetPaused b \<Rightarrow> Some (emit EventSimulationPaused (JObj [(''paused'', JBool b)]) (s\<lparr>sPaused := b\<rparr>))
      | SetSpeed m \<Rightarrow>
          Some (if m > 0 then emit EventSimulationSpeed (JObj [(''multiplier'', JNum m)]) (s\<lparr>sSpeed := m\<rparr>) else s)
      | Reset \<Rightarrow> Some (reset s)
      | CloseRoad i c \<Rightarrow> Some (handleCloseRoad ms i c s)
      | ReopenRoad i \<Rightarrow> Some (handleReopenRoad i s))"

definition handleTraced :: "real \<Rightarrow> command \<Rightarrow> string \<Rightarrow> sim \<Rightarrow> sim option" where
  \<comment> \<open>the trace id of the envelope, empty when its span context is not valid\<close>
  "handleTraced ms cmd trace s =
     (if trace = '''' then handle ms cmd s
      else map_option (\<lambda>s'. s'\<lparr>sCurrentTrace := ''''\<rparr>) (handle ms cmd (s\<lparr>sCurrentTrace := trace\<rparr>)))"

definition Apply :: "real \<Rightarrow> command \<Rightarrow> sim \<Rightarrow> (event list \<times> sim) option" where
  "Apply ms cmd s = map_option takePending (handle ms cmd s)"

definition Advance :: "sim \<Rightarrow> (event list \<times> sim) option" where
  "Advance s = map_option takePending (tick s)"

record order_summary =
  suID :: order_id
  suStatus :: order_status
  suCreatedAt :: real

definition Orders :: "sim \<Rightarrow> order_summary list" where
  "Orders s = sort_key suID
     (map (\<lambda>(i, ord). \<lparr>suID = oID ord, suStatus = oStatus ord, suCreatedAt = oCreatedAt ord\<rparr>) (sOrders s))"

definition DispatchCounts :: "sim \<Rightarrow> nat \<times> nat" where
  "DispatchCounts s = (sBatchCount s, sImmediateCount s)"

definition tickInterval :: int where
  \<comment> \<open>\<open>500 * time.Millisecond\<close>, in nanoseconds\<close>
  "tickInterval = 500 * 10 ^ 6"

definition tickDuration :: "sim \<Rightarrow> int" where
  \<comment> \<open>the conversion to \<open>time.Duration\<close> truncates\<close>
  "tickDuration s = (if sSpeed s \<le> 0 then tickInterval else \<lfloor>of_int tickInterval / sSpeed s\<rfloor>)"

end
