(* ===== verification/Simulation_Events.thy ===== *)
theory Simulation_Events
  imports Simulation
begin

text \<open>
  The event stream of a simulation: whatever a step does, it appends events whose sequence numbers
  continue the counter without gaps, stamped with the simulation's id, each with a payload that can
  be encoded, and it drops none of the events already pending (\<open>emits\<close>).
\<close>

lemma encodable_payloads [simp]:
  "encodable (unassignable_payload i reason)" "encodable (driver_status_payload i st)" "encodable (route_payload i nodes len)"
  "encodable (enc_route r)" "encodable (snapshotPayload s)" "list_all encodable (map JStr xs)"
  by (simp_all add: unassignable_payload_def driver_status_payload_def route_payload_def snapshotPayload_def list_all_iff
      enc_node_def enc_edge_def enc_driver_def enc_order_def enc_route_def)

definition emits :: "sim \<Rightarrow> sim \<Rightarrow> bool" where
  "emits s s' \<longleftrightarrow>
     (\<exists>es. sEvents s' = sEvents s @ es \<and> map evSequence es = [Suc (sSequence s)..<Suc (sSequence s')] \<and>
        (\<forall>e \<in> set es. evSimulationID e = sID s \<and> evSchemaVersion e = 1 \<and> encodable (evPayload e))) \<and>
     sSequence s \<le> sSequence s' \<and> sID s' = sID s"

named_theorems emits_intros \<open>steps that only append to the event stream\<close>

lemma emits_quiet:
  "sEvents s' = sEvents s \<Longrightarrow> sSequence s' = sSequence s \<Longrightarrow> sID s' = sID s \<Longrightarrow> emits s s'"
  by (auto simp: emits_def)

lemma emits_refl [emits_intros, simp]: "emits s s"
  by (rule emits_quiet) simp_all

lemma emits_trans: "emits s s' \<Longrightarrow> emits s' s'' \<Longrightarrow> emits s s''"
proof -
  assume a: "emits s s'" and b: "emits s' s''"
  obtain es where es: "sEvents s' = sEvents s @ es" "map evSequence es = [Suc (sSequence s)..<Suc (sSequence s')]"
    "\<forall>e \<in> set es. evSimulationID e = sID s \<and> evSchemaVersion e = 1 \<and> encodable (evPayload e)" "sSequence s \<le> sSequence s'" "sID s' = sID s"
    using a unfolding emits_def by blast
  obtain fs where fs: "sEvents s'' = sEvents s' @ fs" "map evSequence fs = [Suc (sSequence s')..<Suc (sSequence s'')]"
    "\<forall>e \<in> set fs. evSimulationID e = sID s' \<and> evSchemaVersion e = 1 \<and> encodable (evPayload e)" "sSequence s' \<le> sSequence s''" "sID s'' = sID s'"
    using b unfolding emits_def by blast
  have "map evSequence (es @ fs) = [Suc (sSequence s)..<Suc (sSequence s'')]"
    using es(2,4) fs(2,4) upt_add_eq_append [of "Suc (sSequence s)" "Suc (sSequence s')" "sSequence s'' - sSequence s'"]
    by simp
  then show "emits s s''"
    unfolding emits_def using es fs by (intro conjI exI [of _ "es @ fs"]) auto
qed

lemma emits_emit [emits_intros]: "emits s s' \<Longrightarrow> encodable p \<Longrightarrow> emits s (emit t p s')"
  by (rule emits_trans) (auto simp: emits_def emit_def intro!: exI [of _ "[_]"])

lemma emits_update [emits_intros]:
  "emits s s' \<Longrightarrow> emits s (set_driver i f s')" "emits s s' \<Longrightarrow> emits s (set_order k g s')"
  "emits s s' \<Longrightarrow> emits s (s'\<lparr>sIndex := x\<rparr>)" "emits s s' \<Longrightarrow> emits s (s'\<lparr>sPending := xs\<rparr>)"
  "emits s s' \<Longrightarrow> emits s (s'\<lparr>sCity := c\<rparr>)" "emits s s' \<Longrightarrow> emits s (s'\<lparr>sCurrentCausation := cc\<rparr>)"
  "emits s s' \<Longrightarrow> emits s (s'\<lparr>sCurrentTrace := tr\<rparr>)" "emits s s' \<Longrightarrow> emits s (s'\<lparr>sVirtualTime := t\<rparr>)"
  "emits s s' \<Longrightarrow> emits s (s'\<lparr>sBatchCount := n\<rparr>)" "emits s s' \<Longrightarrow> emits s (s'\<lparr>sImmediateCount := n\<rparr>)"
  "emits s s' \<Longrightarrow> emits s (s'\<lparr>sPaused := b\<rparr>)" "emits s s' \<Longrightarrow> emits s (s'\<lparr>sSpeed := r\<rparr>)"
  "emits s s' \<Longrightarrow> emits s (s'\<lparr>sNextOrderID := n, sOrders := os\<rparr>)"
  by (auto simp: emits_def set_driver_def set_order_def)

lemma emits_fold_opt:
  assumes "\<And>x s s'. f x s = Some s' \<Longrightarrow> emits s s'" "fold_opt f xs s = Some s'"
  shows "emits s s'"
  using assms(2)
proof (induction xs arbitrary: s)
  case (Cons x xs)
  then obtain s1 where "f x s = Some s1" "fold_opt f xs s1 = Some s'" by (auto split: option.splits)
  then show ?case using Cons.IH assms(1) emits_trans by blast
qed simp

lemma emits_foldl: "(\<And>x s. emits s (f s x)) \<Longrightarrow> emits s (foldl f s xs)"
proof (induction xs arbitrary: s)
  case (Cons x xs)
  show ?case using Cons.IH [of "f s x"] Cons.prems emits_trans by fastforce
qed simp

subsection \<open>The steps\<close>

lemma rerouteDriver_emits: "emits s (rerouteDriver i d s)"
  unfolding rerouteDriver_def reroute_to_def Let_def
  by (auto split: option.splits driver_status.splits intro!: emits_intros)

lemma recalc_emits: "emits s (snd (recalculateAffectedRoutes s))"
proof -
  have "emits (snd acc) (snd (recalc_step acc i))" for acc i
    by (auto simp: recalc_step_def rerouteDriver_emits split: option.splits)
  then have "emits (snd acc) (snd (foldl recalc_step acc is))" for acc "is"
  proof (induction "is" arbitrary: acc)
    case (Cons i "is")
    then show ?case by (metis \<open>\<And>i acc. emits (snd acc) (snd (recalc_step acc i))\<close> emits_trans foldl_Cons)
  qed simp
  from this [of "(0, s)"] show ?thesis by (simp add: recalculateAffectedRoutes_def)
qed

lemma handleCloseRoad_emits: "emits s (handleCloseRoad ms i c s)"
proof (cases "EdgeByID (sCity s) i")
  case (Some e)
  have step: "emits s (s\<lparr>sCurrentCausation := c, sCity := c'\<rparr>)" for c'
    by (rule emits_quiet) simp_all
  show ?thesis
    using Some recalc_emits emits_trans [OF step]
    by (auto simp: handleCloseRoad_def Let_def split_beta intro!: emits_intros)
qed (simp add: handleCloseRoad_def del: EdgeByID_None)

lemma handleReopenRoad_emits: "emits s (handleReopenRoad i s)"
  by (auto simp: handleReopenRoad_def split_beta Let_def split: option.splits intro!: emits_intros)

lemma reset_emits: "emits s (reset s)"
  unfolding reset_def Let_def by (intro emits_emit emits_quiet) simp_all

lemma applyAssignment_emits: "applyAssignment a s = Some s' \<Longrightarrow> emits s s'"
  by (auto simp: applyAssignment_def commit_assignment_def Let_def split: option.splits list.splits
      intro!: emits_intros)

lemma assignBaseline_emits: "assignBaseline i ord s = Some s' \<Longrightarrow> emits s s'"
  by (auto simp: assignBaseline_def split: option.splits if_splits
      intro!: emits_intros intro: applyAssignment_emits)

lemma retryPendingBaseline_emits:
  assumes "retryPendingBaseline s = Some s'"
  shows "emits s s'"
proof -
  have one: "retry_one i s = Some s' \<Longrightarrow> emits s s'" for i s s'
    by (auto simp: retry_one_def assignBaseline_emits split: option.splits if_splits)
  have "emits (s\<lparr>sPending := []\<rparr>) s'" if "fold_opt retry_one (sPending s) (s\<lparr>sPending := []\<rparr>) = Some s'"
    by (rule emits_fold_opt [OF one that])
  then show ?thesis
    using assms emits_trans [OF emits_update(4) [OF emits_refl]]
    by (auto simp: retryPendingBaseline_def split: if_splits)
qed

lemma dispatchImmediateBaseline_emits: "dispatchImmediateBaseline s = Some s' \<Longrightarrow> emits s s'"
  by (auto simp: dispatchImmediateBaseline_def Let_def split: list.splits option.splits if_splits
      intro!: emits_intros dest!: assignBaseline_emits intro: emits_trans emits_quiet)

lemma runBatch_emits:
  assumes "runBatch s = Some s'"
  shows "emits s s'"
proof (cases rule: runBatch_cases [OF assms])
  case (2 orders index as infs s1 s2)
  have rej: "reject_order i s = Some s' \<Longrightarrow> emits s s'" for i s s'
    by (auto simp: reject_order_def split: option.splits intro!: emits_intros)
  have "emits s s1"
    by (rule emits_trans [OF _ emits_fold_opt [OF applyAssignment_emits 2(5)]]) (auto intro!: emits_intros)
  then have "emits s s2" by (rule emits_trans [OF _ emits_fold_opt [OF rej 2(6)]])
  then show ?thesis unfolding 2(7) by (intro emits_intros)
qed simp

lemma dispatchOptimized_emits: "dispatchOptimized s = Some s' \<Longrightarrow> emits s s'"
  by (auto simp: dispatchOptimized_def Let_def split: list.splits option.splits if_splits
      intro: runBatch_emits dispatchImmediateBaseline_emits emits_intros)

lemma record_order_emits: "emits s (record_order ord s)"
  unfolding record_order_def by (intro emits_emit emits_update(13) emits_refl) simp

lemma handlePlaceOrder_emits:
  assumes "handlePlaceOrder p q s = Some s'"
  shows "emits s s'"
proof -
  let ?s = "record_order (placed_order p q s) s"
  have "emits ?s s'"
    using assms
    by (auto simp: handlePlaceOrder_def Let_def split: if_splits intro: assignBaseline_emits
        dest!: dispatchImmediateBaseline_emits intro: emits_trans [OF emits_update(4) [OF emits_refl]] emits_intros)
  then show ?thesis by (rule emits_trans [OF record_order_emits])
qed

lemma handleDriverAtNode_emits: "emits s (handleDriverAtNode i s)"
  by (auto simp: handleDriverAtNode_def finish_delivery_def reach_pickup_def Let_def split: option.splits
      intro!: emits_intros)

lemma advance_driver_emits: "emits s (advance_driver i nxt s)"
  unfolding advance_driver_def by (rule emits_trans [OF _ handleDriverAtNode_emits]) (intro emits_intros)

lemma move_loop_emits: "emits s (move_loop i budget s)"
  by (rule move_loop_invariant [of "\<lambda>_. emits s"]) (auto intro: emits_trans advance_driver_emits intro!: emits_intros)

lemma moveDriver_emits: "emits s (moveDriver i s)"
  using move_loop_emits
  by (auto simp: moveDriver_def emitDriverPosition_def Let_def split: option.splits intro!: emits_intros)

lemma tick_emits:
  assumes "tick s = Some s'"
  shows "emits s s'"
proof (cases "sPaused s")
  case False
  let ?s = "s\<lparr>sVirtualTime := sVirtualTime s + virtualStepPerTick\<rparr>"
  let ?m = "foldl (\<lambda>s i. moveDriver i s) ?s (sort (keys (sDrivers ?s)))"
  have "emits s ?m"
    by (rule emits_trans [OF _ emits_foldl]) (auto intro!: emits_intros moveDriver_emits)
  moreover have "emits ?m s'"
    using assms False dispatchOptimized_emits retryPendingBaseline_emits
    by (auto simp: tick_def Let_def split: if_splits)
  ultimately show ?thesis by (rule emits_trans)
qed (use assms in \<open>simp add: tick_def\<close>)

lemma handle_emits: "handle ms cmd s = Some s' \<Longrightarrow> emits s s'"
  by (auto simp: handle_def handlePlaceOrder_emits handleCloseRoad_emits handleReopenRoad_emits reset_emits
      split: command.splits if_splits intro!: emits_intros)

lemma handleTraced_emits:
  assumes "handleTraced ms cmd tr s = Some s'"
  shows "emits s s'"
proof (cases "tr = ''''")
  case False
  then obtain s1 where s1: "handle ms cmd (s\<lparr>sCurrentTrace := tr\<rparr>) = Some s1" "s' = s1\<lparr>sCurrentTrace := ''''\<rparr>"
    using assms by (auto simp: handleTraced_def)
  have "emits s s1" by (rule emits_trans [OF _ handle_emits [OF s1(1)]]) (intro emits_intros)
  then show ?thesis unfolding s1(2) by (intro emits_intros)
qed (use assms in \<open>simp add: handleTraced_def handle_emits\<close>)

text \<open>
  C4.  The event log has no gaps and no repeats: the events one command or one tick hands out are
  numbered from the sequence counter on, one by one, carry the simulation's id and schema version
  1, leave none behind, and the counter ends at the number of the last one.
\<close>

theorem event_numbers_gapless:
  assumes "Apply ms cmd s = Some (es, s') \<or> Advance s = Some (es, s')" "sEvents s = []"
  shows "map evSequence es = [Suc (sSequence s)..<Suc (sSequence s')] \<and> sSequence s' = sSequence s + length es \<and>
    (\<forall>e \<in> set es. evSimulationID e = sID s \<and> evSchemaVersion e = 1) \<and> sEvents s' = [] \<and> sID s' = sID s"
proof -
  obtain t where t: "handle ms cmd s = Some t \<or> tick s = Some t" "es = sEvents t" "s' = t\<lparr>sEvents := []\<rparr>"
    using assms(1) by (auto simp: Apply_def Advance_def takePending_def)
  then have "emits s t" using handle_emits tick_emits by blast
  then have e: "map evSequence es = [Suc (sSequence s)..<Suc (sSequence s')]" "sSequence s \<le> sSequence s'"
    "\<forall>e \<in> set es. evSimulationID e = sID s \<and> evSchemaVersion e = 1" "sID s' = sID s"
    using assms(2) t(2,3) by (auto simp: emits_def)
  have "length es = sSequence s' - sSequence s"
    using arg_cong [OF e(1), of length] by (simp del: upt_Suc)
  then show ?thesis using e t(3) by simp
qed

theorem event_numbers_gapless_witness:
  "\<exists>es s'. Apply 0 (SetPaused True) (New (\<lambda>_ _. 1 / 2) ''sim'' 42 1) = Some (es, s') \<and> map evSequence es = [1]"
proof -
  let ?s = "New (\<lambda>_ _. 1 / 2) ''sim'' 42 1"
  obtain es s' where r: "Apply 0 (SetPaused True) ?s = Some (es, s')" "sSequence s' = 1"
    by (simp add: Apply_def handle_def takePending_def emit_def New_def NewWithConfig_def Let_def)
  have "sEvents ?s = []" "sSequence ?s = 0" by (simp_all add: New_def NewWithConfig_def Let_def)
  then show ?thesis using event_numbers_gapless [OF disjI1 [OF r(1)]] r by auto
qed

end
