(* ===== verification/Fleet.thy ===== *)
theory Fleet
  imports Simulation
begin

text \<open>
  The consistency of a simulation's world: roads, drivers, orders and the index of idle drivers.
  Busy drivers and active orders point at each other, an idle driver holds nothing, every route
  starts at its driver and follows open roads, and the index holds idle drivers only, each at its
  node.  \<open>world_ok\<close> is stated on the parts of the state it talks about; the rules \<open>world_link\<close>,
  \<open>world_driver\<close> and \<open>world_order\<close> say which pointer writes keep it.
\<close>

subsection \<open>Roads\<close>

definition simple_city :: "city \<Rightarrow> bool" where
  \<comment> \<open>at most one road from one node to another\<close>
  "simple_city c \<longleftrightarrow>
     (\<forall>e \<in> set (all_edges c). \<forall>e' \<in> set (all_edges c). eFrom e = eFrom e' \<longrightarrow> eTo e = eTo e' \<longrightarrow> e = e')"

definition city_ok :: "city \<Rightarrow> bool" where
  "city_ok c \<longleftrightarrow> city_edges_wf c \<and> metric_city c \<and> simple_city c"

lemma city_okD:
  assumes "city_ok c"
  shows "city_edges_wf c" "metric_city c" "simple_city c" "distinct (map eID (all_edges c))"
  using assms by (auto simp: city_ok_def city_edges_wf_def)

lemma simple_city_SetClosed:
  assumes "simple_city c" "distinct (map eID (all_edges c))"
  shows "simple_city (fst (SetClosed c i b))"
  using assms(1) unfolding simple_city_def all_edges_SetClosed [OF assms(2)] by auto

lemma city_ok_SetClosed [wf_intros]:
  assumes "city_ok c"
  shows "city_ok (fst (SetClosed c i b))"
  using simple_city_SetClosed [OF city_okD(3,4) [OF assms]] city_edges_wf_SetClosed [OF city_okD(1) [OF assms]]
    metric_city_SetClosed [OF city_okD(2,4) [OF assms]]
  by (simp add: city_ok_def)

lemma edgeBetween_iff:
  assumes "city_ok c"
  shows "edgeBetween c u v = Some e \<longleftrightarrow> e \<in> set (edges_from c u) \<and> eTo e = v"
proof
  show "edgeBetween c u v = Some e \<Longrightarrow> e \<in> set (edges_from c u) \<and> eTo e = v"
    by (auto simp: edgeBetween_def find_Some_iff)
next
  assume e: "e \<in> set (edges_from c u) \<and> eTo e = v"
  then obtain e' where e': "edgeBetween c u v = Some e'"
    by (cases "edgeBetween c u v") (auto simp: edgeBetween_def find_None_iff)
  then have "e' \<in> set (edges_from c u)" "eTo e' = v" by (auto simp: edgeBetween_def find_Some_iff)
  then have "e' = e"
    using e city_okD(1,3) [OF assms] edges_from_eFrom edges_from_subset
    by (metis simple_city_def subsetD)
  then show "edgeBetween c u v = Some e" using e' by simp
qed

fun open_hops :: "city \<Rightarrow> node_id list \<Rightarrow> bool" where
  "open_hops c (u # v # r) \<longleftrightarrow> (\<exists>e. edgeBetween c u v = Some e \<and> \<not> eClosed e) \<and> open_hops c (v # r)"
| "open_hops c _ \<longleftrightarrow> True"

lemma open_hops_nth:
  "open_hops c r \<longleftrightarrow> (\<forall>i. Suc i < length r \<longrightarrow> (\<exists>e. edgeBetween c (r ! i) (r ! Suc i) = Some e \<and> \<not> eClosed e))"
proof (induction c r rule: open_hops.induct)
  case (1 c u v r)
  show ?case
    unfolding open_hops.simps 1
    by (auto simp: nth_Cons split: nat.splits)
qed auto

lemma routeUsesClosedEdge_iff: "routeUsesClosedEdge c r k \<longleftrightarrow> \<not> open_hops c (drop k r)"
proof -
  have "\<not> routeUsesClosedEdge c r k \<longleftrightarrow>
      (\<forall>i. k \<le> i \<and> i < length r - 1 \<longrightarrow> (\<exists>e. edgeBetween c (r ! i) (r ! Suc i) = Some e \<and> \<not> eClosed e))"
    by (fastforce simp: routeUsesClosedEdge_def list_ex_iff split: option.splits)
  also have "\<dots> \<longleftrightarrow> (\<forall>i. k + i < length r - 1 \<longrightarrow> (\<exists>e. edgeBetween c (r ! (k + i)) (r ! Suc (k + i)) = Some e \<and> \<not> eClosed e))"
    by (metis le_Suc_ex le_add1)
  also have "\<dots> \<longleftrightarrow> open_hops c (drop k r)"
    unfolding open_hops_nth by (auto simp: less_diff_conv add.commute)
  finally show ?thesis by blast
qed

lemma open_hops_path:
  assumes "city_ok c"
  shows "open_path c u es v \<Longrightarrow> open_hops c (path_nodes u es)"
proof (induction es arbitrary: u)
  case (Cons e es)
  then have "edgeBetween c u (eTo e) = Some e" "\<not> eClosed e" "open_path c (eTo e) es v"
    by (auto simp: edgeBetween_iff [OF assms])
  then show ?case using Cons.IH by (cases es) auto
qed simp

lemma open_hops_tl: "open_hops c r \<Longrightarrow> open_hops c (drop k r)"
  unfolding open_hops_nth by auto

lemma open_hops_join:
  "open_hops c (r @ [v]) \<Longrightarrow> open_hops c (v # t) \<Longrightarrow> open_hops c (r @ v # t)"
proof (induction r)
  case (Cons u r)
  then show ?case by (cases r) auto
qed simp

lemma routes_join:
  assumes c: "city_ok c" and r1: "FindRoute c u v = Some r1" and r2: "FindRoute c v w = Some r2"
  obtains rest where "rNodes r2 = v # rest" "open_hops c (rNodes r1 @ rest)" "hd (rNodes r1 @ rest) = u"
    "rNodes r1 \<noteq> []" "last (rNodes r1 @ rest) = w"
proof -
  have s1: "shortest_route c u v r1" and s2: "shortest_route c v w r2"
    using FindRoute_Some_shortest [OF city_okD(2) [OF c]] r1 r2 by auto
  note n1 = shortest_route_nodes [OF s1] and n2 = shortest_route_nodes [OF s2]
  obtain es1 es2 where p: "open_path c u es1 v" "rNodes r1 = path_nodes u es1"
    "open_path c v es2 w" "rNodes r2 = path_nodes v es2"
    using s1 s2 by (auto simp: shortest_route_def)
  obtain rest where rest: "rNodes r2 = v # rest" using n2(1,2) by (cases "rNodes r2") auto
  have "rNodes r1 = butlast (rNodes r1) @ [v]" using n1 by (metis append_butlast_last_id)
  then have "open_hops c (butlast (rNodes r1) @ v # rest)"
    using open_hops_join open_hops_path [OF c p(1)] open_hops_path [OF c p(3)] p(2,4) rest by metis
  moreover have "butlast (rNodes r1) @ v # rest = rNodes r1 @ rest"
    using \<open>rNodes r1 = butlast (rNodes r1) @ [v]\<close> by (metis append.assoc append_Cons append_Nil)
  moreover have "last (rNodes r1 @ rest) = w"
    using n1(3) n2(3) rest by (cases "rest = []") auto
  ultimately show thesis using that rest n1 by simp
qed

subsection \<open>Drivers, orders, index\<close>

definition route_ok :: "city \<Rightarrow> driver \<Rightarrow> bool" where
  "route_ok c d \<longleftrightarrow> dRouteIndex d < length (dRoute d) \<and> dRoute d ! dRouteIndex d = dPosition d \<and>
     open_hops c (drop (dRouteIndex d) (dRoute d))"

definition idle_ok :: "driver \<Rightarrow> bool" where
  "idle_ok d \<longleftrightarrow> dRoute d = [] \<and> dRouteIndex d = 0 \<and> dAssignedOrder d = ''''"

definition holds_order :: "(order_id, order) gomap \<Rightarrow> driver_id \<Rightarrow> driver \<Rightarrow> order_status \<Rightarrow> bool" where
  "holds_order os i d st \<longleftrightarrow>
     (\<exists>ord. map_of os (dAssignedOrder d) = Some ord \<and> oStatus ord = st \<and> oAssignedDriver ord = i)"

definition driver_ok :: "city \<Rightarrow> (order_id, order) gomap \<Rightarrow> driver_id \<Rightarrow> driver \<Rightarrow> bool" where
  "driver_ok c os i d \<longleftrightarrow> dID d = i \<and>
     (dStatus d = DriverIdle \<and> idle_ok d \<or>
      dStatus d = DriverEnRouteToPick \<and> route_ok c d \<and> holds_order os i d OrderAssigned \<or>
      dStatus d = DriverDelivering \<and> route_ok c d \<and> holds_order os i d OrderEnRoute)"

definition active :: "order \<Rightarrow> bool" where
  "active ord \<longleftrightarrow> oStatus ord = OrderAssigned \<or> oStatus ord = OrderEnRoute"

definition carried_by :: "(driver_id, driver) gomap \<Rightarrow> order_id \<Rightarrow> order \<Rightarrow> driver_status \<Rightarrow> bool" where
  "carried_by ds k ord st \<longleftrightarrow>
     (\<exists>d. map_of ds (oAssignedDriver ord) = Some d \<and> dStatus d = st \<and> dAssignedOrder d = k)"

definition order_ok :: "(driver_id, driver) gomap \<Rightarrow> order_id \<Rightarrow> order \<Rightarrow> bool" where
  "order_ok ds k ord \<longleftrightarrow> oID ord = k \<and>
     (oStatus ord = OrderPending \<or> oStatus ord = OrderDelivered \<or> oStatus ord = OrderUnassignable \<or>
      oStatus ord = OrderAssigned \<and> carried_by ds k ord DriverEnRouteToPick \<or>
      oStatus ord = OrderEnRoute \<and> carried_by ds k ord DriverDelivering)"

definition index_ok :: "city \<Rightarrow> (driver_id, driver) gomap \<Rightarrow> grid option \<Rightarrow> bool" where
  "index_ok c ds ix \<longleftrightarrow> (\<forall>g. ix = Some g \<longrightarrow> grid_wf g \<and>
     (\<forall>i p. map_of (gPoints g) i = Some p \<longrightarrow>
        (\<exists>d. map_of ds i = Some d \<and> dStatus d = DriverIdle \<and> p = node_point c (dPosition d))))"

definition world_ok :: "city \<Rightarrow> (driver_id, driver) gomap \<Rightarrow> (order_id, order) gomap \<Rightarrow> grid option \<Rightarrow> bool" where
  "world_ok c ds os ix \<longleftrightarrow>
     city_ok c \<and> distinct_keys ds \<and> distinct_keys os \<and>
     (\<forall>i d. map_of ds i = Some d \<longrightarrow> driver_ok c os i d) \<and>
     (\<forall>k ord. map_of os k = Some ord \<longrightarrow> order_ok ds k ord) \<and> index_ok c ds ix"

lemma world_okD:
  assumes "world_ok c ds os ix"
  shows "city_ok c" "distinct_keys ds" "distinct_keys os" "map_of ds i = Some d \<Longrightarrow> driver_ok c os i d"
    "map_of os k = Some ord \<Longrightarrow> order_ok ds k ord" "index_ok c ds ix"
  using assms unfolding world_ok_def by blast+

lemma driver_ok_status: "driver_ok c os i d \<Longrightarrow>
  dStatus d = DriverIdle \<or> dStatus d = DriverEnRouteToPick \<or> dStatus d = DriverDelivering"
  by (auto simp: driver_ok_def)

lemma driver_ok_busy: "driver_ok c os i d \<Longrightarrow> dStatus d \<noteq> DriverIdle \<Longrightarrow>
  route_ok c d \<and> (\<exists>ord. map_of os (dAssignedOrder d) = Some ord \<and> active ord \<and> oAssignedDriver ord = i)"
  by (auto simp: driver_ok_def holds_order_def active_def)

lemma order_ok_active: "order_ok ds k ord \<Longrightarrow> active ord \<Longrightarrow>
  \<exists>d. map_of ds (oAssignedDriver ord) = Some d \<and> dStatus d \<noteq> DriverIdle \<and> dAssignedOrder d = k"
  by (auto simp: order_ok_def carried_by_def active_def)

subsection \<open>Writes that keep the world consistent\<close>

lemma world_link:
  assumes w: "world_ok c ds os ix" and d: "map_of ds i = Some d" and ord: "map_of os k = Some ord"
    and link: "dStatus d = DriverIdle \<or> dAssignedOrder d = k" "active ord \<Longrightarrow> oAssignedDriver ord = i"
    and new: "driver_ok c (adjust k g os) i (f d)" "order_ok (adjust i f ds) k (g ord)"
    and ix: "index_ok c (adjust i f ds) ix'"
  shows "world_ok c (adjust i f ds) (adjust k g os) ix'"
proof -
  note W = world_okD [OF w]
  have drivers: "driver_ok c (adjust k g os) j dj" if j: "map_of (adjust i f ds) j = Some dj" for j dj
  proof (cases "j = i")
    case True
    then show ?thesis using new(1) j d by simp
  next
    case False
    then have dj: "driver_ok c os j dj" using j W(4) by simp
    show ?thesis
    proof (cases "dStatus dj = DriverIdle")
      case True
      then show ?thesis using dj by (auto simp: driver_ok_def)
    next
      case busy: False
      then have "dAssignedOrder dj \<noteq> k" using driver_ok_busy [OF dj] link(2) ord False by auto
      then show ?thesis using dj by (auto simp: driver_ok_def holds_order_def)
    qed
  qed
  have orders: "order_ok (adjust i f ds) k' ok" if k': "map_of (adjust k g os) k' = Some ok" for k' ok
  proof (cases "k' = k")
    case True
    then show ?thesis using new(2) k' ord by simp
  next
    case False
    then have ok: "order_ok ds k' ok" using k' W(5) by simp
    show ?thesis
    proof (cases "active ok")
      case True
      then have "oAssignedDriver ok \<noteq> i"
        using order_ok_active [OF ok] link(1) d False by auto
      then show ?thesis using ok by (auto simp: order_ok_def carried_by_def)
    qed (use ok in \<open>auto simp: order_ok_def active_def\<close>)
  qed
  show ?thesis unfolding world_ok_def using W(1-3) ix drivers orders by simp
qed

lemma index_ok_busy:
  assumes "index_ok c ds ix" "map_of ds i = Some d" "dStatus d \<noteq> DriverIdle"
  shows "index_ok c (adjust i f ds) ix"
  using assms unfolding index_ok_def by (metis map_of_adjust_other option.inject)

lemma world_driver:
  assumes w: "world_ok c ds os ix" and d: "map_of ds i = Some d"
    and same: "dStatus (f d) = dStatus d" "dAssignedOrder (f d) = dAssignedOrder d" "dID (f d) = dID d"
    and busy: "dStatus d \<noteq> DriverIdle" and route: "route_ok c (f d)"
  shows "world_ok c (adjust i f ds) os ix"
proof -
  note W = world_okD [OF w]
  have drivers: "driver_ok c os j dj" if j: "map_of (adjust i f ds) j = Some dj" for j dj
  proof (cases "j = i")
    case True
    then have "dj = f d" using j d by simp
    moreover have "driver_ok c os i d" using W(4) d by blast
    ultimately show ?thesis using same busy route True by (auto simp: driver_ok_def holds_order_def)
  qed (use j W(4) in simp)
  have orders: "order_ok (adjust i f ds) k ord" if "map_of os k = Some ord" for k ord
  proof -
    have "order_ok ds k ord" using that W(5) by blast
    moreover have "carried_by (adjust i f ds) k ord st = carried_by ds k ord st" for st
      using same d by (cases "oAssignedDriver ord = i") (auto simp: carried_by_def)
    ultimately show ?thesis by (simp add: order_ok_def)
  qed
  have "index_ok c (adjust i f ds) ix"
    by (rule index_ok_busy [OF W(6) d busy])
  then show ?thesis unfolding world_ok_def using W(1-3) drivers orders by simp
qed

lemma world_order:
  assumes w: "world_ok c ds os ix" and ord: "map_of os k = Some ord"
    and new: "\<not> active ord" "order_ok ds k (g ord)" "\<not> active (g ord)"
  shows "world_ok c ds (adjust k g os) ix"
proof -
  note W = world_okD [OF w]
  have drivers: "driver_ok c (adjust k g os) j dj" if j: "map_of ds j = Some dj" for j dj
  proof -
    have dj: "driver_ok c os j dj" using j W(4) by blast
    show ?thesis
    proof (cases "dStatus dj = DriverIdle")
      case False
      then have "dAssignedOrder dj \<noteq> k" using driver_ok_busy [OF dj] new(1) ord by auto
      then show ?thesis using dj by (auto simp: driver_ok_def holds_order_def)
    qed (use dj in \<open>auto simp: driver_ok_def\<close>)
  qed
  have orders: "order_ok ds k' ok" if "map_of (adjust k g os) k' = Some ok" for k' ok
    using that new(2) ord W(5) by (cases "k' = k") auto
  show ?thesis unfolding world_ok_def using W(1-3,6) drivers orders by simp
qed

lemma world_new_order:
  assumes w: "world_ok c ds os ix" and fresh: "map_of os k = None"
    and ord: "oID ord = k" "oStatus ord = OrderPending"
  shows "world_ok c ds (AList.update k ord os) ix"
proof -
  note W = world_okD [OF w]
  have "driver_ok c (AList.update k ord os) j dj" if "map_of ds j = Some dj" for j dj
  proof -
    have dj: "driver_ok c os j dj" using that W(4) by blast
    then have "dAssignedOrder dj \<noteq> k" if "dStatus dj \<noteq> DriverIdle"
      using driver_ok_busy [OF dj that] fresh by auto
    then show ?thesis using dj by (auto simp: driver_ok_def holds_order_def map_of_update)
  qed
  moreover have "order_ok ds k' ok" if "map_of (AList.update k ord os) k' = Some ok" for k' ok
    using that ord W(5) by (auto simp: map_of_update order_ok_def split: if_splits)
  ultimately show ?thesis unfolding world_ok_def using W(1-3,6) by simp
qed

subsection \<open>Closing and reopening roads\<close>

lemma edges_from_closed:
  assumes "city_ok c"
  shows "edges_from (fst (SetClosed c i b)) u = map (mark i b) (edges_from c u)"
  by (rule edges_from_SetClosed) (rule city_okD(4) [OF assms])

lemma open_edge_SetClosed:
  assumes c: "city_ok c"
  shows "edgeBetween (fst (SetClosed c i b)) u v = map_option (mark i b) (edgeBetween c u v)"
proof (cases "edgeBetween c u v")
  case None
  then have "v \<notin> eTo ` set (edges_from c u)" by (auto simp: edgeBetween_def find_None_iff)
  then have "v \<notin> eTo ` set (edges_from (fst (SetClosed c i b)) u)"
    unfolding edges_from_closed [OF c] by auto
  then have "edgeBetween (fst (SetClosed c i b)) u v = None" by (auto simp: edgeBetween_def find_None_iff)
  then show ?thesis using None by simp
next
  case (Some e)
  then have "e \<in> set (edges_from c u)" "eTo e = v" by (simp_all add: edgeBetween_iff [OF c])
  then have "mark i b e \<in> set (edges_from (fst (SetClosed c i b)) u)" "eTo (mark i b e) = v"
    by (simp_all add: edges_from_closed [OF c])
  then show ?thesis using Some by (simp add: edgeBetween_iff [OF city_ok_SetClosed [OF c]])
qed

lemma open_hops_reopened:
  assumes "city_ok c" "open_hops c r"
  shows "open_hops (fst (SetClosed c i False)) r"
proof -
  have "\<exists>e. edgeBetween (fst (SetClosed c i False)) u v = Some e \<and> \<not> eClosed e"
    if "edgeBetween c u v = Some e" "\<not> eClosed e" for u v e
    using that by (auto simp: open_edge_SetClosed [OF assms(1)] mark_def)
  then show ?thesis using assms(2) unfolding open_hops_nth by blast
qed

lemma open_hops_closed:
  assumes "city_ok c" "open_hops (fst (SetClosed c i True)) r"
  shows "open_hops c r"
proof -
  have "\<exists>e. edgeBetween c u v = Some e \<and> \<not> eClosed e"
    if "edgeBetween (fst (SetClosed c i True)) u v = Some e" "\<not> eClosed e" for u v e
    using that by (auto simp: open_edge_SetClosed [OF assms(1)] mark_def split: if_splits)
  then show ?thesis using assms(2) unfolding open_hops_nth by blast
qed

definition fewer_roads :: "city \<Rightarrow> city \<Rightarrow> bool" where
  \<comment> \<open>the second city is the first with some roads closed\<close>
  "fewer_roads c c' \<longleftrightarrow> city_ok c \<and> city_ok c' \<and> cNodes c' = cNodes c \<and> (\<forall>r. open_hops c' r \<longrightarrow> open_hops c r)"

lemma fewer_roads_SetClosed: "city_ok c \<Longrightarrow> fewer_roads c (fst (SetClosed c i True))"
  by (simp add: fewer_roads_def city_ok_SetClosed) (metis open_hops_closed)

lemma fewer_roads_reopen: "city_ok c \<Longrightarrow> fewer_roads (fst (SetClosed c i False)) c"
  by (simp add: fewer_roads_def city_ok_SetClosed) (metis open_hops_reopened)

lemma fewer_roads_trans: "fewer_roads c c' \<Longrightarrow> fewer_roads c' c'' \<Longrightarrow> fewer_roads c c''"
  by (simp add: fewer_roads_def)

lemma fewer_roads_refl: "city_ok c \<Longrightarrow> fewer_roads c c"
  by (simp add: fewer_roads_def)

lemma close_segment_roads:
  assumes c: "city_ok c"
  shows "fewer_roads c (snd (close_segment True e c))" "fewer_roads (snd (close_segment False e c)) c"
proof -
  let ?c = "\<lambda>b. fst (SetClosed c (eID e) b)"
  have ok: "city_ok (?c b)" for b by (rule city_ok_SetClosed [OF c])
  have two: "snd (close_segment b e c) = ?c b \<or> (\<exists>j. snd (close_segment b e c) = fst (SetClosed (?c b) j b))" for b
    by (cases "edgeBetween (?c b) (eTo e) (eFrom e)") (auto simp: close_segment_def Let_def)
  show "fewer_roads c (snd (close_segment True e c))"
    using two [of True]
  proof (elim disjE exE)
    assume e: "snd (close_segment True e c) = ?c True"
    show ?thesis unfolding e by (rule fewer_roads_SetClosed [OF c])
  next
    fix j assume e: "snd (close_segment True e c) = fst (SetClosed (?c True) j True)"
    show ?thesis unfolding e by (rule fewer_roads_trans [OF fewer_roads_SetClosed [OF c] fewer_roads_SetClosed [OF ok]])
  qed
  show "fewer_roads (snd (close_segment False e c)) c"
    using two [of False]
  proof (elim disjE exE)
    assume e: "snd (close_segment False e c) = ?c False"
    show ?thesis unfolding e by (rule fewer_roads_reopen [OF c])
  next
    fix j assume e: "snd (close_segment False e c) = fst (SetClosed (?c False) j False)"
    show ?thesis unfolding e by (rule fewer_roads_trans [OF fewer_roads_reopen [OF ok] fewer_roads_reopen [OF c]])
  qed
qed

lemma node_point_nodes: "cNodes c' = cNodes c \<Longrightarrow> node_point c' = node_point c"
  by (simp add: node_point_def node_at_def fun_eq_iff)

lemma index_ok_nodes:
  assumes "cNodes c' = cNodes c"
  shows "index_ok c' ds ix = index_ok c ds ix"
  unfolding index_ok_def node_point_nodes [OF assms] ..

lemma world_city:
  assumes w: "world_ok c ds os ix" and c': "city_ok c'" "cNodes c' = cNodes c"
    and routes: "\<And>i d. map_of ds i = Some d \<Longrightarrow> dStatus d \<noteq> DriverIdle \<Longrightarrow> open_hops c' (drop (dRouteIndex d) (dRoute d))"
  shows "world_ok c' ds os ix"
proof -
  note W = world_okD [OF w]
  have "driver_ok c' os i d" if "map_of ds i = Some d" for i d
    using W(4) [OF that] routes [OF that] by (auto simp: driver_ok_def route_ok_def)
  then show ?thesis
    unfolding world_ok_def using W(2,3,5,6) c' index_ok_nodes [OF c'(2)] by simp
qed

lemma world_reopened:
  assumes "world_ok c ds os ix" "fewer_roads c' c"
  shows "world_ok c' ds os ix"
proof (rule world_city [OF assms(1)])
  fix i d assume "map_of ds i = Some d" "dStatus d \<noteq> DriverIdle"
  then have "route_ok c d" using driver_ok_busy [OF world_okD(4) [OF assms(1)]] by blast
  then show "open_hops c' (drop (dRouteIndex d) (dRoute d))"
    using assms(2) by (simp add: route_ok_def fewer_roads_def)
qed (use assms(2) in \<open>auto simp: fewer_roads_def\<close>)

end
