(* ===== verification/Simulation_Inv.thy ===== *)
theory Simulation_Inv
  imports Simulation_Events Fleet
begin

text \<open>
  The invariant of a simulation (\<open>sim_inv\<close>) and its preservation by every command and by the
  clock: the world is consistent (\<open>world_ok\<close>), order ids come from the counter, and the queue of
  pending orders lists exactly the orders still pending, each once.  The strategies enter through
  the locale \<open>batch_matcher\<close>, interpreted by \<open>BaselineBatch\<close> and by \<open>Optimized\<close>.
\<close>

definition pending_ids :: "(order_id, order) gomap \<Rightarrow> order_id set" where
  "pending_ids os = {k. \<exists>ord. map_of os k = Some ord \<and> oStatus ord = OrderPending}"

definition ids_ok :: "nat \<Rightarrow> (order_id, order) gomap \<Rightarrow> bool" where
  "ids_ok n os \<longleftrightarrow> (\<forall>k \<in> fst ` set os. \<exists>j \<in> {1..n}. k = shortID ''order'' j)"

definition base_inv :: "sim \<Rightarrow> bool" where
  "base_inv s \<longleftrightarrow> world_ok (sCity s) (sDrivers s) (sOrders s) (sIndex s) \<and>
     ids_ok (sNextOrderID s) (sOrders s) \<and> (sStrategy s = StrategyOptimized \<longrightarrow> sIndex s \<noteq> None)"

definition sim_inv :: "sim \<Rightarrow> bool" where
  "sim_inv s \<longleftrightarrow> base_inv s \<and> distinct (sPending s) \<and> set (sPending s) = pending_ids (sOrders s)"

definition fixed_parts :: "sim \<Rightarrow> city \<times> strategy \<times> nat \<times> int \<times> cost_weights \<times> real \<times> bool" where
  \<comment> \<open>what an assignment leaves alone\<close>
  "fixed_parts s = (sCity s, sStrategy s, sNextOrderID s, sCandidates s, sWeights s, sVirtualTime s, sPaused s)"

definition touches :: "driver_id set \<Rightarrow> order_id set \<Rightarrow> sim \<Rightarrow> sim \<Rightarrow> bool" where
  \<comment> \<open>only the named drivers and orders changed, and the named orders are no longer pending\<close>
  "touches D K s s' \<longleftrightarrow> fixed_parts s' = fixed_parts s \<and> sPending s' = sPending s \<and>
     fst ` set (sDrivers s') = fst ` set (sDrivers s) \<and>
     (\<forall>j. j \<notin> D \<longrightarrow> map_of (sDrivers s') j = map_of (sDrivers s) j) \<and>
     (\<forall>k. k \<notin> K \<longrightarrow> map_of (sOrders s') k = map_of (sOrders s) k) \<and>
     pending_ids (sOrders s') = pending_ids (sOrders s) - K"

definition settles :: "sim \<Rightarrow> sim \<Rightarrow> bool" where
  \<comment> \<open>a dispatch leaves busy drivers and orders that are not pending alone\<close>
  "settles s s' \<longleftrightarrow> fixed_parts s' = fixed_parts s \<and>
     (\<forall>j d. map_of (sDrivers s) j = Some d \<longrightarrow> dStatus d \<noteq> DriverIdle \<longrightarrow> map_of (sDrivers s') j = Some d) \<and>
     (\<forall>k ord. map_of (sOrders s) k = Some ord \<longrightarrow> oStatus ord \<noteq> OrderPending \<longrightarrow> map_of (sOrders s') k = Some ord)"

lemma settles_refl [simp]: "settles s s"
  by (simp add: settles_def)

lemma settles_trans: "settles s s' \<Longrightarrow> settles s' s'' \<Longrightarrow> settles s s''"
  by (simp add: settles_def)

lemma settles_fixed: "settles s s' \<Longrightarrow> fixed_parts s' = fixed_parts s"
  by (simp add: settles_def)

lemma settles_frame [simp]:
  "settles s (s'\<lparr>sPending := xs\<rparr>) = settles s s'" "settles (s\<lparr>sPending := xs\<rparr>) s' = settles s s'"
  "settles (s\<lparr>sPending := xs, sImmediateCount := n\<rparr>) s' = settles s s'"
  "settles (s\<lparr>sBatchCount := n\<rparr>) s' = settles s s'"
  by (simp_all add: settles_def fixed_parts_def)

lemma touches_settles:
  assumes "touches D K s s'" "\<And>j. j \<in> D \<Longrightarrow> \<exists>d. map_of (sDrivers s) j = Some d \<and> dStatus d = DriverIdle"
    "K \<subseteq> pending_ids (sOrders s)"
  shows "settles s s'"
proof -
  have "map_of (sDrivers s') j = Some d" if d: "map_of (sDrivers s) j = Some d" "dStatus d \<noteq> DriverIdle" for j d
  proof -
    have "j \<notin> D" using assms(2) d by fastforce
    then show ?thesis using assms(1) d by (simp add: touches_def)
  qed
  moreover have "map_of (sOrders s') k = Some ord" if k: "map_of (sOrders s) k = Some ord" "oStatus ord \<noteq> OrderPending" for k ord
  proof -
    have "k \<notin> K" using assms(3) k by (auto simp: pending_ids_def)
    then show ?thesis using assms(1) k by (simp add: touches_def)
  qed
  ultimately show ?thesis using assms(1) by (simp add: settles_def touches_def)
qed

lemma shortID_inj [simp]: "shortID p i = shortID p j \<longleftrightarrow> i = j"
  by (simp add: shortID_def)

lemma ids_ok_adjust [simp]: "ids_ok n (adjust k f os) = ids_ok n os"
  by (simp add: ids_ok_def)

lemma ids_ok_fresh: "ids_ok n os \<Longrightarrow> map_of os (shortID ''order'' (Suc n)) = None"
  by (force simp: ids_ok_def map_of_eq_None_iff)

lemma ids_ok_mono: "ids_ok n os \<Longrightarrow> n \<le> m \<Longrightarrow> ids_ok m os"
  unfolding ids_ok_def by (meson atLeastatMost_subset_iff le_refl subset_eq)

lemma ids_ok_update:
  assumes "ids_ok n os"
  shows "ids_ok (Suc n) (AList.update (shortID ''order'' (Suc n)) x os)"
  unfolding ids_ok_def
proof
  fix k assume "k \<in> fst ` set (AList.update (shortID ''order'' (Suc n)) x os)"
  then consider "k = shortID ''order'' (Suc n)" | "k \<in> fst ` set os" by auto
  then show "\<exists>j \<in> {1..Suc n}. k = shortID ''order'' j"
  proof cases
    case 2
    then obtain j where "j \<in> {1..n}" "k = shortID ''order'' j" using assms unfolding ids_ok_def by blast
    then show ?thesis by (intro bexI [of _ j]) auto
  qed (intro bexI [of _ "Suc n"], auto)
qed

lemma pending_ids_adjust:
  "map_of os k = Some ord \<Longrightarrow> oStatus (f ord) \<noteq> OrderPending \<Longrightarrow> pending_ids (adjust k f os) = pending_ids os - {k}"
  by (auto simp: pending_ids_def map_of_adjust split: if_splits)

lemma base_invD:
  assumes "base_inv s"
  shows "world_ok (sCity s) (sDrivers s) (sOrders s) (sIndex s)" "ids_ok (sNextOrderID s) (sOrders s)"
    "sStrategy s = StrategyOptimized \<Longrightarrow> sIndex s \<noteq> None" "city_ok (sCity s)"
    "distinct_keys (sDrivers s)" "distinct_keys (sOrders s)"
  using assms world_okD [of "sCity s" "sDrivers s" "sOrders s" "sIndex s"] unfolding base_inv_def by blast+

lemma emit_simps [simp]:
  "sCity (emit t p s) = sCity s" "sDrivers (emit t p s) = sDrivers s" "sOrders (emit t p s) = sOrders s"
  "sIndex (emit t p s) = sIndex s" "sPending (emit t p s) = sPending s" "sStrategy (emit t p s) = sStrategy s"
  "sNextOrderID (emit t p s) = sNextOrderID s" "sCandidates (emit t p s) = sCandidates s"
  "sWeights (emit t p s) = sWeights s" "sVirtualTime (emit t p s) = sVirtualTime s"
  "sPaused (emit t p s) = sPaused s" "sSpeed (emit t p s) = sSpeed s" "sID (emit t p s) = sID s"
  "sDriverCount (emit t p s) = sDriverCount s" "sGridCellSize (emit t p s) = sGridCellSize s"
  "sBatchWindow (emit t p s) = sBatchWindow s" "sMinBatchSize (emit t p s) = sMinBatchSize s"
  "sCurrentCausation (emit t p s) = sCurrentCausation s" "sCurrentTrace (emit t p s) = sCurrentTrace s"
  "sImmediateCount (emit t p s) = sImmediateCount s" "sBatchCount (emit t p s) = sBatchCount s"
  "sMaxWait (emit t p s) = sMaxWait s"
  by (simp_all add: emit_def)

lemma base_inv_emit [simp]: "base_inv (emit t p s) = base_inv s"
  by (simp add: base_inv_def)

lemma sim_inv_emit [simp]: "sim_inv (emit t p s) = sim_inv s"
  by (simp add: sim_inv_def)

lemma fixed_emit [simp]: "fixed_parts (emit t p s) = fixed_parts s"
  by (simp add: fixed_parts_def)

lemma touches_refl: "touches {} {} s s"
  by (simp add: touches_def)

lemma touches_trans: "touches D K s s' \<Longrightarrow> touches D' K' s' s'' \<Longrightarrow> touches (D \<union> D') (K \<union> K') s s''"
  by (auto simp: touches_def)

lemma touches_sim_inv:
  assumes "touches D K s s'" "base_inv s'" "sim_inv s"
  shows "sim_inv (s'\<lparr>sPending := filter (\<lambda>i. i \<notin> K) (sPending s')\<rparr>)"
  using assms unfolding sim_inv_def touches_def base_inv_def by auto

subsection \<open>Committing one assignment\<close>

definition assign_ready :: "sim \<Rightarrow> assignment \<Rightarrow> bool" where
  "assign_ready s a \<longleftrightarrow>
     (\<exists>ord d. map_of (sOrders s) (aOrderID a) = Some ord \<and> oStatus ord = OrderPending \<and>
        map_of (sDrivers s) (aDriverID a) = Some d \<and> dStatus d = DriverIdle \<and>
        FindRoute (sCity s) (dPosition d) (oPickup ord) = Some (aToPickup a))"

lemma assign_ready_frame:
  "assign_ready s a \<Longrightarrow> touches D K s s' \<Longrightarrow> aDriverID a \<notin> D \<Longrightarrow> aOrderID a \<notin> K \<Longrightarrow> assign_ready s' a"
  by (auto simp: assign_ready_def touches_def fixed_parts_def)

lemma index_ok_remove:
  assumes "index_ok c ds ix"
  shows "index_ok c (adjust i f ds) (map_option (grid_remove i) ix)"
  using assms unfolding index_ok_def
  by (auto intro: wf_intros simp: fun_upd_def map_of_adjust split: if_splits)

lemma reject_pending:
  fixes t :: event_type and p :: json
  assumes inv: "base_inv s" and ord: "map_of (sOrders s) k = Some ord" "oStatus ord = OrderPending"
  defines "s' \<equiv> emit t p (set_order k (\<lambda>x. x\<lparr>oStatus := OrderUnassignable\<rparr>) s)"
  shows "base_inv s'" "touches {} {k} s s'"
proof -
  note I = base_invD [OF inv]
  have ok: "order_ok (sDrivers s) k ord" using world_okD(5) [OF I(1) ord(1)] .
  have "world_ok (sCity s) (sDrivers s) (adjust k (\<lambda>x. x\<lparr>oStatus := OrderUnassignable\<rparr>) (sOrders s)) (sIndex s)"
    by (rule world_order [OF I(1) ord(1)]) (use ok ord(2) in \<open>auto simp: active_def order_ok_def\<close>)
  then show "base_inv s'" using I(2,3) by (simp add: s'_def base_inv_def set_order_def)
  show "touches {} {k} s s'"
    using pending_ids_adjust [OF ord(1), of "\<lambda>x. x\<lparr>oStatus := OrderUnassignable\<rparr>"]
    by (simp add: s'_def touches_def fixed_parts_def set_order_def)
qed

lemma commit_assignment_inv:
  fixes toDest :: route
  assumes inv: "base_inv s" and ord: "map_of (sOrders s) (aOrderID a) = Some ord" "oStatus ord = OrderPending"
    and d: "map_of (sDrivers s) (aDriverID a) = Some d" "dStatus d = DriverIdle"
    and full: "hd full = dPosition d" "full \<noteq> []" "open_hops (sCity s) full"
  defines "s' \<equiv> commit_assignment a ord d toDest full s"
  shows "base_inv s'" "touches {aDriverID a} {aOrderID a} s s'"
proof -
  note I = base_invD [OF inv]
  let ?at = "dPosition d = oPickup ord"
  let ?f = "\<lambda>x. x\<lparr>dRoute := full, dRouteIndex := 0,
      dStatus := (if ?at then DriverDelivering else DriverEnRouteToPick), dAssignedOrder := oID ord\<rparr>"
  let ?g = "\<lambda>x. x\<lparr>oStatus := (if ?at then OrderEnRoute else OrderAssigned), oAssignedDriver := aDriverID a\<rparr>"
  have id: "oID ord = aOrderID a" using world_okD(5) [OF I(1) ord(1)] by (simp add: order_ok_def)
  have did: "dID d = aDriverID a" using world_okD(4) [OF I(1) d(1)] by (simp add: driver_ok_def)
  have w: "world_ok (sCity s) (adjust (aDriverID a) ?f (sDrivers s)) (adjust (aOrderID a) ?g (sOrders s))
      (map_option (grid_remove (aDriverID a)) (sIndex s))"
  proof (rule world_link [OF I(1) d(1) ord(1)])
    show "driver_ok (sCity s) (adjust (aOrderID a) ?g (sOrders s)) (aDriverID a) (?f d)"
      using full ord(1) id did by (auto simp: driver_ok_def route_ok_def holds_order_def hd_conv_nth)
    show "order_ok (adjust (aDriverID a) ?f (sDrivers s)) (aOrderID a) (?g ord)"
      using d(1) id by (auto simp: order_ok_def carried_by_def)
    show "index_ok (sCity s) (adjust (aDriverID a) ?f (sDrivers s)) (map_option (grid_remove (aDriverID a)) (sIndex s))"
      by (rule index_ok_remove [OF world_okD(6) [OF I(1)]])
  qed (use d ord in \<open>auto simp: active_def\<close>)
  then show "base_inv s'"
    using I(2,3) by (simp add: s'_def commit_assignment_def base_inv_def set_driver_def set_order_def Let_def)
  show "touches {aDriverID a} {aOrderID a} s s'"
    using pending_ids_adjust [OF ord(1), of ?g]
    by (simp add: s'_def commit_assignment_def touches_def fixed_parts_def set_driver_def set_order_def Let_def)
qed

lemma applyAssignment_inv:
  assumes inv: "base_inv s" and ready: "assign_ready s a"
  obtains s' where "applyAssignment a s = Some s'" "base_inv s'" "touches {aDriverID a} {aOrderID a} s s'"
proof -
  obtain ord d where r: "map_of (sOrders s) (aOrderID a) = Some ord" "oStatus ord = OrderPending"
    "map_of (sDrivers s) (aDriverID a) = Some d" "dStatus d = DriverIdle"
    "FindRoute (sCity s) (dPosition d) (oPickup ord) = Some (aToPickup a)"
    using ready by (auto simp: assign_ready_def)
  show thesis
  proof (cases "FindRoute (sCity s) (oPickup ord) (oDestination ord)")
    case None
    have "touches {aDriverID a} {aOrderID a} s s'" if "touches {} {aOrderID a} s s'" for s'
      using that by (simp add: touches_def)
    then show thesis
      using that [OF _ reject_pending(1) [OF inv r(1,2)]] reject_pending(2) [OF inv r(1,2)] None r(1)
      by (simp add: applyAssignment_def)
  next
    case (Some toDest)
    obtain rest where j: "rNodes toDest = oPickup ord # rest" "open_hops (sCity s) (rNodes (aToPickup a) @ rest)"
      "hd (rNodes (aToPickup a) @ rest) = dPosition d" "rNodes (aToPickup a) \<noteq> []"
      by (rule routes_join [OF base_invD(4) [OF inv] r(5) Some])
    have "applyAssignment a s = Some (commit_assignment a ord d toDest (rNodes (aToPickup a) @ rest) s)"
      using r(1,3) Some j(1) by (simp add: applyAssignment_def)
    then show thesis
      using that commit_assignment_inv [OF inv r(1-4) j(3) _ j(2)] j(4) by blast
  qed
qed

lemma apply_ready_all:
  assumes "base_inv s" "distinct (map aDriverID as)" "distinct (map aOrderID as)" "\<forall>a \<in> set as. assign_ready s a"
  shows "\<exists>s'. fold_opt applyAssignment as s = Some s' \<and> base_inv s' \<and>
    touches (aDriverID ` set as) (aOrderID ` set as) s s'"
  using assms
proof (induction as arbitrary: s)
  case Nil
  then show ?case using touches_refl by simp
next
  case (Cons a as)
  obtain s1 where s1: "applyAssignment a s = Some s1" "base_inv s1" "touches {aDriverID a} {aOrderID a} s s1"
    using applyAssignment_inv [OF Cons.prems(1), of a] Cons.prems(4) by auto
  have "\<forall>b \<in> set as. assign_ready s1 b"
  proof
    fix b assume b: "b \<in> set as"
    then have "assign_ready s b" "aDriverID b \<notin> {aDriverID a}" "aOrderID b \<notin> {aOrderID a}"
      using Cons.prems(2-4) by (auto simp: image_iff)
    then show "assign_ready s1 b" by (rule assign_ready_frame [OF _ s1(3)])
  qed
  then obtain s2 where s2: "fold_opt applyAssignment as s1 = Some s2" "base_inv s2"
    "touches (aDriverID ` set as) (aOrderID ` set as) s1 s2"
    using Cons.IH [OF s1(2)] Cons.prems(2,3) by auto
  then show ?case using s1(1) touches_trans [OF s1(3) s2(3)] by simp
qed

text \<open>What the simulation gets from a strategy that meets the contract.\<close>

context batch_matcher
begin

lemma apply_batch:
  assumes inv: "base_inv s" and run: "assigns_batch (sCity s) (sDrivers s) orders as"
    and pending: "\<And>ord. ord \<in> set orders \<Longrightarrow> map_of (sOrders s) (oID ord) = Some ord \<and> oStatus ord = OrderPending"
  shows "\<exists>s'. fold_opt applyAssignment as s = Some s' \<and> base_inv s' \<and>
    touches (aDriverID ` set as) (aOrderID ` set as) s s' \<and> settles s s'"
proof -
  have ready: "\<forall>a \<in> set as. assign_ready s a"
  proof
    fix a assume a: "a \<in> set as"
    obtain ord d where "ord \<in> set orders" "aOrderID a = oID ord" "map_of (sDrivers s) (aDriverID a) = Some d"
      "dStatus d = DriverIdle" "FindRoute (sCity s) (dPosition d) (oPickup ord) = Some (aToPickup a)"
      by (rule assigned_pair [OF run a])
    then show "assign_ready s a" using pending by (auto simp: assign_ready_def)
  qed
  obtain s' where s': "fold_opt applyAssignment as s = Some s'" "base_inv s'"
    "touches (aDriverID ` set as) (aOrderID ` set as) s s'"
    using apply_ready_all [OF inv one_driver_each [OF run] one_assignment_each [OF run] ready] by blast
  have "settles s s'"
    by (rule touches_settles [OF s'(3)]) (use ready in \<open>auto simp: assign_ready_def pending_ids_def\<close>)
  then show ?thesis using s' by blast
qed

end

subsection \<open>One order at a time\<close>

lemma hasIdleDriver_iff: "hasIdleDriver s \<longleftrightarrow> (\<exists>(i, d) \<in> set (sDrivers s). dStatus d = DriverIdle)"
  by (auto simp: hasIdleDriver_def list_ex_iff)

definition queued :: "sim \<Rightarrow> order_id list \<Rightarrow> bool" where
  \<comment> \<open>the pending orders are those of the queue and of a list still to be offered\<close>
  "queued s extra \<longleftrightarrow> base_inv s \<and> distinct (sPending s @ extra) \<and>
     set (sPending s @ extra) = pending_ids (sOrders s)"

lemma queued_sim_inv: "sim_inv s \<longleftrightarrow> queued s []"
  by (simp add: queued_def sim_inv_def)

lemma touches_queued:
  assumes "touches D {i} s s'" "base_inv s'" "queued s (i # extra)"
  shows "queued s' extra"
  using assms unfolding queued_def touches_def by auto

lemma base_inv_pending [simp]: "base_inv (s\<lparr>sPending := xs\<rparr>) = base_inv s"
  by (simp add: base_inv_def)

lemma base_inv_count [simp]:
  "base_inv (s\<lparr>sImmediateCount := n\<rparr>) = base_inv s" "base_inv (s\<lparr>sBatchCount := n\<rparr>) = base_inv s"
  by (simp_all add: base_inv_def)

lemma queued_count [simp]:
  "queued (s\<lparr>sImmediateCount := n\<rparr>) xs = queued s xs" "queued (s\<lparr>sBatchCount := n\<rparr>) xs = queued s xs"
  by (simp_all add: queued_def)

lemma queued_order:
  assumes "queued s (i # extra)"
  shows "\<exists>ord. map_of (sOrders s) i = Some ord \<and> oStatus ord = OrderPending"
proof -
  have "i \<in> set (sPending s @ i # extra)" by simp
  then have "i \<in> pending_ids (sOrders s)" using assms by (simp only: queued_def)
  then show ?thesis by (simp add: pending_ids_def)
qed

lemma assignBaseline_inv:
  assumes q: "queued s (i # extra)" and ord: "map_of (sOrders s) i = Some ord"
  obtains s' where "assignBaseline i ord s = Some s'" "queued s' extra" "settles s s'"
proof -
  have inv: "base_inv s" using q by (simp add: queued_def)
  have pend: "oStatus ord = OrderPending" using queued_order [OF q] ord by simp
  have id: "oID ord = i" using world_okD(5) [OF base_invD(1) [OF inv] ord] by (simp add: order_ok_def)
  have greedy: "greedy_assigns (sCity s) (sDrivers s) [ord] (BaselineBatch (sCity s) (sDrivers s) [ord])"
    using base_invD(5) [OF inv] by (simp add: greedy_assigns_def)
  have p: "map_of (sOrders s) (oID x) = Some x \<and> oStatus x = OrderPending" if "x \<in> set [ord]" for x
    using that ord pend id by simp
  obtain s1 where s1: "fold_opt applyAssignment (BaselineBatch (sCity s) (sDrivers s) [ord]) s = Some s1" "base_inv s1"
    "touches (aDriverID ` set (BaselineBatch (sCity s) (sDrivers s) [ord]))
       (aOrderID ` set (BaselineBatch (sCity s) (sDrivers s) [ord])) s s1" "settles s s1"
    using greedy.apply_batch [OF inv greedy p] by blast
  show thesis
  proof (cases "Baseline (sCity s) (sDrivers s) (oPickup ord)")
    case (Some x)
    obtain did r where x: "x = (did, r)" by (cases x)
    have "assignBaseline i ord s = Some s1"
      using s1(1) Some x id by (simp add: assignBaseline_def BaselineBatch_single split: option.splits)
    moreover have t: "touches {did} {i} s s1" using s1(3) Some x id by (simp add: BaselineBatch_single)
    ultimately show thesis using that touches_queued [OF t s1(2) q] s1(4) by blast
  next
    case None
    show thesis
    proof (cases "hasIdleDriver s")
      case True
      note R = reject_pending [OF inv ord pend]
      have "settles s (emit t p (set_order i (\<lambda>x. x\<lparr>oStatus := OrderUnassignable\<rparr>) s))" for t p
        by (rule touches_settles [OF R(2)]) (use ord pend in \<open>auto simp: pending_ids_def\<close>)
      then show thesis
        using that touches_queued [OF R(2) R(1) q] None True by (simp add: assignBaseline_def)
    next
      case False
      have "queued (s\<lparr>sPending := sPending s @ [i]\<rparr>) extra"
        using q by (auto simp: queued_def)
      then show thesis using that None False by (simp add: assignBaseline_def)
    qed
  qed
qed

lemma retry_fold_inv:
  "queued s is \<Longrightarrow> \<exists>s'. fold_opt retry_one is s = Some s' \<and> queued s' [] \<and> settles s s'"
proof (induction "is" arbitrary: s)
  case (Cons i "is")
  obtain ord where ord: "map_of (sOrders s) i = Some ord" "oStatus ord = OrderPending"
    using queued_order [OF Cons.prems] by blast
  obtain s1 where s1: "assignBaseline i ord s = Some s1" "queued s1 is" "settles s s1"
    by (rule assignBaseline_inv [OF Cons.prems ord(1)])
  then show ?case using Cons.IH [OF s1(2)] ord settles_trans [OF s1(3)] by (auto simp: retry_one_def)
qed simp

lemma retryPendingBaseline_inv:
  assumes "sim_inv s"
  obtains s' where "retryPendingBaseline s = Some s'" "sim_inv s'" "settles s s'"
proof (cases "sPending s = [] \<or> \<not> hasIdleDriver s")
  case True
  then show thesis using that assms by (simp add: retryPendingBaseline_def)
next
  case False
  have "queued (s\<lparr>sPending := []\<rparr>) (sPending s)" using assms by (simp add: queued_def sim_inv_def)
  then obtain s' where "fold_opt retry_one (sPending s) (s\<lparr>sPending := []\<rparr>) = Some s'" "queued s' []"
    "settles (s\<lparr>sPending := []\<rparr>) s'"
    using retry_fold_inv by blast
  then show thesis using that False by (auto simp: retryPendingBaseline_def queued_sim_inv)
qed

lemma dispatchImmediateBaseline_inv:
  assumes "sim_inv s"
  obtains s' where "dispatchImmediateBaseline s = Some s'" "sim_inv s'" "settles s s'"
proof (cases "sPending s")
  case Nil
  then show thesis using that assms by (simp add: dispatchImmediateBaseline_def)
next
  case (Cons i rest)
  let ?s = "s\<lparr>sPending := rest, sImmediateCount := sImmediateCount s + 1\<rparr>"
  have q: "queued ?s [i]" using assms Cons by (auto simp: queued_def sim_inv_def)
  obtain ord where ord: "map_of (sOrders ?s) i = Some ord" "oStatus ord = OrderPending"
    using queued_order [OF q] by blast
  obtain s' where s': "assignBaseline i ord ?s = Some s'" "queued s' []" "settles ?s s'"
    by (rule assignBaseline_inv [OF q ord(1)])
  have "dispatchImmediateBaseline s = Some s'"
    using s'(1) ord Cons by (simp add: dispatchImmediateBaseline_def Let_def)
  then show thesis using that s'(2,3) by (simp add: queued_sim_inv)
qed

subsection \<open>The joint batch\<close>

lemma all_some_map: "(\<And>x. x \<in> set xs \<Longrightarrow> f x \<noteq> None) \<Longrightarrow> all_some (map f xs) = Some (map (\<lambda>x. the (f x)) xs)"
proof (induction xs)
  case (Cons a xs)
  then obtain y where "f a = Some y" by fastforce
  then show ?case using Cons by simp
qed simp

definition pending_orders :: "sim \<Rightarrow> order list" where
  "pending_orders s = map (\<lambda>i. the (map_of (sOrders s) i)) (sPending s)"

definition batch_in_range :: "sim \<Rightarrow> bool" where
  "batch_in_range s \<longleftrightarrow>
     costs_in_range (sCity s) (sDrivers s) (pending_orders s) (sWeights s) (sVirtualTime s)"

lemma pending_orders_spec:
  assumes "sim_inv s"
  shows "all_some (map (map_of (sOrders s)) (sPending s)) = Some (pending_orders s)"
    "\<And>ord. ord \<in> set (pending_orders s) \<Longrightarrow> map_of (sOrders s) (oID ord) = Some ord \<and> oStatus ord = OrderPending \<and> oID ord \<in> set (sPending s)"
    "map oID (pending_orders s) = sPending s"
proof -
  have inv: "base_inv s" using assms by (simp add: sim_inv_def)
  have look: "\<exists>ord. map_of (sOrders s) i = Some ord \<and> oStatus ord = OrderPending \<and> oID ord = i" if "i \<in> set (sPending s)" for i
  proof -
    have "i \<in> pending_ids (sOrders s)" using assms that by (simp add: sim_inv_def)
    then obtain ord where "map_of (sOrders s) i = Some ord" "oStatus ord = OrderPending" by (auto simp: pending_ids_def)
    moreover from this have "oID ord = i" using world_okD(5) [OF base_invD(1) [OF inv]] by (simp add: order_ok_def)
    ultimately show ?thesis by blast
  qed
  show "all_some (map (map_of (sOrders s)) (sPending s)) = Some (pending_orders s)"
    unfolding pending_orders_def by (rule all_some_map) (use look in force)
  show "map_of (sOrders s) (oID ord) = Some ord \<and> oStatus ord = OrderPending \<and> oID ord \<in> set (sPending s)"
    if "ord \<in> set (pending_orders s)" for ord
    using that look by (fastforce simp: pending_orders_def)
  show "map oID (pending_orders s) = sPending s"
    unfolding pending_orders_def map_map comp_def by (rule map_idI) (use look in force)
qed

lemma reject_all_inv:
  assumes "base_inv s" "distinct is" "set is \<subseteq> pending_ids (sOrders s)"
  shows "\<exists>s'. fold_opt reject_order is s = Some s' \<and> base_inv s' \<and> touches {} (set is) s s'"
  using assms
proof (induction "is" arbitrary: s)
  case Nil
  then show ?case using touches_refl by simp
next
  case (Cons i "is")
  obtain ord where ord: "map_of (sOrders s) i = Some ord" "oStatus ord = OrderPending"
    using Cons.prems(3) by (auto simp: pending_ids_def)
  let ?s = "emit EventOrderUnassignable (unassignable_payload i ''no available driver can reach the pickup'')
      (set_order i (\<lambda>x. x\<lparr>oStatus := OrderUnassignable\<rparr>) s)"
  note R = reject_pending [OF Cons.prems(1) ord, of EventOrderUnassignable
      "unassignable_payload i ''no available driver can reach the pickup''"]
  have "set is \<subseteq> pending_ids (sOrders ?s)" using R(2) Cons.prems(2,3) by (auto simp: touches_def)
  then obtain s' where s': "fold_opt reject_order is ?s = Some s'" "base_inv s'" "touches {} (set is) ?s s'"
    using Cons.IH [OF R(1)] Cons.prems(2) by auto
  moreover have "reject_order i s = Some ?s" using ord by (simp add: reject_order_def)
  ultimately show ?case using touches_trans [OF R(2) s'(3)] by simp
qed

lemma optimized_batch:
  assumes inv: "sim_inv s" and strat: "sIndex s = Some index" and range: "batch_in_range s"
  obtains as infs where
    "Optimized (sCity s) (sDrivers s) (pending_orders s) index (sCandidates s) (sWeights s) (sVirtualTime s) = Some (as, infs)"
    "joint_assigns (sCity s) (sDrivers s) (pending_orders s) as"
    "distinct infs" "set infs \<subseteq> set (sPending s)" "aOrderID ` set as \<inter> set infs = {}" "aOrderID ` set as \<subseteq> set (sPending s)"
proof -
  have b: "base_inv s" using inv by (simp add: sim_inv_def)
  have ok: "index_ok (sCity s) (sDrivers s) (Some index)"
    using world_okD(6) [OF base_invD(1) [OF b]] strat by simp
  have ix: "grid_wf index" "idle_index (sDrivers s) index"
  proof -
    show "grid_wf index" using ok by (simp add: index_ok_def)
    show "idle_index (sDrivers s) index"
      unfolding idle_index_def
    proof
      fix i assume "i \<in> fst ` set (gPoints index)"
      then obtain p where "map_of (gPoints index) i = Some p" by (metis in_keys_iff list.set_map)
      then show "\<exists>d. map_of (sDrivers s) i = Some d \<and> dStatus d = DriverIdle"
        using ok unfolding index_ok_def by blast
    qed
  qed
  note P = pending_orders_spec [OF inv]
  have ids: "distinct (map oID (pending_orders s))" unfolding P(3) using inv by (simp add: sim_inv_def)
  obtain B where B: "B < Unreachable" "costs_below (sCity s) (sDrivers s) (pending_orders s) (sWeights s) (sVirtualTime s) B"
    "(2 * real (length (pending_orders s)) + 2) * Unreachable < hung_inf"
    using range by (auto simp: batch_in_range_def costs_in_range_def)
  obtain as infs Pl where o:
    "Optimized (sCity s) (sDrivers s) (pending_orders s) index (sCandidates s) (sWeights s) (sVirtualTime s) = Some (as, infs)"
    "service_plan (sCity s) (sDrivers s) index (sCandidates s) (pending_orders s) Pl"
    "set (map (\<lambda>a. (aOrderID a, aDriverID a)) as) = (\<lambda>(ord, i). (oID ord, i)) ` Pl"
    "set infs = {oID ord | ord. ord \<in> set (pending_orders s) \<and> order_candidates (sCity s) index (sCandidates s) ord \<noteq> [] \<and>
       (\<forall>i. \<not> servable (sCity s) (sDrivers s) index (sCandidates s) ord i)}" "distinct infs"
    by (rule Optimized_spec [OF idle_index_ready [OF ix ids] B(2,1,3), where k = "sCandidates s"]) blast
  have joint: "joint_assigns (sCity s) (sDrivers s) (pending_orders s) as"
    unfolding joint_assigns_def using ix ids range [unfolded batch_in_range_def] o(1) by blast
  have served: "\<exists>ord i. ord \<in> set (pending_orders s) \<and> oID ord = k \<and>
      servable (sCity s) (sDrivers s) index (sCandidates s) ord i" if k: "k \<in> aOrderID ` set as" for k
  proof -
    obtain a where a: "a \<in> set as" "k = aOrderID a" using k by blast
    then have "(k, aDriverID a) \<in> (\<lambda>(ord, i). (oID ord, i)) ` Pl" unfolding o(3) [symmetric] by simp
    then obtain ord where "(ord, aDriverID a) \<in> Pl" "oID ord = k" by auto
    then show ?thesis using o(2) unfolding service_plan_def by force
  qed
  have "aOrderID ` set as \<inter> set infs = {}"
  proof (rule ccontr)
    assume "aOrderID ` set as \<inter> set infs \<noteq> {}"
    then obtain k where k: "k \<in> aOrderID ` set as" "k \<in> set infs" by blast
    obtain o1 i where o1: "o1 \<in> set (pending_orders s)" "oID o1 = k" "servable (sCity s) (sDrivers s) index (sCandidates s) o1 i"
      using served [OF k(1)] by blast
    obtain o2 where o2: "o2 \<in> set (pending_orders s)" "oID o2 = k" "\<forall>i. \<not> servable (sCity s) (sDrivers s) index (sCandidates s) o2 i"
      using k(2) o(4) by auto
    have "o1 = o2" using P(2) [OF o1(1)] P(2) [OF o2(1)] o1(2) o2(2) by simp
    then show False using o1(3) o2(3) by simp
  qed
  moreover have "set infs \<subseteq> set (sPending s)" using o(4) P(2) by auto
  moreover have "aOrderID ` set as \<subseteq> set (sPending s)" using served P(2) by fastforce
  ultimately show thesis using that o(1,5) joint by blast
qed

lemma runBatch_inv:
  assumes inv: "sim_inv s" and ix: "sIndex s \<noteq> None" and range: "batch_in_range s"
  obtains s' where "runBatch s = Some s'" "sim_inv s'" "settles s s'"
proof (cases "sPending s = []")
  case True
  then show thesis using that inv by (simp add: runBatch_def)
next
  case False
  obtain index where ix': "sIndex s = Some index" using ix by blast
  obtain as infs where o:
    "Optimized (sCity s) (sDrivers s) (pending_orders s) index (sCandidates s) (sWeights s) (sVirtualTime s) = Some (as, infs)"
    "joint_assigns (sCity s) (sDrivers s) (pending_orders s) as"
    "distinct infs" "set infs \<subseteq> set (sPending s)" "aOrderID ` set as \<inter> set infs = {}" "aOrderID ` set as \<subseteq> set (sPending s)"
    by (rule optimized_batch [OF inv ix' range])
  let ?s = "s\<lparr>sBatchCount := sBatchCount s + 1\<rparr>"
  have inv': "sim_inv ?s" using inv by (simp add: sim_inv_def)
  note P = pending_orders_spec [OF inv]
  have b: "base_inv ?s" using inv' by (simp add: sim_inv_def)
  obtain s1 where s1: "fold_opt applyAssignment as ?s = Some s1" "base_inv s1"
    "touches (aDriverID ` set as) (aOrderID ` set as) ?s s1" "settles ?s s1"
    using joint.apply_batch [OF b, of "pending_orders s" as] o(2) P(2) by auto
  have "set infs \<subseteq> pending_ids (sOrders s1)"
    using s1(3) o(4,5) inv unfolding touches_def sim_inv_def by auto
  then obtain s2 where s2: "fold_opt reject_order infs s1 = Some s2" "base_inv s2" "touches {} (set infs) s1 s2"
    using reject_all_inv [OF s1(2) o(3)] by blast
  have "settles s1 s2"
    by (rule touches_settles [OF s2(3)]) (use \<open>set infs \<subseteq> pending_ids (sOrders s1)\<close> in auto)
  then have st: "settles ?s s2" by (rule settles_trans [OF s1(4)])
  note t = touches_trans [OF s1(3) s2(3)]
  let ?s' = "s2\<lparr>sPending := filter (\<lambda>i. i \<notin> aOrderID ` set as \<and> i \<notin> set infs) (sPending s2)\<rparr>"
  have "(\<lambda>i. i \<notin> aOrderID ` set as \<and> i \<notin> set infs) = (\<lambda>i. i \<notin> aOrderID ` set as \<union> set infs)" by auto
  then have "sim_inv ?s'" using touches_sim_inv [OF t s2(2) inv'] by simp
  moreover have "runBatch s = Some ?s'"
    using False P(1) ix' o(1) s1(1) s2(1) by (simp add: runBatch_def Let_def settle_batch_def)
  moreover have "settles s ?s'" using st by simp
  ultimately show thesis using that by blast
qed

lemma dispatchOptimized_inv:
  assumes inv: "sim_inv s" and ix: "sIndex s \<noteq> None" and range: "batch_in_range s"
  obtains s' where "dispatchOptimized s = Some s'" "sim_inv s'" "settles s s'"
proof (cases "sPending s")
  case Nil
  then show thesis using that inv by (simp add: dispatchOptimized_def)
next
  case (Cons i rest)
  have "i \<in> pending_ids (sOrders s)" using inv Cons by (auto simp: sim_inv_def)
  then obtain ord where ord: "map_of (sOrders s) i = Some ord" "oStatus ord = OrderPending" by (auto simp: pending_ids_def)
  obtain s1 where s1: "runBatch s = Some s1" "sim_inv s1" "settles s s1"
    by (rule runBatch_inv [OF inv ix range])
  obtain s2 where s2: "dispatchImmediateBaseline s = Some s2" "sim_inv s2" "settles s s2"
    by (rule dispatchImmediateBaseline_inv [OF inv])
  have "dispatchOptimized s \<in> {Some s, Some s1, Some s2}"
    using Cons ord s1(1) s2(1) by (simp add: dispatchOptimized_def Let_def)
  then show thesis using that inv s1 s2 by auto
qed

lemma record_order_inv:
  fixes p q :: node_id
  assumes inv: "sim_inv s"
  defines "ord \<equiv> placed_order p q s"
  shows "queued (record_order ord s) [oID ord]" "map_of (sOrders (record_order ord s)) (oID ord) = Some ord"
    "fixed_parts (record_order ord s) = (sCity s, sStrategy s, sNextOrderID s + 1, sCandidates s, sWeights s, sVirtualTime s, sPaused s)"
proof -
  have b: "base_inv s" using inv by (simp add: sim_inv_def)
  note I = base_invD [OF b]
  have id: "oID ord = shortID ''order'' (Suc (sNextOrderID s))" "oStatus ord = OrderPending"
    by (simp_all add: ord_def placed_order_def)
  have fresh: "map_of (sOrders s) (oID ord) = None" unfolding id using ids_ok_fresh [OF I(2)] .
  have "ids_ok (sNextOrderID s + 1) (AList.update (oID ord) ord (sOrders s))"
    using ids_ok_update [OF I(2)] id(1) by simp
  then have bi: "base_inv (record_order ord s)"
    using world_new_order [OF I(1) fresh refl id(2)] I(3) by (simp add: base_inv_def record_order_def)
  have "pending_ids (sOrders (record_order ord s)) = insert (oID ord) (pending_ids (sOrders s))"
    using id(2) by (auto simp: pending_ids_def record_order_def map_of_update)
  moreover have "oID ord \<notin> set (sPending s)" using inv fresh by (auto simp: sim_inv_def pending_ids_def)
  ultimately show "queued (record_order ord s) [oID ord]"
    using bi inv by (auto simp: queued_def sim_inv_def record_order_def)
  show "map_of (sOrders (record_order ord s)) (oID ord) = Some ord"
    by (simp add: record_order_def map_of_update)
  show "fixed_parts (record_order ord s) = (sCity s, sStrategy s, sNextOrderID s + 1, sCandidates s, sWeights s, sVirtualTime s, sPaused s)"
    by (simp add: fixed_parts_def record_order_def)
qed

lemma handlePlaceOrder_inv:
  assumes inv: "sim_inv s"
  obtains s' where "handlePlaceOrder p q s = Some s'" "sim_inv s'"
proof -
  let ?ord = "placed_order p q s"
  let ?s = "record_order ?ord s"
  note R = record_order_inv [OF inv, of p q]
  obtain s1 where s1: "assignBaseline (oID ?ord) ?ord ?s = Some s1" "queued s1 []"
    by (rule assignBaseline_inv [OF R(1,2)])
  have q: "sim_inv (?s\<lparr>sPending := sPending ?s @ [oID ?ord]\<rparr>)"
    using R(1) by (auto simp: queued_sim_inv queued_def)
  obtain s2 where s2: "dispatchImmediateBaseline (?s\<lparr>sPending := sPending ?s @ [oID ?ord]\<rparr>) = Some s2" "sim_inv s2"
    by (rule dispatchImmediateBaseline_inv [OF q])
  let ?t = "?s\<lparr>sPending := sPending ?s @ [oID ?ord]\<rparr>"
  have "handlePlaceOrder p q s =
      (if sStrategy ?s = StrategyOptimized
       then if length (sPending ?t) = 1 \<and> hasIdleDriver ?t then Some s2 else Some ?t else Some s1)"
    by (simp only: handlePlaceOrder_def Let_def s1(1) s2(1))
  then have "handlePlaceOrder p q s \<in> {Some ?t, Some s1, Some s2}" by auto
  then show thesis using that q s1(2) s2(2) by (auto simp: queued_sim_inv)
qed

end
