(* ===== verification/Simulation_Safe.thy ===== *)
theory Simulation_Safe
  imports Simulation_Inv
begin

text \<open>
  The invariant \<open>sim_inv\<close> across movement, road closures, reopenings, reset and construction, and
  with it across every command and tick: the simulation never dereferences a nil pointer, no driver
  is ever on a route that crosses a closed road, and the queue stays exact.
\<close>

subsection \<open>Movement\<close>

lemma pending_ids_keep:
  assumes "map_of os k = Some ord" "oStatus ord \<noteq> OrderPending" "oStatus (f ord) \<noteq> OrderPending"
  shows "pending_ids (adjust k f os) = pending_ids os"
  using assms by (auto simp: pending_ids_def map_of_adjust)

lemma active_not_pending: "active ord \<Longrightarrow> oStatus ord \<noteq> OrderPending"
  by (auto simp: active_def)

lemma held_order:
  assumes "base_inv s" "map_of (sDrivers s) i = Some d" "map_of (sOrders s) (dAssignedOrder d) = Some ord"
  shows "dStatus d \<noteq> DriverIdle" "active ord" "oAssignedDriver ord = i" "oID ord = dAssignedOrder d" "dID d = i"
    "route_ok (sCity s) d"
proof -
  note I = base_invD [OF assms(1)]
  have d: "driver_ok (sCity s) (sOrders s) i d" by (rule world_okD(4) [OF I(1) assms(2)])
  have "map_of (sOrders s) '''' = None"
  proof (rule ccontr)
    assume "map_of (sOrders s) '''' \<noteq> None"
    then have "'''' \<in> fst ` set (sOrders s)" by (simp add: map_of_eq_None_iff)
    then show False using I(2) by (auto simp: ids_ok_def shortID_def)
  qed
  then show busy: "dStatus d \<noteq> DriverIdle" using d assms(3) by (auto simp: driver_ok_def idle_ok_def)
  show "active ord" "oAssignedDriver ord = i" "route_ok (sCity s) d"
    using driver_ok_busy [OF d busy] assms(3) by auto
  show "oID ord = dAssignedOrder d" using world_okD(5) [OF I(1) assms(3)] by (simp add: order_ok_def)
  show "dID d = i" using d by (simp add: driver_ok_def)
qed

definition moves :: "sim \<Rightarrow> sim \<Rightarrow> bool" where
  \<comment> \<open>what movement leaves alone\<close>
  "moves s s' \<longleftrightarrow> fixed_parts s' = fixed_parts s \<and> sPending s' = sPending s \<and>
     pending_ids (sOrders s') = pending_ids (sOrders s) \<and> (sIndex s' = None \<longleftrightarrow> sIndex s = None) \<and>
     fst ` set (sDrivers s') = fst ` set (sDrivers s)"

lemma moves_refl [simp]: "moves s s"
  by (simp add: moves_def)

lemma moves_trans: "moves s s' \<Longrightarrow> moves s' s'' \<Longrightarrow> moves s s''"
  by (simp add: moves_def)

lemma moves_emit [simp]: "moves s (emit t p s') = moves s s'"
  by (simp add: moves_def)

lemma moves_sim_inv: "sim_inv s \<Longrightarrow> moves s s' \<Longrightarrow> base_inv s' \<Longrightarrow> sim_inv s'"
  by (simp add: sim_inv_def moves_def)

lemma linked_write_inv:
  fixes f :: "driver \<Rightarrow> driver" and g :: "order \<Rightarrow> order"
  assumes inv: "base_inv s" and d: "map_of (sDrivers s) i = Some d" "dStatus d \<noteq> DriverIdle"
    and ord: "map_of (sOrders s) (dAssignedOrder d) = Some ord"
    and ok: "driver_ok (sCity s) (adjust (dAssignedOrder d) g (sOrders s)) i (f d)"
      "order_ok (adjust i f (sDrivers s)) (dAssignedOrder d) (g ord)" "oStatus (g ord) \<noteq> OrderPending"
    and ix: "index_ok (sCity s) (adjust i f (sDrivers s)) ix'" "ix' = None \<longleftrightarrow> sIndex s = None"
  shows "base_inv (set_order (dAssignedOrder d) g (set_driver i f s)\<lparr>sIndex := ix'\<rparr>)"
    "moves s (set_order (dAssignedOrder d) g (set_driver i f s)\<lparr>sIndex := ix'\<rparr>)"
proof -
  note I = base_invD [OF inv] and H = held_order [OF inv d(1) ord]
  have "world_ok (sCity s) (adjust i f (sDrivers s)) (adjust (dAssignedOrder d) g (sOrders s)) ix'"
    by (rule world_link [OF I(1) d(1) ord _ _ ok(1,2) ix(1)]) (use H in auto)
  then show "base_inv (set_order (dAssignedOrder d) g (set_driver i f s)\<lparr>sIndex := ix'\<rparr>)"
    using I(2,3) ix(2) by (auto simp: base_inv_def set_order_def set_driver_def)
  show "moves s (set_order (dAssignedOrder d) g (set_driver i f s)\<lparr>sIndex := ix'\<rparr>)"
    using pending_ids_keep [OF ord active_not_pending [OF H(2)], where f = g] ok(3) ix(2)
    by (simp add: moves_def fixed_parts_def set_order_def set_driver_def)
qed

lemma reach_pickup_inv:
  assumes inv: "base_inv s" and d: "map_of (sDrivers s) i = Some d" and ord: "map_of (sOrders s) (dAssignedOrder d) = Some ord"
  shows "base_inv (reach_pickup i d s)" "moves s (reach_pickup i d s)"
proof -
  let ?f = "\<lambda>x. x\<lparr>dStatus := DriverDelivering\<rparr>" and ?g = "\<lambda>x. x\<lparr>oStatus := OrderEnRoute\<rparr>"
  note H = held_order [OF inv d ord]
  have "driver_ok (sCity s) (adjust (dAssignedOrder d) ?g (sOrders s)) i (?f d)"
    using H ord by (auto simp: driver_ok_def holds_order_def route_ok_def)
  moreover have "order_ok (adjust i ?f (sDrivers s)) (dAssignedOrder d) (?g ord)"
    using H d by (auto simp: order_ok_def carried_by_def)
  ultimately have "base_inv (set_order (dAssignedOrder d) ?g (set_driver i ?f s)\<lparr>sIndex := sIndex s\<rparr>)"
    "moves s (set_order (dAssignedOrder d) ?g (set_driver i ?f s)\<lparr>sIndex := sIndex s\<rparr>)"
    using linked_write_inv [OF inv d H(1) ord _ _ _ index_ok_busy [OF world_okD(6) [OF base_invD(1) [OF inv]] d H(1)], where g = ?g and f = ?f]
    by auto
  moreover have "set_order (dAssignedOrder d) ?g (set_driver i ?f s)\<lparr>sIndex := sIndex s\<rparr> =
      set_order (dAssignedOrder d) ?g (set_driver i ?f s)"
    by (simp add: set_order_def set_driver_def)
  ultimately show "base_inv (reach_pickup i d s)" "moves s (reach_pickup i d s)"
    by (simp_all add: reach_pickup_def)
qed

lemma index_ok_set:
  assumes "index_ok c ds ix" "map_of ds i = Some d" "dStatus (f d) = DriverIdle"
    "node_point c (dPosition (f d)) = p"
  shows "index_ok c (adjust i f ds) (map_option (grid_set i p) ix)"
  unfolding index_ok_def
proof (intro allI impI conjI)
  fix g assume "map_option (grid_set i p) ix = Some g"
  then obtain g0 where g: "ix = Some g0" "g = grid_set i p g0" by blast
  then have g0: "grid_wf g0" "\<And>j q. map_of (gPoints g0) j = Some q \<Longrightarrow>
      \<exists>d. map_of ds j = Some d \<and> dStatus d = DriverIdle \<and> q = node_point c (dPosition d)"
    using assms(1) by (auto simp: index_ok_def)
  show "grid_wf g" unfolding g(2) by (rule grid_set_wf [OF g0(1)])
  fix j q assume "map_of (gPoints g) j = Some q"
  then have "j = i \<and> q = p \<or> j \<noteq> i \<and> map_of (gPoints g0) j = Some q"
    unfolding g(2) by (simp add: grid_set_points split: if_splits)
  then show "\<exists>d. map_of (adjust i f ds) j = Some d \<and> dStatus d = DriverIdle \<and> q = node_point c (dPosition d)"
    using assms(2-4) g0(2) by (auto simp: map_of_adjust)
qed

lemma finish_delivery_inv:
  assumes inv: "base_inv s" and d: "map_of (sDrivers s) i = Some d" and ord: "map_of (sOrders s) (dAssignedOrder d) = Some ord"
    and same: "dAssignedOrder d' = dAssignedOrder d" "dPosition d' = dPosition d"
  shows "base_inv (finish_delivery i d' ord' s)" "moves s (finish_delivery i d' ord' s)"
proof -
  let ?f = "\<lambda>x. x\<lparr>dStatus := DriverIdle, dRoute := [], dRouteIndex := 0,
                 dRouteProgress := 0, dAssignedOrder := '''', dIdleSince := sVirtualTime s\<rparr>"
  let ?g = "\<lambda>x. x\<lparr>oStatus := OrderDelivered\<rparr>"
  let ?ix = "map_option (grid_set i (node_point (sCity s) (dPosition d))) (sIndex s)"
  note H = held_order [OF inv d ord]
  have "driver_ok (sCity s) (adjust (dAssignedOrder d) ?g (sOrders s)) i (?f d)"
    using H by (simp add: driver_ok_def idle_ok_def)
  moreover have "order_ok (adjust i ?f (sDrivers s)) (dAssignedOrder d) (?g ord)"
    using H by (simp add: order_ok_def)
  moreover have "index_ok (sCity s) (adjust i ?f (sDrivers s)) ?ix"
    by (rule index_ok_set [OF world_okD(6) [OF base_invD(1) [OF inv]] d]) simp_all
  ultimately have "base_inv (set_order (dAssignedOrder d) ?g (set_driver i ?f s)\<lparr>sIndex := ?ix\<rparr>)"
    "moves s (set_order (dAssignedOrder d) ?g (set_driver i ?f s)\<lparr>sIndex := ?ix\<rparr>)"
    using linked_write_inv [OF inv d H(1) ord, where g = ?g and f = ?f and ix' = ?ix] by auto
  then show "base_inv (finish_delivery i d' ord' s)" "moves s (finish_delivery i d' ord' s)"
    by (simp_all add: finish_delivery_def Let_def same base_inv_def moves_def fixed_parts_def
        set_order_def set_driver_def)
qed

lemma handleDriverAtNode_inv:
  assumes inv: "base_inv s"
  shows "base_inv (handleDriverAtNode i s)" "moves s (handleDriverAtNode i s)"
proof -
  have "base_inv (handleDriverAtNode i s) \<and> moves s (handleDriverAtNode i s)"
  proof (cases "map_of (sDrivers s) i")
    case (Some d)
    show ?thesis
    proof (cases "map_of (sOrders s) (dAssignedOrder d)")
      case ord: (Some ord)
      let ?pick = "dStatus d = DriverEnRouteToPick \<and> dPosition d = oPickup ord"
      let ?s = "if ?pick then reach_pickup i d s else s"
      have s1: "base_inv ?s" "moves s ?s" using inv reach_pickup_inv [OF inv Some ord] by auto
      have "\<exists>d1 ord1. map_of (sDrivers ?s) i = Some d1 \<and> map_of (sOrders ?s) (dAssignedOrder d1) = Some ord1 \<and>
          dAssignedOrder d = dAssignedOrder d1 \<and> dPosition d = dPosition d1"
        using Some ord by (cases ?pick) (auto simp: reach_pickup_def set_driver_def set_order_def)
      then obtain d1 ord1 where d1: "map_of (sDrivers ?s) i = Some d1" "map_of (sOrders ?s) (dAssignedOrder d1) = Some ord1"
        "dAssignedOrder d = dAssignedOrder d1" "dPosition d = dPosition d1"
        by blast
      have "handleDriverAtNode i s = (if dRouteIndex d + 1 = length (dRoute d) then finish_delivery i d ord ?s else ?s)"
        using Some ord by (simp add: handleDriverAtNode_def Let_def)
      then show ?thesis
        using s1 finish_delivery_inv [OF s1(1) d1, of ord] moves_trans [OF s1(2)] by auto
    qed (use Some inv in \<open>simp add: handleDriverAtNode_def\<close>)
  qed (use inv in \<open>simp add: handleDriverAtNode_def\<close>)
  then show "base_inv (handleDriverAtNode i s)" "moves s (handleDriverAtNode i s)" by auto
qed

lemma driver_write_inv:
  assumes inv: "base_inv s" and d: "map_of (sDrivers s) i = Some d" "dRouteIndex d + 1 < length (dRoute d)"
    and same: "dStatus (f d) = dStatus d" "dAssignedOrder (f d) = dAssignedOrder d" "dID (f d) = dID d"
    and route: "route_ok (sCity s) d \<Longrightarrow> route_ok (sCity s) (f d)"
  shows "base_inv (set_driver i f s)" "moves s (set_driver i f s)"
proof -
  note I = base_invD [OF inv]
  have ok: "driver_ok (sCity s) (sOrders s) i d" by (rule world_okD(4) [OF I(1) d(1)])
  have busy: "dStatus d \<noteq> DriverIdle" using ok d(2) by (auto simp: driver_ok_def idle_ok_def)
  have "world_ok (sCity s) (adjust i f (sDrivers s)) (sOrders s) (sIndex s)"
    using world_driver [where f = f, OF I(1) d(1) same busy] route driver_ok_busy [OF ok busy] by blast
  then show "base_inv (set_driver i f s)" using I(2,3) by (simp add: base_inv_def set_driver_def)
  show "moves s (set_driver i f s)" by (simp add: moves_def fixed_parts_def set_driver_def)
qed

lemma route_ok_step:
  assumes "route_ok c d" "dRouteIndex d + 1 < length (dRoute d)"
  shows "route_ok c (d\<lparr>dRouteProgress := x, dRouteIndex := dRouteIndex d + 1, dPosition := dRoute d ! (dRouteIndex d + 1)\<rparr>)"
  using assms open_hops_tl [of c "drop (dRouteIndex d) (dRoute d)" 1] by (simp add: route_ok_def)

lemma advance_driver_inv:
  assumes inv: "base_inv s" and d: "map_of (sDrivers s) i = Some d" "dRouteIndex d + 1 < length (dRoute d)"
  shows "base_inv (advance_driver i (dRoute d ! (dRouteIndex d + 1)) s)"
    "moves s (advance_driver i (dRoute d ! (dRouteIndex d + 1)) s)"
proof -
  let ?f = "\<lambda>x. x\<lparr>dRouteProgress := 0, dRouteIndex := dRouteIndex x + 1, dPosition := dRoute d ! (dRouteIndex d + 1)\<rparr>"
  have w: "base_inv (set_driver i ?f s)" "moves s (set_driver i ?f s)"
    using driver_write_inv [OF inv d, of ?f] route_ok_step [OF _ d(2)] by simp_all
  show "base_inv (advance_driver i (dRoute d ! (dRouteIndex d + 1)) s)"
    "moves s (advance_driver i (dRoute d ! (dRouteIndex d + 1)) s)"
    unfolding advance_driver_def
    using handleDriverAtNode_inv [OF w(1)] moves_trans [OF w(2)] by blast+
qed

lemma move_loop_inv:
  assumes "base_inv s"
  shows "base_inv (move_loop i budget s) \<and> moves s (move_loop i budget s)"
proof (rule move_loop_invariant [where P = "\<lambda>_ s'. base_inv s' \<and> moves s s'"])
  fix b s1 d e
  assume P: "base_inv s1 \<and> moves s s1" and d: "map_of (sDrivers s1) i = Some d" "dRouteIndex d + 1 < length (dRoute d)"
  show "base_inv (advance_driver i (dRoute d ! (dRouteIndex d + 1)) s1) \<and>
      moves s (advance_driver i (dRoute d ! (dRouteIndex d + 1)) s1)"
    using P advance_driver_inv [OF _ d] moves_trans by blast
  have "base_inv (set_driver i (\<lambda>x. x\<lparr>dRouteProgress := dRouteProgress x + b\<rparr>) s1)"
    "moves s1 (set_driver i (\<lambda>x. x\<lparr>dRouteProgress := dRouteProgress x + b\<rparr>) s1)"
    using driver_write_inv [OF _ d, of "\<lambda>x. x\<lparr>dRouteProgress := dRouteProgress x + b\<rparr>"] P by (simp_all add: route_ok_def)
  then show "base_inv (set_driver i (\<lambda>x. x\<lparr>dRouteProgress := dRouteProgress x + b\<rparr>) s1) \<and>
      moves s (set_driver i (\<lambda>x. x\<lparr>dRouteProgress := dRouteProgress x + b\<rparr>) s1)"
    using P moves_trans by blast
qed (use assms in auto)

lemma moveDriver_inv:
  assumes "base_inv s"
  shows "base_inv (moveDriver i s) \<and> moves s (moveDriver i s)"
  using assms move_loop_inv [OF assms, of i "driverSpeed * virtualStepPerTick"]
  by (auto simp: moveDriver_def emitDriverPosition_def Let_def split: option.splits)

lemma move_all_inv: "base_inv s \<Longrightarrow> base_inv (foldl (\<lambda>s i. moveDriver i s) s ids) \<and> moves s (foldl (\<lambda>s i. moveDriver i s) s ids)"
proof (induction ids arbitrary: s)
  case (Cons i ids)
  then show ?case using Cons.IH [of "moveDriver i s"] moveDriver_inv [OF Cons.prems, of i] moves_trans by auto
qed simp

definition moved :: "sim \<Rightarrow> sim" where
  \<comment> \<open>the state of a tick once the drivers have moved, before the dispatch\<close>
  "moved s = foldl (\<lambda>s i. moveDriver i s) (s\<lparr>sVirtualTime := sVirtualTime s + virtualStepPerTick\<rparr>) (sort (keys (sDrivers s)))"

lemma base_inv_time [simp]: "base_inv (s\<lparr>sVirtualTime := t\<rparr>) = base_inv s"
  by (simp add: base_inv_def)

lemma sim_inv_time [simp]: "sim_inv (s\<lparr>sVirtualTime := t\<rparr>) = sim_inv s"
  by (simp add: sim_inv_def)

lemma moved_inv:
  assumes "sim_inv s"
  shows "sim_inv (moved s)" "sStrategy (moved s) = sStrategy s" "sCity (moved s) = sCity s" "sPaused (moved s) = sPaused s"
proof -
  let ?s = "s\<lparr>sVirtualTime := sVirtualTime s + virtualStepPerTick\<rparr>"
  have b: "base_inv ?s" using assms by (simp add: sim_inv_def)
  note M = move_all_inv [OF b, of "sort (keys (sDrivers s))", folded moved_def]
  have "sim_inv ?s" using assms by simp
  then show "sim_inv (moved s)" using M moves_sim_inv by blast
  show "sStrategy (moved s) = sStrategy s" "sCity (moved s) = sCity s" "sPaused (moved s) = sPaused s"
    using M by (simp_all add: moves_def fixed_parts_def)
qed

lemma tick_moved:
  "\<not> sPaused s \<Longrightarrow> tick s = (if sStrategy (moved s) = StrategyOptimized then dispatchOptimized (moved s)
     else retryPendingBaseline (moved s))"
  by (simp add: tick_def moved_def Let_def)

lemma tick_inv:
  assumes inv: "sim_inv s" and range: "sStrategy s = StrategyOptimized \<Longrightarrow> batch_in_range (moved s)"
  shows "\<exists>s'. tick s = Some s' \<and> sim_inv s' \<and> sCity s' = sCity s \<and> (\<not> sPaused s \<longrightarrow> settles (moved s) s')"
proof (cases "sPaused s")
  case False
  note M = moved_inv [OF inv]
  show ?thesis
  proof (cases "sStrategy s = StrategyOptimized")
    case True
    have "sIndex (moved s) \<noteq> None" using M(1,2) True base_invD(3) [of "moved s"] by (simp add: sim_inv_def)
    from dispatchOptimized_inv [OF M(1) this range [OF True]]
    obtain s' where "dispatchOptimized (moved s) = Some s'" "sim_inv s'" "settles (moved s) s'" by blast
    then show ?thesis using tick_moved [OF False] M True settles_fixed [of "moved s" s'] by (auto simp: fixed_parts_def)
  next
    case other: False
    obtain s' where "retryPendingBaseline (moved s) = Some s'" "sim_inv s'" "settles (moved s) s'"
      using retryPendingBaseline_inv [OF M(1)] by blast
    then show ?thesis using tick_moved [OF False] M other settles_fixed [of "moved s" s'] by (auto simp: fixed_parts_def)
  qed
qed (use inv in \<open>simp add: tick_def\<close>)

subsection \<open>Closing a road\<close>

text \<open>
  While the affected routes are recalculated, some routes still cross the closed road: the world is
  consistent with respect to the city before the closure (\<open>c0\<close>), and the drivers already looked at
  (\<open>done\<close>) have routes that are open in the city after it.
\<close>

definition recalc_inv :: "city \<Rightarrow> sim \<Rightarrow> driver_id set \<Rightarrow> sim \<Rightarrow> bool" where
  "recalc_inv c0 s0 done s \<longleftrightarrow> moves s0 s \<and> world_ok c0 (sDrivers s) (sOrders s) (sIndex s) \<and>
     fewer_roads c0 (sCity s) \<and> ids_ok (sNextOrderID s) (sOrders s) \<and>
     (\<forall>j d. j \<in> done \<longrightarrow> map_of (sDrivers s) j = Some d \<longrightarrow> open_hops (sCity s) (drop (dRouteIndex d) (dRoute d)))"

lemma recalc_inv_emit [simp]: "recalc_inv c0 s0 D (emit t p s) = recalc_inv c0 s0 D s"
  by (simp add: recalc_inv_def)

lemma FindRoute_open:
  assumes "city_ok c" "FindRoute c u v = Some r"
  shows "rNodes r \<noteq> []" "hd (rNodes r) = u" "last (rNodes r) = v" "open_hops c (rNodes r)"
proof -
  have s: "shortest_route c u v r"
    by (rule FindRoute_Some_shortest [OF city_okD(2) [OF assms(1)] assms(2)])
  show "rNodes r \<noteq> []" "hd (rNodes r) = u" "last (rNodes r) = v" using shortest_route_nodes [OF s] by simp_all
  show "open_hops c (rNodes r)" using s open_hops_path [OF assms(1)] by (auto simp: shortest_route_def)
qed

lemma recalc_inv_route:
  assumes inv: "recalc_inv c0 s0 D s" and d: "map_of (sDrivers s) i = Some d" "dStatus d \<noteq> DriverIdle"
    and r: "FindRoute (sCity s) (dPosition d) target = Some r"
  shows "recalc_inv c0 s0 (insert i D) (set_driver i (\<lambda>x. x\<lparr>dRoute := rNodes r, dRouteIndex := 0\<rparr>) s)"
proof -
  let ?f = "\<lambda>x. x\<lparr>dRoute := rNodes r, dRouteIndex := 0\<rparr>"
  have c: "city_ok (sCity s)" "fewer_roads c0 (sCity s)" and w: "world_ok c0 (sDrivers s) (sOrders s) (sIndex s)"
    using inv by (auto simp: recalc_inv_def fewer_roads_def)
  note R = FindRoute_open [OF c(1) r]
  have "route_ok c0 (?f d)" using R c(2) by (auto simp: route_ok_def fewer_roads_def hd_conv_nth)
  then have "world_ok c0 (adjust i ?f (sDrivers s)) (sOrders s) (sIndex s)"
    using world_driver [where f = ?f, OF w d(1) _ _ _ d(2)] by simp
  then show ?thesis
    using inv R(4) d(1) by (auto simp: recalc_inv_def set_driver_def moves_def fixed_parts_def map_of_adjust)
qed

lemma recalc_inv_drop:
  assumes inv: "recalc_inv c0 s0 D s" and d: "map_of (sDrivers s) i = Some d" "dStatus d \<noteq> DriverIdle"
    and ord: "map_of (sOrders s) (dAssignedOrder d) = Some ord"
  shows "recalc_inv c0 s0 (insert i D)
    (set_driver i (\<lambda>x. x\<lparr>dStatus := DriverIdle, dRoute := [], dRouteIndex := 0, dAssignedOrder := ''''\<rparr>)
      (set_order (dAssignedOrder d) (\<lambda>x. x\<lparr>oStatus := OrderUnassignable\<rparr>) s))"
proof -
  let ?f = "\<lambda>x. x\<lparr>dStatus := DriverIdle, dRoute := [], dRouteIndex := 0, dAssignedOrder := ''''\<rparr>"
  let ?g = "\<lambda>x. x\<lparr>oStatus := OrderUnassignable\<rparr>"
  have w: "world_ok c0 (sDrivers s) (sOrders s) (sIndex s)" using inv by (simp add: recalc_inv_def)
  have did: "dID d = i" and held: "active ord" "oAssignedDriver ord = i" "oID ord = dAssignedOrder d"
    using driver_ok_busy [OF world_okD(4) [OF w d(1)] d(2)] world_okD(4) [OF w d(1)] world_okD(5) [OF w ord] ord
    by (auto simp: driver_ok_def order_ok_def)
  have "world_ok c0 (adjust i ?f (sDrivers s)) (adjust (dAssignedOrder d) ?g (sOrders s)) (sIndex s)"
  proof (rule world_link [OF w d(1) ord])
    show "driver_ok c0 (adjust (dAssignedOrder d) ?g (sOrders s)) i (?f d)"
      using did by (simp add: driver_ok_def idle_ok_def)
    show "order_ok (adjust i ?f (sDrivers s)) (dAssignedOrder d) (?g ord)"
      using held by (simp add: order_ok_def)
    show "index_ok c0 (adjust i ?f (sDrivers s)) (sIndex s)"
      by (rule index_ok_busy [OF world_okD(6) [OF w] d])
  qed (use held in auto)
  then show ?thesis
    using inv d(1) pending_ids_keep [OF ord active_not_pending [OF held(1)], of ?g]
    by (auto simp: recalc_inv_def set_driver_def set_order_def moves_def fixed_parts_def map_of_adjust)
qed

lemma recalc_inv_reroute:
  assumes inv: "recalc_inv c0 s0 D s" and d: "map_of (sDrivers s) i = Some d" "dStatus d \<noteq> DriverIdle"
    and ord: "map_of (sOrders s) (dAssignedOrder d) = Some ord"
  shows "recalc_inv c0 s0 (insert i D) (reroute_to i d ord target reason s)"
proof -
  let ?s = "emit EventRouteInvalidated (JObj [(''driverId'', JStr i), (''orderId'', JStr (oID ord))]) s"
  have inv': "recalc_inv c0 s0 D ?s" "map_of (sDrivers ?s) i = Some d" "map_of (sOrders ?s) (dAssignedOrder d) = Some ord"
    using inv d ord by simp_all
  show ?thesis
  proof (cases "FindRoute (sCity s) (dPosition d) target")
    case None
    have swap: "set_driver i f (emit t p s') = emit t p (set_driver i f s')" for f t p s'
      by (simp add: set_driver_def emit_def)
    show ?thesis
      using recalc_inv_drop [OF inv'(1,2) d(2) inv'(3)] None
      by (simp add: reroute_to_def Let_def swap)
  next
    case (Some r)
    then show ?thesis
      using recalc_inv_route [OF inv'(1,2) d(2)] by (simp add: reroute_to_def Let_def)
  qed
qed

lemma recalc_step_inv:
  assumes inv: "recalc_inv c0 s0 D (snd acc)"
  shows "recalc_inv c0 s0 (insert i D) (snd (recalc_step acc i))"
proof (cases "map_of (sDrivers (snd acc)) i")
  case None
  then show ?thesis using inv by (auto simp: recalc_step_def recalc_inv_def)
next
  case (Some d)
  let ?s = "snd acc"
  have w: "world_ok c0 (sDrivers ?s) (sOrders ?s) (sIndex ?s)" using inv by (simp add: recalc_inv_def)
  have ok: "driver_ok c0 (sOrders ?s) i d" by (rule world_okD(4) [OF w Some])
  show ?thesis
  proof (cases "dRoute d = [] \<or> \<not> routeUsesClosedEdge (sCity ?s) (dRoute d) (dRouteIndex d)")
    case True
    then have "open_hops (sCity ?s) (drop (dRouteIndex d) (dRoute d))"
      using routeUsesClosedEdge_iff by auto
    then show ?thesis using inv Some True by (auto simp: recalc_step_def recalc_inv_def)
  next
    case False
    then have busy: "dStatus d \<noteq> DriverIdle" using ok by (auto simp: driver_ok_def idle_ok_def)
    obtain ord where ord: "map_of (sOrders ?s) (dAssignedOrder d) = Some ord"
      using driver_ok_busy [OF ok busy] by blast
    show ?thesis
      using False Some busy ord driver_ok_status [OF ok] recalc_inv_reroute [OF inv Some busy ord]
      by (auto simp: recalc_step_def rerouteDriver_def)
  qed
qed

lemma recalc_fold_inv:
  "recalc_inv c0 s0 D (snd acc) \<Longrightarrow> recalc_inv c0 s0 (D \<union> set ids) (snd (foldl recalc_step acc ids))"
proof (induction ids arbitrary: acc D)
  case (Cons i ids)
  show ?case using Cons.IH [OF recalc_step_inv [OF Cons.prems, of i]] by simp
qed simp

lemma recalculate_inv:
  assumes inv: "base_inv s" and c: "fewer_roads (sCity s) c"
  shows "base_inv (snd (recalculateAffectedRoutes (s\<lparr>sCurrentCausation := x, sCity := c\<rparr>)))"
    "moves (s\<lparr>sCity := c\<rparr>) (snd (recalculateAffectedRoutes (s\<lparr>sCurrentCausation := x, sCity := c\<rparr>)))"
proof -
  let ?s = "s\<lparr>sCurrentCausation := x, sCity := c\<rparr>" and ?t = "s\<lparr>sCity := c\<rparr>"
  let ?r = "snd (recalculateAffectedRoutes ?s)"
  note I = base_invD [OF inv]
  have "recalc_inv (sCity s) ?t {} ?s"
    using I c by (simp add: recalc_inv_def moves_def fixed_parts_def)
  then have r: "recalc_inv (sCity s) ?t (fst ` set (sDrivers s)) ?r"
    using recalc_fold_inv [of "sCity s" ?t "{}" "(0, ?s)" "sort (keys (sDrivers s))"]
    by (simp add: recalculateAffectedRoutes_def)
  then show m: "moves ?t ?r" by (simp add: recalc_inv_def)
  have same: "fst ` set (sDrivers ?r) = fst ` set (sDrivers s)" "sCity ?r = c" "sStrategy ?r = sStrategy s"
    "sIndex ?r = None \<longleftrightarrow> sIndex s = None"
    using m by (simp_all add: moves_def fixed_parts_def)
  have "world_ok c (sDrivers ?r) (sOrders ?r) (sIndex ?r)"
  proof (rule world_city)
    show "world_ok (sCity s) (sDrivers ?r) (sOrders ?r) (sIndex ?r)" using r by (simp add: recalc_inv_def)
    show "city_ok c" "cNodes c = cNodes (sCity s)" using c by (simp_all add: fewer_roads_def)
    fix i d assume d: "map_of (sDrivers ?r) i = Some d"
    then have "i \<in> fst ` set (sDrivers s)" unfolding same(1) [symmetric] by (metis in_keys_iff list.set_map)
    then show "open_hops c (drop (dRouteIndex d) (dRoute d))"
      using r d unfolding recalc_inv_def same(2) by blast
  qed
  then show "base_inv ?r" using r same I(3) by (simp add: base_inv_def recalc_inv_def)
qed

lemma handleCloseRoad_inv:
  assumes inv: "sim_inv s"
  shows "sim_inv (handleCloseRoad ms i x s)"
proof (cases "EdgeByID (sCity s) i")
  case (Some e)
  have b: "base_inv s" using inv by (simp add: sim_inv_def)
  let ?c = "snd (close_segment True e (sCity s))"
  have c: "fewer_roads (sCity s) ?c" by (rule close_segment_roads [OF base_invD(4) [OF b]])
  let ?r = "snd (recalculateAffectedRoutes (s\<lparr>sCurrentCausation := x, sCity := ?c\<rparr>))"
  have "sim_inv ?r"
    using recalculate_inv [OF b c, of x] inv by (simp add: sim_inv_def moves_def)
  moreover have "sim_inv (y\<lparr>sCurrentCausation := z\<rparr>) = sim_inv y" for y z
    by (simp add: sim_inv_def base_inv_def)
  ultimately show ?thesis using Some inv by (simp add: handleCloseRoad_def split_beta Let_def)
qed (use inv in \<open>simp add: handleCloseRoad_def del: EdgeByID_None\<close>)

lemma handleReopenRoad_inv:
  assumes inv: "sim_inv s"
  shows "sim_inv (handleReopenRoad i s)"
proof (cases "EdgeByID (sCity s) i")
  case (Some e)
  have b: "base_inv s" using inv by (simp add: sim_inv_def)
  have "world_ok (snd (close_segment False e (sCity s))) (sDrivers s) (sOrders s) (sIndex s)"
    by (rule world_reopened [OF base_invD(1) [OF b] close_segment_roads(2) [OF base_invD(4) [OF b]]])
  then have "sim_inv (s\<lparr>sCity := snd (close_segment False e (sCity s))\<rparr>)"
    using inv by (simp add: sim_inv_def base_inv_def)
  then show ?thesis using Some inv by (simp add: handleReopenRoad_def split_beta Let_def)
qed (use inv in \<open>simp add: handleReopenRoad_def del: EdgeByID_None\<close>)

subsection \<open>Placing the drivers, reset and construction\<close>

definition fresh_fleet :: "(driver_id, driver) gomap \<Rightarrow> bool" where
  "fresh_fleet ds \<longleftrightarrow> distinct_keys ds \<and> (\<forall>i d. map_of ds i = Some d \<longrightarrow> (\<exists>p. d = new_driver i p))"

lemma placeDrivers_fresh: "fresh_fleet (placeDrivers c n)"
proof -
  have "fresh_fleet (foldl (\<lambda>m i. AList.update (f i) (new_driver (f i) (g i)) m) m xs)" if "fresh_fleet m" for m f g and xs :: "nat list"
    using that
  proof (induction xs arbitrary: m)
    case (Cons x xs)
    have "fresh_fleet (AList.update (f x) (new_driver (f x) (g x)) m)"
      using Cons.prems by (auto simp: fresh_fleet_def map_of_update)
    then show ?case using Cons.IH by simp
  qed simp
  from this [of "[]"] show ?thesis by (simp add: placeDrivers_def Let_def fresh_fleet_def)
qed

lemma index_drivers_ok:
  assumes "distinct_keys ds" "grid_wf g" "gPoints g = []"
  shows "grid_wf (index_drivers c ds g)"
    "map_of (gPoints (index_drivers c ds g)) i = map_option (\<lambda>d. node_point c (dPosition d)) (map_of ds i)"
proof -
  let ?ps = "map (\<lambda>(i, d). (i, node_point c (dPosition d))) ds"
  have e: "index_drivers c ds g = foldl (\<lambda>g (i, p). grid_set i p g) g ?ps"
    unfolding index_drivers_def by (induction ds arbitrary: g) auto
  show "grid_wf (index_drivers c ds g)" unfolding e by (rule grid_index.index_all_wf [OF assms(2)])
  have "distinct (map fst ?ps)" using assms(1) by (simp add: comp_def case_prod_beta)
  then have "map_of (gPoints (index_drivers c ds g)) = map_of (gPoints g) ++ map_of ?ps"
    unfolding e by (rule grid_index.index_all_lookup)
  moreover have "map_of ?ps i = map_option (\<lambda>d. node_point c (dPosition d)) (map_of ds i)"
    by (induction ds) auto
  ultimately show "map_of (gPoints (index_drivers c ds g)) i = map_option (\<lambda>d. node_point c (dPosition d)) (map_of ds i)"
    using assms(3) by (simp add: map_add_def split: option.splits)
qed

lemma fresh_world:
  assumes c: "city_ok c" and ds: "fresh_fleet ds"
    and ix: "ix = None \<or> (\<exists>size. ix = Some (index_drivers c ds (NewGrid size)))"
  shows "world_ok c ds [] ix"
proof -
  have "driver_ok c [] i d" if k: "map_of ds i = Some d" for i d
  proof -
    obtain p where "d = new_driver i p" using k ds unfolding fresh_fleet_def by blast
    then show ?thesis by (simp add: driver_ok_def idle_ok_def new_driver_def)
  qed
  moreover have "index_ok c ds ix"
    unfolding index_ok_def
  proof (intro allI impI conjI)
    fix g assume "ix = Some g"
    then obtain size where g: "g = index_drivers c ds (NewGrid size)" using ix by auto
    have n: "grid_wf (NewGrid size)" "gPoints (NewGrid size) = []" by (rule NewGrid_wf) (simp add: NewGrid_def)
    note D = index_drivers_ok [OF _ n, of ds c, folded g]
    show "grid_wf g" using D(1) ds by (simp add: fresh_fleet_def)
    fix i p assume "map_of (gPoints g) i = Some p"
    then obtain d where "map_of ds i = Some d" "p = node_point c (dPosition d)"
      using D(2) ds by (auto simp: fresh_fleet_def)
    moreover from this ds obtain q where "d = new_driver i q" unfolding fresh_fleet_def by blast
    ultimately show "\<exists>d. map_of ds i = Some d \<and> dStatus d = DriverIdle \<and> p = node_point c (dPosition d)"
      by (simp add: new_driver_def)
  qed
  ultimately show ?thesis unfolding world_ok_def using c ds by (simp add: fresh_fleet_def)
qed

lemma reset_inv:
  assumes inv: "sim_inv s"
  shows "sim_inv (reset s)"
proof -
  have b: "base_inv s" using inv by (simp add: sim_inv_def)
  note I = base_invD [OF b]
  have "world_ok (sCity s) (placeDrivers (sCity s) (sDriverCount s)) []
     (case sIndex s of None \<Rightarrow> None
      | Some _ \<Rightarrow> Some (index_drivers (sCity s) (placeDrivers (sCity s) (sDriverCount s)) (NewGrid (sGridCellSize s))))"
    by (rule fresh_world [OF I(4) placeDrivers_fresh]) (auto split: option.splits)
  then show ?thesis
    using I(3) by (auto simp: reset_def Let_def sim_inv_def base_inv_def ids_ok_def pending_ids_def split: option.splits)
qed

lemma GenerateGrid_simple: "simple_city (GenerateGrid draws cfg)"
  unfolding simple_city_def
proof (intro ballI impI)
  let ?c = "GenerateGrid draws cfg"
  fix e e' assume e: "e \<in> set (all_edges ?c)" "e' \<in> set (all_edges ?c)" "eFrom e = eFrom e'" "eTo e = eTo e'"
  have "set (all_edges ?c) = set (map (grid_edge (grid_node_map draws cfg)) (map link_ids (grid_links (gcRows cfg) (gcCols cfg))))"
    using GenerateGrid_all_edges by (metis mset_eq_setD)
  then have "e \<in> range (grid_edge (grid_node_map draws cfg))" "e' \<in> range (grid_edge (grid_node_map draws cfg))"
    using e(1,2) by auto
  then obtain l l' where "e = grid_edge (grid_node_map draws cfg) l" "e' = grid_edge (grid_node_map draws cfg) l'"
    by blast
  then show "e = e'" using e(3,4) by (metis grid_edge_simps(2,3) prod.collapse)
qed

lemma GenerateGrid_city_ok: "city_ok (GenerateGrid draws cfg)"
  by (simp add: city_ok_def GenerateGrid_city_edges_wf GenerateGrid_metric GenerateGrid_simple)

lemma NewWithConfig_inv: "sim_inv (NewWithConfig draws cfg)"
proof -
  let ?s = "NewWithConfig draws cfg"
  have city: "city_ok (sCity ?s)" by (simp add: NewWithConfig_def Let_def GenerateGrid_city_ok)
  have "world_ok (sCity ?s) (sDrivers ?s) [] (sIndex ?s)"
    by (rule fresh_world [OF city]) (auto simp: NewWithConfig_def Let_def placeDrivers_fresh)
  then show ?thesis
    by (auto simp: sim_inv_def base_inv_def NewWithConfig_def Let_def ids_ok_def pending_ids_def)
qed

subsection \<open>Every command, every tick\<close>

lemma handle_inv:
  assumes inv: "sim_inv s"
  shows "\<exists>s'. handle ms cmd s = Some s' \<and> sim_inv s'"
proof (cases cmd)
  case (PlaceOrder p q)
  then show ?thesis using handlePlaceOrder_inv [OF inv, of p q] by (auto simp: handle_def)
next
  case (SetPaused b)
  have "sim_inv (s\<lparr>sPaused := b\<rparr>)" using inv by (simp add: sim_inv_def base_inv_def)
  then show ?thesis using SetPaused by (simp add: handle_def)
next
  case (SetSpeed m)
  have "sim_inv (s\<lparr>sSpeed := m\<rparr>)" using inv by (simp add: sim_inv_def base_inv_def)
  then show ?thesis using SetSpeed inv by (simp add: handle_def)
qed (use inv in \<open>simp_all add: handle_def reset_inv handleCloseRoad_inv handleReopenRoad_inv\<close>)

definition dispatch_in_range :: "sim \<Rightarrow> bool" where
  \<comment> \<open>the costs of the batch the next tick may run stay below the solver's sentinel\<close>
  "dispatch_in_range s \<longleftrightarrow> sStrategy s = StrategyOptimized \<longrightarrow> batch_in_range (moved s)"

inductive reachable :: "rand_source \<Rightarrow> config \<Rightarrow> sim \<Rightarrow> bool" for draws :: rand_source and cfg :: config where
  created: "reachable draws cfg (NewWithConfig draws cfg)"
| command: "reachable draws cfg s \<Longrightarrow> handleTraced ms cmd trace s = Some s' \<Longrightarrow> reachable draws cfg s'"
| ticked: "reachable draws cfg s \<Longrightarrow> dispatch_in_range s \<Longrightarrow> tick s = Some s' \<Longrightarrow> reachable draws cfg s'"
| drained: "reachable draws cfg s \<Longrightarrow> takePending s = (es, s') \<Longrightarrow> reachable draws cfg s'"

lemma handleTraced_inv:
  assumes "sim_inv s"
  shows "\<exists>s'. handleTraced ms cmd trace s = Some s' \<and> sim_inv s'"
proof -
  have t: "sim_inv (x\<lparr>sCurrentTrace := y\<rparr>) = sim_inv x" for x y by (simp add: sim_inv_def base_inv_def)
  show ?thesis
    using handle_inv [OF assms, of ms cmd] handle_inv [of "s\<lparr>sCurrentTrace := trace\<rparr>" ms cmd] assms
    by (auto simp: handleTraced_def t)
qed

lemma reachable_inv: "reachable draws cfg s \<Longrightarrow> sim_inv s"
proof (induction rule: reachable.induct)
  case created
  show ?case by (rule NewWithConfig_inv)
next
  case (command s ms cmd trace s')
  then show ?case using handleTraced_inv [of s ms cmd trace] by auto
next
  case (ticked s s')
  then show ?case using tick_inv [of s] by (auto simp: dispatch_in_range_def)
next
  case (drained s es s')
  then show ?case by (auto simp: takePending_def sim_inv_def base_inv_def)
qed

text \<open>
  C1.  From its construction on, through any sequence of commands, ticks and drained event queues,
  a simulation never panics: no command and no tick dereferences a missing order, driver or index
  or loops for ever, as long as the costs of a joint batch stay in the solver's range, and
  the queue of waiting orders holds exactly the orders that are pending, each once.
\<close>

theorem simulation_never_panics:
  assumes "reachable draws cfg s"
  shows "(\<exists>s'. handleTraced ms cmd trace s = Some s') \<and> (dispatch_in_range s \<longrightarrow> (\<exists>s'. tick s = Some s')) \<and>
    distinct (sPending s) \<and>
    set (sPending s) = {i. \<exists>ord. map_of (sOrders s) i = Some ord \<and> oStatus ord = OrderPending}"
proof -
  have inv: "sim_inv s" by (rule reachable_inv [OF assms])
  then have "distinct (sPending s)" "set (sPending s) = pending_ids (sOrders s)" by (simp_all add: sim_inv_def)
  moreover have "\<exists>s'. handleTraced ms cmd trace s = Some s'" using handleTraced_inv [OF inv] by blast
  moreover have "dispatch_in_range s \<longrightarrow> (\<exists>s'. tick s = Some s')" using tick_inv [OF inv] by (auto simp: dispatch_in_range_def)
  ultimately show ?thesis unfolding pending_ids_def by blast
qed

theorem simulation_never_panics_witness:
  "\<exists>s'. handleTraced 0 (PlaceOrder ''n-0-0'' ''n-1-1'') '''' (New (\<lambda>_ _. 0) ''sim'' 7 3) = Some s'"
  unfolding New_def by (rule conjunct1 [OF simulation_never_panics [OF reachable.created]])

text \<open>
  C2.  In every reachable state the fleet is consistent: an idle driver has no route and no order;
  a driver on its way to a pickup or a destination stands on its route, every remaining hop of which
  is an existing open road (whatever was closed since), and holds an order that names it and is
  assigned or en route accordingly; an assigned or en-route order is held by exactly the driver it
  names.
\<close>

theorem fleet_consistent:
  assumes "reachable draws cfg s"
  shows "(\<forall>i d. map_of (sDrivers s) i = Some d \<longrightarrow>
      (case dStatus d of
         DriverIdle \<Rightarrow> dRoute d = [] \<and> dAssignedOrder d = ''''
       | DriverEnRouteToPick \<Rightarrow> route_ok (sCity s) d \<and> holds_order (sOrders s) i d OrderAssigned
       | DriverDelivering \<Rightarrow> route_ok (sCity s) d \<and> holds_order (sOrders s) i d OrderEnRoute
       | _ \<Rightarrow> False)) \<and>
    (\<forall>k ord. map_of (sOrders s) k = Some ord \<longrightarrow>
      (case oStatus ord of
         OrderAssigned \<Rightarrow> carried_by (sDrivers s) k ord DriverEnRouteToPick
       | OrderEnRoute \<Rightarrow> carried_by (sDrivers s) k ord DriverDelivering
       | OrderStatusOther _ \<Rightarrow> False
       | _ \<Rightarrow> True))"
proof -
  have "base_inv s" using reachable_inv [OF assms] by (simp add: sim_inv_def)
  then have w: "world_ok (sCity s) (sDrivers s) (sOrders s) (sIndex s)" by (rule base_invD(1))
  have "case dStatus d of
         DriverIdle \<Rightarrow> dRoute d = [] \<and> dAssignedOrder d = ''''
       | DriverEnRouteToPick \<Rightarrow> route_ok (sCity s) d \<and> holds_order (sOrders s) i d OrderAssigned
       | DriverDelivering \<Rightarrow> route_ok (sCity s) d \<and> holds_order (sOrders s) i d OrderEnRoute
       | _ \<Rightarrow> False" if "map_of (sDrivers s) i = Some d" for i d
    using world_okD(4) [OF w that] by (auto simp: driver_ok_def idle_ok_def)
  moreover have "case oStatus ord of
         OrderAssigned \<Rightarrow> carried_by (sDrivers s) k ord DriverEnRouteToPick
       | OrderEnRoute \<Rightarrow> carried_by (sDrivers s) k ord DriverDelivering
       | OrderStatusOther _ \<Rightarrow> False
       | _ \<Rightarrow> True" if "map_of (sOrders s) k = Some ord" for k ord
    using world_okD(5) [OF w that] by (auto simp: order_ok_def)
  ultimately show ?thesis by blast
qed

theorem fleet_consistent_witness:
  "\<exists>s. handleTraced 0 (PlaceOrder ''n-0-0'' ''n-1-1'') '''' (New (\<lambda>_ _. 0) ''sim'' 7 3) = Some s \<and>
    (\<forall>i d. map_of (sDrivers s) i = Some d \<longrightarrow> dStatus d \<noteq> DriverUnavailable)"
proof -
  obtain s where s: "handleTraced 0 (PlaceOrder ''n-0-0'' ''n-1-1'') '''' (New (\<lambda>_ _. 0) ''sim'' 7 3) = Some s"
    using handleTraced_inv [OF NewWithConfig_inv] unfolding New_def by blast
  then have "reachable (\<lambda>_ _. 0) (zero_config\<lparr>cfID := ''sim'', cfSeed := 7, cfDriverCount := 3\<rparr>) s"
    unfolding New_def by (rule reachable.command [OF reachable.created])
  from fleet_consistent [OF this] s show ?thesis by (intro exI [of _ s]) force
qed

end
