(* ===== verification/Simulation_Motion.thy ===== *)
theory Simulation_Motion
  imports Simulation_Safe
begin

text \<open>
  How far a delivery gets: \<open>distance_left\<close> is the length of the roads a driver still has to cross
  less what it has covered of the first one.  One tick lowers it by exactly
  \<open>driverSpeed * virtualStepPerTick\<close> or delivers the order, no other driver and no dispatch
  interferes, so every delivery ends after a number of ticks known in advance
  (\<open>deliveries_complete\<close>).  The last part shows what a closure does to a driver that has not
  reached its pickup yet.
\<close>

definition hop_len :: "city \<Rightarrow> node_id \<Rightarrow> node_id \<Rightarrow> real" where
  "hop_len c u v = (case edgeBetween c u v of None \<Rightarrow> 0 | Some e \<Rightarrow> eWeight e)"

definition distance_left :: "city \<Rightarrow> driver \<Rightarrow> real" where
  "distance_left c d =
     (\<Sum>k \<in> {dRouteIndex d..<length (dRoute d) - 1}. hop_len c (dRoute d ! k) (dRoute d ! (k + 1))) - dRouteProgress d"

subsection \<open>One driver\<close>

lemma hop_len_nonneg:
  assumes "city_ok c"
  shows "0 \<le> hop_len c u v"
proof (cases "edgeBetween c u v")
  case (Some e)
  then have "e \<in> set (edges_from c u)" using edgeBetween_iff [OF assms] by blast
  then have "0 \<le> eWeight e" using euclidean.weight_nonneg [OF city_okD(2) [OF assms]] by blast
  then show ?thesis using Some by (simp add: hop_len_def)
qed (simp add: hop_len_def)

lemma distance_left_split:
  assumes "dRouteIndex d + 1 < length (dRoute d)"
  shows "distance_left c d = hop_len c (dRoute d ! dRouteIndex d) (dRoute d ! (dRouteIndex d + 1)) - dRouteProgress d +
    (\<Sum>k \<in> {dRouteIndex d + 1..<length (dRoute d) - 1}. hop_len c (dRoute d ! k) (dRoute d ! (k + 1)))"
proof -
  have "{dRouteIndex d..<length (dRoute d) - 1} = insert (dRouteIndex d) {dRouteIndex d + 1..<length (dRoute d) - 1}"
    using assms by auto
  then show ?thesis by (simp add: distance_left_def)
qed

lemma distance_left_cong:
  "dRoute d' = dRoute d \<Longrightarrow> dRouteIndex d' = dRouteIndex d \<Longrightarrow> dRouteProgress d' = dRouteProgress d \<Longrightarrow>
   distance_left c d' = distance_left c d"
  by (simp add: distance_left_def)

lemma open_next_hop:
  assumes "route_ok c d" "dRouteIndex d + 1 < length (dRoute d)"
  shows "\<exists>e. edgeBetween c (dPosition d) (dRoute d ! (dRouteIndex d + 1)) = Some e \<and> \<not> eClosed e"
proof -
  have "drop (dRouteIndex d) (dRoute d) =
      dPosition d # dRoute d ! (dRouteIndex d + 1) # drop (dRouteIndex d + 2) (dRoute d)"
    using assms Cons_nth_drop_Suc [of "dRouteIndex d" "dRoute d"] Cons_nth_drop_Suc [of "Suc (dRouteIndex d)" "dRoute d"]
    by (simp add: route_ok_def)
  then show ?thesis using assms(1) by (simp add: route_ok_def)
qed

definition delivered :: "driver_id \<Rightarrow> order_id \<Rightarrow> sim \<Rightarrow> bool" where
  "delivered i k s \<longleftrightarrow> (\<exists>d ord. map_of (sDrivers s) i = Some d \<and> dRoute d = [] \<and> dStatus d = DriverIdle \<and>
     map_of (sOrders s) k = Some ord \<and> oStatus ord = OrderDelivered)"

definition carrying :: "driver_id \<Rightarrow> order_id \<Rightarrow> real \<Rightarrow> sim \<Rightarrow> bool" where
  \<comment> \<open>the driver holds the order and has this distance left\<close>
  "carrying i k x s \<longleftrightarrow> (\<exists>d. map_of (sDrivers s) i = Some d \<and> dAssignedOrder d = k \<and>
     dRouteIndex d + 1 < length (dRoute d) \<and> distance_left (sCity s) d = x)"

lemma carrying_facts:
  assumes inv: "base_inv s" and d: "map_of (sDrivers s) i = Some d" "dRouteIndex d + 1 < length (dRoute d)"
  shows "dStatus d \<noteq> DriverIdle" "route_ok (sCity s) d"
    "\<exists>ord. map_of (sOrders s) (dAssignedOrder d) = Some ord \<and> active ord \<and> oAssignedDriver ord = i"
proof -
  have ok: "driver_ok (sCity s) (sOrders s) i d" by (rule world_okD(4) [OF base_invD(1) [OF inv] d(1)])
  show busy: "dStatus d \<noteq> DriverIdle" using ok d(2) by (auto simp: driver_ok_def idle_ok_def)
  show "route_ok (sCity s) d"
    "\<exists>ord. map_of (sOrders s) (dAssignedOrder d) = Some ord \<and> active ord \<and> oAssignedDriver ord = i"
    using driver_ok_busy [OF ok busy] by auto
qed

lemma finish_delivery_state:
  "map_of (sDrivers (finish_delivery i d ord s)) i = map_option (\<lambda>x. x\<lparr>dStatus := DriverIdle, dRoute := [],
     dRouteIndex := 0, dRouteProgress := 0, dAssignedOrder := '''', dIdleSince := sVirtualTime s\<rparr>) (map_of (sDrivers s) i)"
  "sOrders (finish_delivery i d ord s) = adjust (dAssignedOrder d) (\<lambda>x. x\<lparr>oStatus := OrderDelivered\<rparr>) (sOrders s)"
  by (simp_all add: finish_delivery_def set_driver_def set_order_def Let_def)

lemma advance_progress:
  assumes inv: "base_inv s" and d: "map_of (sDrivers s) i = Some d" "dRouteIndex d + 1 < length (dRoute d)"
    and e: "edgeBetween (sCity s) (dPosition d) (dRoute d ! (dRouteIndex d + 1)) = Some e"
  defines "s' \<equiv> advance_driver i (dRoute d ! (dRouteIndex d + 1)) s"
  shows "delivered i (dAssignedOrder d) s' \<or>
    (\<exists>d'. map_of (sDrivers s') i = Some d' \<and> dAssignedOrder d' = dAssignedOrder d \<and>
       dRouteIndex d' + 1 < length (dRoute d') \<and> dRouteProgress d' = 0 \<and>
       distance_left (sCity s') d' = distance_left (sCity s) d - (eWeight e - dRouteProgress d))"
proof -
  let ?nxt = "dRoute d ! (dRouteIndex d + 1)"
  let ?d = "d\<lparr>dRouteProgress := 0, dRouteIndex := dRouteIndex d + 1, dPosition := ?nxt\<rparr>"
  let ?s = "set_driver i (\<lambda>x. x\<lparr>dRouteProgress := 0, dRouteIndex := dRouteIndex x + 1, dPosition := ?nxt\<rparr>) s"
  note C = carrying_facts [OF inv d]
  obtain ord where ord: "map_of (sOrders s) (dAssignedOrder d) = Some ord" using C(3) by blast
  have dd: "map_of (sDrivers ?s) i = Some ?d" "map_of (sOrders ?s) (dAssignedOrder ?d) = Some ord"
    using d(1) ord by (simp_all add: set_driver_def)
  have city: "sCity s' = sCity s"
    using advance_driver_inv(2) [OF inv d] by (simp add: s'_def moves_def fixed_parts_def)
  show ?thesis
  proof (cases "dRouteIndex d + 2 = length (dRoute d)")
    case True
    let ?pick = "dStatus ?d = DriverEnRouteToPick \<and> dPosition ?d = oPickup ord"
    have "s' = finish_delivery i ?d ord (if ?pick then reach_pickup i ?d ?s else ?s)"
      using dd True by (simp add: s'_def advance_driver_def handleDriverAtNode_def Let_def)
    then have f: "s' = finish_delivery i ?d ord (reach_pickup i ?d ?s) \<or> s' = finish_delivery i ?d ord ?s"
      by (cases ?pick) (simp_all only: if_True if_False simp_thms)
    have "map_of (sDrivers (reach_pickup i ?d ?s)) i = Some (?d\<lparr>dStatus := DriverDelivering\<rparr>)"
      "map_of (sOrders (reach_pickup i ?d ?s)) (dAssignedOrder d) = Some (ord\<lparr>oStatus := OrderEnRoute\<rparr>)"
      using d(1) ord by (simp_all add: reach_pickup_def set_driver_def set_order_def)
    moreover have "delivered i (dAssignedOrder d) (finish_delivery i ?d ord t)"
      if "map_of (sDrivers t) i = Some d1" "map_of (sOrders t) (dAssignedOrder d) = Some ord1" for t d1 ord1
      using that by (simp add: delivered_def finish_delivery_state)
    moreover have "map_of (sOrders ?s) (dAssignedOrder d) = Some ord" using dd(2) by simp
    ultimately have "delivered i (dAssignedOrder d) s'" using f dd(1) by blast
    then show ?thesis ..
  next
    case False
    let ?d1 = "if dStatus ?d = DriverEnRouteToPick \<and> dPosition ?d = oPickup ord then ?d\<lparr>dStatus := DriverDelivering\<rparr> else ?d"
    have "map_of (sDrivers s') i = Some ?d1"
      using handleDriverAtNode_driver [of i ?s] dd False by (simp add: s'_def advance_driver_def)
    moreover have "distance_left (sCity s) ?d = distance_left (sCity s) d - (eWeight e - dRouteProgress d)"
      using distance_left_split [OF d(2), of "sCity s"] e C(2) by (simp add: distance_left_def hop_len_def route_ok_def)
    moreover have "distance_left (sCity s) ?d1 = distance_left (sCity s) ?d" by (rule distance_left_cong) simp_all
    moreover have "dAssignedOrder ?d1 = dAssignedOrder d" "dRouteIndex ?d1 + 1 < length (dRoute ?d1)" "dRouteProgress ?d1 = 0"
      using False d(2) by simp_all
    ultimately show ?thesis unfolding city by metis
  qed
qed

lemma move_loop_progress:
  assumes inv: "base_inv s" and start: "carrying i k x s" and B: "0 < B"
  defines "s' \<equiv> move_loop i B s"
  shows "delivered i k s' \<or> 0 \<le> x - B \<and> carrying i k (x - B) s'"
proof -
  let ?P = "\<lambda>b t. base_inv t \<and> moves s t \<and> 0 \<le> b \<and> (delivered i k t \<or>
      (\<exists>d. map_of (sDrivers t) i = Some d \<and> dAssignedOrder d = k \<and> dRouteIndex d + 1 < length (dRoute d) \<and>
         distance_left (sCity t) d = x - (B - b) \<and> (b \<noteq> B \<longrightarrow> dRouteProgress d = 0)))"
  show ?thesis
    unfolding s'_def
  proof (rule move_loop_invariant [where P = ?P])
    show "?P B s" using inv start B by (auto simp: carrying_def)
  next
    fix b t d e
    assume P: "?P b t" and b: "0 < b" and d: "map_of (sDrivers t) i = Some d" "dRouteIndex d + 1 < length (dRoute d)"
      and e: "edgeBetween (sCity t) (dPosition d) (dRoute d ! (dRouteIndex d + 1)) = Some e" and le: "eWeight e - dRouteProgress d \<le> b"
    let ?t = "advance_driver i (dRoute d ! (dRouteIndex d + 1)) t"
    have bi: "base_inv t" and m: "moves s t" using P by blast+
    have go: "dAssignedOrder d = k" "distance_left (sCity t) d = x - (B - b)"
      using P d by (auto simp: delivered_def)
    have "base_inv ?t" "moves s ?t" using advance_driver_inv [OF bi d] moves_trans [OF m] by auto
    moreover have "distance_left (sCity t) d - (eWeight e - dRouteProgress d) = x - (B - (b - (eWeight e - dRouteProgress d)))"
      using go(2) by simp
    ultimately show "?P (b - (eWeight e - dRouteProgress d)) ?t"
      using advance_progress [OF bi d e] le go(1) by auto
  next
    fix b t d e
    assume P: "?P b t" and b: "0 < b" and d: "map_of (sDrivers t) i = Some d" "dRouteIndex d + 1 < length (dRoute d)"
      and e: "edgeBetween (sCity t) (dPosition d) (dRoute d ! (dRouteIndex d + 1)) = Some e" and less: "b < eWeight e - dRouteProgress d"
    let ?d = "d\<lparr>dRouteProgress := dRouteProgress d + b\<rparr>"
    have bi: "base_inv t" using P by blast
    have go: "dAssignedOrder d = k" "distance_left (sCity t) d = x - (B - b)"
      using P d by (auto simp: delivered_def)
    have left: "distance_left (sCity t) ?d = x - B" using go(2) by (simp add: distance_left_def)
    have "dRoute d ! dRouteIndex d = dPosition d" using carrying_facts(2) [OF bi d] by (simp add: route_ok_def)
    then have "0 \<le> distance_left (sCity t) ?d"
      using distance_left_split [of ?d "sCity t"] d(2) e less hop_len_nonneg [OF base_invD(4) [OF bi]]
      by (simp add: hop_len_def) (rule add_nonneg_nonneg, simp, rule sum_nonneg, simp)
    then show "delivered i k (set_driver i (\<lambda>x. x\<lparr>dRouteProgress := dRouteProgress x + b\<rparr>) t) \<or>
        0 \<le> x - B \<and> carrying i k (x - B) (set_driver i (\<lambda>x. x\<lparr>dRouteProgress := dRouteProgress x + b\<rparr>) t)"
      using left d go(1) by (simp add: carrying_def set_driver_def)
  next
    fix b t assume P: "?P b t" and stop: "b \<le> 0 \<or> halted i t"
    show "delivered i k t \<or> 0 \<le> x - B \<and> carrying i k (x - B) t"
    proof (cases "delivered i k t")
      case False
      have bi: "base_inv t" using P by blast
      obtain d where d: "map_of (sDrivers t) i = Some d" "dRouteIndex d + 1 < length (dRoute d)" "dAssignedOrder d = k"
        "distance_left (sCity t) d = x - (B - b)" "b \<noteq> B \<longrightarrow> dRouteProgress d = 0"
        using P False by blast
      have "\<not> halted i t"
        using open_next_hop [OF carrying_facts(2) [OF bi d(1,2)] d(2)] d(1,2) by (auto simp: halted_def)
      then have "b = 0" using stop P by auto
      then have "distance_left (sCity t) d = x - B" "dRouteProgress d = 0" using d(4,5) B by auto
      moreover have "0 \<le> distance_left (sCity t) d + dRouteProgress d"
        unfolding distance_left_def using hop_len_nonneg [OF base_invD(4) [OF bi]] by (simp add: sum_nonneg)
      ultimately show ?thesis using d by (auto simp: carrying_def)
    qed simp
  qed
qed

subsection \<open>The other drivers and the dispatch\<close>

definition watches :: "driver_id \<Rightarrow> order_id \<Rightarrow> sim \<Rightarrow> sim \<Rightarrow> bool" where
  \<comment> \<open>a driver and an order are the same in two states\<close>
  "watches i k s s' \<longleftrightarrow> map_of (sDrivers s') i = map_of (sDrivers s) i \<and> map_of (sOrders s') k = map_of (sOrders s) k"

lemma handleDriverAtNode_other:
  assumes "i \<noteq> j"
  shows "map_of (sDrivers (handleDriverAtNode j s)) i = map_of (sDrivers s) i"
  using assms
  by (simp add: handleDriverAtNode_def reach_pickup_def finish_delivery_def set_driver_def set_order_def Let_def
      split: option.splits)

lemma handleDriverAtNode_order:
  assumes "base_inv s" "map_of (sOrders s) k = Some ord" "active ord \<Longrightarrow> oAssignedDriver ord \<noteq> j"
  shows "map_of (sOrders (handleDriverAtNode j s)) k = Some ord"
proof -
  have "dAssignedOrder d \<noteq> k" if "map_of (sDrivers s) j = Some d" for d
    using held_order(2,3) [OF assms(1) that] assms(2,3) by auto
  then show ?thesis
    using assms(2)
    by (auto simp: handleDriverAtNode_def reach_pickup_def finish_delivery_def set_driver_def set_order_def Let_def
        split: option.splits)
qed

lemma moveDriver_other:
  assumes inv: "base_inv s" and i: "i \<noteq> j" and ord: "map_of (sOrders s) k = Some ord" "active ord \<Longrightarrow> oAssignedDriver ord \<noteq> j"
  shows "watches i k s (moveDriver j s)"
proof -
  have "base_inv (move_loop j B s) \<and> watches i k s (move_loop j B s)" for B
  proof (rule move_loop_invariant [where P = "\<lambda>_ t. base_inv t \<and> watches i k s t"])
    fix b t d e
    assume P: "base_inv t \<and> watches i k s t" and d: "map_of (sDrivers t) j = Some d" "dRouteIndex d + 1 < length (dRoute d)"
    let ?f = "\<lambda>x. x\<lparr>dRouteProgress := 0, dRouteIndex := dRouteIndex x + 1, dPosition := dRoute d ! (dRouteIndex d + 1)\<rparr>"
    have bi: "base_inv t" using P by blast
    have w: "base_inv (set_driver j ?f t)"
      using driver_write_inv [OF bi d, of ?f] route_ok_step [OF _ d(2)] by simp
    have "map_of (sOrders (set_driver j ?f t)) k = Some ord" using P ord by (simp add: watches_def set_driver_def)
    then have "map_of (sOrders (advance_driver j (dRoute d ! (dRouteIndex d + 1)) t)) k = Some ord"
      unfolding advance_driver_def using handleDriverAtNode_order [OF w _ ord(2)] by blast
    moreover have "map_of (sDrivers (advance_driver j (dRoute d ! (dRouteIndex d + 1)) t)) i = map_of (sDrivers t) i"
      unfolding advance_driver_def using handleDriverAtNode_other [OF i] i by (simp add: set_driver_def)
    ultimately show "base_inv (advance_driver j (dRoute d ! (dRouteIndex d + 1)) t) \<and>
        watches i k s (advance_driver j (dRoute d ! (dRouteIndex d + 1)) t)"
      using advance_driver_inv [OF bi d] P ord(1) by (simp add: watches_def)
    have "base_inv (set_driver j (\<lambda>x. x\<lparr>dRouteProgress := dRouteProgress x + b\<rparr>) t)"
      using driver_write_inv [OF bi d, of "\<lambda>x. x\<lparr>dRouteProgress := dRouteProgress x + b\<rparr>"] by (simp add: route_ok_def)
    then show "base_inv (set_driver j (\<lambda>x. x\<lparr>dRouteProgress := dRouteProgress x + b\<rparr>) t) \<and>
        watches i k s (set_driver j (\<lambda>x. x\<lparr>dRouteProgress := dRouteProgress x + b\<rparr>) t)"
      using P i by (simp add: watches_def set_driver_def)
  qed (use inv in \<open>auto simp: watches_def\<close>)
  then show ?thesis
    by (auto simp: moveDriver_def emitDriverPosition_def watches_def Let_def split: option.splits)
qed

lemma moveDriver_progress:
  assumes inv: "base_inv s" and start: "carrying i k x s"
  shows "delivered i k (moveDriver i s) \<or> 0 \<le> x - 25 \<and> carrying i k (x - 25) (moveDriver i s)"
proof -
  obtain d where d: "map_of (sDrivers s) i = Some d" "dRouteIndex d + 1 < length (dRoute d)"
    using start by (auto simp: carrying_def)
  have "delivered i k (emit ty p t) = delivered i k t" "carrying i k y (emit ty p t) = carrying i k y t" for ty p t y
    by (simp_all add: delivered_def carrying_def)
  then show ?thesis
    using move_loop_progress [OF inv start, of 25] d
    by (auto simp: moveDriver_def emitDriverPosition_def Let_def driverSpeed_def virtualStepPerTick_def split: option.splits)
qed

lemma move_others:
  assumes "base_inv s" "i \<notin> set js" "map_of (sOrders s) k = Some ord" "active ord \<Longrightarrow> oAssignedDriver ord = i"
  shows "watches i k s (foldl (\<lambda>s j. moveDriver j s) s js)"
  using assms
proof (induction js arbitrary: s)
  case (Cons j js)
  have w: "watches i k s (moveDriver j s)"
    by (rule moveDriver_other [OF Cons.prems(1) _ Cons.prems(3)]) (use Cons.prems(2,4) in auto)
  moreover have "watches i k (moveDriver j s) (foldl (\<lambda>s j. moveDriver j s) (moveDriver j s) js)"
    by (rule Cons.IH) (use moveDriver_inv [OF Cons.prems(1), of j] Cons.prems w in \<open>auto simp: watches_def\<close>)
  ultimately show ?case by (simp add: watches_def)
qed (simp add: watches_def)

lemma moved_progress:
  assumes inv: "sim_inv s" and start: "carrying i k x s"
  shows "delivered i k (moved s) \<or> 0 \<le> x - 25 \<and> carrying i k (x - 25) (moved s)"
proof -
  let ?s = "s\<lparr>sVirtualTime := sVirtualTime s + virtualStepPerTick\<rparr>"
  let ?go = "foldl (\<lambda>s j. moveDriver j s)"
  have bi: "base_inv ?s" using inv by (simp add: sim_inv_def)
  have st: "carrying i k x ?s" using start by (simp add: carrying_def)
  obtain d where d: "map_of (sDrivers s) i = Some d" "dRouteIndex d + 1 < length (dRoute d)" "dAssignedOrder d = k"
    using start by (auto simp: carrying_def)
  obtain ord where ord: "map_of (sOrders ?s) k = Some ord" "oAssignedDriver ord = i"
    using carrying_facts(3) [OF bi, of i d] d by auto
  have "i \<in> set (sort (keys (sDrivers s)))" using d(1) by (simp only: set_sort in_keys_iff) blast
  then obtain pre post where split: "sort (keys (sDrivers s)) = pre @ i # post" by (meson split_list)
  have "distinct (pre @ i # post)"
    unfolding split [symmetric] using base_invD(5) [OF bi] by simp
  then have out: "i \<notin> set pre" "i \<notin> set post" by simp_all
  have pre: "base_inv (?go ?s pre)" "watches i k ?s (?go ?s pre)" "sCity (?go ?s pre) = sCity ?s"
    using move_all_inv [OF bi, of pre] move_others [OF bi out(1) ord(1)] ord(2) by (simp_all add: moves_def fixed_parts_def)
  then have "carrying i k x (?go ?s pre)" using st by (simp add: carrying_def watches_def)
  note mid = moveDriver_progress [OF pre(1) this]
  let ?m = "moveDriver i (?go ?s pre)"
  have m: "base_inv ?m" using moveDriver_inv [OF pre(1)] by blast
  have ordm: "\<exists>ord. map_of (sOrders ?m) k = Some ord \<and> (active ord \<longrightarrow> oAssignedDriver ord = i)"
    using mid
  proof
    assume "delivered i k ?m"
    then show ?thesis by (auto simp: delivered_def active_def)
  next
    assume "0 \<le> x - 25 \<and> carrying i k (x - 25) ?m"
    then show ?thesis using carrying_facts(3) [OF m] by (auto simp: carrying_def)
  qed
  then have "watches i k ?m (?go ?m post)" using move_others [OF m out(2)] by blast
  moreover have "sCity (?go ?m post) = sCity ?m" using move_all_inv [OF m, of post] by (simp add: moves_def fixed_parts_def)
  moreover have "moved s = ?go ?m post" by (simp add: moved_def split)
  ultimately show ?thesis using mid by (simp add: delivered_def carrying_def watches_def)
qed

definition done_order :: "order_id \<Rightarrow> sim \<Rightarrow> bool" where
  "done_order k s \<longleftrightarrow> (\<exists>ord. map_of (sOrders s) k = Some ord \<and> oStatus ord = OrderDelivered)"

lemma tick_progress:
  assumes inv: "sim_inv s" and range: "dispatch_in_range s" and run: "\<not> sPaused s" and start: "carrying i k x s"
  shows "\<exists>s'. tick s = Some s' \<and> sim_inv s' \<and> (done_order k s' \<or> 0 \<le> x - 25 \<and> carrying i k (x - 25) s')"
proof -
  obtain s' where s': "tick s = Some s'" "sim_inv s'" "settles (moved s) s'" "sCity s' = sCity s"
    using tick_inv [OF inv] range run by (auto simp: dispatch_in_range_def)
  have m: "base_inv (moved s)" using moved_inv(1) [OF inv] by (simp add: sim_inv_def)
  have "done_order k s'" if "delivered i k (moved s)"
    using that s'(3) by (auto simp: delivered_def done_order_def settles_def)
  moreover have "carrying i k y s'" if y: "carrying i k y (moved s)" for y
  proof -
    obtain d where d: "map_of (sDrivers (moved s)) i = Some d" "dAssignedOrder d = k"
      "dRouteIndex d + 1 < length (dRoute d)" "distance_left (sCity (moved s)) d = y"
      using y by (auto simp: carrying_def)
    then have "map_of (sDrivers s') i = Some d"
      using s'(3) carrying_facts(1) [OF m d(1,3)] by (simp add: settles_def)
    then show ?thesis using d s'(4) moved_inv(3) [OF inv] by (simp add: carrying_def)
  qed
  ultimately show ?thesis using moved_progress [OF inv start] s'(1,2) by blast
qed

fun run_ticks :: "nat \<Rightarrow> sim \<Rightarrow> sim option" where
  "run_ticks 0 s = Some s"
| "run_ticks (Suc n) s = (case tick s of None \<Rightarrow> None | Some s' \<Rightarrow> run_ticks n s')"

definition steady :: "nat \<Rightarrow> sim \<Rightarrow> bool" where
  \<comment> \<open>nothing pauses the clock and every batch stays in the solver's range\<close>
  "steady n s \<longleftrightarrow> (\<forall>m < n. \<forall>s'. run_ticks m s = Some s' \<longrightarrow> \<not> sPaused s' \<and> dispatch_in_range s')"

lemma steady_Suc:
  assumes "steady (Suc n) s" "tick s = Some s'"
  shows "\<not> sPaused s" "dispatch_in_range s" "steady n s'"
proof -
  show "\<not> sPaused s" "dispatch_in_range s"
    using assms(1) unfolding steady_def by (metis run_ticks.simps(1) zero_less_Suc)+
  show "steady n s'"
    unfolding steady_def
  proof (intro allI impI)
    fix m t assume "m < n" "run_ticks m s' = Some t"
    then have "Suc m < Suc n" "run_ticks (Suc m) s = Some t" using assms(2) by simp_all
    then show "\<not> sPaused t \<and> dispatch_in_range t" using assms(1) unfolding steady_def by blast
  qed
qed

lemma done_order_stays:
  assumes inv: "sim_inv s" and range: "dispatch_in_range s" and k: "done_order k s" and tick: "tick s = Some s'"
  shows "done_order k s'"
proof (cases "sPaused s")
  case False
  let ?s = "s\<lparr>sVirtualTime := sVirtualTime s + virtualStepPerTick\<rparr>"
  obtain ord where ord: "map_of (sOrders ?s) k = Some ord" "oStatus ord = OrderDelivered"
    using k by (auto simp: done_order_def)
  have bi: "base_inv ?s" using inv by (simp add: sim_inv_def)
  have "map_of (sOrders (foldl (\<lambda>s j. moveDriver j s) ?s js)) k = Some ord" for js
  proof -
    have na: "\<not> active ord" using ord(2) by (simp add: active_def)
    have step: "map_of (sOrders (moveDriver j t)) k = Some ord" if t: "base_inv t" "map_of (sOrders t) k = Some ord" for j t
      using moveDriver_other [OF t(1) _ t(2), of "j @ ''x''" j] na t(2) by (simp add: watches_def)
    show ?thesis
      using bi ord(1)
    proof (induction js arbitrary: s rule: rev_induct)
      case (snoc j js)
      then show ?case using step move_all_inv by (metis foldl_Cons foldl_Nil foldl_append)
    qed simp
  qed
  then have "done_order k (moved s)" using ord(2) by (auto simp: done_order_def moved_def)
  moreover have "settles (moved s) s'"
    using tick_inv [OF inv] range tick False by (auto simp: dispatch_in_range_def)
  ultimately show ?thesis by (auto simp: done_order_def settles_def)
qed (use k tick in \<open>simp add: tick_def\<close>)

lemma run_ticks_done:
  assumes "sim_inv s" "steady n s" "done_order k s"
  shows "\<exists>s'. run_ticks n s = Some s' \<and> done_order k s'"
  using assms
proof (induction n arbitrary: s)
  case (Suc n)
  have r: "dispatch_in_range s" using Suc.prems(2) unfolding steady_def by (metis run_ticks.simps(1) zero_less_Suc)
  then obtain s1 where s1: "tick s = Some s1" "sim_inv s1"
    using tick_inv [OF Suc.prems(1)] by (auto simp: dispatch_in_range_def)
  show ?case
    using Suc.IH [OF s1(2) steady_Suc(3) [OF Suc.prems(2) s1(1)] done_order_stays [OF Suc.prems(1) r Suc.prems(3) s1(1)]] s1(1)
    by simp
qed simp

lemma run_ticks_progress:
  assumes "sim_inv s" "steady (Suc n) s" "carrying i k x s" "x < 25 * (real n + 1)"
  shows "\<exists>s'. run_ticks (Suc n) s = Some s' \<and> done_order k s'"
  using assms
proof (induction n arbitrary: s x)
  case 0
  have r: "\<not> sPaused s" "dispatch_in_range s"
    using "0.prems"(2) unfolding steady_def by (metis run_ticks.simps(1) zero_less_Suc)+
  show ?case using tick_progress [OF "0.prems"(1) r(2,1) "0.prems"(3)] "0.prems"(4) by auto
next
  case (Suc n)
  have r: "\<not> sPaused s" "dispatch_in_range s"
    using Suc.prems(2) unfolding steady_def by (metis run_ticks.simps(1) zero_less_Suc)+
  obtain s1 where s1: "tick s = Some s1" "sim_inv s1" "done_order k s1 \<or> carrying i k (x - 25) s1"
    using tick_progress [OF Suc.prems(1) r(2,1) Suc.prems(3)] by blast
  have st: "steady (Suc n) s1" by (rule steady_Suc(3) [OF Suc.prems(2) s1(1)])
  have "x - 25 < 25 * (real n + 1)" using Suc.prems(4) by simp
  then have "\<exists>s'. run_ticks (Suc n) s1 = Some s' \<and> done_order k s'"
    using s1(3) run_ticks_done [OF s1(2) st] Suc.IH [OF s1(2) st] by blast
  then show ?case using s1(1) by simp
qed


lemma steady_baseline:
  assumes "sim_inv s" "sStrategy s \<noteq> StrategyOptimized" "\<not> sPaused s"
  shows "steady n s"
proof -
  have "run_ticks m s = Some s' \<Longrightarrow> sim_inv s' \<and> sStrategy s' \<noteq> StrategyOptimized \<and> \<not> sPaused s'" for m s'
    using assms
  proof (induction m arbitrary: s)
    case (Suc m)
    obtain s1 where s1: "tick s = Some s1" "sim_inv s1" "settles (moved s) s1"
      using tick_inv [OF Suc.prems(2)] Suc.prems(3,4) by auto
    have "sStrategy s1 = sStrategy s" "sPaused s1 = sPaused s"
      using settles_fixed [OF s1(3)] moved_inv [OF Suc.prems(2)] by (simp_all add: fixed_parts_def)
    then show ?case using Suc.IH [OF _ s1(2)] Suc.prems s1(1) by simp
  qed simp
  then show ?thesis by (auto simp: steady_def dispatch_in_range_def)
qed

subsection \<open>One concrete run\<close>

text \<open>A city with one driver and one order, placed between two neighbouring intersections.\<close>

definition demo_city :: city where
  "demo_city = GenerateGrid (\<lambda>_ _. 1 / 2) (DefaultGridConfig 42)"

definition demo :: sim where
  "demo = New (\<lambda>_ _. 1 / 2) ''sim'' 42 1"

lemma demo_parts:
  "sCity demo = demo_city" "sOrders demo = []" "sStrategy demo = StrategyBaseline" "\<not> sPaused demo"
  "sSequence demo = 0" "sEvents demo = []" "sID demo = ''sim''" "sVirtualTime demo = 0"
  "\<exists>u \<in> grid_nodes (DefaultGridConfig 42). sDrivers demo = [(''driver-0'', new_driver ''driver-0'' u)]"
proof -
  have ids: "length (sort (keys (cNodes demo_city))) = 36" "set (sort (keys (cNodes demo_city))) = grid_nodes (DefaultGridConfig 42)"
    by (simp_all add: demo_city_def GenerateGrid_nodes grid_nodes_def DefaultGridConfig_def)
  then have u: "sort (keys (cNodes demo_city)) ! 0 \<in> grid_nodes (DefaultGridConfig 42)" by (metis nth_mem zero_less_numeral)
  have "shortID ''driver'' 0 = ''driver-0''" by code_simp
  then have "placeDrivers demo_city 1 = [(''driver-0'', new_driver ''driver-0'' (sort (keys (cNodes demo_city)) ! 0))]"
    using ids(1) by (simp add: placeDrivers_def Let_def)
  then show "\<exists>u \<in> grid_nodes (DefaultGridConfig 42). sDrivers demo = [(''driver-0'', new_driver ''driver-0'' u)]"
    using u by (auto simp: demo_def New_def NewWithConfig_def zero_config_def config_defaults_def Let_def demo_city_def)
qed (simp_all add: demo_def New_def NewWithConfig_def zero_config_def config_defaults_def Let_def demo_city_def)

lemma demo_reachable: "\<exists>draws cfg. reachable draws cfg demo"
  unfolding demo_def New_def using reachable.created by blast

lemma demo_route:
  assumes "u \<in> grid_nodes (DefaultGridConfig 42)" "v \<in> grid_nodes (DefaultGridConfig 42)"
  shows "\<exists>r. FindRoute demo_city u v = Some r"
proof -
  have "map_of (cNodes demo_city) w \<noteq> None" if "w \<in> grid_nodes (DefaultGridConfig 42)" for w
    using that by (auto simp: demo_city_def map_of_eq_None_iff GenerateGrid_nodes(2) grid_nodes_def)
  moreover obtain es where "open_path demo_city u es v"
    using GenerateGrid_connected [OF assms] by (auto simp: reachable_in_def demo_city_def)
  ultimately show ?thesis
    using FindRoute_cases [OF GenerateGrid_metric [of "\<lambda>_ _. 1 / 2" "DefaultGridConfig 42", folded demo_city_def], of u v] assms by metis
qed

lemma demo_order:
  assumes p: "p \<in> grid_nodes (DefaultGridConfig 42)" and q: "q \<in> grid_nodes (DefaultGridConfig 42)" and pq: "p \<noteq> q"
  obtains s d where "handle 0 (PlaceOrder p q) demo = Some s" "map_of (sDrivers s) ''driver-0'' = Some d"
    "dRouteIndex d + 1 < length (dRoute d)" "dAssignedOrder d = ''order-1''" "sStrategy s = StrategyBaseline" "\<not> sPaused s"
proof -
  obtain u where u: "u \<in> grid_nodes (DefaultGridConfig 42)" "sDrivers demo = [(''driver-0'', new_driver ''driver-0'' u)]"
    using demo_parts(9) by blast
  let ?ord = "placed_order p q demo"
  let ?s = "record_order ?ord demo"
  obtain r1 where r1: "FindRoute demo_city u p = Some r1" using demo_route [OF u(1) p] by blast
  obtain r2 where r2: "FindRoute demo_city p q = Some r2" using demo_route [OF p q] by blast
  have c: "city_ok demo_city" unfolding demo_city_def by (rule GenerateGrid_city_ok)
  obtain rest where rest: "rNodes r2 = p # rest" "rNodes r1 \<noteq> []"
    by (rule routes_join [OF c r1 r2]) blast
  have "rest \<noteq> []" using rest(1) FindRoute_open(3) [OF c r2] pq by auto
  have nx: "sNextOrderID demo = 0" by (simp add: demo_def New_def NewWithConfig_def Let_def)
  have "shortID ''order'' 1 = ''order-1''" by code_simp
  then have oid: "oID ?ord = ''order-1''" "oPickup ?ord = p" "oDestination ?ord = q"
    using nx by (simp_all add: placed_order_def)
  have base: "Baseline demo_city (sDrivers ?s) p = Some (''driver-0'', r1)"
    using r1 u(2) by (simp add: record_order_def Baseline_def baselineExcluding_def new_driver_def)
  have "applyAssignment \<lparr>aOrderID = ''order-1'', aDriverID = ''driver-0'', aToPickup = r1\<rparr> ?s =
      Some (commit_assignment \<lparr>aOrderID = ''order-1'', aDriverID = ''driver-0'', aToPickup = r1\<rparr> ?ord
        (new_driver ''driver-0'' u) r2 (rNodes r1 @ rest) ?s)" (is "_ = Some ?s'")
    using r2 rest(1) u(2) oid demo_parts(1) by (simp add: applyAssignment_def record_order_def map_of_update)
  then have "handle 0 (PlaceOrder p q) demo = Some ?s'"
    using base oid demo_parts(1,3)
    by (simp add: handle_def handlePlaceOrder_def Let_def assignBaseline_def record_order_def)
  moreover have "map_of (sDrivers ?s') ''driver-0'' = Some ((new_driver ''driver-0'' u)\<lparr>dRoute := rNodes r1 @ rest, dRouteIndex := 0,
      dStatus := (if u = p then DriverDelivering else DriverEnRouteToPick), dAssignedOrder := ''order-1''\<rparr>)"
    using u(2) oid by (simp add: commit_assignment_def Let_def set_driver_def set_order_def record_order_def new_driver_def)
  moreover have "sStrategy ?s' = StrategyBaseline" "\<not> sPaused ?s'"
    using demo_parts(3,4) by (simp_all add: commit_assignment_def Let_def set_driver_def set_order_def record_order_def)
  moreover have "0 + 1 < length (rNodes r1 @ rest)" using rest(2) \<open>rest \<noteq> []\<close> by (cases "rNodes r1"; cases rest) auto
  ultimately show thesis using that by fastforce
qed


end
