(* ===== verification/Simulation_Roads.thy ===== *)
theory Simulation_Roads
  imports Simulation_Motion
begin

text \<open>
  What the road commands do to the city and to the drivers: closing is idempotent, reopening undoes
  it, and a driver that is rerouted before its pickup ends its trip there.
\<close>

subsection \<open>Closing and reopening a segment\<close>

definition mark_edge :: "edge_id set \<Rightarrow> bool \<Rightarrow> edge \<Rightarrow> edge" where
  "mark_edge I b e = (if eID e \<in> I then e\<lparr>eClosed := b\<rparr> else e)"

definition mark_all :: "edge_id set \<Rightarrow> bool \<Rightarrow> city \<Rightarrow> city" where
  "mark_all I b c = c\<lparr>cEdges := map (\<lambda>(k, es). (k, map (mark_edge I b) es)) (cEdges c)\<rparr>"

lemma mark_edge_single: "mark_edge {i} b = mark i b"
  by (simp add: mark_edge_def mark_def fun_eq_iff)

lemma mark_edge_comp: "mark_edge I b \<circ> mark_edge J b' = (\<lambda>e. if eID e \<in> I then e\<lparr>eClosed := b\<rparr> else mark_edge J b' e)"
  by (auto simp: mark_edge_def fun_eq_iff)

lemma city_eqI: "cID c = cID c' \<Longrightarrow> cVersion c = cVersion c' \<Longrightarrow> cNodes c = cNodes c' \<Longrightarrow> cEdges c = cEdges c' \<Longrightarrow> (c :: city) = c'"
  by simp

lemma SetClosed_mark_all:
  assumes "city_ok c"
  shows "fst (SetClosed c i b) = mark_all {i} b c"
  by (rule city_eqI) (simp_all add: mark_all_def SetClosed_edges [OF city_okD(4) [OF assms]] mark_edge_single)

lemma mark_all_mark_all:
  "mark_all I b (mark_all J b' c) = c\<lparr>cEdges := map (\<lambda>(k, es). (k, map (mark_edge I b \<circ> mark_edge J b') es)) (cEdges c)\<rparr>"
  by (rule city_eqI) (simp_all add: mark_all_def case_prod_beta comp_def)

lemma mark_all_union: "mark_all I b (mark_all J b c) = mark_all (I \<union> J) b c"
proof -
  have "mark_edge I b \<circ> mark_edge J b = mark_edge (I \<union> J) b" by (auto simp: mark_edge_def fun_eq_iff)
  then show ?thesis by (simp only: mark_all_mark_all) (simp add: mark_all_def)
qed

lemma mark_all_undo:
  assumes "\<And>e. e \<in> set (all_edges c) \<Longrightarrow> eID e \<in> I \<Longrightarrow> eClosed e = b"
  shows "mark_all I b (mark_all I b' c) = c"
proof -
  have "map (mark_edge I b \<circ> mark_edge I b') es = es" if "(k, es) \<in> set (cEdges c)" for k es
  proof (rule map_idI)
    fix e assume "e \<in> set es"
    then have "e \<in> set (all_edges c)" using that by (force simp: all_edges_def)
    then show "(mark_edge I b \<circ> mark_edge I b') e = e" using assms by (auto simp: mark_edge_def)
  qed
  then have "map (\<lambda>(k, es). (k, map (mark_edge I b \<circ> mark_edge I b') es)) (cEdges c) = cEdges c"
    by (intro map_idI) auto
  then show ?thesis by (simp only: mark_all_mark_all) simp
qed

definition both_ways :: "city \<Rightarrow> edge \<Rightarrow> edge_id set" where
  \<comment> \<open>the road and the one back\<close>
  "both_ways c e = insert (eID e) (case edgeBetween c (eTo e) (eFrom e) of None \<Rightarrow> {} | Some r \<Rightarrow> {eID r})"

lemma close_segment_marks:
  assumes c: "city_ok c"
  shows "snd (close_segment b e c) = mark_all (both_ways c e) b c"
proof -
  let ?c = "fst (SetClosed c (eID e) b)"
  have ok: "city_ok ?c" by (rule city_ok_SetClosed [OF c])
  have "edgeBetween ?c (eTo e) (eFrom e) = map_option (mark (eID e) b) (edgeBetween c (eTo e) (eFrom e))"
    by (rule open_edge_SetClosed [OF c])
  then show ?thesis
    by (auto simp: close_segment_def Let_def both_ways_def SetClosed_mark_all [OF c] SetClosed_mark_all [OF ok, unfolded SetClosed_mark_all [OF c]]
        mark_all_union insert_commute split: option.splits)
qed

lemma EdgeByID_closed:
  assumes "city_ok c"
  shows "EdgeByID (fst (SetClosed c j b)) i = map_option (mark j b) (EdgeByID c i)"
proof -
  have "find (\<lambda>e. eID e = i) (map (mark j b) es) = map_option (mark j b) (find (\<lambda>e. eID e = i) es)" for es
    by (induction es) auto
  then show ?thesis
    using all_edges_SetClosed [OF city_okD(4) [OF assms]] by (simp add: EdgeByID_def)
qed

lemma EdgeByID_segment:
  assumes c: "city_ok c"
  shows "EdgeByID (snd (close_segment b e c)) (eID e) = map_option (mark (eID e) b) (EdgeByID c (eID e))"
proof -
  let ?c = "fst (SetClosed c (eID e) b)"
  have ok: "city_ok ?c" by (rule city_ok_SetClosed [OF c])
  have "snd (close_segment b e c) = ?c \<or> (\<exists>j. snd (close_segment b e c) = fst (SetClosed ?c j b))"
    by (cases "edgeBetween ?c (eTo e) (eFrom e)") (auto simp: close_segment_def Let_def)
  then show ?thesis
  proof (elim disjE exE)
    fix j assume j: "snd (close_segment b e c) = fst (SetClosed ?c j b)"
    have two: "EdgeByID (fst (SetClosed ?c j b)) (eID e) = map_option (mark j b) (map_option (mark (eID e) b) (EdgeByID c (eID e)))"
      by (simp only: EdgeByID_closed [OF ok] EdgeByID_closed [OF c])
    show ?thesis
    proof (cases "EdgeByID c (eID e)")
      case (Some e1)
      then have "eID e1 = eID e" using EdgeByID_Some by blast
      then show ?thesis unfolding j two Some by (simp add: mark_def)
    next
      case None
      show ?thesis unfolding j two None by simp
    qed
  qed (simp only: EdgeByID_closed [OF c])
qed

lemma handleCloseRoad_city:
  assumes inv: "sim_inv s" and e: "EdgeByID (sCity s) i = Some e" "\<not> eClosed e"
  shows "sCity (handleCloseRoad ms i x s) = snd (close_segment True e (sCity s))"
proof -
  have b: "base_inv s" using inv by (simp add: sim_inv_def)
  have "fewer_roads (sCity s) (snd (close_segment True e (sCity s)))"
    by (rule close_segment_roads [OF base_invD(4) [OF b]])
  from recalculate_inv(2) [OF b this, of x] show ?thesis
    using e by (simp add: handleCloseRoad_def split_beta Let_def moves_def fixed_parts_def)
qed

lemma handleCloseRoad_closed:
  assumes inv: "sim_inv s" and e: "EdgeByID (sCity s) i = Some e"
  shows "\<exists>e'. EdgeByID (sCity (handleCloseRoad ms i x s)) i = Some e' \<and> eClosed e' \<and> eFrom e' = eFrom e \<and> eTo e' = eTo e \<and> eID e' = eID e"
proof (cases "eClosed e")
  case False
  have "eID e = i" using EdgeByID_Some [OF e] by simp
  then show ?thesis
    using EdgeByID_segment [of "sCity s" True e] handleCloseRoad_city [OF inv e False] e inv
    by (simp add: sim_inv_def base_invD(4) mark_def)
qed (use e in \<open>simp add: handleCloseRoad_def\<close>)

text \<open>
  Closing a road that is closed already, or that does not exist, changes nothing (no event, no
  reroute): closing twice is closing once, whatever the command ids.  The same holds for reopening
  an open or an unknown road.
\<close>

theorem road_commands_idempotent:
  assumes "reachable draws cfg s"
  shows "handle ms' (CloseRoad i x') (handleCloseRoad ms i x s) = Some (handleCloseRoad ms i x s) \<and>
    (EdgeByID (sCity s) i = None \<longrightarrow> handle ms (CloseRoad i x) s = Some s \<and> handle ms (ReopenRoad i) s = Some s) \<and>
    (\<forall>e. EdgeByID (sCity s) i = Some e \<longrightarrow> \<not> eClosed e \<longrightarrow> handle ms (ReopenRoad i) s = Some s)"
proof -
  have inv: "sim_inv s" by (rule reachable_inv [OF assms])
  have "handleCloseRoad ms' i x' (handleCloseRoad ms i x s) = handleCloseRoad ms i x s"
  proof (cases "EdgeByID (sCity s) i")
    case None
    then show ?thesis by (simp add: handleCloseRoad_def del: EdgeByID_None)
  next
    case (Some e)
    obtain e' where e': "EdgeByID (sCity (handleCloseRoad ms i x s)) i = Some e'" "eClosed e'"
      using handleCloseRoad_closed [OF inv Some, of ms x] by blast
    then show ?thesis by (subst handleCloseRoad_def) simp
  qed
  then show ?thesis
    by (simp add: handle_def handleReopenRoad_def handleCloseRoad_def [of _ _ _ s] del: EdgeByID_None)
qed

theorem road_commands_idempotent_witness:
  "handle 0 (ReopenRoad ''e-x'') (NewWithConfig (\<lambda>_ _. 1 / 2) zero_config) \<noteq> None \<and>
   handle 1 (CloseRoad ''e-x'' ''c2'') (handleCloseRoad 0 ''e-x'' ''c1'' (NewWithConfig (\<lambda>_ _. 1 / 2) zero_config)) =
     Some (handleCloseRoad 0 ''e-x'' ''c1'' (NewWithConfig (\<lambda>_ _. 1 / 2) zero_config))"
  using road_commands_idempotent [OF reachable.created, of 1 "''e-x''" "''c2''" 0 "''c1''"] by (simp add: handle_def)

text \<open>
  Reopening a road undoes its closure: when the road and the one back (if there is one) were
  open, closing and reopening leaves the very same city, whatever happened to the routes meanwhile.
\<close>

theorem close_reopen_roundtrip:
  assumes "reachable draws cfg s" "EdgeByID (sCity s) i = Some e" "\<not> eClosed e"
    "case edgeBetween (sCity s) (eTo e) (eFrom e) of None \<Rightarrow> True | Some r \<Rightarrow> \<not> eClosed r"
  shows "sCity (handleReopenRoad i (handleCloseRoad ms i x s)) = sCity s"
proof -
  have inv: "sim_inv s" by (rule reachable_inv [OF assms(1)])
  let ?c = "sCity s" and ?s = "handleCloseRoad ms i x s"
  have c: "city_ok ?c" using inv by (simp add: sim_inv_def base_invD(4))
  have c': "sCity ?s = snd (close_segment True e ?c)" by (rule handleCloseRoad_city [OF inv assms(2,3)])
  have ok: "city_ok (sCity ?s)" using close_segment_roads(1) [OF c, of e] c' by (simp add: fewer_roads_def)
  obtain e' where e': "EdgeByID (sCity ?s) i = Some e'" "eClosed e'" "eFrom e' = eFrom e" "eTo e' = eTo e" "eID e' = eID e"
    using handleCloseRoad_closed [OF inv assms(2), of ms x] by blast
  have marks: "sCity ?s = mark_all (both_ways ?c e) True ?c" unfolding c' by (rule close_segment_marks [OF c])
  have "map_option eID (edgeBetween (mark_all I b ?c) u v) = map_option eID (edgeBetween ?c u v)" for I b u v
  proof -
    have "find (\<lambda>e. eTo e = v) (map (mark_edge I b) es) = map_option (mark_edge I b) (find (\<lambda>e. eTo e = v) es)" for es
      by (induction es) (auto simp: mark_edge_def)
    moreover have "edges_from (mark_all I b ?c) u = map (mark_edge I b) (edges_from ?c u)"
    proof -
      have "map_of (map (\<lambda>(k, es). (k, map (mark_edge I b) es)) m) u = map_option (map (mark_edge I b)) (map_of m u)" for m
        by (induction m) auto
      then show ?thesis by (simp add: edges_from_def mark_all_def get_or_def split: option.splits)
    qed
    moreover have "eID (mark_edge I b e) = eID e" for e by (simp add: mark_edge_def)
    ultimately show ?thesis by (simp add: edgeBetween_def option.map_comp comp_def)
  qed
  then have "both_ways (sCity ?s) e' = both_ways ?c e"
    unfolding marks both_ways_def e'(3-5) by (auto split: option.splits) (metis option.simps(3,9) option.map_disc_iff option.inject)+
  then have "sCity (handleReopenRoad i ?s) = mark_all (both_ways ?c e) False (mark_all (both_ways ?c e) True ?c)"
    using e'(1,2) close_segment_marks [OF ok, of False e'] marks
    by (simp add: handleReopenRoad_def split_beta Let_def)
  also have "\<dots> = ?c"
  proof (rule mark_all_undo)
    fix r assume r: "r \<in> set (all_edges ?c)" "eID r \<in> both_ways ?c e"
    have "r = e \<or> edgeBetween ?c (eTo e) (eFrom e) = Some r"
    proof -
      have uniq: "a = b" if "a \<in> set (all_edges ?c)" "b \<in> set (all_edges ?c)" "eID a = eID b" for a b
        using that city_okD(4) [OF c] by (metis distinct_map inj_on_eq_iff)
      have "e \<in> set (all_edges ?c)" using EdgeByID_Some [OF assms(2)] by blast
      moreover have "f \<in> set (all_edges ?c)" if "edgeBetween ?c u v = Some f" for u v f
        using that edgeBetween_iff [OF c] edges_from_subset by blast
      ultimately show ?thesis using r uniq by (auto simp: both_ways_def split: option.splits)
    qed
    then show "eClosed r = False" using assms(3,4) by auto
  qed
  finally show ?thesis .
qed

theorem close_reopen_roundtrip_witness:
  "\<exists>i e. EdgeByID demo_city i = Some e \<and> sCity (handleReopenRoad i (handleCloseRoad 0 i ''c1'' demo)) = demo_city"
proof -
  have "((0, 0), (0, 1)) \<in> set (grid_links 6 6)" using grid_links_step(1) [of 0 6 0 6] by simp
  then obtain e where "e \<in> set (edges_from demo_city (grid_node_id 0 0))"
    using GenerateGrid_edge [of 0 0 0 1 "DefaultGridConfig 42" "\<lambda>_ _. 1 / 2"] by (auto simp: DefaultGridConfig_def demo_city_def)
  then have "e \<in> set (all_edges demo_city)" using edges_from_subset by blast
  then have e: "EdgeByID demo_city (eID e) = Some e"
    unfolding demo_city_def by (rule EdgeByID_eq [OF GenerateGrid_city_edges_wf])
  have op: "\<not> eClosed r" if "r \<in> set (all_edges demo_city)" for r
    using GenerateGrid_open edges_from_complete [OF GenerateGrid_city_edges_wf] that unfolding demo_city_def by blast
  have rev_open: "case edgeBetween demo_city u v of None \<Rightarrow> True | Some r \<Rightarrow> \<not> eClosed r" for u v
  proof (cases "edgeBetween demo_city u v")
    case (Some r)
    then have "r \<in> set (edges_from demo_city u)"
      using edgeBetween_iff [OF GenerateGrid_city_ok [of "\<lambda>_ _. 1 / 2" "DefaultGridConfig 42", folded demo_city_def]] by blast
    then show ?thesis using Some op edges_from_subset by (metis option.case(2) subsetD)
  qed simp
  obtain draws cfg where "reachable draws cfg demo" using demo_reachable by blast
  from close_reopen_roundtrip [OF this, of "eID e" e 0 "''c1''"] show ?thesis
    using e op [OF \<open>e \<in> set (all_edges demo_city)\<close>] rev_open by (auto simp: demo_parts(1))
qed

subsection \<open>Rerouted before the pickup\<close>


lemma two_node_nodes:
  assumes "FindRoute two_node_city ''a'' ''b'' = Some r"
  shows "rNodes r = [''a'', ''b'']"
proof -
  have s: "shortest_route two_node_city ''a'' ''b'' r"
    by (rule FindRoute_Some_shortest [OF two_node_city_metric assms])
  have edges: "edges_from two_node_city ''a'' = [\<lparr>eID = ''e-a-b'', eFrom = ''a'', eTo = ''b'', eWeight = 3, eClosed = False\<rparr>]"
    "edges_from two_node_city ''b'' = [\<lparr>eID = ''e-b-a'', eFrom = ''b'', eTo = ''a'', eWeight = 3, eClosed = False\<rparr>]"
    by (simp_all add: edges_from_def two_node_city_def get_or_def)
  obtain es where es: "open_path two_node_city ''a'' es ''b''" "rNodes r = path_nodes ''a'' es" "rDistance r = path_len es"
    using s by (auto simp: shortest_route_def)
  have "rDistance r \<le> 3" using test_route assms by auto
  obtain e fs where e: "es = e # fs" using es(1) by (cases es) auto
  then have e1: "e = \<lparr>eID = ''e-a-b'', eFrom = ''a'', eTo = ''b'', eWeight = 3, eClosed = False\<rparr>"
    "open_path two_node_city ''b'' fs ''b''"
    using es(1) edges(1) by auto
  have "fs = []"
  proof (cases fs)
    case (Cons f gs)
    then have f: "eWeight f = 3" "open_path two_node_city (eTo f) gs ''b''" using e1(2) edges(2) by auto
    have "0 \<le> path_len gs" by (rule euclidean.path_len_nonneg [OF two_node_city_metric f(2)])
    then show ?thesis using \<open>rDistance r \<le> 3\<close> es(3) e e1(1) Cons f(1) by simp
  qed
  then show ?thesis using es(2) e e1(1) by simp
qed


end
