(* ===== verification/Store.thy ===== *)
theory Store
  imports Simulation
begin

text \<open>
  \<open>internal/store\<close>: the persisted forms of sessions, simulations, events, snapshots and comparisons
  (\<open>store.go\<close>) and the in-memory store (\<open>memory.go\<close>).  Each method is one atomic operation (its
  mutex is held throughout).  \<open>time.Time\<close> is an integer (nanoseconds), a nil \<open>*time.Time\<close> is
  \<open>None\<close>; the \<open>context.Context\<close> arguments are unused by the code and left out.  The operations that
  cannot fail return the store, the others an error or a value; \<open>Events\<close> is \<open>None\<close> where
  \<open>make\<close> panics on a negative capacity.

  \<open>event_log\<close> states what readers of the log rely on; the in-memory store is its interpretation.
\<close>

type_synonym timestamp = int

record guest_session =
  gsToken :: string
  gsCreatedAt :: timestamp
  gsLastSeenAt :: timestamp
  gsExpiresAt :: timestamp

record simulation_row =
  srID :: string
  srSeed :: int
  srDrivers :: int
  srStrategy :: string
  srCreatedAt :: timestamp
  srCompletedAt :: "timestamp option"
  srShowcase :: bool
  srGuestToken :: string
  srExpiresAt :: "timestamp option"

record stored_event =
  seSimulationID :: string
  seSequence :: nat
  seVirtualTime :: real
  seType :: event_type
  sePayload :: raw_message
  seTraceID :: string
  seRecordedAt :: timestamp

record stored_snapshot =
  ssSimulationID :: string
  ssSequence :: nat
  ssVirtualTime :: real
  ssPayload :: raw_message
  ssRecordedAt :: timestamp

record comparison_row =
  crID :: string
  crSeed :: int
  crDrivers :: int
  crResult :: raw_message
  crCreatedAt :: timestamp

record purge_result =
  prSimulations :: nat
  prSessions :: nat

datatype store_error = StoreNotFound | StoreFailure string

definition Expired :: "guest_session \<Rightarrow> timestamp \<Rightarrow> bool" where
  "Expired g now \<longleftrightarrow> \<not> now < gsExpiresAt g"

subsection \<open>Events and their persisted form\<close>

definition EventFrom :: "event \<Rightarrow> string \<Rightarrow> timestamp \<Rightarrow> stored_event option" where
  \<comment> \<open>\<open>None\<close>: the payload cannot be encoded\<close>
  "EventFrom e traceID recordedAt =
     (case marshal (evPayload e) of
        None \<Rightarrow> None
      | Some p \<Rightarrow> Some \<lparr>seSimulationID = evSimulationID e, seSequence = evSequence e,
          seVirtualTime = evVirtualTime e, seType = evType e, sePayload = p, seTraceID = traceID,
          seRecordedAt = recordedAt\<rparr>)"

definition event_domain :: "stored_event \<Rightarrow> event option" where
  \<comment> \<open>\<open>Event.Domain\<close>; no bytes leave the nil payload\<close>
  "event_domain e =
     map_option (\<lambda>p. \<lparr>evSchemaVersion = 1, evSimulationID = seSimulationID e, evSequence = seSequence e,
         evVirtualTime = seVirtualTime e, evType = seType e, evPayload = p, evTraceID = seTraceID e,
         evCausationID = ''''\<rparr>)
       (if sePayload e = RawEmpty then Some JNull else unmarshal (sePayload e))"

subsection \<open>The in-memory store\<close>

record memory =
  mSessions :: "(string, guest_session) gomap"
  mSimulations :: "(string, simulation_row) gomap"
  mEvents :: "(string, stored_event list) gomap"
  mSeen :: "(string, nat list) gomap"
  mSnapshots :: "(string, stored_snapshot list) gomap"
  mComparisons :: "(string, comparison_row) gomap"

definition NewMemory :: memory where
  "NewMemory = \<lparr>mSessions = [], mSimulations = [], mEvents = [], mSeen = [], mSnapshots = [], mComparisons = []\<rparr>"

definition CreateGuestSession :: "guest_session \<Rightarrow> memory \<Rightarrow> memory" where
  "CreateGuestSession g m =
     (if map_of (mSessions m) (gsToken g) \<noteq> None then m
      else m\<lparr>mSessions := AList.update (gsToken g) g (mSessions m)\<rparr>)"

definition lookup_row :: "('k, 'v) gomap \<Rightarrow> 'k \<Rightarrow> store_error + 'v" where
  "lookup_row m k = (case map_of m k of None \<Rightarrow> Inl StoreNotFound | Some v \<Rightarrow> Inr v)"

definition GetGuestSession :: "string \<Rightarrow> memory \<Rightarrow> store_error + guest_session" where
  "GetGuestSession token m = lookup_row (mSessions m) token"

definition TouchGuestSession :: "string \<Rightarrow> timestamp \<Rightarrow> timestamp \<Rightarrow> memory \<Rightarrow> store_error + memory" where
  "TouchGuestSession token lastSeen expiresAt m =
     (case map_of (mSessions m) token of
        None \<Rightarrow> Inl StoreNotFound
      | Some g \<Rightarrow> Inr (m\<lparr>mSessions :=
          AList.update token (g\<lparr>gsLastSeenAt := lastSeen, gsExpiresAt := expiresAt\<rparr>) (mSessions m)\<rparr>))"

definition CountSimulationsForToken :: "string \<Rightarrow> memory \<Rightarrow> nat" where
  "CountSimulationsForToken token m =
     foldl (\<lambda>count (i, row). if srGuestToken row = token then count + 1 else count) 0 (mSimulations m)"

definition purge_simulation :: "timestamp \<Rightarrow> memory \<times> nat \<Rightarrow> string \<times> simulation_row \<Rightarrow> memory \<times> nat" where
  "purge_simulation now = (\<lambda>(m, n) (i, row).
     if srShowcase row \<or> (case srExpiresAt row of None \<Rightarrow> True | Some t \<Rightarrow> now < t) then (m, n)
     else (m\<lparr>mSimulations := AList.delete i (mSimulations m), mEvents := AList.delete i (mEvents m),
             mSeen := AList.delete i (mSeen m), mSnapshots := AList.delete i (mSnapshots m)\<rparr>, n + 1))"

definition purge_session :: "timestamp \<Rightarrow> memory \<times> nat \<Rightarrow> string \<times> guest_session \<Rightarrow> memory \<times> nat" where
  "purge_session now = (\<lambda>(m, n) (token, g).
     if \<not> Expired g now then (m, n)
     else (m\<lparr>mSessions := AList.delete token (mSessions m),
             mSimulations := map (\<lambda>(i, row). (i, if srGuestToken row = token then row\<lparr>srGuestToken := ''''\<rparr> else row))
               (mSimulations m)\<rparr>, n + 1))"

definition PurgeExpired :: "timestamp \<Rightarrow> memory \<Rightarrow> purge_result \<times> memory" where
  "PurgeExpired now m0 =
     (let (m1, sims) = foldl (purge_simulation now) (m0, 0) (mSimulations m0);
          (m2, sessions) = foldl (purge_session now) (m1, 0) (mSessions m1)
      in (\<lparr>prSimulations = sims, prSessions = sessions\<rparr>, m2))"

definition CreateSimulation :: "simulation_row \<Rightarrow> memory \<Rightarrow> memory" where
  "CreateSimulation row m =
     (if map_of (mSimulations m) (srID row) \<noteq> None then m
      else m\<lparr>mSimulations := AList.update (srID row) row (mSimulations m)\<rparr>)"

definition GetSimulation :: "string \<Rightarrow> memory \<Rightarrow> store_error + simulation_row" where
  "GetSimulation i m = lookup_row (mSimulations m) i"

definition MarkShowcase :: "string \<Rightarrow> timestamp \<Rightarrow> memory \<Rightarrow> store_error + memory" where
  "MarkShowcase i completedAt m =
     (case map_of (mSimulations m) i of
        None \<Rightarrow> Inl StoreNotFound
      | Some row \<Rightarrow> Inr (m\<lparr>mSimulations :=
          AList.update i (row\<lparr>srShowcase := True, srCompletedAt := Some completedAt\<rparr>) (mSimulations m)\<rparr>))"

definition append_event :: "memory \<times> string list \<Rightarrow> stored_event \<Rightarrow> memory \<times> string list" where
  \<comment> \<open>the first loop of \<open>AppendEvents\<close>; the list is \<open>touched\<close>\<close>
  "append_event = (\<lambda>(m, touched) e.
     let i = seSimulationID e; seen = get_or [] (mSeen m) i
     in if seSequence e \<in> set seen then (m, touched)
        else (m\<lparr>mSeen := AList.update i (seSequence e # seen) (mSeen m),
                mEvents := AList.update i (get_or [] (mEvents m) i @ [e]) (mEvents m)\<rparr>,
              if i \<in> set touched then touched else i # touched))"

definition AppendEvents :: "stored_event list \<Rightarrow> memory \<Rightarrow> memory" where
  "AppendEvents es m0 =
     (let (m, touched) = foldl append_event (m0, []) es
      in m\<lparr>mEvents := foldl (\<lambda>evs i. AList.update i (sort_key seSequence (get_or [] evs i)) evs) (mEvents m) touched\<rparr>)"

fun collect_events :: "int \<Rightarrow> int \<Rightarrow> stored_event list \<Rightarrow> stored_event list \<Rightarrow> stored_event list" where
  "collect_events fromSequence limit out [] = out"
| "collect_events fromSequence limit out (e # es) =
     (if int (seSequence e) \<le> fromSequence then collect_events fromSequence limit out es
      else if limit > 0 \<and> int (length (out @ [e])) \<ge> limit then out @ [e]
      else collect_events fromSequence limit (out @ [e]) es)"

definition Events :: "string \<Rightarrow> int \<Rightarrow> int \<Rightarrow> memory \<Rightarrow> stored_event list option" where
  "Events i fromSequence limit m =
     (if limit < 0 then None
      else Some (collect_events fromSequence limit [] (get_or [] (mEvents m) i)))"

definition LatestSequence :: "string \<Rightarrow> memory \<Rightarrow> nat" where
  "LatestSequence i m =
     (let events = get_or [] (mEvents m) i in if events = [] then 0 else seSequence (last events))"

fun replace_snapshot :: "stored_snapshot \<Rightarrow> stored_snapshot list \<Rightarrow> stored_snapshot list option" where
  \<comment> \<open>the loop of \<open>SaveSnapshot\<close>: overwrite the snapshot with the same sequence, if there is one\<close>
  "replace_snapshot x [] = None"
| "replace_snapshot x (y # ys) =
     (if ssSequence y = ssSequence x then Some (x # ys) else map_option ((#) y) (replace_snapshot x ys))"

definition SaveSnapshot :: "stored_snapshot \<Rightarrow> memory \<Rightarrow> memory" where
  "SaveSnapshot x m =
     (let i = ssSimulationID x; xs = get_or [] (mSnapshots m) i
      in m\<lparr>mSnapshots := AList.update i
             (case replace_snapshot x xs of Some ys \<Rightarrow> ys | None \<Rightarrow> sort_key ssSequence (xs @ [x])) (mSnapshots m)\<rparr>)"

fun last_at_or_before :: "int \<Rightarrow> stored_snapshot option \<Rightarrow> stored_snapshot list \<Rightarrow> stored_snapshot option" where
  "last_at_or_before n best [] = best"
| "last_at_or_before n best (x # xs) =
     (if int (ssSequence x) \<le> n then last_at_or_before n (Some x) xs else best)"

definition SnapshotAtOrBefore :: "string \<Rightarrow> int \<Rightarrow> memory \<Rightarrow> store_error + stored_snapshot" where
  "SnapshotAtOrBefore i n m =
     (case last_at_or_before n None (get_or [] (mSnapshots m) i) of
        None \<Rightarrow> Inl StoreNotFound | Some x \<Rightarrow> Inr x)"

definition SaveComparison :: "comparison_row \<Rightarrow> memory \<Rightarrow> memory" where
  "SaveComparison x m = m\<lparr>mComparisons := AList.update (crID x) x (mComparisons m)\<rparr>"

definition GetComparison :: "string \<Rightarrow> memory \<Rightarrow> store_error + comparison_row" where
  "GetComparison i m = lookup_row (mComparisons m) i"

subsection \<open>The representation\<close>

definition log_ok :: "stored_event list \<Rightarrow> bool" where
  "log_ok es \<longleftrightarrow> sorted (map seSequence es) \<and> distinct (map seSequence es)"

definition log_of :: "memory \<Rightarrow> string \<Rightarrow> stored_event list" where
  "log_of m i = get_or [] (mEvents m) i"

definition snapshots_of :: "memory \<Rightarrow> string \<Rightarrow> stored_snapshot list" where
  "snapshots_of m i = get_or [] (mSnapshots m) i"

definition memory_wf :: "memory \<Rightarrow> bool" where
  "memory_wf m \<longleftrightarrow> distinct_keys (mSessions m) \<and> distinct_keys (mSimulations m) \<and>
     distinct_keys (mEvents m) \<and> distinct_keys (mSeen m) \<and> distinct_keys (mSnapshots m) \<and> distinct_keys (mComparisons m) \<and>
     (\<forall>i. log_ok (log_of m i) \<and> set (get_or [] (mSeen m) i) = seSequence ` set (log_of m i) \<and>
        (\<forall>e \<in> set (log_of m i). seSimulationID e = i)) \<and>
     (\<forall>i. sorted (map ssSequence (snapshots_of m i)) \<and> distinct (map ssSequence (snapshots_of m i)))"

lemma NewMemory_wf: "memory_wf NewMemory"
  by (simp add: memory_wf_def NewMemory_def log_of_def snapshots_of_def get_or_def log_ok_def)

lemma memory_wfD:
  assumes "memory_wf m"
  shows "log_ok (log_of m i)" "set (get_or [] (mSeen m) i) = seSequence ` set (log_of m i)"
    "e \<in> set (log_of m i) \<Longrightarrow> seSimulationID e = i"
    "sorted (map ssSequence (snapshots_of m i))" "distinct (map ssSequence (snapshots_of m i))"
  using assms unfolding memory_wf_def by blast+

subsection \<open>Appending events\<close>

definition event_at :: "stored_event list \<Rightarrow> nat \<Rightarrow> stored_event option" where
  "event_at es n = find (\<lambda>e. seSequence e = n) es"

definition raw_log_ok :: "memory \<Rightarrow> bool" where
  \<comment> \<open>the logs between the two loops: not sorted yet\<close>
  "raw_log_ok m \<longleftrightarrow> (\<forall>i. distinct (map seSequence (log_of m i)) \<and>
     set (get_or [] (mSeen m) i) = seSequence ` set (log_of m i) \<and> (\<forall>e \<in> set (log_of m i). seSimulationID e = i))"

lemma event_at_iff: "distinct (map seSequence es) \<Longrightarrow> event_at es n = Some e \<longleftrightarrow> e \<in> set es \<and> seSequence e = n"
  by (induction es) (auto simp: event_at_def)

lemma event_at_None: "event_at es n = None \<longleftrightarrow> n \<notin> seSequence ` set es"
  by (auto simp: event_at_def find_None_iff)

lemma event_at_snoc: "event_at (es @ [e]) n = (case event_at es n of Some x \<Rightarrow> Some x | None \<Rightarrow> if seSequence e = n then Some e else None)"
  by (induction es) (auto simp: event_at_def)

lemma event_at_sort:
  assumes "distinct (map seSequence es)"
  shows "event_at (sort_key seSequence es) n = event_at es n"
proof -
  have "distinct (map seSequence (sort_key seSequence es))" using assms by (simp add: distinct_map)
  then have "event_at (sort_key seSequence es) n = Some e \<longleftrightarrow> event_at es n = Some e" for e
    using event_at_iff [OF assms] event_at_iff by simp
  then show ?thesis by (metis not_Some_eq)
qed

definition offered :: "string \<Rightarrow> nat \<Rightarrow> stored_event list \<Rightarrow> stored_event option" where
  \<comment> \<open>the first event of a batch with this simulation and sequence\<close>
  "offered i n es = find (\<lambda>e. seSimulationID e = i \<and> seSequence e = n) es"

definition first_some :: "'a option \<Rightarrow> 'a option \<Rightarrow> 'a option" where
  "first_some a b = (case a of Some x \<Rightarrow> Some x | None \<Rightarrow> b)"

lemma first_some_simps [simp]: "first_some (Some x) b = Some x" "first_some None b = b" "first_some a None = a"
  "first_some (first_some a b) c = first_some a (first_some b c)"
  by (simp_all add: first_some_def split: option.splits)

definition append_rel :: "memory \<Rightarrow> memory \<times> string list \<Rightarrow> stored_event list \<Rightarrow> bool" where
  \<comment> \<open>what the first loop has done to the store after a prefix of the batch\<close>
  "append_rel m0 st es \<longleftrightarrow> raw_log_ok (fst st) \<and>
     (\<forall>i n. event_at (log_of (fst st) i) n = first_some (event_at (log_of m0 i) n) (offered i n es)) \<and>
     (\<forall>i. i \<notin> set (snd st) \<longrightarrow> log_of (fst st) i = log_of m0 i) \<and> distinct (snd st) \<and>
     (distinct_keys (mEvents m0) \<longrightarrow> distinct_keys (mEvents (fst st))) \<and> (distinct_keys (mSeen m0) \<longrightarrow> distinct_keys (mSeen (fst st))) \<and>
     mSessions (fst st) = mSessions m0 \<and> mSimulations (fst st) = mSimulations m0 \<and>
     mSnapshots (fst st) = mSnapshots m0 \<and> mComparisons (fst st) = mComparisons m0"

lemma append_event_rel:
  assumes r: "append_rel m0 st es"
  shows "append_rel m0 (append_event st e) (es @ [e])"
proof -
  obtain m touched where st: "st = (m, touched)" by (cases st)
  let ?i = "seSimulationID e"
  have raw: "raw_log_ok m" using r by (simp add: append_rel_def st)
  then have seen: "set (get_or [] (mSeen m) ?i) = seSequence ` set (log_of m ?i)" by (simp add: raw_log_ok_def)
  have off: "offered i n (es @ [e]) = first_some (offered i n es) (if ?i = i \<and> seSequence e = n then Some e else None)" for i n
    by (induction es) (auto simp: offered_def)
  show ?thesis
  proof (cases "seSequence e \<in> set (get_or [] (mSeen m) ?i)")
    case True
    then have known: "event_at (log_of m ?i) (seSequence e) \<noteq> None" unfolding seen event_at_None by blast
    have "first_some (event_at (log_of m0 i) n) (offered i n (es @ [e])) = first_some (event_at (log_of m0 i) n) (offered i n es)" for i n
    proof (cases "?i = i \<and> seSequence e = n")
      case True
      then have "first_some (event_at (log_of m0 i) n) (offered i n es) \<noteq> None"
        using known r by (auto simp: append_rel_def st)
      then show ?thesis unfolding off by (auto simp: first_some_def split: option.splits)
    next
      case False
      then show ?thesis unfolding off by auto
    qed
    then show ?thesis using r True by (simp add: append_rel_def st append_event_def Let_def)
  next
    case False
    let ?m = "m\<lparr>mSeen := AList.update ?i (seSequence e # get_or [] (mSeen m) ?i) (mSeen m),
        mEvents := AList.update ?i (log_of m ?i @ [e]) (mEvents m)\<rparr>"
    let ?t = "if ?i \<in> set touched then touched else ?i # touched"
    have step: "append_event st e = (?m, ?t)" using False by (simp add: append_event_def st Let_def log_of_def)
    have log: "log_of ?m i = (if i = ?i then log_of m ?i @ [e] else log_of m i)" for i
      by (simp add: log_of_def get_or_update)
    have new: "event_at (log_of m ?i) (seSequence e) = None" using False unfolding seen event_at_None .
    have "raw_log_ok ?m"
      using raw False unfolding raw_log_ok_def log by (auto simp: get_or_update seen)
    moreover have "event_at (log_of ?m i) n = first_some (event_at (log_of m0 i) n) (offered i n (es @ [e]))" for i n
    proof -
      have "event_at (log_of m i) n = first_some (event_at (log_of m0 i) n) (offered i n es)"
        using r by (simp add: append_rel_def st)
      then show ?thesis unfolding log off by (auto simp: event_at_snoc first_some_def split: option.splits)
    qed
    moreover have "i \<notin> set ?t \<Longrightarrow> log_of ?m i = log_of m0 i" for i
      using r unfolding log by (auto simp: append_rel_def st split: if_splits)
    ultimately show ?thesis
      using r unfolding append_rel_def step by (auto simp: st)
  qed
qed

lemma append_fold_rel:
  assumes "memory_wf m"
  shows "append_rel m (foldl append_event (m, []) es) es"
proof (induction es rule: rev_induct)
  case Nil
  then show ?case
    using memory_wfD [OF assms] by (simp add: append_rel_def raw_log_ok_def offered_def log_ok_def)
next
  case (snoc e es)
  then show ?case using append_event_rel by simp
qed

lemma sort_touched:
  "distinct touched \<Longrightarrow>
   get_or [] (foldl (\<lambda>evs i. AList.update i (sort_key seSequence (get_or [] evs i)) evs) evs touched) i =
     (if i \<in> set touched then sort_key seSequence (get_or [] evs i) else get_or [] evs i)"
proof (induction touched arbitrary: evs)
  case (Cons j js)
  then show ?case by (auto simp: get_or_update)
qed simp

lemma sort_touched_keys: "distinct_keys evs \<Longrightarrow>
  distinct_keys (foldl (\<lambda>evs i. AList.update i (sort_key seSequence (get_or [] evs i)) evs) evs touched)"
  by (induction touched arbitrary: evs) auto

lemma AppendEvents_spec:
  assumes wf: "memory_wf m"
  shows "memory_wf (AppendEvents es m)"
    "event_at (log_of (AppendEvents es m) i) n = first_some (event_at (log_of m i) n) (offered i n es)"
    "mSessions (AppendEvents es m) = mSessions m" "mSimulations (AppendEvents es m) = mSimulations m"
    "mSnapshots (AppendEvents es m) = mSnapshots m" "mComparisons (AppendEvents es m) = mComparisons m"
proof -
  obtain m1 touched where f: "foldl append_event (m, []) es = (m1, touched)" by fastforce
  have r: "append_rel m (m1, touched) es" using append_fold_rel [OF wf, of es] unfolding f .
  let ?m = "AppendEvents es m"
  have log: "log_of ?m j = (if j \<in> set touched then sort_key seSequence (log_of m1 j) else log_of m1 j)" for j
  proof -
    have "distinct touched" using r by (simp add: append_rel_def)
    then show ?thesis unfolding AppendEvents_def f log_of_def by (simp add: sort_touched)
  qed
  have raw: "distinct (map seSequence (log_of m1 j))" "set (get_or [] (mSeen m1) j) = seSequence ` set (log_of m1 j)"
    "\<forall>e \<in> set (log_of m1 j). seSimulationID e = j" for j
    using r by (auto simp: append_rel_def raw_log_ok_def)
  have set_log: "set (log_of ?m j) = set (log_of m1 j)" for j unfolding log by simp
  have ok: "log_ok (log_of ?m j)" for j
  proof (cases "j \<in> set touched")
    case True
    then show ?thesis using raw(1) [of j] unfolding log log_ok_def by (simp add: distinct_map)
  next
    case False
    then have "log_of m1 j = log_of m j" using r by (simp add: append_rel_def)
    then show ?thesis using False memory_wfD(1) [OF wf, of j] unfolding log by simp
  qed
  have parts: "mSeen ?m = mSeen m1" "mSessions ?m = mSessions m1" "mSimulations ?m = mSimulations m1"
    "mSnapshots ?m = mSnapshots m1" "mComparisons ?m = mComparisons m1"
    by (simp_all add: AppendEvents_def f)
  then show "mSessions ?m = mSessions m" "mSimulations ?m = mSimulations m" "mSnapshots ?m = mSnapshots m"
    "mComparisons ?m = mComparisons m"
    using r by (simp_all add: append_rel_def)
  moreover have "distinct_keys (mEvents ?m)"
    using r wf sort_touched_keys by (auto simp: AppendEvents_def f append_rel_def memory_wf_def)
  ultimately show "memory_wf ?m"
    using wf r ok raw(2,3) set_log unfolding memory_wf_def parts(1) snapshots_of_def by (simp add: append_rel_def)
  have "event_at (log_of ?m i) n = event_at (log_of m1 i) n"
    unfolding log using event_at_sort [OF raw(1)] by simp
  then show "event_at (log_of ?m i) n = first_some (event_at (log_of m i) n) (offered i n es)"
    using r by (simp add: append_rel_def)
qed

lemma append_known:
  assumes "\<And>e. e \<in> set es \<Longrightarrow> seSequence e \<in> set (get_or [] (mSeen m) (seSimulationID e))"
  shows "AppendEvents es m = m"
proof -
  have "foldl append_event (m, touched) es = (m, touched)" for touched
    using assms by (induction es) (auto simp: append_event_def Let_def)
  then show ?thesis by (simp add: AppendEvents_def)
qed

lemma log_ok_eqI:
  assumes "log_ok xs" "log_ok ys" "\<And>n. event_at xs n = event_at ys n"
  shows "xs = ys"
proof (rule map_sorted_distinct_set_unique)
  have d: "distinct (map seSequence xs)" "distinct (map seSequence ys)" using assms by (simp_all add: log_ok_def)
  show same: "set xs = set ys"
    using event_at_iff [OF d(1)] event_at_iff [OF d(2)] assms(3) by (metis subsetI subset_antisym)
  show "inj_on seSequence (set xs \<union> set ys)" using d same by (simp add: distinct_map)
qed (use assms in \<open>simp_all add: log_ok_def\<close>)

lemma AppendEvents_in_order:
  assumes "memory_wf m" "log_ok (log_of m i @ es)" "\<forall>e \<in> set es. seSimulationID e = i"
  shows "log_of (AppendEvents es m) i = log_of m i @ es"
proof (rule log_ok_eqI)
  fix n
  have "offered i n es = event_at es n"
    using assms(3) by (induction es) (auto simp: offered_def event_at_def)
  moreover have "event_at (xs @ es) n = first_some (event_at xs n) (event_at es n)" for xs
    by (induction xs) (auto simp: event_at_def)
  ultimately show "event_at (log_of (AppendEvents es m) i) n = event_at (log_of m i @ es) n"
    by (simp add: AppendEvents_spec(2) [OF assms(1)])
qed (use assms AppendEvents_spec(1) [OF assms(1)] memory_wfD(1) in \<open>simp_all add: memory_wf_def\<close>)

text \<open>
  C35.  Appending is safe to retry: the log of every simulation stays sorted by sequence without
  repeats, an event already stored is never overwritten, a batch adds the first event it offers for
  each free sequence, and appending the same batch again changes nothing.
\<close>

theorem AppendEvents_retry_safe:
  assumes "memory_wf m"
  shows "memory_wf (AppendEvents es m) \<and> AppendEvents es (AppendEvents es m) = AppendEvents es m \<and>
    (\<forall>i. sorted (map seSequence (log_of (AppendEvents es m) i)) \<and> distinct (map seSequence (log_of (AppendEvents es m) i))) \<and>
    (\<forall>i n. event_at (log_of (AppendEvents es m) i) n =
       (case event_at (log_of m i) n of Some e \<Rightarrow> Some e
        | None \<Rightarrow> find (\<lambda>e. seSimulationID e = i \<and> seSequence e = n) es))"
proof -
  let ?m = "AppendEvents es m"
  note S = AppendEvents_spec [OF assms]
  have "seSequence e \<in> set (get_or [] (mSeen ?m) (seSimulationID e))" if e: "e \<in> set es" for e
  proof -
    have "offered (seSimulationID e) (seSequence e) es \<noteq> None" using e by (auto simp: offered_def find_None_iff)
    then have "event_at (log_of ?m (seSimulationID e)) (seSequence e) \<noteq> None"
      unfolding S(2) by (auto simp: first_some_def split: option.splits)
    then show ?thesis using memory_wfD(2) [OF S(1)] by (simp add: event_at_None)
  qed
  then have "AppendEvents es ?m = ?m" by (rule append_known)
  then show ?thesis
    using S(1,2) memory_wfD(1) [OF S(1)] by (simp add: log_ok_def offered_def first_some_def)
qed

definition test_event :: "nat \<Rightarrow> stored_event" where
  "test_event n = \<lparr>seSimulationID = ''sim'', seSequence = n, seVirtualTime = 0, seType = EventOrderPlaced,
     sePayload = Raw JNull, seTraceID = '''', seRecordedAt = 0\<rparr>"

theorem AppendEvents_retry_safe_witness:
  "memory_wf (AppendEvents [test_event 2, test_event 1] NewMemory) \<and>
   event_at (log_of (AppendEvents [test_event 2, test_event 1] NewMemory) ''sim'') 1 = Some (test_event 1)"
  using AppendEvents_retry_safe [OF NewMemory_wf, of "[test_event 2, test_event 1]"]
  by (simp add: log_of_def NewMemory_def get_or_def event_at_def test_event_def)

subsection \<open>Reading the log\<close>

lemma sorted_last_max: "sorted (map f xs) \<Longrightarrow> x \<in> set xs \<Longrightarrow> f x \<le> f (last xs)"
  by (induction xs rule: rev_induct) (auto simp: sorted_append)

abbreviation events_after :: "int \<Rightarrow> stored_event list \<Rightarrow> stored_event list" where
  "events_after n es \<equiv> filter (\<lambda>e. n < int (seSequence e)) es"

lemma collect_events_take:
  "0 < limit \<Longrightarrow> int (length out) < limit \<Longrightarrow>
   collect_events n limit out es = out @ take (nat (limit - int (length out))) (events_after n es)"
proof (induction n limit out es rule: collect_events.induct)
  case (2 n limit out e es)
  show ?case
  proof (cases "int (seSequence e) \<le> n")
    case False
    have "nat (limit - int (length out)) = Suc (nat (limit - int (length out) - 1))" using 2(3,4) by simp
    then show ?thesis using False 2 by (simp add: algebra_simps)
  qed (use 2 in simp)
qed simp

lemma collect_events_all: "\<not> 0 < limit \<Longrightarrow> collect_events n limit out es = out @ events_after n es"
  by (induction n limit out es rule: collect_events.induct) auto

lemma Events_page:
  "0 < limit \<Longrightarrow> Events i n limit m = Some (take (nat limit) (events_after n (log_of m i)))"
  "Events i n 0 m = Some (events_after n (log_of m i))"
  using collect_events_take [of limit "[]" n "log_of m i"] collect_events_all [of 0 n "[]" "log_of m i"]
  by (simp_all add: Events_def log_of_def)

lemma LatestSequence_last: "LatestSequence i m = (if log_of m i = [] then 0 else seSequence (last (log_of m i)))"
  by (simp add: LatestSequence_def log_of_def Let_def)

text \<open>
  What a reader of the log relies on: pages are the next events in sequence order, and the latest
  sequence is that of the last event.
\<close>

locale event_log =
  fixes log :: "'s \<Rightarrow> string \<Rightarrow> stored_event list"
    and page :: "string \<Rightarrow> int \<Rightarrow> int \<Rightarrow> 's \<Rightarrow> stored_event list option"
    and latest :: "string \<Rightarrow> 's \<Rightarrow> nat"
    and wf :: "'s \<Rightarrow> bool"
  assumes ordered: "wf s \<Longrightarrow> log_ok (log s i)"
    and page_spec: "wf s \<Longrightarrow> 0 < limit \<Longrightarrow> page i n limit s = Some (take (nat limit) (events_after n (log s i)))"
    and latest_spec: "wf s \<Longrightarrow> latest i s = (if log s i = [] then 0 else seSequence (last (log s i)))"
begin

lemma latest_bound: "wf s \<Longrightarrow> e \<in> set (log s i) \<Longrightarrow> seSequence e \<le> latest i s"
  using ordered [of s i] latest_spec [of s i] sorted_last_max [of seSequence "log s i" e]
  by (auto simp: log_ok_def)

lemma page_nonempty:
  assumes "wf s" "0 < limit" "page i n limit s = Some es" "es \<noteq> []"
  shows "n < int (seSequence (last es))"
proof -
  have "es = take (nat limit) (events_after n (log s i))" using assms page_spec by simp
  then have "last es \<in> set (events_after n (log s i))" using assms(4) by (metis in_set_takeD last_in_set)
  then show ?thesis by simp
qed

end

interpretation memory_log: event_log log_of Events LatestSequence memory_wf
  by unfold_locales (simp_all add: memory_wfD(1) Events_page LatestSequence_last)

subsection \<open>Snapshots\<close>

lemma replace_snapshot_None: "replace_snapshot x xs = None \<longleftrightarrow> ssSequence x \<notin> ssSequence ` set xs"
  by (induction xs) auto

lemma replace_snapshot_Some:
  assumes "replace_snapshot x xs = Some ys" "distinct (map ssSequence xs)"
  shows "map ssSequence ys = map ssSequence xs" "set ys = insert x {y \<in> set xs. ssSequence y \<noteq> ssSequence x}"
proof -
  have "map ssSequence ys = map ssSequence xs \<and> set ys = insert x {y \<in> set xs. ssSequence y \<noteq> ssSequence x}"
    using assms
  proof (induction xs arbitrary: ys)
    case (Cons y xs)
    show ?case
    proof (cases "ssSequence y = ssSequence x")
      case True
      moreover have "ssSequence z \<noteq> ssSequence x" if "z \<in> set xs" for z
        using Cons.prems(2) True that by (metis distinct.simps(2) image_eqI list.simps(9) list.set_map)
      ultimately show ?thesis using Cons.prems(1) by auto
    next
      case False
      then obtain zs where zs: "replace_snapshot x xs = Some zs" "ys = y # zs" using Cons.prems(1) by auto
      then show ?thesis using Cons.IH [OF zs(1)] Cons.prems(2) False by auto
    qed
  qed simp
  then show "map ssSequence ys = map ssSequence xs" "set ys = insert x {y \<in> set xs. ssSequence y \<noteq> ssSequence x}" by auto
qed

lemma SaveSnapshot_set:
  assumes wf: "memory_wf m"
  shows "memory_wf (SaveSnapshot x m)"
    "set (snapshots_of (SaveSnapshot x m) i) =
       (if i = ssSimulationID x then insert x {y \<in> set (snapshots_of m i). ssSequence y \<noteq> ssSequence x} else set (snapshots_of m i))"
proof -
  let ?i = "ssSimulationID x"
  let ?xs = "snapshots_of m ?i"
  let ?ys = "case replace_snapshot x ?xs of Some ys \<Rightarrow> ys | None \<Rightarrow> sort_key ssSequence (?xs @ [x])"
  have new: "snapshots_of (SaveSnapshot x m) j = (if j = ?i then ?ys else snapshots_of m j)" for j
    unfolding snapshots_of_def by (simp add: SaveSnapshot_def Let_def get_or_update)
  have old: "sorted (map ssSequence ?xs)" "distinct (map ssSequence ?xs)" using memory_wfD(4,5) [OF wf] by blast+
  have ys: "sorted (map ssSequence ?ys) \<and> distinct (map ssSequence ?ys) \<and>
      set ?ys = insert x {y \<in> set ?xs. ssSequence y \<noteq> ssSequence x}"
  proof (cases "replace_snapshot x ?xs")
    case None
    then have x: "ssSequence x \<notin> ssSequence ` set ?xs" by (simp add: replace_snapshot_None)
    then have "distinct (map ssSequence (?xs @ [x]))" using old(2) by simp
    then have "distinct (map ssSequence (sort_key ssSequence (?xs @ [x])))"
      by (metis mset_sort mset_map mset_eq_imp_distinct_iff)
    moreover have "{y \<in> set ?xs. ssSequence y \<noteq> ssSequence x} = set ?xs" using x by (auto simp: image_iff)
    ultimately show ?thesis using None by simp
  next
    case (Some ys)
    then show ?thesis using replace_snapshot_Some [OF Some old(2)] old by simp
  qed
  then show "set (snapshots_of (SaveSnapshot x m) i) =
       (if i = ?i then insert x {y \<in> set (snapshots_of m i). ssSequence y \<noteq> ssSequence x} else set (snapshots_of m i))"
    unfolding new by simp
  have same: "mSessions (SaveSnapshot x m) = mSessions m" "mSimulations (SaveSnapshot x m) = mSimulations m"
    "mEvents (SaveSnapshot x m) = mEvents m" "mSeen (SaveSnapshot x m) = mSeen m"
    "mComparisons (SaveSnapshot x m) = mComparisons m"
    "distinct_keys (mSnapshots m) \<Longrightarrow> distinct_keys (mSnapshots (SaveSnapshot x m))"
    by (simp_all add: SaveSnapshot_def Let_def)
  have "sorted (map ssSequence (snapshots_of (SaveSnapshot x m) j)) \<and> distinct (map ssSequence (snapshots_of (SaveSnapshot x m) j))" for j
  proof (cases "j = ?i")
    case True
    show ?thesis unfolding new using True ys by (simp only: if_True simp_thms)
  next
    case False
    show ?thesis unfolding new using False memory_wfD(4,5) [OF wf] by (simp only: if_False)
  qed
  moreover have "log_of (SaveSnapshot x m) j = log_of m j" for j by (simp add: log_of_def same(3))
  ultimately show "memory_wf (SaveSnapshot x m)"
    using wf same unfolding memory_wf_def by simp
qed

lemma last_at_or_before_spec:
  assumes "sorted (map ssSequence xs)"
  shows "last_at_or_before n best xs =
    (let low = filter (\<lambda>x. int (ssSequence x) \<le> n) xs in if low = [] then best else Some (last low))"
  using assms
proof (induction n best xs rule: last_at_or_before.induct)
  case (2 n best x xs)
  have above: "filter (\<lambda>y. int (ssSequence y) \<le> n) xs = []" if "\<not> int (ssSequence x) \<le> n"
    using 2(2) that by (force simp: filter_empty_conv)
  show ?case
    using 2 above by (auto simp: Let_def)
qed simp

text \<open>
  Saving a snapshot replaces the one with the same sequence or files a new one, and a lookup
  returns the newest snapshot at or before the target, reporting not-found exactly when there is
  none.
\<close>

theorem snapshot_lookup_newest:
  assumes "memory_wf m"
  shows "(case SnapshotAtOrBefore i n (SaveSnapshot x m) of
      Inl e \<Rightarrow> e = StoreNotFound \<and> (\<forall>y \<in> set (snapshots_of (SaveSnapshot x m) i). n < int (ssSequence y))
    | Inr y \<Rightarrow> y \<in> set (snapshots_of (SaveSnapshot x m) i) \<and> int (ssSequence y) \<le> n \<and>
        (\<forall>z \<in> set (snapshots_of (SaveSnapshot x m) i). int (ssSequence z) \<le> n \<longrightarrow> ssSequence z \<le> ssSequence y)) \<and>
    set (snapshots_of (SaveSnapshot x m) i) =
      (if i = ssSimulationID x then insert x {y \<in> set (snapshots_of m i). ssSequence y \<noteq> ssSequence x}
       else set (snapshots_of m i))"
proof -
  let ?xs = "snapshots_of (SaveSnapshot x m) i"
  let ?low = "filter (\<lambda>x. int (ssSequence x) \<le> n) ?xs"
  have s: "sorted (map ssSequence ?xs)" by (rule memory_wfD(4) [OF SaveSnapshot_set(1) [OF assms]])
  have r: "SnapshotAtOrBefore i n (SaveSnapshot x m) = (if ?low = [] then Inl StoreNotFound else Inr (last ?low))"
    using last_at_or_before_spec [OF s, of n None]
    by (auto simp: SnapshotAtOrBefore_def snapshots_of_def Let_def split: option.splits)
  have "case SnapshotAtOrBefore i n (SaveSnapshot x m) of
      Inl e \<Rightarrow> e = StoreNotFound \<and> (\<forall>y \<in> set ?xs. n < int (ssSequence y))
    | Inr y \<Rightarrow> y \<in> set ?xs \<and> int (ssSequence y) \<le> n \<and>
        (\<forall>z \<in> set ?xs. int (ssSequence z) \<le> n \<longrightarrow> ssSequence z \<le> ssSequence y)"
  proof (cases "?low = []")
    case True
    then show ?thesis unfolding r by (auto simp: filter_empty_conv not_le)
  next
    case False
    have "last ?low \<in> set ?low" using False by (rule last_in_set)
    then have "last ?low \<in> set ?xs \<and> int (ssSequence (last ?low)) \<le> n" by (simp only: set_filter mem_Collect_eq)
    moreover have "ssSequence z \<le> ssSequence (last ?low)" if "z \<in> set ?low" for z
        by (rule sorted_last_max [OF sorted_filter [OF s] that])
    ultimately show ?thesis unfolding r using False by simp
  qed
  then show ?thesis using SaveSnapshot_set(2) [OF assms] by simp
qed

definition test_snapshot :: "nat \<Rightarrow> stored_snapshot" where
  "test_snapshot n = \<lparr>ssSimulationID = ''sim'', ssSequence = n, ssVirtualTime = 0, ssPayload = Raw JNull, ssRecordedAt = 0\<rparr>"

theorem snapshot_lookup_newest_witness:
  "SnapshotAtOrBefore ''sim'' 9 (SaveSnapshot (test_snapshot 7) NewMemory) = Inr (test_snapshot 7)"
proof -
  let ?m = "SaveSnapshot (test_snapshot 7) NewMemory"
  have xs: "set (snapshots_of ?m ''sim'') = {test_snapshot 7}"
    using conjunct2 [OF snapshot_lookup_newest [OF NewMemory_wf, where i = "''sim''" and n = 9 and x = "test_snapshot 7"]]
    by (simp add: snapshots_of_def NewMemory_def get_or_def test_snapshot_def)
  have "case SnapshotAtOrBefore ''sim'' 9 ?m of
      Inl e \<Rightarrow> e = StoreNotFound \<and> (\<forall>y \<in> set (snapshots_of ?m ''sim''). 9 < int (ssSequence y))
    | Inr y \<Rightarrow> y \<in> set (snapshots_of ?m ''sim'') \<and> int (ssSequence y) \<le> 9 \<and>
        (\<forall>z \<in> set (snapshots_of ?m ''sim''). int (ssSequence z) \<le> 9 \<longrightarrow> ssSequence z \<le> ssSequence y)"
    by (rule conjunct1 [OF snapshot_lookup_newest [OF NewMemory_wf]])
  then show ?thesis
    unfolding xs by (cases "SnapshotAtOrBefore ''sim'' 9 ?m") (simp_all add: test_snapshot_def)
qed

subsection \<open>The persisted form\<close>

text \<open>
  Persisting an event and reading it back keeps everything but the causation id (which the
  store does not keep) and the trace id if the caller gives another one; the schema version comes
  back as 1.  Persisting fails exactly on a payload that cannot be encoded.
\<close>

theorem stored_event_roundtrip:
  "(EventFrom e trace recorded = None \<longleftrightarrow> \<not> encodable (evPayload e)) \<and>
   (\<forall>r. EventFrom e trace recorded = Some r \<longrightarrow>
      event_domain r = Some (e\<lparr>evSchemaVersion := 1, evTraceID := trace, evCausationID := ''''\<rparr>))"
  by (auto simp: EventFrom_def event_domain_def marshal_def unmarshal_def split: option.splits)

theorem stored_event_roundtrip_witness:
  "\<exists>r. EventFrom ((buildSnapshotEvent (New (\<lambda>_ _. 0) ''sim'' 1 0))\<lparr>evPayload := JBool True\<rparr>) ''t'' 5 = Some r \<and>
     map_option evTraceID (event_domain r) = Some ''t''"
proof -
  let ?e = "(buildSnapshotEvent (New (\<lambda>_ _. 0) ''sim'' 1 0))\<lparr>evPayload := JBool True\<rparr>"
  obtain r where "EventFrom ?e ''t'' 5 = Some r" by (simp add: EventFrom_def marshal_def)
  then show ?thesis using stored_event_roundtrip [of ?e "''t''" 5] by simp
qed

subsection \<open>Retention\<close>

definition lapsed :: "timestamp \<Rightarrow> simulation_row \<Rightarrow> bool" where
  "lapsed now row \<longleftrightarrow> \<not> srShowcase row \<and> (\<exists>t. srExpiresAt row = Some t \<and> t \<le> now)"

definition purge_sims_ok :: "memory \<Rightarrow> string set \<Rightarrow> memory \<times> nat \<Rightarrow> bool" where
  \<comment> \<open>the runs in the set are gone with everything stored about them, and counted\<close>
  "purge_sims_ok m gone st \<longleftrightarrow>
     (\<forall>i. map_of (mSimulations (fst st)) i = (if i \<in> gone then None else map_of (mSimulations m) i)) \<and>
     (\<forall>i. log_of (fst st) i = (if i \<in> gone then [] else log_of m i)) \<and>
     (\<forall>i. snapshots_of (fst st) i = (if i \<in> gone then [] else snapshots_of m i)) \<and>
     snd st = card gone \<and> finite gone \<and> mSessions (fst st) = mSessions m \<and> mComparisons (fst st) = mComparisons m \<and>
     (memory_wf m \<longrightarrow> memory_wf (fst st))"

lemma lapsed_skip: "srShowcase row \<or> (case srExpiresAt row of None \<Rightarrow> True | Some t \<Rightarrow> now < t) \<longleftrightarrow> \<not> lapsed now row"
  by (auto simp: lapsed_def split: option.splits)

lemma purge_sims_step:
  assumes ok: "purge_sims_ok m gone st" and i: "i \<notin> gone"
  shows "purge_sims_ok m (if lapsed now row then insert i gone else gone) (purge_simulation now st (i, row))"
proof (cases "lapsed now row")
  case True
  obtain m' n where st: "st = (m', n)" by (cases st)
  let ?m = "m'\<lparr>mSimulations := AList.delete i (mSimulations m'), mEvents := AList.delete i (mEvents m'),
             mSeen := AList.delete i (mSeen m'), mSnapshots := AList.delete i (mSnapshots m')\<rparr>"
  have logs: "log_of ?m j = (if j = i then [] else log_of m' j)" "snapshots_of ?m j = (if j = i then [] else snapshots_of m' j)"
    "get_or [] (mSeen ?m) j = (if j = i then [] else get_or [] (mSeen m') j)" for j
    by (simp_all add: log_of_def snapshots_of_def get_or_delete)
  have wf: "memory_wf ?m" if "memory_wf m'"
  proof -
    have "log_ok (log_of ?m j) \<and> set (get_or [] (mSeen ?m) j) = seSequence ` set (log_of ?m j) \<and>
        (\<forall>e \<in> set (log_of ?m j). seSimulationID e = j)" for j
      unfolding logs using memory_wfD(1-3) [OF that] by (simp add: log_ok_def)
    moreover have "sorted (map ssSequence (snapshots_of ?m j)) \<and> distinct (map ssSequence (snapshots_of ?m j))" for j
      unfolding logs using memory_wfD(4,5) [OF that] by simp
    ultimately show ?thesis using that unfolding memory_wf_def by simp
  qed
  have "purge_simulation now st (i, row) = (?m, n + 1)"
    using True lapsed_skip [of row now] by (simp add: st purge_simulation_def)
  then show ?thesis
    using ok i True wf by (simp add: purge_sims_ok_def st logs map_of_delete)
next
  case False
  then show ?thesis using ok lapsed_skip [of row now] by (cases st) (simp add: purge_simulation_def)
qed

lemma purge_sims_fold:
  "purge_sims_ok m gone st \<Longrightarrow> distinct_keys xs \<Longrightarrow> fst ` set xs \<inter> gone = {} \<Longrightarrow>
   purge_sims_ok m (gone \<union> {i. \<exists>row. (i, row) \<in> set xs \<and> lapsed now row}) (foldl (purge_simulation now) st xs)"
proof (induction xs arbitrary: st gone)
  case (Cons x xs)
  obtain i row where x: "x = (i, row)" by (cases x)
  let ?g = "if lapsed now row then insert i gone else gone"
  have "i \<notin> gone" using Cons.prems(3) x by auto
  then have step: "purge_sims_ok m ?g (purge_simulation now st (i, row))" by (rule purge_sims_step [OF Cons.prems(1)])
  have "fst ` set xs \<inter> ?g = {}" using Cons.prems(2,3) x by auto
  from Cons.IH [OF step _ this] Cons.prems(2)
  have "purge_sims_ok m (?g \<union> {i. \<exists>row. (i, row) \<in> set xs \<and> lapsed now row}) (foldl (purge_simulation now) st (x # xs))"
    by (simp add: x)
  moreover have "?g \<union> {i. \<exists>row. (i, row) \<in> set xs \<and> lapsed now row} = gone \<union> {i. \<exists>row. (i, row) \<in> set (x # xs) \<and> lapsed now row}"
    using x by auto
  ultimately show ?case by simp
qed simp

definition release :: "string set \<Rightarrow> simulation_row \<Rightarrow> simulation_row" where
  \<comment> \<open>a run outlives the session that made it\<close>
  "release tokens row = (if srGuestToken row \<in> tokens then row\<lparr>srGuestToken := ''''\<rparr> else row)"

definition purge_sessions_ok :: "memory \<Rightarrow> string set \<Rightarrow> memory \<times> nat \<Rightarrow> bool" where
  "purge_sessions_ok m gone st \<longleftrightarrow>
     (\<forall>i. map_of (mSessions (fst st)) i = (if i \<in> gone then None else map_of (mSessions m) i)) \<and>
     (\<forall>i. map_of (mSimulations (fst st)) i = map_option (release gone) (map_of (mSimulations m) i)) \<and>
     snd st = card gone \<and> finite gone \<and> mEvents (fst st) = mEvents m \<and> mSnapshots (fst st) = mSnapshots m \<and>
     mComparisons (fst st) = mComparisons m \<and> (memory_wf m \<longrightarrow> memory_wf (fst st))"

lemma purge_sessions_step:
  assumes ok: "purge_sessions_ok m gone st" and i: "i \<notin> gone"
  shows "purge_sessions_ok m (if Expired g now then insert i gone else gone) (purge_session now st (i, g))"
proof (cases "Expired g now")
  case True
  obtain m' n where st: "st = (m', n)" by (cases st)
  let ?rows = "map (\<lambda>(k, row). (k, if srGuestToken row = i then row\<lparr>srGuestToken := ''''\<rparr> else row)) (mSimulations m')"
  let ?m = "m'\<lparr>mSessions := AList.delete i (mSessions m'), mSimulations := ?rows\<rparr>"
  have rows: "map_of ?rows k = map_option (release {i}) (map_of (mSimulations m') k)" for k
    by (simp add: map_of_map release_def [abs_def])
  have rel: "release {i} (release gone row) = release (insert i gone) row" for row
    using i by (auto simp: release_def)
  have wf: "memory_wf ?m" if "memory_wf m'"
    using that by (simp add: memory_wf_def log_of_def snapshots_of_def case_prod_beta comp_def)
  have "purge_session now st (i, g) = (?m, n + 1)" using True by (simp add: st purge_session_def)
  then show ?thesis
    using ok i True wf by (simp add: purge_sessions_ok_def st rows map_of_delete option.map_comp comp_def rel)
qed (use ok in \<open>cases st, simp add: purge_session_def\<close>)

lemma purge_sessions_fold:
  "purge_sessions_ok m gone st \<Longrightarrow> distinct_keys xs \<Longrightarrow> fst ` set xs \<inter> gone = {} \<Longrightarrow>
   purge_sessions_ok m (gone \<union> {i. \<exists>g. (i, g) \<in> set xs \<and> Expired g now}) (foldl (purge_session now) st xs)"
proof (induction xs arbitrary: st gone)
  case (Cons x xs)
  obtain i g where x: "x = (i, g)" by (cases x)
  let ?g = "if Expired g now then insert i gone else gone"
  have "i \<notin> gone" using Cons.prems(3) x by auto
  then have step: "purge_sessions_ok m ?g (purge_session now st (i, g))" by (rule purge_sessions_step [OF Cons.prems(1)])
  have "fst ` set xs \<inter> ?g = {}" using Cons.prems(2,3) x by auto
  from Cons.IH [OF step _ this] Cons.prems(2)
  have "purge_sessions_ok m (?g \<union> {i. \<exists>g. (i, g) \<in> set xs \<and> Expired g now}) (foldl (purge_session now) st (x # xs))"
    by (simp add: x)
  moreover have "?g \<union> {i. \<exists>g. (i, g) \<in> set xs \<and> Expired g now} = gone \<union> {i. \<exists>g. (i, g) \<in> set (x # xs) \<and> Expired g now}"
    using x by auto
  ultimately show ?case by simp
qed simp

lemma PurgeExpired_effect:
  fixes m :: memory and now :: timestamp
  assumes "memory_wf m"
  defines "m' \<equiv> snd (PurgeExpired now m)"
    and "dead \<equiv> {i. \<exists>row. map_of (mSimulations m) i = Some row \<and> lapsed now row}"
    and "old \<equiv> {i. \<exists>g. map_of (mSessions m) i = Some g \<and> Expired g now}"
  shows "memory_wf m' \<and>
    (\<forall>i. map_of (mSimulations m') i = (if i \<in> dead then None else map_option (release old) (map_of (mSimulations m) i))) \<and>
    (\<forall>i. log_of m' i = (if i \<in> dead then [] else log_of m i)) \<and>
    (\<forall>i. snapshots_of m' i = (if i \<in> dead then [] else snapshots_of m i)) \<and>
    (\<forall>i. map_of (mSessions m') i = (if i \<in> old then None else map_of (mSessions m) i)) \<and>
    fst (PurgeExpired now m) = \<lparr>prSimulations = card dead, prSessions = card old\<rparr>"
proof -
  let ?s = "foldl (purge_simulation now) (m, 0) (mSimulations m)"
  let ?m1 = "fst ?s"
  have keys: "distinct_keys (mSimulations m)" "distinct_keys (mSessions m)" using assms(1) by (auto simp: memory_wf_def)
  have "purge_sims_ok m {} (m, 0)" by (simp add: purge_sims_ok_def)
  then have s: "purge_sims_ok m dead ?s"
    using purge_sims_fold [of m "{}" "(m, 0)" "mSimulations m" now] keys by (simp add: dead_def)
  then have m1: "mSessions ?m1 = mSessions m" "memory_wf ?m1" using assms(1) by (simp_all add: purge_sims_ok_def)
  let ?t = "foldl (purge_session now) (?m1, 0) (mSessions m)"
  have "release {} = (\<lambda>row. row)" by (simp add: release_def fun_eq_iff)
  then have "purge_sessions_ok ?m1 {} (?m1, 0)" by (simp add: purge_sessions_ok_def option.map_ident)
  then have t: "purge_sessions_ok ?m1 old ?t"
    using purge_sessions_fold [of ?m1 "{}" "(?m1, 0)" "mSessions m" now] keys by (simp add: old_def)
  have run: "PurgeExpired now m = (\<lparr>prSimulations = snd ?s, prSessions = snd ?t\<rparr>, fst ?t)"
    using m1(1) by (simp add: PurgeExpired_def case_prod_beta Let_def)
  have "log_of (fst ?t) i = log_of ?m1 i" "snapshots_of (fst ?t) i = snapshots_of ?m1 i" for i
    using t by (simp_all add: purge_sessions_ok_def log_of_def snapshots_of_def)
  then show ?thesis
    using s t m1 unfolding m'_def run by (simp add: purge_sims_ok_def purge_sessions_ok_def)
qed

text \<open>
  C36.  A retention sweep removes exactly the runs that are past their expiry and not showcased, with
  their events and snapshots, and the sessions past theirs, counts both, and keeps every other run,
  which only forgets the sessions that are gone.  A showcased run and its log always survive.
\<close>

theorem PurgeExpired_exact:
  fixes m :: memory and now :: timestamp
  assumes "memory_wf m"
  defines "m' \<equiv> snd (PurgeExpired now m)"
    and "dead \<equiv> {i. \<exists>row. map_of (mSimulations m) i = Some row \<and> lapsed now row}"
    and "old \<equiv> {i. \<exists>g. map_of (mSessions m) i = Some g \<and> Expired g now}"
  shows "memory_wf m' \<and>
    (\<forall>i. map_of (mSimulations m') i = (if i \<in> dead then None else map_option (release old) (map_of (mSimulations m) i))) \<and>
    (\<forall>i. log_of m' i = (if i \<in> dead then [] else log_of m i)) \<and>
    (\<forall>i. snapshots_of m' i = (if i \<in> dead then [] else snapshots_of m i)) \<and>
    (\<forall>i. map_of (mSessions m') i = (if i \<in> old then None else map_of (mSessions m) i)) \<and>
    fst (PurgeExpired now m) = \<lparr>prSimulations = card dead, prSessions = card old\<rparr>"
  unfolding m'_def dead_def old_def by (rule PurgeExpired_effect [OF assms(1)])

definition test_row :: "string \<Rightarrow> bool \<Rightarrow> simulation_row" where
  "test_row i showcase = \<lparr>srID = i, srSeed = 1, srDrivers = 1, srStrategy = '''', srCreatedAt = 0, srCompletedAt = None,
     srShowcase = showcase, srGuestToken = '''', srExpiresAt = Some 10\<rparr>"

theorem PurgeExpired_exact_witness:
  "map_of (mSimulations (snd (PurgeExpired 20 (CreateSimulation (test_row ''a'' True) (CreateSimulation (test_row ''b'' False) NewMemory))))) ''b'' = None \<and>
   map_of (mSimulations (snd (PurgeExpired 20 (CreateSimulation (test_row ''a'' True) (CreateSimulation (test_row ''b'' False) NewMemory))))) ''a'' \<noteq> None"
proof -
  let ?m = "CreateSimulation (test_row ''a'' True) (CreateSimulation (test_row ''b'' False) NewMemory)"
  have m: "?m = NewMemory\<lparr>mSimulations := [(''b'', test_row ''b'' False), (''a'', test_row ''a'' True)]\<rparr>"
    by (simp add: CreateSimulation_def NewMemory_def test_row_def)
  have "memory_wf ?m" using NewMemory_wf unfolding m by (simp add: memory_wf_def log_of_def snapshots_of_def)
  moreover have "map_of (mSimulations ?m) ''a'' = Some (test_row ''a'' True)" "map_of (mSimulations ?m) ''b'' = Some (test_row ''b'' False)"
    unfolding m by simp_all
  moreover have "\<not> lapsed 20 (test_row ''a'' True)" "lapsed 20 (test_row ''b'' False)" by (simp_all add: lapsed_def test_row_def)
  ultimately show ?thesis using PurgeExpired_exact [of ?m 20] by simp
qed

subsection \<open>Rows that record events\<close>

definition recorded :: "stored_event \<Rightarrow> event \<Rightarrow> bool" where
  \<comment> \<open>the row is the persisted form of the event\<close>
  "recorded x e \<longleftrightarrow> EventFrom e (evTraceID e) (seRecordedAt x) = Some x"

lemma recorded_row:
  assumes "recorded x e"
  shows "seSequence x = evSequence e" "seSimulationID x = evSimulationID e"
    "event_domain x = Some (e\<lparr>evSchemaVersion := 1, evCausationID := ''''\<rparr>)"
proof -
  have x: "x = \<lparr>seSimulationID = evSimulationID e, seSequence = evSequence e, seVirtualTime = evVirtualTime e,
      seType = evType e, sePayload = Raw (evPayload e), seTraceID = evTraceID e, seRecordedAt = seRecordedAt x\<rparr>"
    using assms by (auto simp: recorded_def EventFrom_def marshal_def split: if_splits)
  show "seSequence x = evSequence e" "seSimulationID x = evSimulationID e"
    "event_domain x = Some (e\<lparr>evSchemaVersion := 1, evCausationID := ''''\<rparr>)"
    by (subst x, simp add: event_domain_def unmarshal_def)+
qed

lemma EventFrom_recorded: "EventFrom e (evTraceID e) now = Some x \<Longrightarrow> recorded x e"
  by (auto simp: recorded_def EventFrom_def split: option.splits)

lemma recorded_rows:
  assumes "list_all2 recorded xs es"
  shows "map seSequence xs = map evSequence es" "\<forall>x \<in> set xs. \<exists>e \<in> set es. seSimulationID x = evSimulationID e"
  using assms by (induction rule: list_all2_induct) (auto simp: recorded_row)

lemma recorded_domains:
  assumes "list_all2 recorded xs es" "\<forall>e \<in> set es. evSchemaVersion e = 1"
  shows "map event_domain xs = map (\<lambda>e. Some (e\<lparr>evCausationID := []\<rparr>)) es"
  using assms
proof (induction rule: list_all2_induct)
  case (Cons x xs e es)
  have "e\<lparr>evSchemaVersion := 1\<rparr> = e" using Cons.prems by simp
  then show ?case using Cons recorded_row(3) [OF Cons.hyps(1)] by simp
qed simp

definition stored_as :: "stored_event \<Rightarrow> event \<Rightarrow> bool" where
  \<comment> \<open>the row is the persisted form of the event under some trace id\<close>
  "stored_as x e \<longleftrightarrow> EventFrom e (seTraceID x) (seRecordedAt x) = Some x"

lemma EventFrom_stored_as:
  assumes "EventFrom e trace now = Some x"
  shows "stored_as x e"
proof -
  have "seTraceID x = trace" "seRecordedAt x = now" using assms by (auto simp: EventFrom_def split: option.splits)
  then show ?thesis using assms by (simp add: stored_as_def)
qed

lemma recorded_stored_as: "recorded x e \<Longrightarrow> stored_as x e"
  unfolding recorded_def by (rule EventFrom_stored_as)

lemma stored_row: "stored_as x e \<Longrightarrow> seSequence x = evSequence e \<and> seSimulationID x = evSimulationID e"
  by (auto simp: stored_as_def EventFrom_def split: option.splits dest: arg_cong [of _ _ seSequence] arg_cong [of _ _ seSimulationID])

lemma stored_rows: "list_all2 stored_as xs es \<Longrightarrow> map seSequence xs = map evSequence es"
  by (induction rule: list_all2_induct) (simp_all add: stored_row)

end
