(* ===== verification/Replay.thy ===== *)
theory Replay
  imports Store
begin

text \<open>
  \<open>internal/replay/state.go\<close>: reconstructing a simulation's state by folding its events onto a
  snapshot.  \<open>RouteIndex\<close> is an \<open>int\<close> decoded from JSON, so it can be negative and then panics when
  it is used as an index (\<open>ReplayPanic\<close>); a payload that does not decode is \<open>ReplayDecode\<close>.
\<close>

record redge =
  reID :: edge_id
  reFrom :: node_id
  reTo :: node_id
  reClosed :: bool

record rdriver =
  rdID :: driver_id
  rdPosition :: node_id
  rdStatus :: driver_status
  rdRoute :: "node_id list"
  rdRouteIndex :: int
  rdAssignedOrder :: order_id

record rorder =
  roID :: order_id
  roPickup :: node_id
  roDestination :: node_id
  roStatus :: order_status
  roAssignedDriver :: driver_id
  roCreatedAt :: real

record replay_state =
  rsSimulationID :: string
  rsSequence :: nat
  rsVirtualTime :: real
  rsNodes :: "node list"
  rsEdges :: "redge list"
  rsDrivers :: "rdriver list"
  rsOrders :: "rorder list"
  rsPaused :: bool
  rsSpeed :: real

record snapshot_payload =
  spNodes :: "node list"
  spEdges :: "redge list"
  spDrivers :: "rdriver list"
  spOrders :: "rorder list"
  spPaused :: bool
  spSpeed :: real

record state_builder =
  sbSimulationID :: string
  sbSequence :: nat
  sbVirtualTime :: real
  sbNodes :: "node list"
  sbEdges :: "redge list"
  sbDriverOrder :: "driver_id list"
  sbDrivers :: "(driver_id, rdriver) gomap"
  sbOrderOrder :: "order_id list"
  sbOrders :: "(order_id, rorder) gomap"
  sbPaused :: bool
  sbSpeed :: real

datatype replay_error = ReplayDecode | ReplayPanic | ReplayNotFound | ReplayStore string

subsection \<open>Decoding\<close>

text \<open>A struct decodes field by field; every field must decode.\<close>

definition bind2 :: "'a option \<Rightarrow> ('a \<Rightarrow> 'b option) \<Rightarrow> 'b option" where
  "bind2 r f = (case r of None \<Rightarrow> None | Some x \<Rightarrow> f x)"

lemma bind2_simps [simp]: "bind2 None f = None" "bind2 (Some x) f = f x"
  by (simp_all add: bind2_def)

definition dec_node :: "json \<Rightarrow> node option" where
  "dec_node j = bind2 (as_object j) (\<lambda>o1.
     bind2 (field ''id'' '''' dec_string o1) (\<lambda>i. bind2 (field ''x'' 0 dec_real o1) (\<lambda>x.
     bind2 (field ''y'' 0 dec_real o1) (\<lambda>y. Some \<lparr>nID = i, nX = x, nY = y\<rparr>))))"

definition dec_redge :: "json \<Rightarrow> redge option" where
  "dec_redge j = bind2 (as_object j) (\<lambda>o1.
     bind2 (field ''id'' '''' dec_string o1) (\<lambda>i. bind2 (field ''from'' '''' dec_string o1) (\<lambda>a.
     bind2 (field ''to'' '''' dec_string o1) (\<lambda>b. bind2 (field ''closed'' False dec_bool o1) (\<lambda>c.
       Some \<lparr>reID = i, reFrom = a, reTo = b, reClosed = c\<rparr>)))))"

definition dec_rdriver :: "json \<Rightarrow> rdriver option" where
  "dec_rdriver j = bind2 (as_object j) (\<lambda>o1.
     bind2 (field ''id'' '''' dec_string o1) (\<lambda>i. bind2 (field ''position'' '''' dec_string o1) (\<lambda>p.
     bind2 (field ''status'' (DriverStatusOther '''') dec_driver_status o1) (\<lambda>st.
     bind2 (field ''route'' [] (dec_list dec_string) o1) (\<lambda>r.
     bind2 (field ''routeIndex'' 0 dec_int o1) (\<lambda>k.
     bind2 (field ''assignedOrder'' '''' dec_string o1) (\<lambda>a.
       Some \<lparr>rdID = i, rdPosition = p, rdStatus = st, rdRoute = r, rdRouteIndex = k, rdAssignedOrder = a\<rparr>)))))))"

definition dec_rorder :: "json \<Rightarrow> rorder option" where
  "dec_rorder j = bind2 (as_object j) (\<lambda>o1.
     bind2 (field ''id'' '''' dec_string o1) (\<lambda>i. bind2 (field ''pickup'' '''' dec_string o1) (\<lambda>p.
     bind2 (field ''destination'' '''' dec_string o1) (\<lambda>q.
     bind2 (field ''status'' (OrderStatusOther '''') dec_order_status o1) (\<lambda>st.
     bind2 (field ''assignedDriver'' '''' dec_string o1) (\<lambda>d.
     bind2 (field ''createdAtVirtualTime'' 0 dec_real o1) (\<lambda>t.
       Some \<lparr>roID = i, roPickup = p, roDestination = q, roStatus = st, roAssignedDriver = d, roCreatedAt = t\<rparr>)))))))"

definition dec_snapshot :: "json \<Rightarrow> snapshot_payload option" where
  "dec_snapshot j = bind2 (as_object j) (\<lambda>o1.
     bind2 (field ''nodes'' [] (dec_list dec_node) o1) (\<lambda>ns.
     bind2 (field ''edges'' [] (dec_list dec_redge) o1) (\<lambda>es.
     bind2 (field ''drivers'' [] (dec_list dec_rdriver) o1) (\<lambda>ds.
     bind2 (field ''orders'' [] (dec_list dec_rorder) o1) (\<lambda>os.
     bind2 (field ''paused'' False dec_bool o1) (\<lambda>p.
     bind2 (field ''speed'' 0 dec_real o1) (\<lambda>v.
       Some \<lparr>spNodes = ns, spEdges = es, spDrivers = ds, spOrders = os, spPaused = p, spSpeed = v\<rparr>)))))))"

definition decode :: "(json \<Rightarrow> 'a option) \<Rightarrow> raw_message \<Rightarrow> replay_error + 'a" where
  \<comment> \<open>\<open>json.Unmarshal(payload, &p)\<close>\<close>
  "decode dec raw = (case bind2 (unmarshal raw) dec of None \<Rightarrow> Inl ReplayDecode | Some x \<Rightarrow> Inr x)"

definition dec1 :: "string \<Rightarrow> 'a \<Rightarrow> (json \<Rightarrow> 'a option) \<Rightarrow> json \<Rightarrow> 'a option" where
  \<comment> \<open>a struct with one field\<close>
  "dec1 k z dec j = bind2 (as_object j) (field k z dec)"

definition dec2 :: "string \<Rightarrow> 'a \<Rightarrow> (json \<Rightarrow> 'a option) \<Rightarrow> string \<Rightarrow> 'b \<Rightarrow> (json \<Rightarrow> 'b option) \<Rightarrow> json \<Rightarrow> ('a \<times> 'b) option" where
  \<comment> \<open>a struct with two fields\<close>
  "dec2 k z dec k' z' dec' j =
     bind2 (as_object j) (\<lambda>o1. bind2 (field k z dec o1) (\<lambda>x. bind2 (field k' z' dec' o1) (\<lambda>y. Some (x, y))))"

subsection \<open>The builder\<close>

definition newStateBuilder :: "string \<Rightarrow> state_builder" where
  "newStateBuilder i = \<lparr>sbSimulationID = i, sbSequence = 0, sbVirtualTime = 0, sbNodes = [], sbEdges = [],
     sbDriverOrder = [], sbDrivers = [], sbOrderOrder = [], sbOrders = [], sbPaused = False, sbSpeed = 1\<rparr>"

definition zero_rdriver :: "driver_id \<Rightarrow> rdriver" where
  "zero_rdriver i = \<lparr>rdID = i, rdPosition = '''', rdStatus = DriverStatusOther '''', rdRoute = [],
     rdRouteIndex = 0, rdAssignedOrder = ''''\<rparr>"

definition zero_rorder :: "order_id \<Rightarrow> rorder" where
  "zero_rorder i = \<lparr>roID = i, roPickup = '''', roDestination = '''', roStatus = OrderStatusOther '''',
     roAssignedDriver = '''', roCreatedAt = 0\<rparr>"

definition sb_driver :: "driver_id \<Rightarrow> (rdriver \<Rightarrow> rdriver) \<Rightarrow> state_builder \<Rightarrow> state_builder" where
  \<comment> \<open>\<open>b.driver(id)\<close> and a write through the pointer it returns\<close>
  "sb_driver i f b =
     (if map_of (sbDrivers b) i = None
      then b\<lparr>sbDrivers := AList.update i (f (zero_rdriver i)) (sbDrivers b), sbDriverOrder := sbDriverOrder b @ [i]\<rparr>
      else b\<lparr>sbDrivers := adjust i f (sbDrivers b)\<rparr>)"

definition sb_order :: "order_id \<Rightarrow> (rorder \<Rightarrow> rorder) \<Rightarrow> state_builder \<Rightarrow> state_builder" where
  "sb_order i f b =
     (if map_of (sbOrders b) i = None
      then b\<lparr>sbOrders := AList.update i (f (zero_rorder i)) (sbOrders b), sbOrderOrder := sbOrderOrder b @ [i]\<rparr>
      else b\<lparr>sbOrders := adjust i f (sbOrders b)\<rparr>)"

definition applySnapshot :: "raw_message \<Rightarrow> state_builder \<Rightarrow> replay_error + state_builder" where
  "applySnapshot payload b =
     bind_res (decode dec_snapshot payload) (\<lambda>snap. Inr (b\<lparr>
       sbNodes := spNodes snap, sbEdges := spEdges snap, sbPaused := spPaused snap,
       sbSpeed := (if spSpeed snap = 0 then 1 else spSpeed snap),
       sbDriverOrder := map rdID (spDrivers snap),
       sbDrivers := foldl (\<lambda>m d. AList.update (rdID d) d m) [] (spDrivers snap),
       sbOrderOrder := map roID (spOrders snap),
       sbOrders := foldl (\<lambda>m ord. AList.update (roID ord) ord m) [] (spOrders snap)\<rparr>))"

definition step_position :: "node_id \<Rightarrow> rdriver \<Rightarrow> rdriver" where
  \<comment> \<open>the position case, when the index does not panic\<close>
  "step_position n d =
     d\<lparr>rdPosition := n,
       rdRouteIndex := (if rdRouteIndex d + 1 < int (length (rdRoute d)) \<and> rdRoute d ! nat (rdRouteIndex d + 1) = n
                        then rdRouteIndex d + 1 else rdRouteIndex d)\<rparr>"

definition apply_position :: "driver_id \<Rightarrow> node_id \<Rightarrow> state_builder \<Rightarrow> replay_error + state_builder" where
  "apply_position i n b =
     (let d = (case map_of (sbDrivers b) i of None \<Rightarrow> zero_rdriver i | Some d \<Rightarrow> d)
      in if rdRouteIndex d + 1 < int (length (rdRoute d)) \<and> rdRouteIndex d + 1 < 0 then Inl ReplayPanic
         else Inr (sb_driver i (step_position n) b))"

definition apply_status :: "driver_id \<Rightarrow> driver_status \<Rightarrow> state_builder \<Rightarrow> state_builder" where
  "apply_status i st b =
     (let b1 = sb_driver i (\<lambda>d. d\<lparr>rdStatus := st\<rparr>) b
      in case st of
           DriverDelivering \<Rightarrow>
             (case map_of (sbDrivers b1) i of
                None \<Rightarrow> b1
              | Some d \<Rightarrow> if rdAssignedOrder d \<noteq> ''''
                  then sb_order (rdAssignedOrder d) (\<lambda>ord. ord\<lparr>roStatus := OrderEnRoute\<rparr>) b1 else b1)
         | DriverIdle \<Rightarrow> sb_driver i (\<lambda>d. d\<lparr>rdRoute := [], rdRouteIndex := 0, rdAssignedOrder := ''''\<rparr>) b1
         | _ \<Rightarrow> b1)"

definition set_closed :: "bool \<Rightarrow> edge_id list \<Rightarrow> redge list \<Rightarrow> redge list" where
  "set_closed c ids es =
     foldl (\<lambda>es i. map (\<lambda>e. if reID e = i then e\<lparr>reClosed := c\<rparr> else e) es) es ids"

definition sb_apply :: "stored_event \<Rightarrow> state_builder \<Rightarrow> replay_error + state_builder" where
  "sb_apply e b0 =
     (let b = b0\<lparr>sbSequence := seSequence e, sbVirtualTime := seVirtualTime e\<rparr>; raw = sePayload e
      in case seType e of
           EventSimulationSnapshot \<Rightarrow> applySnapshot raw b
         | EventOrderPlaced \<Rightarrow>
             bind_res (decode (\<lambda>j. bind2 (dec2 ''orderId'' '''' dec_string ''pickupNodeId'' '''' dec_string j) (\<lambda>(i, p).
                 bind2 (dec1 ''destinationNodeId'' '''' dec_string j) (\<lambda>q. Some (i, p, q)))) raw)
               (\<lambda>(i, p, q). Inr (sb_order i (\<lambda>ord. ord\<lparr>roPickup := p, roDestination := q, roStatus := OrderPending,
                 roCreatedAt := seVirtualTime e\<rparr>) b))
         | EventOrderAssigned \<Rightarrow>
             bind_res (decode (dec2 ''orderId'' '''' dec_string ''driverId'' '''' dec_string) raw)
               (\<lambda>(i, d). Inr (sb_driver d (\<lambda>x. x\<lparr>rdAssignedOrder := i\<rparr>)
                 (sb_order i (\<lambda>ord. ord\<lparr>roStatus := OrderAssigned, roAssignedDriver := d\<rparr>) b)))
         | EventOrderUnassignable \<Rightarrow>
             bind_res (decode (dec1 ''orderId'' '''' dec_string) raw)
               (\<lambda>i. Inr (sb_order i (\<lambda>ord. ord\<lparr>roStatus := OrderUnassignable\<rparr>) b))
         | EventOrderDelivered \<Rightarrow>
             bind_res (decode (dec1 ''orderId'' '''' dec_string) raw)
               (\<lambda>i. Inr (sb_order i (\<lambda>ord. ord\<lparr>roStatus := OrderDelivered\<rparr>) b))
         | EventDriverPositionUpdate \<Rightarrow>
             bind_res (decode (dec2 ''driverId'' '''' dec_string ''nodeId'' '''' dec_string) raw)
               (\<lambda>(i, n). apply_position i n b)
         | EventDriverStatusChanged \<Rightarrow>
             bind_res (decode (dec2 ''driverId'' '''' dec_string ''status'' (DriverStatusOther '''') dec_driver_status) raw)
               (\<lambda>(i, st). Inr (apply_status i st b))
         | EventRouteComputed \<Rightarrow>
             bind_res (decode (dec2 ''driverId'' '''' dec_string ''nodeIds'' [] (dec_list dec_string)) raw)
               (\<lambda>(i, r). Inr (sb_driver i (\<lambda>d. d\<lparr>rdRoute := r, rdRouteIndex := 0\<rparr>) b))
         | EventRoadClosed \<Rightarrow>
             bind_res (decode (dec1 ''edgeIds'' [] (dec_list dec_string)) raw)
               (\<lambda>ids. Inr (b\<lparr>sbEdges := set_closed True ids (sbEdges b)\<rparr>))
         | EventRoadReopened \<Rightarrow>
             bind_res (decode (dec1 ''edgeIds'' [] (dec_list dec_string)) raw)
               (\<lambda>ids. Inr (b\<lparr>sbEdges := set_closed False ids (sbEdges b)\<rparr>))
         | EventSimulationPaused \<Rightarrow>
             bind_res (decode (dec1 ''paused'' False dec_bool) raw) (\<lambda>p. Inr (b\<lparr>sbPaused := p\<rparr>))
         | EventSimulationSpeed \<Rightarrow>
             bind_res (decode (dec1 ''multiplier'' 0 dec_real) raw) (\<lambda>v. Inr (b\<lparr>sbSpeed := v\<rparr>))
         | _ \<Rightarrow> Inr b)"

definition sb_state :: "state_builder \<Rightarrow> replay_state" where
  "sb_state b = \<lparr>rsSimulationID = sbSimulationID b, rsSequence = sbSequence b, rsVirtualTime = sbVirtualTime b,
     rsNodes = sbNodes b, rsEdges = sbEdges b,
     rsDrivers = map (\<lambda>i. the (map_of (sbDrivers b) i)) (sbDriverOrder b),
     rsOrders = map (\<lambda>i. the (map_of (sbOrders b) i)) (sbOrderOrder b),
     rsPaused = sbPaused b, rsSpeed = sbSpeed b\<rparr>"

fun fold_events :: "stored_snapshot option \<Rightarrow> int \<Rightarrow> stored_event list \<Rightarrow> state_builder \<Rightarrow> replay_error + state_builder" where
  \<comment> \<open>the loop of \<open>StateAt\<close>\<close>
  "fold_events base target [] b = Inr b"
| "fold_events base target (e # es) b =
     (if target > 0 \<and> int (seSequence e) > target then Inr b
      else if (case base of None \<Rightarrow> False | Some x \<Rightarrow> seSequence e \<le> ssSequence x) then fold_events base target es b
      else bind_res (sb_apply e b) (fold_events base target es))"

definition StateAt :: "string \<Rightarrow> stored_snapshot option \<Rightarrow> stored_event list \<Rightarrow> int \<Rightarrow> replay_error + replay_state" where
  "StateAt i base events target =
     bind_res
       (case base of
          None \<Rightarrow> Inr (newStateBuilder i)
        | Some x \<Rightarrow> bind_res (applySnapshot (ssPayload x) (newStateBuilder i))
            (\<lambda>b. Inr (b\<lparr>sbSequence := ssSequence x, sbVirtualTime := ssVirtualTime x\<rparr>)))
       (\<lambda>b. bind_res (fold_events base target events b) (\<lambda>b'. Inr (sb_state b')))"

end
