(* ===== verification/Reader.thy ===== *)
theory Reader
  imports Replay
begin

text \<open>
  \<open>internal/replay/reader.go\<close>: serving pages of the persisted log and reconstructing a state from the
  newest snapshot at or before a target.  The page loop is proved over the interface \<open>event_log\<close>
  and used on the in-memory store: it ends, and what it collects decides the reconstruction exactly
  as the whole log does.
\<close>

definition DefaultPageSize :: int where "DefaultPageSize = 5000"

definition maxPageSize :: int where "maxPageSize = 20000"

record replay_log =
  rlSimulation :: simulation_row
  rlEvents :: "event list"
  rlFromSequence :: int
  rlLatestSequence :: nat
  rlHasMore :: bool

definition zero_row :: simulation_row where
  "zero_row = \<lparr>srID = '''', srSeed = 0, srDrivers = 0, srStrategy = '''', srCreatedAt = 0, srCompletedAt = None,
     srShowcase = False, srGuestToken = '''', srExpiresAt = None\<rparr>"

definition reader_simulation :: "string \<Rightarrow> memory \<Rightarrow> replay_error + simulation_row" where
  "reader_simulation i m =
     (case GetSimulation i m of
        Inr row \<Rightarrow> Inr row
      | Inl (StoreFailure e) \<Rightarrow> Inl (ReplayStore e)
      | Inl StoreNotFound \<Rightarrow>
          if LatestSequence i m = 0 then Inl ReplayNotFound else Inr (zero_row\<lparr>srID := i\<rparr>))"

fun domain_events :: "stored_event list \<Rightarrow> replay_error + event list" where
  \<comment> \<open>the loop of \<open>Load\<close>\<close>
  "domain_events [] = Inr []"
| "domain_events (r # rs) =
     (case event_domain r of
        None \<Rightarrow> Inl ReplayDecode
      | Some e \<Rightarrow> bind_res (domain_events rs) (\<lambda>es. Inr (e # es)))"

definition clamp_limit :: "int \<Rightarrow> int" where
  "clamp_limit limit = (let l = (if limit \<le> 0 then DefaultPageSize else limit) in if l > maxPageSize then maxPageSize else l)"

definition Load :: "string \<Rightarrow> int \<Rightarrow> int \<Rightarrow> memory \<Rightarrow> replay_error + replay_log" where
  "Load i fromSequence0 limit0 m =
     bind_res (reader_simulation i m) (\<lambda>row.
       let limit = clamp_limit limit0;
           fromSequence = (if fromSequence0 < 0 then 0 else fromSequence0)
       in case Events i fromSequence (limit + 1) m of
            None \<Rightarrow> Inl ReplayPanic
          | Some records0 \<Rightarrow>
              let hasMore = (int (length records0) > limit);
                  records = (if hasMore then take (nat limit) records0 else records0)
              in bind_res (domain_events records) (\<lambda>es.
                   Inr \<lparr>rlSimulation = row, rlEvents = es, rlFromSequence = fromSequence,
                        rlLatestSequence = LatestSequence i m, rlHasMore = hasMore\<rparr>))"

partial_function (option) read_pages ::
  "(int \<Rightarrow> stored_event list option) \<Rightarrow> int \<Rightarrow> int \<Rightarrow> stored_event list \<Rightarrow> stored_event list option" where
  \<comment> \<open>the loop of \<open>Reader.StateAt\<close>\<close>
  "read_pages fetch target n acc =
     (case fetch n of
        None \<Rightarrow> None
      | Some p \<Rightarrow>
          if p = [] then Some acc
          else if int (seSequence (last p)) \<ge> target then Some (acc @ p)
          else read_pages fetch target (int (seSequence (last p))) (acc @ p))"

definition reader_StateAt :: "string \<Rightarrow> int \<Rightarrow> memory \<Rightarrow> (replay_error + replay_state) option" where
  \<comment> \<open>\<open>None\<close>: the page loop does not return\<close>
  "reader_StateAt i sequence0 m =
     (case reader_simulation i m of
        Inl e \<Rightarrow> Some (Inl e)
      | Inr _ \<Rightarrow>
          let sequence = (if sequence0 \<le> 0 then int (LatestSequence i m) else sequence0);
              snapshot = SnapshotAtOrBefore i sequence m
          in case snapshot of
               Inl (StoreFailure e) \<Rightarrow> Some (Inl (ReplayStore e))
             | _ \<Rightarrow>
                 let base = (case snapshot of Inr x \<Rightarrow> Some x | Inl _ \<Rightarrow> None);
                     start = (case base of None \<Rightarrow> 0 | Some x \<Rightarrow> int (ssSequence x))
                 in map_option (\<lambda>es. StateAt i base es sequence)
                      (read_pages (\<lambda>n. Events i n maxPageSize m) sequence start []))"

subsection \<open>The page loop\<close>

lemma sorted_take_drop_seq:
  assumes "log_ok es" "k < length es" "e \<in> set (drop (Suc k) es)"
  shows "seSequence (es ! k) < seSequence e"
proof -
  obtain h where h: "h < length es - Suc k" "e = drop (Suc k) es ! h" using assms(3) by (auto simp: in_set_conv_nth)
  then obtain j where j: "j < length es" "k < j" "e = es ! j" by (intro that [of "Suc k + h"]) auto
  then have "seSequence (es ! k) \<le> seSequence (es ! j)" "seSequence (es ! k) \<noteq> seSequence (es ! j)"
    using assms(1,2) by (auto simp: log_ok_def sorted_iff_nth_mono distinct_conv_nth)
  then show ?thesis using j(3) by simp
qed

lemma log_ok_filter: "log_ok es \<Longrightarrow> log_ok (filter P es)"
  by (auto simp: log_ok_def sorted_filter distinct_map_filter)

context event_log
begin

lemma next_page:
  assumes wf: "wf s" and k: "0 < k" and ne: "events_after n (log s i) \<noteq> []"
  obtains p rest where "page i n k s = Some p" "p \<noteq> []" "events_after n (log s i) = p @ rest"
    "rest = events_after (int (seSequence (last p))) (log s i)"
proof -
  let ?es = "events_after n (log s i)" and ?p = "take (nat k) (events_after n (log s i))"
  let ?rest = "drop (nat k) (events_after n (log s i))"
  have ok: "log_ok ?es" using ordered [OF wf] by (rule log_ok_filter)
  have p: "?p \<noteq> []" using ne k by simp
  have "length ?p - 1 < nat k" using k by simp
  then have last: "last ?p = ?es ! (length ?p - 1)" 
    using last_conv_nth [OF p] nth_take [of "length ?p - 1" "nat k" ?es] by argo
  have "events_after (int (seSequence (last ?p))) (log s i) = filter (\<lambda>e. seSequence (last ?p) < seSequence e) ?es"
    using page_nonempty [OF wf k page_spec [OF wf k] p] by (auto intro!: filter_cong)
  also have "\<dots> = filter (\<lambda>e. seSequence (last ?p) < seSequence e) (?p @ ?rest)" by simp
  also have "\<dots> = ?rest"
  proof -
    have "\<not> seSequence (last ?p) < seSequence e" if "e \<in> set ?p" for e
    proof -
      have "sorted (map seSequence ?p)" using ok by (auto simp: log_ok_def take_map [symmetric] sorted_wrt_take)
      then have "seSequence e \<le> seSequence (last ?p)" by (rule sorted_last_max [OF _ that])
      then show ?thesis by simp
    qed
    moreover have "seSequence (last ?p) < seSequence e" if "e \<in> set ?rest" for e
    proof -
      have "nat k < length ?es" using that by (metis drop_eq_Nil empty_iff leI list.set(1))
      then have "?rest = drop (Suc (length ?p - 1)) ?es" "length ?p - 1 < length ?es" using k by auto
      then show ?thesis unfolding last using sorted_take_drop_seq [OF ok] that by metis
    qed
    ultimately show ?thesis unfolding filter_append by (simp add: filter_empty_conv)
  qed
  finally have "?rest = events_after (int (seSequence (last ?p))) (log s i)" ..
  moreover have "?es = ?p @ ?rest" by simp
  ultimately show thesis using that page_spec [OF wf k] p by blast
qed

lemma read_pages_collects:
  assumes wf: "wf s" and k: "0 < k"
  shows "\<exists>es rest. read_pages (\<lambda>n. page i n k s) target n acc = Some (acc @ es) \<and>
    events_after n (log s i) = es @ rest \<and> (\<forall>e \<in> set rest. target < int (seSequence e))"
proof (induction "length (events_after n (log s i))" arbitrary: n acc rule: less_induct)
  case less
  show ?case
  proof (cases "events_after n (log s i) = []")
    case True
    then have "read_pages (\<lambda>n. page i n k s) target n acc = Some acc"
      using page_spec [OF wf k] by (subst read_pages.simps) simp
    then show ?thesis using True by auto
  next
    case False
    obtain p rest where p: "page i n k s = Some p" "p \<noteq> []" "events_after n (log s i) = p @ rest"
      "rest = events_after (int (seSequence (last p))) (log s i)"
      by (rule next_page [OF wf k False])
    show ?thesis
    proof (cases "int (seSequence (last p)) \<ge> target")
      case True
      then have "read_pages (\<lambda>n. page i n k s) target n acc = Some (acc @ p)"
        using p(1,2) by (subst read_pages.simps) simp
      moreover have "target < int (seSequence e)" if "e \<in> set rest" for e
        using that True unfolding p(4) by simp
      ultimately show ?thesis using p(3) by blast
    next
      case False
      have "length rest < length (events_after n (log s i))" using p(2,3) by simp
      then obtain es rest' where "read_pages (\<lambda>n. page i n k s) target (int (seSequence (last p))) (acc @ p) = Some ((acc @ p) @ es)"
        "rest = es @ rest'" "\<forall>e \<in> set rest'. target < int (seSequence e)"
        using less [of "int (seSequence (last p))" "acc @ p"] p(4) by auto
      moreover have "read_pages (\<lambda>n. page i n k s) target n acc = read_pages (\<lambda>n. page i n k s) target (int (seSequence (last p))) (acc @ p)"
        using False p(1,2) by (subst read_pages.simps) simp
      ultimately show ?thesis using p(3) by (intro exI [of _ "p @ es"] exI [of _ rest']) simp
    qed
  qed
qed

end

lemma fold_events_stop:
  "0 < target \<Longrightarrow> \<forall>e \<in> set rest. target < int (seSequence e) \<Longrightarrow>
   fold_events base target (es @ rest) b = fold_events base target es b"
proof (induction base target es b rule: fold_events.induct)
  case (1 base target b)
  then show ?case by (cases rest) auto
next
  case (2 base target e es b)
  then show ?case by (cases "sb_apply e b") auto
qed

definition pick_sequence :: "string \<Rightarrow> int \<Rightarrow> memory \<Rightarrow> int" where
  "pick_sequence i n m = (if n \<le> 0 then int (LatestSequence i m) else n)"

definition pick_base :: "string \<Rightarrow> int \<Rightarrow> memory \<Rightarrow> stored_snapshot option" where
  "pick_base i n m = (case SnapshotAtOrBefore i (pick_sequence i n m) m of Inr x \<Rightarrow> Some x | Inl _ \<Rightarrow> None)"

lemma reader_StateAt_collected:
  assumes wf: "memory_wf m" and sim: "reader_simulation i m = Inr row"
  shows "reader_StateAt i n m = Some (StateAt i (pick_base i n m)
     (events_after (case pick_base i n m of None \<Rightarrow> 0 | Some x \<Rightarrow> int (ssSequence x)) (log_of m i)) (pick_sequence i n m))"
proof -
  let ?n = "pick_sequence i n m"
  let ?base = "pick_base i n m"
  let ?start = "case ?base of None \<Rightarrow> 0 | Some x \<Rightarrow> int (ssSequence x)"
  have "0 < maxPageSize" by (simp add: maxPageSize_def)
  from memory_log.read_pages_collects [OF wf this, of i ?n ?start "[]"]
  obtain es rest where p: "read_pages (\<lambda>n. Events i n maxPageSize m) ?n ?start [] = Some es"
    "events_after ?start (log_of m i) = es @ rest" "\<forall>e \<in> set rest. ?n < int (seSequence e)"
    by auto
  have run: "reader_StateAt i n m = Some (StateAt i ?base es ?n)"
  proof (cases "SnapshotAtOrBefore i ?n m")
    case (Inl err)
    then have "err = StoreNotFound" by (auto simp: SnapshotAtOrBefore_def split: option.splits)
    then show ?thesis
      using p(1) sim Inl by (simp add: reader_StateAt_def pick_base_def pick_sequence_def Let_def)
  next
    case (Inr x)
    then show ?thesis
      using p(1) sim by (simp add: reader_StateAt_def pick_base_def pick_sequence_def Let_def)
  qed
  have "fold_events ?base ?n (es @ rest) b = fold_events ?base ?n es b" for b
  proof (cases "0 < ?n")
    case True
    then show ?thesis by (rule fold_events_stop [OF _ p(3)])
  next
    case False
    then have "LatestSequence i m = 0" by (auto simp: pick_sequence_def split: if_splits)
    then have "seSequence e = 0" if "e \<in> set (log_of m i)" for e
      using memory_log.latest_bound [OF wf that] by simp
    moreover have "0 \<le> ?start" by (simp split: option.splits)
    ultimately have "events_after ?start (log_of m i) = []" by (auto simp: filter_empty_conv)
    then show ?thesis using p(2) by simp
  qed
  then show ?thesis unfolding run p(2) StateAt_def by (auto simp: bind_res_def split: sum.splits)
qed

text \<open>
  C39.  Reconstruction from the store always returns (the page loop ends), and its result is the fold
  over every persisted event after the snapshot it starts from, up to the target, however the log is
  split into pages; an unknown run without events is reported as not found.
\<close>

theorem reader_StateAt_pages_irrelevant:
  assumes "memory_wf m"
  shows "reader_StateAt i n m =
    (case reader_simulation i m of
       Inl e \<Rightarrow> Some (Inl e)
     | Inr _ \<Rightarrow> Some (StateAt i (pick_base i n m)
         (events_after (case pick_base i n m of None \<Rightarrow> 0 | Some x \<Rightarrow> int (ssSequence x)) (log_of m i)) (pick_sequence i n m))) \<and>
    (map_of (mSimulations m) i = None \<longrightarrow> LatestSequence i m = 0 \<longrightarrow> reader_StateAt i n m = Some (Inl ReplayNotFound))"
proof (cases "reader_simulation i m")
  case (Inl e)
  then have run: "reader_StateAt i n m = Some (Inl e)" by (simp add: reader_StateAt_def)
  then show ?thesis using Inl by (simp add: reader_simulation_def GetSimulation_def lookup_row_def split: option.splits if_splits)
next
  case (Inr row)
  then show ?thesis
    using reader_StateAt_collected [OF assms Inr, of n]
    by (auto simp: reader_simulation_def GetSimulation_def lookup_row_def split: option.splits if_splits)
qed

theorem reader_StateAt_pages_irrelevant_witness:
  "reader_StateAt ''sim'' 0 NewMemory = Some (Inl ReplayNotFound)"
  by (rule conjunct2 [OF reader_StateAt_pages_irrelevant [OF NewMemory_wf], rule_format])
    (simp_all add: NewMemory_def LatestSequence_def get_or_def)

text \<open>
  A page of the replay log holds the next persisted events after the requested sequence, at most
  the clamped limit (5000 by default, never more than 20000), and says there is more exactly when
  an event after the page exists.
\<close>

theorem Load_page:
  assumes "memory_wf m" "Load i fromSequence limit m = Inr l"
  shows "\<exists>records. records = take (nat (clamp_limit limit)) (events_after (max 0 fromSequence) (log_of m i)) \<and>
    domain_events records = Inr (rlEvents l) \<and> length (rlEvents l) = length records \<and>
    int (length (rlEvents l)) \<le> maxPageSize \<and>
    (rlHasMore l \<longleftrightarrow> int (length (events_after (max 0 fromSequence) (log_of m i))) > clamp_limit limit)"
proof -
  let ?n = "max 0 fromSequence" and ?k = "clamp_limit limit"
  let ?all = "events_after ?n (log_of m i)"
  have k: "0 < ?k" "?k \<le> maxPageSize" by (auto simp: clamp_limit_def DefaultPageSize_def maxPageSize_def Let_def)
  obtain row where row: "reader_simulation i m = Inr row" using assms(2) by (auto simp: Load_def bind_res_def split: sum.splits)
  have n: "(if fromSequence < 0 then 0 else fromSequence) = ?n" by simp
  have page: "Events i ?n (?k + 1) m = Some (take (nat (?k + 1)) ?all)" by (rule Events_page(1)) (use k in simp)
  have more: "int (length (take (nat (?k + 1)) ?all)) > ?k \<longleftrightarrow> int (length ?all) > ?k"
    using k by (simp add: min_def) linarith
  have recs: "(if int (length ?all) > ?k then take (nat ?k) (take (nat (?k + 1)) ?all) else take (nat (?k + 1)) ?all) = take (nat ?k) ?all"
    using k by (auto simp: min_def)
  have l: "bind_res (domain_events (take (nat ?k) ?all)) (\<lambda>es.
      Inr \<lparr>rlSimulation = row, rlEvents = es, rlFromSequence = ?n, rlLatestSequence = LatestSequence i m,
           rlHasMore = (int (length ?all) > ?k)\<rparr>) = Inr l"
    using assms(2) unfolding Load_def row bind_res_simps Let_def n page option.case more recs .
  then obtain es where es: "domain_events (take (nat ?k) ?all) = Inr es" "rlEvents l = es" "rlHasMore l \<longleftrightarrow> int (length ?all) > ?k"
    by (auto simp: bind_res_Inr_iff)
  have len: "domain_events rs = Inr xs \<Longrightarrow> length xs = length rs" for rs xs
    by (induction rs arbitrary: xs) (auto simp: bind_res_Inr_iff split: option.splits)
  show ?thesis
    using es len [OF es(1)] k by (intro exI [of _ "take (nat ?k) ?all"]) auto
qed

definition test_memory :: memory where
  "test_memory = NewMemory\<lparr>mEvents := [(''sim'', [test_event 1, test_event 2])], mSeen := [(''sim'', [1, 2])]\<rparr>"

lemma test_memory_log: "log_of test_memory i = (if i = ''sim'' then [test_event 1, test_event 2] else [])"
  by (simp add: test_memory_def log_of_def get_or_def)

lemma test_memory_wf: "memory_wf test_memory"
proof -
  have e: "seSequence (test_event n) = n" "seSimulationID (test_event n) = ''sim''" for n by (simp_all add: test_event_def)
  show ?thesis
    unfolding memory_wf_def test_memory_log
    by (auto simp: test_memory_def NewMemory_def snapshots_of_def get_or_def log_ok_def e intro: image_eqI [where x = "test_event 1"] image_eqI [where x = "test_event 2"])
qed

theorem Load_page_witness:
  "\<exists>l. Load ''sim'' (- 3) 1 test_memory = Inr l \<and> rlHasMore l \<and> length (rlEvents l) = 1"
proof -
  have "reader_simulation ''sim'' test_memory = Inr (zero_row\<lparr>srID := ''sim''\<rparr>)"
    by (simp add: reader_simulation_def GetSimulation_def lookup_row_def LatestSequence_last test_memory_log)
      (simp add: test_memory_def NewMemory_def test_event_def)
  moreover have "Events ''sim'' 0 2 test_memory = Some [test_event 1, test_event 2]"
    using Events_page(1) [of 2 "''sim''" 0 test_memory] by (simp add: test_memory_log test_event_def)
  ultimately obtain l where l: "Load ''sim'' (- 3) 1 test_memory = Inr l"
    by (simp add: Load_def clamp_limit_def maxPageSize_def test_event_def event_domain_def unmarshal_def)
  have c: "clamp_limit 1 = 1" by (simp add: clamp_limit_def maxPageSize_def)
  have a: "events_after (max 0 (- 3)) (log_of test_memory ''sim'') = [test_event 1, test_event 2]"
    by (simp add: test_memory_log test_event_def)
  show ?thesis using Load_page [OF test_memory_wf l, unfolded c a] l by auto
qed

end
