(* ===== verification/Replay_Live.thy ===== *)
theory Replay_Live
  imports Reader Simulation_Roads
begin

text \<open>
  Replay against the live run.  What replay shows of a simulation is a \<open>view\<close>: every driver's
  position, status, route and order, every order, the roads with their closed flags, the nodes and
  the two controls.  \<open>live_view\<close> reads it off a running simulation, \<open>replay_view\<close> off the state
  builder.  The lemmas follow one operation after the other: the events it emits, applied by
  \<open>sb_apply\<close>, take the view of the state before it to the view of the state after it (\<open>told\<close>).
  A driver's place on its route (\<open>RouteIndex\<close>) is no part of the view: replay advances it by one per
  position event, however many nodes the driver passed.
\<close>

subsection \<open>Views\<close>

record view =
  vDrivers :: "driver_id \<Rightarrow> rdriver option"
  vOrders :: "order_id \<Rightarrow> rorder option"
  vRoads :: "redge list"
  vNodes :: "node list"
  vPaused :: bool
  vSpeed :: real

definition off_route :: "rdriver \<Rightarrow> rdriver" where
  "off_route d = d\<lparr>rdRouteIndex := 0\<rparr>"

definition driver_row :: "driver \<Rightarrow> rdriver" where
  "driver_row d = \<lparr>rdID = dID d, rdPosition = dPosition d, rdStatus = dStatus d, rdRoute = dRoute d,
     rdRouteIndex = 0, rdAssignedOrder = dAssignedOrder d\<rparr>"

definition order_row :: "order \<Rightarrow> rorder" where
  "order_row ord = \<lparr>roID = oID ord, roPickup = oPickup ord, roDestination = oDestination ord,
     roStatus = oStatus ord, roAssignedDriver = oAssignedDriver ord, roCreatedAt = oCreatedAt ord\<rparr>"

definition road_row :: "edge \<Rightarrow> redge" where
  "road_row e = \<lparr>reID = eID e, reFrom = eFrom e, reTo = eTo e, reClosed = eClosed e\<rparr>"

definition city_roads :: "city \<Rightarrow> redge list" where
  "city_roads c = map road_row (sort_key eID (all_edges c))"

definition live_view :: "sim \<Rightarrow> view" where
  "live_view s = \<lparr>vDrivers = (\<lambda>i. map_option driver_row (map_of (sDrivers s) i)),
     vOrders = (\<lambda>k. map_option order_row (map_of (sOrders s) k)),
     vRoads = city_roads (sCity s), vNodes = sorted_values (cNodes (sCity s)),
     vPaused = sPaused s, vSpeed = sSpeed s\<rparr>"

definition replay_view :: "state_builder \<Rightarrow> view" where
  "replay_view b = \<lparr>vDrivers = (\<lambda>i. map_option off_route (map_of (sbDrivers b) i)),
     vOrders = map_of (sbOrders b), vRoads = sbEdges b, vNodes = sbNodes b,
     vPaused = sbPaused b, vSpeed = sbSpeed b\<rparr>"

definition builder_ok :: "state_builder \<Rightarrow> bool" where
  "builder_ok b \<longleftrightarrow> distinct (sbDriverOrder b) \<and> set (sbDriverOrder b) = fst ` set (sbDrivers b) \<and>
     distinct (sbOrderOrder b) \<and> set (sbOrderOrder b) = fst ` set (sbOrders b) \<and>
     (\<forall>i d. map_of (sbDrivers b) i = Some d \<longrightarrow> 0 \<le> rdRouteIndex d)"

definition upd_driver :: "driver_id \<Rightarrow> (rdriver \<Rightarrow> rdriver) \<Rightarrow> view \<Rightarrow> view" where
  "upd_driver i f v = v\<lparr>vDrivers := (vDrivers v)
     (i := Some (f (case vDrivers v i of None \<Rightarrow> zero_rdriver i | Some d \<Rightarrow> d)))\<rparr>"

definition upd_order :: "order_id \<Rightarrow> (rorder \<Rightarrow> rorder) \<Rightarrow> view \<Rightarrow> view" where
  "upd_order i f v = v\<lparr>vOrders := (vOrders v)
     (i := Some (f (case vOrders v i of None \<Rightarrow> zero_rorder i | Some x \<Rightarrow> x)))\<rparr>"

lemma view_eqI:
  "vDrivers v = vDrivers w \<Longrightarrow> vOrders v = vOrders w \<Longrightarrow> vRoads v = vRoads w \<Longrightarrow> vNodes v = vNodes w \<Longrightarrow>
   vPaused v = vPaused w \<Longrightarrow> vSpeed v = vSpeed w \<Longrightarrow> (v :: view) = w"
  by simp

lemma off_route_zero [simp]: "off_route (zero_rdriver i) = zero_rdriver i"
  by (simp add: off_route_def zero_rdriver_def)

lemma map_of_update_fun: "map_of (AList.update k v m) = (map_of m)(k := Some v)"
  by (simp add: update_conv')

lemma map_of_adjust_fun: "map_of (adjust k f m) = (map_of m)(k := map_option f (map_of m k))"
  by (auto simp: map_of_adjust fun_eq_iff)

lemma replay_view_driver:
  assumes "\<And>d. off_route (f d) = g (off_route d)"
  shows "replay_view (sb_driver i f b) = upd_driver i g (replay_view b)"
  using assms assms [of "zero_rdriver i"]
  by (cases "map_of (sbDrivers b) i")
    (auto simp: replay_view_def sb_driver_def upd_driver_def map_of_update_fun map_of_adjust_fun fun_eq_iff)

lemma replay_view_order: "replay_view (sb_order i f b) = upd_order i f (replay_view b)"
  by (cases "map_of (sbOrders b) i")
    (auto simp: replay_view_def sb_order_def upd_order_def map_of_update_fun map_of_adjust_fun fun_eq_iff)

lemma builder_ok_driver:
  assumes "builder_ok b" "\<And>d. 0 \<le> rdRouteIndex d \<Longrightarrow> 0 \<le> rdRouteIndex (f d)"
  shows "builder_ok (sb_driver i f b)"
proof (cases "map_of (sbDrivers b) i")
  case None
  then have "i \<notin> fst ` set (sbDrivers b)" by (simp add: map_of_eq_None_iff)
  then show ?thesis using assms None
    by (auto simp: builder_ok_def sb_driver_def map_of_update zero_rdriver_def split: if_splits)
next
  case (Some d)
  then show ?thesis using assms by (auto simp: builder_ok_def sb_driver_def map_of_adjust split: if_splits)
qed

lemma builder_ok_order: "builder_ok b \<Longrightarrow> builder_ok (sb_order i f b)"
proof (cases "map_of (sbOrders b) i")
  case None
  then have "i \<notin> fst ` set (sbOrders b)" by (simp add: map_of_eq_None_iff)
  then show "builder_ok b \<Longrightarrow> ?thesis" using None by (simp add: builder_ok_def sb_order_def)
qed (simp add: builder_ok_def sb_order_def)

lemma builder_ok_stamp [simp]:
  "builder_ok (b\<lparr>sbSequence := n, sbVirtualTime := t\<rparr>) = builder_ok b"
  "replay_view (b\<lparr>sbSequence := n, sbVirtualTime := t\<rparr>) = replay_view b"
  "builder_ok (b\<lparr>sbEdges := es\<rparr>) = builder_ok b" "replay_view (b\<lparr>sbEdges := es\<rparr>) = (replay_view b)\<lparr>vRoads := es\<rparr>"
  "builder_ok (b\<lparr>sbPaused := p\<rparr>) = builder_ok b" "replay_view (b\<lparr>sbPaused := p\<rparr>) = (replay_view b)\<lparr>vPaused := p\<rparr>"
  "builder_ok (b\<lparr>sbSpeed := x\<rparr>) = builder_ok b" "replay_view (b\<lparr>sbSpeed := x\<rparr>) = (replay_view b)\<lparr>vSpeed := x\<rparr>"
  by (simp_all add: builder_ok_def replay_view_def)

subsection \<open>What one event does to the view\<close>

definition follows :: "view \<Rightarrow> event list \<Rightarrow> view \<Rightarrow> bool" where
  \<comment> \<open>applying the recorded events takes one view to the other\<close>
  "follows v es v' \<longleftrightarrow> (\<forall>b xs. builder_ok b \<longrightarrow> replay_view b = v \<longrightarrow> list_all2 stored_as xs es \<longrightarrow>
     (\<exists>b'. fold_events None 0 xs b = Inr b' \<and> builder_ok b' \<and> replay_view b' = v'))"

definition shows_as :: "event_type \<Rightarrow> json \<Rightarrow> real \<Rightarrow> view \<Rightarrow> view \<Rightarrow> bool" where
  "shows_as t p time v v' \<longleftrightarrow> (\<forall>e b x. evType e = t \<longrightarrow> evPayload e = p \<longrightarrow> evVirtualTime e = time \<longrightarrow>
     builder_ok b \<longrightarrow> replay_view b = v \<longrightarrow> stored_as x e \<longrightarrow>
     (\<exists>b'. sb_apply x b = Inr b' \<and> builder_ok b' \<and> replay_view b' = v'))"

lemma fold_events_append: "fold_events None 0 (xs @ ys) b = bind_res (fold_events None 0 xs b) (fold_events None 0 ys)"
proof (induction xs arbitrary: b)
  case (Cons x xs)
  then show ?case by (cases "sb_apply x b") auto
qed simp

lemma follows_refl: "follows v [] v"
  by (simp add: follows_def)

lemma follows_append: "follows v es v' \<Longrightarrow> follows v' fs v'' \<Longrightarrow> follows v (es @ fs) v''"
  unfolding follows_def
proof (intro allI impI)
  fix b xs
  assume a: "\<forall>b xs. builder_ok b \<longrightarrow> replay_view b = v \<longrightarrow> list_all2 stored_as xs es \<longrightarrow>
     (\<exists>b'. fold_events None 0 xs b = Inr b' \<and> builder_ok b' \<and> replay_view b' = v')"
    and c: "\<forall>b xs. builder_ok b \<longrightarrow> replay_view b = v' \<longrightarrow> list_all2 stored_as xs fs \<longrightarrow>
     (\<exists>b'. fold_events None 0 xs b = Inr b' \<and> builder_ok b' \<and> replay_view b' = v'')"
    and b: "builder_ok b" "replay_view b = v" "list_all2 stored_as xs (es @ fs)"
  obtain xs1 xs2 where xs: "xs = xs1 @ xs2" "list_all2 stored_as xs1 es" "list_all2 stored_as xs2 fs"
    using b(3) by (auto simp: list_all2_append2)
  obtain b1 where b1: "fold_events None 0 xs1 b = Inr b1" "builder_ok b1" "replay_view b1 = v'" using a b xs(2) by blast
  then obtain b2 where "fold_events None 0 xs2 b1 = Inr b2" "builder_ok b2" "replay_view b2 = v''" using c xs(3) by blast
  then show "\<exists>b'. fold_events None 0 xs b = Inr b' \<and> builder_ok b' \<and> replay_view b' = v''"
    using b1 by (simp add: xs(1) fold_events_append)
qed

lemma follows_one:
  assumes "shows_as (evType e) (evPayload e) (evVirtualTime e) v v'"
  shows "follows v [e] v'"
  unfolding follows_def
proof (intro allI impI)
  fix b xs
  assume b: "builder_ok b" "replay_view b = v" "list_all2 stored_as xs [e]"
  then obtain x where x: "xs = [x]" "stored_as x e" by (auto simp: list_all2_Cons2)
  then obtain b' where "sb_apply x b = Inr b'" "builder_ok b'" "replay_view b' = v'"
    using assms b unfolding shows_as_def by blast
  then show "\<exists>b'. fold_events None 0 xs b = Inr b' \<and> builder_ok b' \<and> replay_view b' = v'" by (simp add: x)
qed

lemma stored_fields:
  assumes "stored_as x e"
  shows "seType x = evType e" "sePayload x = Raw (evPayload e)" "seVirtualTime x = evVirtualTime e" "encodable (evPayload e)"
proof -
  have x: "x = \<lparr>seSimulationID = evSimulationID e, seSequence = evSequence e, seVirtualTime = evVirtualTime e,
      seType = evType e, sePayload = Raw (evPayload e), seTraceID = seTraceID x, seRecordedAt = seRecordedAt x\<rparr>"
    using assms by (auto simp: stored_as_def EventFrom_def marshal_def split: if_splits)
  show "seType x = evType e" "sePayload x = Raw (evPayload e)" "seVirtualTime x = evVirtualTime e"
    by (subst x, simp)+
  show "encodable (evPayload e)" using assms by (auto simp: stored_as_def EventFrom_def marshal_def split: if_splits)
qed

lemmas decodes = sb_apply_def decode_def unmarshal_def dec1_def dec2_def field_def dec_driver_status_def
  dec_string_def as_object_def Let_def

named_theorems reads \<open>what replay makes of one event\<close>

lemma shows_asI:
  assumes "\<And>(x :: stored_event) b. seType x = t \<Longrightarrow> sePayload x = Raw p \<Longrightarrow> seVirtualTime x = time \<Longrightarrow> builder_ok b \<Longrightarrow> replay_view b = v \<Longrightarrow>
    \<exists>b'. sb_apply x b = Inr b' \<and> builder_ok b' \<and> replay_view b' = v'"
  shows "shows_as t p time v v'"
  unfolding shows_as_def by (intro allI impI, rule assms) (simp_all add: stored_fields)

definition view_status :: "driver_id \<Rightarrow> driver_status \<Rightarrow> view \<Rightarrow> view" where
  "view_status i st v =
     (let v1 = upd_driver i (\<lambda>d. d\<lparr>rdStatus := st\<rparr>) v
      in case st of
           DriverDelivering \<Rightarrow>
             (let k = rdAssignedOrder (the (vDrivers v1 i))
              in if k \<noteq> '''' then upd_order k (\<lambda>ord. ord\<lparr>roStatus := OrderEnRoute\<rparr>) v1 else v1)
         | DriverIdle \<Rightarrow> upd_driver i (\<lambda>d. d\<lparr>rdRoute := [], rdAssignedOrder := ''''\<rparr>) v1
         | _ \<Rightarrow> v1)"

lemma replay_view_assigned:
  "replay_view b = v \<Longrightarrow> map_of (sbDrivers b) i = Some d \<Longrightarrow> rdAssignedOrder (the (vDrivers v i)) = rdAssignedOrder d"
  by (auto simp: replay_view_def off_route_def)

lemma sb_driver_present: "\<exists>d. map_of (sbDrivers (sb_driver i f b)) i = Some d"
  by (cases "map_of (sbDrivers b) i") (auto simp: sb_driver_def map_of_update)

lemma apply_status_view:
  assumes "builder_ok b"
  shows "builder_ok (apply_status i st b) \<and> replay_view (apply_status i st b) = view_status i st (replay_view b)"
proof -
  let ?b = "sb_driver i (\<lambda>d. d\<lparr>rdStatus := st\<rparr>) b"
  let ?v = "upd_driver i (\<lambda>d. d\<lparr>rdStatus := st\<rparr>) (replay_view b)"
  have ok: "builder_ok ?b" by (rule builder_ok_driver [OF assms]) simp
  have v: "replay_view ?b = ?v" by (rule replay_view_driver) (simp add: off_route_def)
  obtain d where d: "map_of (sbDrivers ?b) i = Some d" using sb_driver_present by blast
  have k: "rdAssignedOrder (the (vDrivers ?v i)) = rdAssignedOrder d" by (rule replay_view_assigned [OF v d])
  show ?thesis
  proof (cases st)
    case DriverIdle
    have "builder_ok (sb_driver i (\<lambda>d. d\<lparr>rdRoute := [], rdRouteIndex := 0, rdAssignedOrder := ''''\<rparr>) ?b)"
      by (rule builder_ok_driver [OF ok]) simp
    moreover have "replay_view (sb_driver i (\<lambda>d. d\<lparr>rdRoute := [], rdRouteIndex := 0, rdAssignedOrder := ''''\<rparr>) ?b) =
        upd_driver i (\<lambda>d. d\<lparr>rdRoute := [], rdAssignedOrder := ''''\<rparr>) ?v"
      unfolding v [symmetric] by (rule replay_view_driver) (simp add: off_route_def)
    ultimately show ?thesis using DriverIdle by (simp add: apply_status_def view_status_def Let_def)
  next
    case DriverDelivering
    then show ?thesis using ok v d k builder_ok_order [OF ok] replay_view_order [of _ _ ?b]
      by (simp add: apply_status_def view_status_def Let_def)
  qed (use ok v in \<open>simp_all add: apply_status_def view_status_def Let_def\<close>)
qed

lemma reads_status [reads]:
  assumes "driver_status_of (driver_status_str st) = st"
  shows "shows_as EventDriverStatusChanged (driver_status_payload i st) time v (view_status i st v)"
proof (rule shows_asI)
  fix x :: stored_event and b
  assume x: "seType x = EventDriverStatusChanged" "sePayload x = Raw (driver_status_payload i st)"
    and b: "builder_ok b" "replay_view b = v"
  let ?b = "b\<lparr>sbSequence := seSequence x, sbVirtualTime := seVirtualTime x\<rparr>"
  have "sb_apply x b = Inr (apply_status i st ?b)"
    using x assms by (simp add: decodes driver_status_payload_def)
  then show "\<exists>b'. sb_apply x b = Inr b' \<and> builder_ok b' \<and> replay_view b' = view_status i st v"
    using apply_status_view [of ?b i st] b by simp
qed

lemma reads_one_driver:
  assumes run: "\<And>x b. seType x = t \<Longrightarrow> sePayload x = Raw p \<Longrightarrow> seVirtualTime x = time \<Longrightarrow> builder_ok b \<Longrightarrow>
      sb_apply x b = Inr (sb_driver i f (b\<lparr>sbSequence := seSequence x, sbVirtualTime := seVirtualTime x\<rparr>))"
    and f: "\<And>d. off_route (f d) = g (off_route d)" "\<And>d. 0 \<le> rdRouteIndex d \<Longrightarrow> 0 \<le> rdRouteIndex (f d)"
  shows "shows_as t p time v (upd_driver i g v)"
proof (rule shows_asI)
  fix x :: stored_event and b
  assume x: "seType x = t" "sePayload x = Raw p" "seVirtualTime x = time" and b: "builder_ok b" "replay_view b = v"
  let ?b = "b\<lparr>sbSequence := seSequence x, sbVirtualTime := seVirtualTime x\<rparr>"
  have "builder_ok (sb_driver i f ?b)" by (rule builder_ok_driver) (simp_all add: b f)
  moreover have "replay_view (sb_driver i f ?b) = upd_driver i g v"
    using replay_view_driver [of f g i ?b, OF f(1)] b by simp
  ultimately show "\<exists>b'. sb_apply x b = Inr b' \<and> builder_ok b' \<and> replay_view b' = upd_driver i g v"
    using run [OF x b(1)] by blast
qed

lemma reads_one_order:
  assumes run: "\<And>x b. seType x = t \<Longrightarrow> sePayload x = Raw p \<Longrightarrow> seVirtualTime x = time \<Longrightarrow>
      sb_apply x b = Inr (sb_order i f (b\<lparr>sbSequence := seSequence x, sbVirtualTime := seVirtualTime x\<rparr>))"
  shows "shows_as t p time v (upd_order i f v)"
proof (rule shows_asI)
  fix x :: stored_event and b
  assume x: "seType x = t" "sePayload x = Raw p" "seVirtualTime x = time" and b: "builder_ok b" "replay_view b = v"
  let ?b = "b\<lparr>sbSequence := seSequence x, sbVirtualTime := seVirtualTime x\<rparr>"
  have "builder_ok (sb_order i f ?b)" by (rule builder_ok_order) (simp add: b)
  moreover have "replay_view (sb_order i f ?b) = upd_order i f v" using b by (simp add: replay_view_order)
  ultimately show "\<exists>b'. sb_apply x b = Inr b' \<and> builder_ok b' \<and> replay_view b' = upd_order i f v"
    using run [OF x] by blast
qed

lemma reads_placed [reads]:
  "shows_as EventOrderPlaced
     (JObj [(''orderId'', JStr i), (''pickupNodeId'', JStr p), (''destinationNodeId'', JStr q)]) time v
     (upd_order i (\<lambda>ord. ord\<lparr>roPickup := p, roDestination := q, roStatus := OrderPending, roCreatedAt := time\<rparr>) v)"
  by (rule reads_one_order) (simp add: decodes)

lemma reads_unassignable [reads]:
  "shows_as EventOrderUnassignable (unassignable_payload i reason) time v
     (upd_order i (\<lambda>ord. ord\<lparr>roStatus := OrderUnassignable\<rparr>) v)"
  by (rule reads_one_order) (simp add: decodes unassignable_payload_def)

lemma reads_delivered [reads]:
  "shows_as EventOrderDelivered (JObj [(''orderId'', JStr i), (''driverId'', JStr d)]) time v
     (upd_order i (\<lambda>ord. ord\<lparr>roStatus := OrderDelivered\<rparr>) v)"
  by (rule reads_one_order) (simp add: decodes)

lemma reads_route [reads]:
  "shows_as EventRouteComputed (route_payload i r len) time v (upd_driver i (\<lambda>d. d\<lparr>rdRoute := r\<rparr>) v)"
  by (rule reads_one_driver [where f = "\<lambda>d. d\<lparr>rdRoute := r, rdRouteIndex := 0\<rparr>"])
    (simp_all add: decodes route_payload_def off_route_def)

lemma reads_position [reads]:
  "shows_as EventDriverPositionUpdate
     (JObj [(''driverId'', JStr i), (''nodeId'', JStr n), (''x'', JNum x), (''y'', JNum y),
            (''routeIndex'', k), (''routeProgress'', pr)]) time v (upd_driver i (\<lambda>d. d\<lparr>rdPosition := n\<rparr>) v)"
proof (rule reads_one_driver [where f = "step_position n"])
  fix w :: stored_event and b
  assume w: "seType w = EventDriverPositionUpdate" "sePayload w = Raw (JObj [(''driverId'', JStr i), (''nodeId'', JStr n),
      (''x'', JNum x), (''y'', JNum y), (''routeIndex'', k), (''routeProgress'', pr)])" and b: "builder_ok b"
  have "0 \<le> rdRouteIndex (case map_of (sbDrivers b) i of None \<Rightarrow> zero_rdriver i | Some d \<Rightarrow> d)"
    using b by (cases "map_of (sbDrivers b) i") (auto simp: builder_ok_def zero_rdriver_def)
  then show "sb_apply w b = Inr (sb_driver i (step_position n) (b\<lparr>sbSequence := seSequence w, sbVirtualTime := seVirtualTime w\<rparr>))"
    using w by (simp add: decodes apply_position_def)
qed (auto simp: step_position_def off_route_def)

lemma reads_assigned [reads]:
  "shows_as EventOrderAssigned
     (JObj [(''orderId'', JStr k), (''driverId'', JStr i), (''pickupEtaVirtualTime'', a), (''pickupDistance'', c)]) time v
     (upd_driver i (\<lambda>d. d\<lparr>rdAssignedOrder := k\<rparr>)
       (upd_order k (\<lambda>ord. ord\<lparr>roStatus := OrderAssigned, roAssignedDriver := i\<rparr>) v))"
proof (rule shows_asI)
  fix x :: stored_event and b
  assume x: "seType x = EventOrderAssigned" "sePayload x = Raw (JObj [(''orderId'', JStr k), (''driverId'', JStr i),
      (''pickupEtaVirtualTime'', a), (''pickupDistance'', c)])" and b: "builder_ok b" "replay_view b = v"
  let ?b = "sb_order k (\<lambda>ord. ord\<lparr>roStatus := OrderAssigned, roAssignedDriver := i\<rparr>)
    (b\<lparr>sbSequence := seSequence x, sbVirtualTime := seVirtualTime x\<rparr>)"
  have ok: "builder_ok ?b" by (rule builder_ok_order) (simp add: b)
  have "builder_ok (sb_driver i (\<lambda>d. d\<lparr>rdAssignedOrder := k\<rparr>) ?b)" by (rule builder_ok_driver [OF ok]) simp
  moreover have "replay_view (sb_driver i (\<lambda>d. d\<lparr>rdAssignedOrder := k\<rparr>) ?b) =
      upd_driver i (\<lambda>d. d\<lparr>rdAssignedOrder := k\<rparr>) (replay_view ?b)"
    by (rule replay_view_driver) (simp add: off_route_def)
  moreover have "replay_view ?b = upd_order k (\<lambda>ord. ord\<lparr>roStatus := OrderAssigned, roAssignedDriver := i\<rparr>) v"
    using b by (simp add: replay_view_order)
  ultimately show "\<exists>b'. sb_apply x b = Inr b' \<and> builder_ok b' \<and> replay_view b' = upd_driver i (\<lambda>d. d\<lparr>rdAssignedOrder := k\<rparr>)
       (upd_order k (\<lambda>ord. ord\<lparr>roStatus := OrderAssigned, roAssignedDriver := i\<rparr>) v)"
    using x by (simp add: decodes)
qed

lemma reads_invalidated [reads]: "shows_as EventRouteInvalidated p time v v"
  by (rule shows_asI) (simp add: sb_apply_def Let_def)

lemma reads_closed [reads]:
  "shows_as EventRoadClosed (JObj [(''edgeIds'', JArr (map JStr ids)), (''from'', a), (''to'', c),
     (''affectedRoutes'', n), (''recalculationMs'', ms)]) time v (v\<lparr>vRoads := set_closed True ids (vRoads v)\<rparr>)"
  by (rule shows_asI) (auto simp: decodes dec_list_def replay_view_def [of b for b])

lemma reads_reopened [reads]:
  "shows_as EventRoadReopened (JObj [(''edgeIds'', JArr (map JStr ids)), (''from'', a), (''to'', c)]) time v
     (v\<lparr>vRoads := set_closed False ids (vRoads v)\<rparr>)"
  by (rule shows_asI) (auto simp: decodes dec_list_def replay_view_def [of b for b])

lemma reads_paused [reads]: "shows_as EventSimulationPaused (JObj [(''paused'', JBool p)]) time v (v\<lparr>vPaused := p\<rparr>)"
  by (rule shows_asI) (simp add: decodes dec_bool_def)

lemma reads_speed [reads]: "shows_as EventSimulationSpeed (JObj [(''multiplier'', JNum x)]) time v (v\<lparr>vSpeed := x\<rparr>)"
  by (rule shows_asI) (simp add: decodes dec_real_def)

subsection \<open>Snapshots\<close>

definition keyed :: "sim \<Rightarrow> bool" where
  \<comment> \<open>drivers and orders are filed under their own ids, and the speed is one the handlers accept\<close>
  "keyed s \<longleftrightarrow> distinct_keys (sDrivers s) \<and> distinct_keys (sOrders s) \<and> 0 < sSpeed s \<and>
     (\<forall>i d. map_of (sDrivers s) i = Some d \<longrightarrow> dID d = i) \<and>
     (\<forall>k ord. map_of (sOrders s) k = Some ord \<longrightarrow> oID ord = k \<and> k \<noteq> '''')"

definition statuses_named :: "sim \<Rightarrow> bool" where
  "statuses_named s \<longleftrightarrow> (\<forall>i d. map_of (sDrivers s) i = Some d \<longrightarrow> driver_status_named (dStatus d)) \<and>
     (\<forall>k ord. map_of (sOrders s) k = Some ord \<longrightarrow> order_status_named (oStatus ord))"

definition full_row :: "driver \<Rightarrow> rdriver" where
  "full_row d = (driver_row d)\<lparr>rdRouteIndex := int (dRouteIndex d)\<rparr>"

lemma full_row_simps [simp]:
  "rdRouteIndex (full_row d) = int (dRouteIndex d)" "off_route (full_row d) = driver_row d"
  by (simp_all add: full_row_def off_route_def driver_row_def)

lemma dec_node_enc [simp]: "dec_node (enc_node n) = Some n"
  by (simp add: dec_node_def enc_node_def field_def)

lemma dec_redge_enc [simp]: "dec_redge (enc_edge e) = Some (road_row e)"
  by (simp add: dec_redge_def enc_edge_def field_def road_row_def)

lemma dec_route_enc [simp]: "dec_list dec_string (enc_route r) = Some r"
  by (simp add: enc_route_def)

lemma dec_rdriver_enc: "driver_status_named (dStatus d) \<Longrightarrow> dec_rdriver (enc_driver s d) = Some (full_row d)"
  by (simp add: dec_rdriver_def enc_driver_def field_def full_row_def driver_row_def dec_driver_status_def
      driver_status_named_def)

lemma dec_rorder_enc: "order_status_named (oStatus ord) \<Longrightarrow> dec_rorder (enc_order ord) = Some (order_row ord)"
  by (simp add: dec_rorder_def enc_order_def field_def order_row_def dec_order_status_def order_status_named_def)

lemma sorted_values_in: "x \<in> set (sorted_values m) \<Longrightarrow> \<exists>k. map_of m k = Some x"
  by (force simp: sorted_values_def dest: map_of_SomeD weak_map_of_SomeI)

lemma dec_snapshot_enc:
  assumes "statuses_named s"
  shows "dec_snapshot (snapshotPayload s) = Some \<lparr>spNodes = sorted_values (cNodes (sCity s)),
     spEdges = city_roads (sCity s), spDrivers = map full_row (sorted_values (sDrivers s)),
     spOrders = map order_row (sorted_values (sOrders s)), spPaused = sPaused s, spSpeed = sSpeed s\<rparr>"
proof -
  have "dec_all dec_rdriver (map (enc_driver s) (sorted_values (sDrivers s))) = Some (map full_row (sorted_values (sDrivers s)))"
    by (rule dec_all_map, rule dec_rdriver_enc) (use assms sorted_values_in in \<open>fastforce simp: statuses_named_def\<close>)
  moreover have "dec_all dec_rorder (map enc_order (sorted_values (sOrders s))) = Some (map order_row (sorted_values (sOrders s)))"
    by (rule dec_all_map, rule dec_rorder_enc) (use assms sorted_values_in in \<open>fastforce simp: statuses_named_def\<close>)
  moreover have "dec_all dec_node (map enc_node ns) = Some ns" for ns
    using dec_all_map [of ns dec_node enc_node "\<lambda>x. x"] by simp
  moreover have "dec_all dec_redge (map enc_edge es) = Some (map road_row es)" for es
    by (rule dec_all_map) simp
  ultimately show ?thesis
    by (simp add: dec_snapshot_def snapshotPayload_def field_def city_roads_def)
qed

lemma map_of_rebuilt:
  "map_of (foldl (\<lambda>m x. AList.update (f x) x m) m0 xs) k =
     (case find (\<lambda>x. f x = k) (rev xs) of None \<Rightarrow> map_of m0 k | Some x \<Rightarrow> Some x)"
  by (induction xs arbitrary: m0 rule: rev_induct) (auto simp: map_of_update)

lemma keys_rebuilt: "fst ` set (foldl (\<lambda>m x. AList.update (f x) x m) m0 xs) = fst ` set m0 \<union> f ` set xs"
  by (induction xs arbitrary: m0) auto

lemma find_hit: "find P xs = Some y \<Longrightarrow> P y \<and> y \<in> set xs"
  by (induction xs) (auto split: if_splits)

lemma find_miss: "find P xs = None \<Longrightarrow> y \<in> set xs \<Longrightarrow> \<not> P y"
  by (simp add: find_None_iff)

lemma find_sorted_value:
  assumes "\<And>k x. map_of m k = Some x \<Longrightarrow> f (row x) = k"
  shows "find (\<lambda>y. f y = k) (rev (map row (sorted_values m))) = map_option row (map_of m k)"
proof (cases "find (\<lambda>y. f y = k) (rev (map row (sorted_values m)))")
  case None
  have "map_of m k = None"
  proof (rule ccontr)
    assume "map_of m k \<noteq> None"
    then obtain x where x: "map_of m k = Some x" by blast
    then have "k \<in> set (sort (keys m))" by (force dest: map_of_SomeD)
    then have "x \<in> set (sorted_values m)" unfolding sorted_values_def using x by force
    then have "row x \<in> set (rev (map row (sorted_values m)))" by simp
    from find_miss [OF None this] assms [OF x] show False by simp
  qed
  then show ?thesis using None by simp
next
  case (Some y)
  from find_hit [OF Some] have y: "f y = k" "y \<in> row ` set (sorted_values m)" by auto
  then obtain z where z: "z \<in> set (sorted_values m)" "y = row z" by blast
  obtain k' where k': "map_of m k' = Some z" using sorted_values_in [OF z(1)] by blast
  have "k' = k" using assms [OF k'] y(1) z(2) by simp
  then show ?thesis using Some k' z(2) by simp
qed

lemma keys_sorted_values:
  assumes "\<And>k x. map_of m k = Some x \<Longrightarrow> f (row x) = k"
  shows "map f (map row (sorted_values m)) = sort (keys m)"
proof -
  have "f (row (the (map_of m k))) = k" if "k \<in> set (sort (keys m))" for k
  proof -
    have "k \<in> set (keys m)" using that by simp
    then obtain x where "map_of m k = Some x" unfolding in_keys_iff by blast
    then show ?thesis using assms by simp
  qed
  then have "map (\<lambda>k. f (row (the (map_of m k)))) (sort (keys m)) = sort (keys m)" by (rule map_idI)
  then show ?thesis by (simp add: sorted_values_def comp_def)
qed

lemma applySnapshot_view:
  assumes "keyed s" "statuses_named s"
  shows "\<exists>b'. applySnapshot (Raw (snapshotPayload s)) b = Inr b' \<and> builder_ok b' \<and> replay_view b' = live_view s \<and>
    sbSimulationID b' = sbSimulationID b"
proof -
  let ?ds = "map full_row (sorted_values (sDrivers s))" and ?os = "map order_row (sorted_values (sOrders s))"
  let ?b = "b\<lparr>sbNodes := sorted_values (cNodes (sCity s)), sbEdges := city_roads (sCity s),
    sbPaused := sPaused s, sbSpeed := sSpeed s, sbDriverOrder := map rdID ?ds,
    sbDrivers := foldl (\<lambda>m d. AList.update (rdID d) d m) [] ?ds, sbOrderOrder := map roID ?os,
    sbOrders := foldl (\<lambda>m ord. AList.update (roID ord) ord m) [] ?os\<rparr>"
  have kd: "rdID (full_row d) = i" if "map_of (sDrivers s) i = Some d" for i d
    using assms(1) that by (simp add: keyed_def full_row_def driver_row_def)
  have ko: "roID (order_row x) = i" if "map_of (sOrders s) i = Some x" for i x
    using assms(1) that by (simp add: keyed_def order_row_def)
  have run: "applySnapshot (Raw (snapshotPayload s)) b = Inr ?b"
    using assms(1) by (simp add: applySnapshot_def decode_def unmarshal_def dec_snapshot_enc [OF assms(2)] keyed_def)
  have orders: "map rdID ?ds = sort (keys (sDrivers s))" "map roID ?os = sort (keys (sOrders s))"
    by (rule keys_sorted_values, erule kd) (rule keys_sorted_values, erule ko)
  have look: "map_of (sbDrivers ?b) i = map_option full_row (map_of (sDrivers s) i)"
    "map_of (sbOrders ?b) i = map_option order_row (map_of (sOrders s) i)" for i
    by (simp_all add: map_of_rebuilt find_sorted_value [where f = rdID and row = full_row, OF kd]
        find_sorted_value [where f = roID and row = order_row, OF ko] option.case_eq_if option.expand)
  have "distinct (map rdID ?ds)" "distinct (map roID ?os)" unfolding orders using assms(1) by (simp_all add: keyed_def)
  then have "builder_ok ?b"
    using look(1) by (auto simp: builder_ok_def keys_rebuilt simp del: map_map)
  moreover have "replay_view ?b = live_view s"
  proof (rule view_eqI)
    show "vDrivers (replay_view ?b) = vDrivers (live_view s)"
      by (simp only: replay_view_def live_view_def view.select_convs look fun_eq_iff)
        (simp add: option.map_comp comp_def)
    show "vOrders (replay_view ?b) = vOrders (live_view s)"
      by (simp only: replay_view_def live_view_def view.select_convs look fun_eq_iff) simp
  qed (simp_all add: replay_view_def live_view_def)
  ultimately show ?thesis using run by (intro exI [of _ ?b]) simp
qed

lemma reads_snapshot:
  assumes "keyed s" "statuses_named s"
  shows "shows_as EventSimulationSnapshot (snapshotPayload s) time v (live_view s)"
proof (rule shows_asI)
  fix x :: stored_event and b
  assume "seType x = EventSimulationSnapshot" "sePayload x = Raw (snapshotPayload s)"
  then show "\<exists>b'. sb_apply x b = Inr b' \<and> builder_ok b' \<and> replay_view b' = live_view s"
    using applySnapshot_view [OF assms, of "b\<lparr>sbSequence := seSequence x, sbVirtualTime := seVirtualTime x\<rparr>"]
    by (auto simp: sb_apply_def Let_def)
qed

subsection \<open>Telling a state\<close>

definition live_as :: "redge list \<Rightarrow> sim \<Rightarrow> view" where
  \<comment> \<open>the live view with the roads the viewer still believes in\<close>
  "live_as R s = (live_view s)\<lparr>vRoads := R\<rparr>"

definition told :: "event list \<Rightarrow> view \<Rightarrow> sim \<Rightarrow> view \<Rightarrow> bool" where
  \<comment> \<open>the events after the first \<open>pre\<close> take \<open>v0\<close> to \<open>v\<close>\<close>
  "told pre v0 s v \<longleftrightarrow> (\<exists>es. sEvents s = pre @ es \<and> follows v0 es v)"

definition in_step :: "event list \<Rightarrow> view \<Rightarrow> redge list \<Rightarrow> sim \<Rightarrow> bool" where
  "in_step pre v0 R s \<longleftrightarrow> keyed s \<and> told pre v0 s (live_as R s)"

lemma told_emit:
  assumes "told pre v0 s v" "shows_as t p (sVirtualTime s) v v'"
  shows "told pre v0 (emit t p s) v'"
proof -
  obtain es where es: "sEvents s = pre @ es" "follows v0 es v" using assms(1) by (auto simp: told_def)
  obtain e where e: "sEvents (emit t p s) = sEvents s @ [e]" "evType e = t" "evPayload e = p" "evVirtualTime e = sVirtualTime s"
    by (simp add: emit_def)
  have "follows v [e] v'" by (rule follows_one) (use assms(2) e in simp)
  from follows_append [OF es(2) this] show ?thesis using e(1) es(1) unfolding told_def by (intro exI [of _ "es @ [e]"]) simp
qed

lemma told_quiet: "told pre v0 s v \<Longrightarrow> sEvents s' = sEvents s \<Longrightarrow> told pre v0 s' v"
  by (simp add: told_def)

lemma live_as_frame [simp]:
  "live_as R (emit t p s) = live_as R s" "live_as R (s\<lparr>sPending := xs\<rparr>) = live_as R s"
  "live_as R (s\<lparr>sIndex := ix\<rparr>) = live_as R s" "live_as R (s\<lparr>sBatchCount := n\<rparr>) = live_as R s"
  "live_as R (s\<lparr>sImmediateCount := n\<rparr>) = live_as R s" "live_as R (s\<lparr>sVirtualTime := tm\<rparr>) = live_as R s"
  "live_as R (s\<lparr>sCurrentTrace := tr\<rparr>) = live_as R s" "live_as R (s\<lparr>sCurrentCausation := tr\<rparr>) = live_as R s"
  "live_as R (s\<lparr>sPending := xs, sImmediateCount := n\<rparr>) = live_as R s"
  by (simp_all add: live_as_def live_view_def emit_def)

lemma keyed_frame [simp]:
  "keyed (emit t p s) = keyed s" "keyed (s\<lparr>sPending := xs\<rparr>) = keyed s"
  "keyed (s\<lparr>sIndex := ix\<rparr>) = keyed s" "keyed (s\<lparr>sBatchCount := n\<rparr>) = keyed s"
  "keyed (s\<lparr>sImmediateCount := n\<rparr>) = keyed s" "keyed (s\<lparr>sVirtualTime := tm\<rparr>) = keyed s"
  "keyed (s\<lparr>sCurrentTrace := tr\<rparr>) = keyed s" "keyed (s\<lparr>sCurrentCausation := tr\<rparr>) = keyed s"
  "keyed (s\<lparr>sPending := xs, sImmediateCount := n\<rparr>) = keyed s" "keyed (s\<lparr>sCity := c\<rparr>) = keyed s"
  "keyed (s\<lparr>sPaused := b\<rparr>) = keyed s"
  by (simp_all add: keyed_def emit_def)

lemma keyed_driver [simp]: "(\<And>d. dID (f d) = dID d) \<Longrightarrow> keyed s \<Longrightarrow> keyed (set_driver i f s)"
  by (auto simp: keyed_def set_driver_def map_of_adjust split: if_splits)

lemma keyed_order [simp]:
  assumes "\<And>x. oID (f x) = oID x" "keyed s"
  shows "keyed (set_order i f s)"
proof -
  have "oID ord = k \<and> k \<noteq> ''''" if ord: "map_of (adjust i f (sOrders s)) k = Some ord" for k ord
  proof -
    obtain x where "map_of (sOrders s) k = Some x" "oID ord = oID x"
      using ord assms(1) by (cases "k = i") auto
    then show ?thesis using assms(2) unfolding keyed_def by metis
  qed
  then show ?thesis using assms(2) unfolding keyed_def set_order_def by simp
qed

lemma in_step_quiet:
  "in_step pre v0 R s \<Longrightarrow> keyed s' \<Longrightarrow> sEvents s' = sEvents s \<Longrightarrow> live_as R s' = live_as R s \<Longrightarrow> in_step pre v0 R s'"
  by (simp add: in_step_def told_def)

lemma live_as_driver:
  assumes "map_of (sDrivers s) i = Some d" "driver_row (f d) = g (driver_row d)"
  shows "live_as R (set_driver i f s) = upd_driver i g (live_as R s)"
  using assms by (auto simp: live_as_def live_view_def set_driver_def upd_driver_def map_of_adjust fun_eq_iff)

lemma live_as_order:
  assumes "map_of (sOrders s) i = Some x" "order_row (f x) = g (order_row x)"
  shows "live_as R (set_order i f s) = upd_order i g (live_as R s)"
  using assms by (auto simp: live_as_def live_view_def set_order_def upd_order_def map_of_adjust fun_eq_iff)

lemma live_as_lookup:
  "vDrivers (live_as R s) i = map_option driver_row (map_of (sDrivers s) i)"
  "vOrders (live_as R s) k = map_option order_row (map_of (sOrders s) k)"
  by (simp_all add: live_as_def live_view_def)

lemma set_parts [simp]:
  "sDrivers (set_order i f s) = sDrivers s" "sOrders (set_driver j g s) = sOrders s"
  "sDrivers (set_driver j g s) = adjust j g (sDrivers s)" "sOrders (set_order i f s) = adjust i f (sOrders s)"
  "sEvents (set_order i f s) = sEvents s" "sEvents (set_driver j g s) = sEvents s"
  "sVirtualTime (set_order i f s) = sVirtualTime s" "sVirtualTime (set_driver j g s) = sVirtualTime s"
  "sCity (set_order i f s) = sCity s" "sCity (set_driver j g s) = sCity s"
  by (simp_all add: set_order_def set_driver_def)

lemma upd_fuse [simp]:
  "upd_driver i f (upd_driver i g v) = upd_driver i (\<lambda>d. f (g d)) v"
  "upd_order i f' (upd_order i g' v) = upd_order i (\<lambda>x. f' (g' x)) v"
  by (simp_all add: upd_driver_def upd_order_def)

lemma upd_lookup [simp]:
  "vDrivers (upd_driver i f v) j = (if j = i then Some (f (case vDrivers v i of None \<Rightarrow> zero_rdriver i | Some d \<Rightarrow> d)) else vDrivers v j)"
  "vDrivers (upd_order k g v) = vDrivers v" "vOrders (upd_driver i f v) = vOrders v"
  "vOrders (upd_order k g v) j = (if j = k then Some (g (case vOrders v k of None \<Rightarrow> zero_rorder k | Some x \<Rightarrow> x)) else vOrders v j)"
  by (simp_all add: upd_driver_def upd_order_def)

lemma upd_driver_cong: "(\<And>d. f d = g d) \<Longrightarrow> upd_driver i f v = upd_driver i g v"
  by presburger

lemma upd_commute: "upd_order k g (upd_driver i f v) = upd_driver i f (upd_order k g v)"
  by (simp add: upd_driver_def upd_order_def)

subsection \<open>Orders and dispatch\<close>

lemma reject_in_step:
  assumes "in_step pre v0 R s" "map_of (sOrders s) i = Some ord"
  shows "in_step pre v0 R (emit EventOrderUnassignable (unassignable_payload i reason)
    (set_order i (\<lambda>x. x\<lparr>oStatus := OrderUnassignable\<rparr>) s))"
proof -
  let ?s = "set_order i (\<lambda>x. x\<lparr>oStatus := OrderUnassignable\<rparr>) s"
  have "live_as R ?s = upd_order i (\<lambda>x. x\<lparr>roStatus := OrderUnassignable\<rparr>) (live_as R s)"
    by (rule live_as_order [OF assms(2)]) (simp add: order_row_def)
  moreover have "told pre v0 ?s (live_as R s)" by (rule told_quiet) (use assms(1) in \<open>simp_all add: in_step_def\<close>)
  ultimately show ?thesis using told_emit [OF _ reads_unassignable] assms(1) by (simp add: in_step_def)
qed

lemma commit_in_step:
  assumes step: "in_step pre v0 R s" and ord: "map_of (sOrders s) (aOrderID a) = Some ord"
    and d: "map_of (sDrivers s) (aDriverID a) = Some d"
  shows "in_step pre v0 R (commit_assignment a ord d toDest full s)"
proof -
  let ?i = "aDriverID a" and ?k = "aOrderID a" and ?at = "dPosition d = oPickup ord"
  let ?dst = "if ?at then DriverDelivering else DriverEnRouteToPick"
  have k: "oID ord = ?k" "?k \<noteq> ''''" "dID d = ?i" using step ord d by (auto simp: in_step_def keyed_def)
  let ?s1 = "set_driver ?i (\<lambda>x. x\<lparr>dRoute := full, dRouteIndex := 0, dStatus := ?dst, dAssignedOrder := ?k\<rparr>) s"
  let ?s2 = "?s1\<lparr>sIndex := map_option (grid_remove ?i) (sIndex ?s1)\<rparr>"
  let ?s3 = "set_order ?k (\<lambda>x. x\<lparr>oStatus := (if ?at then OrderEnRoute else OrderAssigned), oAssignedDriver := ?i\<rparr>) ?s2"
  let ?v = "live_as R s"
  have "told pre v0 ?s3 ?v" by (rule told_quiet) (use step in \<open>simp_all add: in_step_def\<close>)
  note e1 = told_emit [OF this reads_route [of ?i full "rDistance (aToPickup a) + rDistance toDest"]]
  note e2 = told_emit [OF e1 reads_assigned [of ?k ?i "JNum (sVirtualTime (emit EventRouteComputed
    (route_payload ?i full (rDistance (aToPickup a) + rDistance toDest)) ?s3) + rDistance (aToPickup a) / driverSpeed)"
    "JNum (rDistance (aToPickup a))"]]
  have named: "driver_status_of (driver_status_str ?dst) = ?dst" by simp
  note e3 = told_emit [OF e2 reads_status [OF named, of ?i]]
  have "live_as R ?s3 = upd_order ?k (if ?at then (\<lambda>x. x\<lparr>roAssignedDriver := ?i, roStatus := OrderEnRoute\<rparr>)
      else (\<lambda>x. x\<lparr>roStatus := OrderAssigned, roAssignedDriver := ?i\<rparr>)) (live_as R ?s2)"
    by (rule live_as_order) (use ord in \<open>simp_all add: order_row_def\<close>)
  moreover have "live_as R ?s1 = upd_driver ?i (\<lambda>x. x\<lparr>rdRoute := full, rdAssignedOrder := ?k, rdStatus := ?dst\<rparr>) ?v"
    by (rule live_as_driver [OF d]) (simp add: driver_row_def)
  ultimately have v: "view_status ?i ?dst (upd_driver ?i (\<lambda>d. d\<lparr>rdAssignedOrder := ?k\<rparr>)
      (upd_order ?k (\<lambda>x. x\<lparr>roStatus := OrderAssigned, roAssignedDriver := ?i\<rparr>) (upd_driver ?i (\<lambda>d. d\<lparr>rdRoute := full\<rparr>) ?v)))
      = live_as R ?s3"
    using k d by (simp add: view_status_def Let_def upd_commute live_as_lookup)
  show ?thesis
    using e3 step k unfolding v by (simp add: in_step_def commit_assignment_def Let_def)
qed

lemma applyAssignment_in_step:
  assumes "in_step pre v0 R s" "applyAssignment a s = Some s'"
  shows "in_step pre v0 R s'"
proof -
  obtain ord where ord: "map_of (sOrders s) (aOrderID a) = Some ord"
    using assms(2) by (cases "map_of (sOrders s) (aOrderID a)") (auto simp: applyAssignment_def)
  have k: "oID ord = aOrderID a" using assms(1) ord by (auto simp: in_step_def keyed_def)
  show ?thesis
  proof (cases "FindRoute (sCity s) (oPickup ord) (oDestination ord)")
    case None
    then show ?thesis using assms ord k reject_in_step [OF assms(1) ord] by (auto simp: applyAssignment_def)
  next
    case (Some toDest)
    then obtain d n rest where "map_of (sDrivers s) (aDriverID a) = Some d" "rNodes toDest = n # rest"
      using assms(2) ord by (cases "map_of (sDrivers s) (aDriverID a)"; cases "rNodes toDest") (auto simp: applyAssignment_def)
    then show ?thesis using assms ord Some commit_in_step [OF assms(1) ord] by (auto simp: applyAssignment_def)
  qed
qed

lemma fold_opt_keeps:
  assumes "\<And>x s s'. P s \<Longrightarrow> f x s = Some s' \<Longrightarrow> P s'" "P s" "fold_opt f xs s = Some s'"
  shows "P s'"
  using assms(2,3)
proof (induction xs arbitrary: s)
  case (Cons x xs)
  then obtain s1 where "f x s = Some s1" "fold_opt f xs s1 = Some s'" by (auto split: option.splits)
  then show ?case using Cons assms(1) by blast
qed simp

lemma in_step_frame [simp]:
  "in_step pre v0 R (s\<lparr>sPending := xs\<rparr>) = in_step pre v0 R s"
  "in_step pre v0 R (s\<lparr>sPending := xs, sImmediateCount := n\<rparr>) = in_step pre v0 R s"
  "in_step pre v0 R (s\<lparr>sBatchCount := n\<rparr>) = in_step pre v0 R s"
  "in_step pre v0 R (s\<lparr>sVirtualTime := tm\<rparr>) = in_step pre v0 R s"
  by (simp_all add: in_step_def told_def)

lemma assignBaseline_in_step:
  assumes "in_step pre v0 R s" "map_of (sOrders s) i = Some ord" "assignBaseline i ord s = Some s'"
  shows "in_step pre v0 R s'"
  using assms applyAssignment_in_step [OF assms(1)] reject_in_step [OF assms(1,2)]
  by (auto simp: assignBaseline_def split: option.splits if_splits)

lemma retry_in_step: "in_step pre v0 R s \<Longrightarrow> retry_one i s = Some s' \<Longrightarrow> in_step pre v0 R s'"
  using assignBaseline_in_step by (auto simp: retry_one_def split: option.splits if_splits)

lemma retryPendingBaseline_in_step:
  assumes "in_step pre v0 R s" "retryPendingBaseline s = Some s'"
  shows "in_step pre v0 R s'"
proof (cases "sPending s = [] \<or> \<not> hasIdleDriver s")
  case False
  then have "fold_opt retry_one (sPending s) (s\<lparr>sPending := []\<rparr>) = Some s'"
    using assms(2) unfolding retryPendingBaseline_def by presburger
  from fold_opt_keeps [where P = "in_step pre v0 R", OF retry_in_step _ this] show ?thesis using assms(1) by simp
qed (use assms in \<open>auto simp: retryPendingBaseline_def\<close>)

lemma dispatchImmediate_in_step:
  assumes "in_step pre v0 R s" "dispatchImmediateBaseline s = Some s'"
  shows "in_step pre v0 R s'"
proof (cases "sPending s")
  case (Cons i rest)
  show ?thesis
  proof (cases "map_of (sOrders s) i")
    case (Some ord)
    show ?thesis
      using assms Cons Some assignBaseline_in_step [of pre v0 R "s\<lparr>sPending := rest, sImmediateCount := sImmediateCount s + 1\<rparr>" i ord s']
      by (auto simp: dispatchImmediateBaseline_def Let_def split: if_splits)
  qed (use assms Cons in \<open>auto simp: dispatchImmediateBaseline_def Let_def\<close>)
qed (use assms in \<open>auto simp: dispatchImmediateBaseline_def\<close>)

lemma reject_order_in_step: "in_step pre v0 R s \<Longrightarrow> reject_order i s = Some s' \<Longrightarrow> in_step pre v0 R s'"
  using reject_in_step by (auto simp: reject_order_def split: option.splits)

lemma runBatch_in_step:
  assumes "in_step pre v0 R s" "runBatch s = Some s'"
  shows "in_step pre v0 R s'"
  using assms(2)
proof (rule runBatch_cases)
  fix orders index as infs s1 s2
  assume "fold_opt applyAssignment as (s\<lparr>sBatchCount := sBatchCount s + 1\<rparr>) = Some s1"
    and r: "fold_opt reject_order infs s1 = Some s2"
    and s': "s' = s2\<lparr>sPending := filter (\<lambda>i. i \<notin> aOrderID ` set as \<and> i \<notin> set infs) (sPending s2)\<rparr>"
  from fold_opt_keeps [where P = "in_step pre v0 R", OF applyAssignment_in_step _ this(1)]
  have "in_step pre v0 R s1" using assms(1) by simp
  from fold_opt_keeps [where P = "in_step pre v0 R", OF reject_order_in_step this r]
  show ?thesis by (simp add: s')
qed (use assms(1) in simp)

lemma dispatchOptimized_in_step:
  assumes "in_step pre v0 R s" "dispatchOptimized s = Some s'"
  shows "in_step pre v0 R s'"
proof (cases "sPending s")
  case (Cons i rest)
  show ?thesis
    using assms runBatch_in_step [OF assms(1)] dispatchImmediate_in_step [OF assms(1)] Cons
    by (auto simp: dispatchOptimized_def Let_def split: if_splits option.splits)
qed (use assms in \<open>simp add: dispatchOptimized_def\<close>)

definition fresh_order :: "sim \<Rightarrow> bool" where
  \<comment> \<open>the next order id is not in use\<close>
  "fresh_order s \<longleftrightarrow> map_of (sOrders s) (shortID ''order'' (sNextOrderID s + 1)) = None"

lemma record_in_step:
  assumes "in_step pre v0 R s" "fresh_order s"
  shows "in_step pre v0 R (record_order (placed_order p q s) s)"
proof -
  let ?ord = "placed_order p q s" and ?s = "s\<lparr>sNextOrderID := sNextOrderID s + 1, sOrders := AList.update (oID (placed_order p q s)) (placed_order p q s) (sOrders s)\<rparr>"
  have "shortID ''order'' n \<noteq> ''''" for n by (simp add: shortID_def)
  then have "keyed ?s" using assms(1) unfolding in_step_def keyed_def
    by (simp add: map_of_update placed_order_def)
  moreover have "live_as R ?s = upd_order (oID ?ord) (\<lambda>x. x\<lparr>roPickup := p, roDestination := q, roStatus := OrderPending,
      roCreatedAt := sVirtualTime s\<rparr>) (live_as R s)"
    using assms(2) by (auto simp: live_as_def live_view_def upd_order_def fresh_order_def placed_order_def order_row_def
        zero_rorder_def map_of_update fun_eq_iff)
  moreover have "told pre v0 ?s (live_as R s)" by (rule told_quiet) (use assms(1) in \<open>simp_all add: in_step_def\<close>)
  from told_emit [OF this reads_placed [of "oID ?ord" p q]]
  have "told pre v0 (record_order ?ord s) (upd_order (oID ?ord) (\<lambda>x. x\<lparr>roPickup := p, roDestination := q, roStatus := OrderPending,
      roCreatedAt := sVirtualTime s\<rparr>) (live_as R s))"
    by (simp add: record_order_def placed_order_def)
  ultimately show ?thesis by (simp add: in_step_def record_order_def)
qed

lemma handlePlaceOrder_in_step:
  assumes "in_step pre v0 R s" "fresh_order s" "handlePlaceOrder p q s = Some s'"
  shows "in_step pre v0 R s'"
proof -
  let ?ord = "placed_order p q s"
  let ?s = "record_order ?ord s"
  have step: "in_step pre v0 R ?s" by (rule record_in_step [OF assms(1,2)])
  have ord: "map_of (sOrders ?s) (oID ?ord) = Some ?ord" by (simp add: record_order_def map_of_update)
  show ?thesis
  proof (cases "sStrategy ?s = StrategyOptimized")
    case True
    then show ?thesis
      using assms(3) step dispatchImmediate_in_step [of pre v0 R "?s\<lparr>sPending := sPending ?s @ [oID ?ord]\<rparr>" s']
      by (auto simp: handlePlaceOrder_def Let_def split: if_splits)
  next
    case False
    then show ?thesis using assms(3) assignBaseline_in_step [OF step ord] by (simp add: handlePlaceOrder_def Let_def)
  qed
qed

lemma PlaceOrder_city:
  assumes "handlePlaceOrder p q s = Some s'"
  shows "sCity s' = sCity s"
proof -
  have a: "sCity s2 = sCity s1" if "applyAssignment a s1 = Some s2" for a s1 s2
    using that by (auto simp: applyAssignment_def commit_assignment_def emit_def Let_def split: option.splits list.splits)
  have b: "sCity s2 = sCity s1" if "assignBaseline i ord s1 = Some s2" for i ord s1 s2
    using that a by (auto simp: assignBaseline_def emit_def split: option.splits if_splits)
  have c: "sCity s2 = sCity s1" if "dispatchImmediateBaseline s1 = Some s2" for s1 s2
    using that by (auto simp: dispatchImmediateBaseline_def Let_def dest: b split: list.splits option.splits if_splits)
  have "sCity (record_order (placed_order p q s) s) = sCity s" by (simp add: record_order_def emit_def)
  then show ?thesis using assms by (auto simp: handlePlaceOrder_def Let_def dest: b c split: if_splits)
qed

subsection \<open>Roads\<close>

lemma reroute_in_step:
  assumes step: "in_step pre v0 R s" and d: "map_of (sDrivers s) i = Some d" and ord: "map_of (sOrders s) (dAssignedOrder d) = Some ord"
  shows "in_step pre v0 R (reroute_to i d ord target reason s)"
proof -
  let ?k = "dAssignedOrder d" and ?p = "JObj [(''driverId'', JStr i), (''orderId'', JStr (oID ord))]"
  let ?s0 = "emit EventRouteInvalidated ?p s"
  have k: "oID ord = ?k" using step ord by (auto simp: in_step_def keyed_def)
  have told0: "told pre v0 s (live_as R s)" and ok: "keyed s" using step by (simp_all add: in_step_def)
  have step0: "in_step pre v0 R ?s0"
    using told_emit [OF told0 reads_invalidated [of ?p]] ok by (simp add: in_step_def)
  show ?thesis
  proof (cases "FindRoute (sCity ?s0) (dPosition d) target")
    case None
    let ?s1 = "emit EventOrderUnassignable (unassignable_payload (oID ord) reason) (set_order ?k (\<lambda>x. x\<lparr>oStatus := OrderUnassignable\<rparr>) ?s0)"
    let ?s2 = "set_driver i (\<lambda>x. x\<lparr>dStatus := DriverIdle, dRoute := [], dRouteIndex := 0, dAssignedOrder := ''''\<rparr>) ?s1"
    have "in_step pre v0 R ?s1" using reject_in_step [OF step0, of ?k ord reason] ord k by simp
    then have told1: "told pre v0 ?s2 (live_as R ?s1)" "keyed ?s1" by (simp_all add: in_step_def told_def)
    have "live_as R ?s2 = upd_driver i (\<lambda>x. x\<lparr>rdStatus := DriverIdle, rdRoute := [], rdAssignedOrder := ''''\<rparr>) (live_as R ?s1)"
      by (rule live_as_driver) (use d in \<open>simp_all add: driver_row_def\<close>)
    then have v: "view_status i DriverIdle (live_as R ?s1) = live_as R ?s2" by (simp add: view_status_def Let_def)
    from told_emit [OF told1(1) reads_status [of DriverIdle i]] show ?thesis
      using told1(2) None unfolding v by (simp add: in_step_def reroute_to_def Let_def)
  next
    case (Some r)
    let ?s1 = "set_driver i (\<lambda>x. x\<lparr>dRoute := rNodes r, dRouteIndex := 0\<rparr>) ?s0"
    have "told pre v0 ?s1 (live_as R s)" by (rule told_quiet [of _ _ ?s0]) (use step0 in \<open>simp_all add: in_step_def\<close>)
    note e = told_emit [OF this reads_route [of i "rNodes r" "rDistance r"]]
    have "live_as R ?s1 = upd_driver i (\<lambda>x. x\<lparr>rdRoute := rNodes r\<rparr>) (live_as R ?s0)"
      by (rule live_as_driver) (use d in \<open>simp_all add: driver_row_def\<close>)
    then show ?thesis using e ok Some by (simp add: in_step_def reroute_to_def Let_def)
  qed
qed

lemma rerouteDriver_in_step:
  assumes "in_step pre v0 R s" "map_of (sDrivers s) i = Some d"
  shows "in_step pre v0 R (rerouteDriver i d s)"
  using assms reroute_in_step [OF assms]
  by (auto simp: rerouteDriver_def split: option.splits driver_status.splits)

lemma recalc_in_step:
  assumes "in_step pre v0 R s"
  shows "in_step pre v0 R (snd (recalculateAffectedRoutes s))"
proof -
  have one: "in_step pre v0 R (snd (recalc_step acc i))" if "in_step pre v0 R (snd acc)" for acc i
    using that rerouteDriver_in_step by (auto simp: recalc_step_def split: option.splits)
  have "in_step pre v0 R (snd (foldl recalc_step acc ids))" if "in_step pre v0 R (snd acc)" for acc ids
    using that
  proof (induction ids arbitrary: acc)
    case (Cons i ids)
    show ?case using Cons.IH [OF one [OF Cons.prems, of i]] by simp
  qed simp
  from this [of "(0, s)"] assms show ?thesis by (simp add: recalculateAffectedRoutes_def)
qed

lemma insort_key_map:
  assumes "\<And>x. f (g x) = f x"
  shows "insort_key f (g x) (map g xs) = map g (insort_key f x xs)"
  using assms by (induction xs) auto

lemma sort_key_map:
  assumes "\<And>x. f (g x) = f x"
  shows "sort_key f (map g xs) = map g (sort_key f xs)"
  using insort_key_map [of f g, OF assms] by (induction xs) (simp_all add: sort_key_simps)

lemma set_closed_city:
  assumes "city_ok c"
  shows "set_closed b [i] (city_roads c) = city_roads (fst (SetClosed c i b))"
proof -
  have "eID (mark i b e) = eID e" for e by (simp add: mark_def)
  then have "sort_key eID (map (mark i b) (all_edges c)) = map (mark i b) (sort_key eID (all_edges c))" by (rule sort_key_map)
  then show ?thesis
    by (simp add: city_roads_def set_closed_def all_edges_SetClosed [OF city_okD(4) [OF assms]] road_row_def mark_def)
qed

lemma set_closed_append: "set_closed b (xs @ ys) es = set_closed b ys (set_closed b xs es)"
  by (simp add: set_closed_def)

lemma close_segment_told:
  assumes c: "city_ok c"
  shows "set_closed b (fst (close_segment b e c)) (city_roads c) = city_roads (snd (close_segment b e c))"
    "cNodes (snd (close_segment b e c)) = cNodes c"
proof -
  let ?c = "fst (SetClosed c (eID e) b)"
  have ok: "city_ok ?c" by (rule city_ok_SetClosed [OF c])
  show "set_closed b (fst (close_segment b e c)) (city_roads c) = city_roads (snd (close_segment b e c))"
    using set_closed_append [of b "[eID e]"] set_closed_city [OF c] set_closed_city [OF ok]
    by (cases "edgeBetween ?c (eTo e) (eFrom e)") (simp_all add: close_segment_def Let_def)
  have "cNodes (fst (SetClosed c' i b)) = cNodes c'" for c' i by (simp add: SetClosed_def split: option.splits)
  then show "cNodes (snd (close_segment b e c)) = cNodes c"
    by (cases "edgeBetween ?c (eTo e) (eFrom e)") (simp_all add: close_segment_def Let_def)
qed

lemma live_as_city:
  "cNodes c = cNodes (sCity s) \<Longrightarrow> live_as R (s\<lparr>sCity := c\<rparr>) = live_as R s"
  "cNodes c = cNodes (sCity s) \<Longrightarrow> live_as R (s\<lparr>sCurrentCausation := x, sCity := c\<rparr>) = live_as R s"
  by (simp_all add: live_as_def live_view_def)

lemma live_as_roads: "(live_as R s)\<lparr>vRoads := R'\<rparr> = live_as R' s"
  by (simp add: live_as_def)

lemma close_in_step:
  assumes step: "in_step pre v0 (city_roads (sCity s)) s" and inv: "sim_inv s"
  shows "in_step pre v0 (city_roads (sCity (handleCloseRoad ms i x s))) (handleCloseRoad ms i x s)"
proof (cases "EdgeByID (sCity s) i")
  case (Some e)
  show ?thesis
  proof (cases "eClosed e")
    case False
    let ?R = "city_roads (sCity s)" and ?ids = "fst (close_segment True e (sCity s))" and ?c = "snd (close_segment True e (sCity s))"
    let ?s = "s\<lparr>sCurrentCausation := x, sCity := ?c\<rparr>"
    let ?r = "recalculateAffectedRoutes ?s"
    have "city_ok (sCity s)" using inv by (simp add: sim_inv_def base_invD(4))
    note cl = close_segment_told [OF this, of True e]
    have "in_step pre v0 ?R ?s" using step cl(2) by (simp add: in_step_def live_as_city told_def keyed_def)
    then have r: "in_step pre v0 ?R (snd ?r)" by (rule recalc_in_step)
    then have "told pre v0 (snd ?r) (live_as ?R (snd ?r))" by (simp add: in_step_def)
    from told_emit [OF this reads_closed [of ?ids "JStr (eFrom e)" "JStr (eTo e)" "JNum (of_nat (fst ?r))" "JNum ms"]]
    have "told pre v0 (handleCloseRoad ms i x s) (live_as (city_roads ?c) (snd ?r))"
      using Some False cl(1) by (simp add: handleCloseRoad_def split_beta Let_def told_def live_as_def)
    moreover have "live_as R (handleCloseRoad ms i x s) = live_as R (snd ?r)" for R
      using Some False by (simp add: handleCloseRoad_def split_beta Let_def)
    moreover have "keyed (handleCloseRoad ms i x s)"
      using Some False r by (simp add: handleCloseRoad_def split_beta Let_def in_step_def)
    ultimately show ?thesis using handleCloseRoad_city [OF inv Some False, of ms x] by (simp add: in_step_def)
  qed (use Some step in \<open>simp add: handleCloseRoad_def\<close>)
qed (use step in \<open>simp add: handleCloseRoad_def del: EdgeByID_None\<close>)

lemma reopen_in_step:
  assumes step: "in_step pre v0 (city_roads (sCity s)) s" and inv: "sim_inv s"
  shows "in_step pre v0 (city_roads (sCity (handleReopenRoad i s))) (handleReopenRoad i s)"
proof (cases "EdgeByID (sCity s) i")
  case (Some e)
  show ?thesis
  proof (cases "eClosed e")
    case True
    let ?R = "city_roads (sCity s)" and ?ids = "fst (close_segment False e (sCity s))" and ?c = "snd (close_segment False e (sCity s))"
    let ?s = "s\<lparr>sCity := ?c\<rparr>"
    have "city_ok (sCity s)" using inv by (simp add: sim_inv_def base_invD(4))
    note cl = close_segment_told [OF this, of False e]
    have "told pre v0 ?s (live_as ?R ?s)" using step cl(2) by (simp add: in_step_def live_as_city told_def)
    from told_emit [OF this reads_reopened [of ?ids "JStr (eFrom e)" "JStr (eTo e)"]]
    have "told pre v0 (handleReopenRoad i s) (live_as (city_roads ?c) ?s)"
      using Some True cl(1) by (simp add: handleReopenRoad_def split_beta Let_def live_as_def)
    then show ?thesis using Some True step by (simp add: handleReopenRoad_def split_beta Let_def in_step_def)
  qed (use Some step in \<open>simp add: handleReopenRoad_def\<close>)
qed (use step in \<open>simp add: handleReopenRoad_def del: EdgeByID_None\<close>)

subsection \<open>Movement\<close>

definition adrift :: "event list \<Rightarrow> view \<Rightarrow> redge list \<Rightarrow> driver_id \<Rightarrow> sim \<Rightarrow> bool" where
  \<comment> \<open>told apart from one driver's position, which its next position event brings\<close>
  "adrift pre v0 R i s \<longleftrightarrow> keyed s \<and> (\<exists>p. told pre v0 s (upd_driver i (\<lambda>d. d\<lparr>rdPosition := p\<rparr>) (live_as R s)))"

lemma adriftI:
  assumes "keyed s" "told pre v0 s v" "v = upd_driver i (\<lambda>d. d\<lparr>rdPosition := p\<rparr>) (live_as R s)"
  shows "adrift pre v0 R i s"
  using assms by (auto simp: adrift_def)

lemma in_step_adrift:
  assumes "in_step pre v0 R s" "map_of (sDrivers s) i = Some d"
  shows "adrift pre v0 R i s"
proof (rule adriftI [where p = "dPosition d"])
  show "live_as R s = upd_driver i (\<lambda>x. x\<lparr>rdPosition := dPosition d\<rparr>) (live_as R s)"
    using assms(2) by (auto simp: upd_driver_def live_as_def live_view_def driver_row_def fun_eq_iff)
qed (use assms(1) in \<open>simp_all add: in_step_def\<close>)

lemma adrift_write:
  assumes "adrift pre v0 R i s" "map_of (sDrivers s) i = Some d"
    "\<And>p. \<exists>p'. (driver_row d)\<lparr>rdPosition := p\<rparr> = (driver_row (f d))\<lparr>rdPosition := p'\<rparr>" "\<And>x. dID (f x) = dID x"
  shows "adrift pre v0 R i (set_driver i f s)"
proof -
  obtain p where p: "keyed s" "told pre v0 s (upd_driver i (\<lambda>d. d\<lparr>rdPosition := p\<rparr>) (live_as R s))"
    using assms(1) by (auto simp: adrift_def)
  obtain p' where p': "(driver_row d)\<lparr>rdPosition := p\<rparr> = (driver_row (f d))\<lparr>rdPosition := p'\<rparr>" using assms(3) by blast
  show ?thesis
  proof (rule adriftI)
    show "told pre v0 (set_driver i f s) (upd_driver i (\<lambda>d. d\<lparr>rdPosition := p\<rparr>) (live_as R s))"
      by (rule told_quiet [OF p(2)]) simp
    have "live_as R (set_driver i f s) = upd_driver i (\<lambda>_. driver_row (f d)) (live_as R s)"
      by (rule live_as_driver [OF assms(2)]) simp
    then show "upd_driver i (\<lambda>d. d\<lparr>rdPosition := p\<rparr>) (live_as R s) =
        upd_driver i (\<lambda>d. d\<lparr>rdPosition := p'\<rparr>) (live_as R (set_driver i f s))"
      using assms(2) p' by (simp add: upd_driver_def live_as_lookup)
  qed (use p(1) assms(4) in simp)
qed

lemma adrift_node:
  assumes "adrift pre v0 R i s"
  shows "adrift pre v0 R i (handleDriverAtNode i s)"
proof (cases "map_of (sDrivers s) i")
  case (Some d)
  show ?thesis
  proof (cases "map_of (sOrders s) (dAssignedOrder d)")
    case ord: (Some ord)
    let ?k = "dAssignedOrder d"
    obtain p where p: "keyed s" "told pre v0 s (upd_driver i (\<lambda>d. d\<lparr>rdPosition := p\<rparr>) (live_as R s))"
      using assms by (auto simp: adrift_def)
    have k: "oID ord = ?k" "?k \<noteq> ''''" using p(1) ord by (auto simp: keyed_def)
    let ?at = "\<lambda>q s. upd_driver i (\<lambda>x. x\<lparr>rdPosition := q\<rparr>) (live_as R s)"
    have reach: "keyed (reach_pickup i d s) \<and> told pre v0 (reach_pickup i d s) (?at p (reach_pickup i d s))"
    proof -
      let ?s1 = "set_driver i (\<lambda>x. x\<lparr>dStatus := DriverDelivering\<rparr>) s"
      let ?s2 = "set_order ?k (\<lambda>x. x\<lparr>oStatus := OrderEnRoute\<rparr>) ?s1"
      have "told pre v0 ?s2 (?at p s)" by (rule told_quiet [OF p(2)]) simp
      note e = told_emit [OF this reads_status [of DriverDelivering i]]
      have "live_as R ?s2 = upd_order ?k (\<lambda>x. x\<lparr>roStatus := OrderEnRoute\<rparr>) (live_as R ?s1)"
        by (rule live_as_order) (use ord in \<open>simp_all add: order_row_def\<close>)
      moreover have "live_as R ?s1 = upd_driver i (\<lambda>x. x\<lparr>rdStatus := DriverDelivering\<rparr>) (live_as R s)"
        by (rule live_as_driver [OF Some]) (simp add: driver_row_def)
      ultimately have "?at p ?s2 = upd_driver i (\<lambda>x. x\<lparr>rdStatus := DriverDelivering, rdPosition := p\<rparr>)
          (upd_order ?k (\<lambda>x. x\<lparr>roStatus := OrderEnRoute\<rparr>) (live_as R s))"
        by (simp add: upd_commute)
      also have "\<dots> = upd_driver i (\<lambda>x. x\<lparr>rdPosition := p, rdStatus := DriverDelivering\<rparr>)
          (upd_order ?k (\<lambda>x. x\<lparr>roStatus := OrderEnRoute\<rparr>) (live_as R s))"
        by (rule upd_driver_cong) simp
      also have "\<dots> = view_status i DriverDelivering (?at p s)"
        using k(2) Some by (simp add: view_status_def Let_def upd_commute live_as_lookup driver_row_def)
      finally show ?thesis using e p(1) by (simp add: reach_pickup_def)
    qed
    have finish: "adrift pre v0 R i (finish_delivery i d ord s1)"
      if s1: "keyed s1" "told pre v0 s1 (?at p s1)" and d1: "map_of (sDrivers s1) i = Some d1" "dPosition d1 = dPosition d"
        and o1: "map_of (sOrders s1) ?k = Some ord1" for s1 d1 ord1
    proof -
      let ?s2 = "set_order ?k (\<lambda>x. x\<lparr>oStatus := OrderDelivered\<rparr>) s1"
      let ?s3 = "emit EventOrderDelivered (JObj [(''orderId'', JStr (oID ord)), (''driverId'', JStr i)]) ?s2"
      let ?f = "\<lambda>x. x\<lparr>dStatus := DriverIdle, dRoute := [], dRouteIndex := 0, dRouteProgress := 0,
          dAssignedOrder := '''', dIdleSince := sVirtualTime ?s3\<rparr>"
      let ?s4 = "set_driver i ?f ?s3"
      let ?s5 = "?s4\<lparr>sIndex := map_option (grid_set i (node_point (sCity ?s4) (dPosition d))) (sIndex ?s4)\<rparr>"
      have "told pre v0 ?s2 (?at p s1)" by (rule told_quiet [OF s1(2)]) simp
      from told_emit [OF this reads_delivered [of "oID ord" i]]
      have "told pre v0 ?s5 (upd_order ?k (\<lambda>x. x\<lparr>roStatus := OrderDelivered\<rparr>) (?at p s1))"
        by (simp add: k(1) told_def)
      note e = told_emit [OF this reads_status [of DriverIdle i]]
      have "live_as R ?s4 = upd_driver i (\<lambda>x. x\<lparr>rdStatus := DriverIdle, rdRoute := [], rdAssignedOrder := ''''\<rparr>) (live_as R ?s3)"
        by (rule live_as_driver) (use d1 in \<open>simp_all add: driver_row_def\<close>)
      moreover have "live_as R ?s2 = upd_order ?k (\<lambda>x. x\<lparr>roStatus := OrderDelivered\<rparr>) (live_as R s1)"
        by (rule live_as_order [OF o1]) (simp add: order_row_def)
      ultimately have "?at p ?s5 = upd_driver i (\<lambda>x. x\<lparr>rdStatus := DriverIdle, rdRoute := [], rdAssignedOrder := '''', rdPosition := p\<rparr>)
          (upd_order ?k (\<lambda>x. x\<lparr>roStatus := OrderDelivered\<rparr>) (live_as R s1))"
        by simp
      also have "\<dots> = upd_driver i (\<lambda>x. x\<lparr>rdPosition := p, rdStatus := DriverIdle, rdRoute := [], rdAssignedOrder := ''''\<rparr>)
          (upd_order ?k (\<lambda>x. x\<lparr>roStatus := OrderDelivered\<rparr>) (live_as R s1))"
        by (rule upd_driver_cong) simp
      also have "\<dots> = view_status i DriverIdle (upd_order ?k (\<lambda>x. x\<lparr>roStatus := OrderDelivered\<rparr>) (?at p s1))"
        by (simp add: view_status_def Let_def upd_commute)
      finally show ?thesis
        using e s1(1) unfolding adrift_def by (intro conjI exI [of _ p]) (simp_all add: finish_delivery_def Let_def)
    qed
    have "handleDriverAtNode i s \<in> {s, reach_pickup i d s, finish_delivery i d ord s, finish_delivery i d ord (reach_pickup i d s)}"
      using Some ord by (simp add: handleDriverAtNode_def Let_def)
    moreover have "adrift pre v0 R i (finish_delivery i d ord s)" by (rule finish [OF p Some refl ord])
    moreover have "adrift pre v0 R i (finish_delivery i d ord (reach_pickup i d s))"
      by (rule finish [OF conjunct1 [OF reach] conjunct2 [OF reach], of "d\<lparr>dStatus := DriverDelivering\<rparr>" "ord\<lparr>oStatus := OrderEnRoute\<rparr>"])
        (simp_all add: reach_pickup_def Some ord)
    moreover have "adrift pre v0 R i (reach_pickup i d s)" using reach by (auto simp: adrift_def)
    ultimately show ?thesis using assms by auto
  qed (use assms Some in \<open>simp add: handleDriverAtNode_def\<close>)
qed (use assms in \<open>simp add: handleDriverAtNode_def\<close>)

lemma advance_adrift:
  assumes "adrift pre v0 R i s" "map_of (sDrivers s) i = Some d"
  shows "adrift pre v0 R i (advance_driver i nxt s)"
  unfolding advance_driver_def
proof (rule adrift_node, rule adrift_write [OF assms])
  fix p show "\<exists>p'. (driver_row d)\<lparr>rdPosition := p\<rparr> =
      (driver_row (d\<lparr>dRouteProgress := 0, dRouteIndex := dRouteIndex d + 1, dPosition := nxt\<rparr>))\<lparr>rdPosition := p'\<rparr>"
    by (rule exI [of _ p]) (simp add: driver_row_def)
qed simp

lemma moveDriver_in_step:
  assumes "in_step pre v0 R s"
  shows "in_step pre v0 R (moveDriver i s)"
proof (cases "map_of (sDrivers s) i")
  case (Some d)
  show ?thesis
  proof (cases "dRoute d = [] \<or> length (dRoute d) \<le> dRouteIndex d + 1")
    case False
    let ?s = "move_loop i (driverSpeed * virtualStepPerTick) s"
    let ?P = "\<lambda>s. adrift pre v0 R i s \<and> (\<exists>d. map_of (sDrivers s) i = Some d)"
    have ad: "?P ?s"
    proof (rule move_loop_invariant [where P = "\<lambda>_. ?P"])
      show "?P s" using in_step_adrift [OF assms Some] Some by blast
    next
      fix b s1 d1 assume P: "?P s1" and d1: "map_of (sDrivers s1) i = Some d1"
      have a: "adrift pre v0 R i s1" using P by blast
      show "?P (advance_driver i (dRoute d1 ! (dRouteIndex d1 + 1)) s1)"
        using advance_adrift [OF a d1] d1 by (simp add: advance_driver_def handleDriverAtNode_driver)
      have "adrift pre v0 R i (set_driver i (\<lambda>x. x\<lparr>dRouteProgress := dRouteProgress x + b\<rparr>) s1)"
      proof (rule adrift_write [OF a d1])
        fix p show "\<exists>p'. (driver_row d1)\<lparr>rdPosition := p\<rparr> = (driver_row (d1\<lparr>dRouteProgress := dRouteProgress d1 + b\<rparr>))\<lparr>rdPosition := p'\<rparr>"
          by (rule exI [of _ p]) (simp add: driver_row_def)
      qed simp
      then show "?P (set_driver i (\<lambda>x. x\<lparr>dRouteProgress := dRouteProgress x + b\<rparr>) s1)" using d1 by simp
    qed
    then obtain p where p: "keyed ?s" "told pre v0 ?s (upd_driver i (\<lambda>d. d\<lparr>rdPosition := p\<rparr>) (live_as R ?s))"
      by (auto simp: adrift_def)
    obtain d' where d': "map_of (sDrivers ?s) i = Some d'" using ad by blast
    have "upd_driver i (\<lambda>d. d\<lparr>rdPosition := dPosition d'\<rparr>) (upd_driver i (\<lambda>d. d\<lparr>rdPosition := p\<rparr>) (live_as R ?s)) = live_as R ?s"
      using d' by (auto simp: upd_driver_def live_as_def live_view_def driver_row_def fun_eq_iff)
    with told_emit [OF p(2) reads_position [of i "dPosition d'" "fst (driverPosition ?s d')" "snd (driverPosition ?s d')"
        "JNum (of_nat (dRouteIndex d'))" "JNum (dRouteProgress d')"]] p(1)
    have "in_step pre v0 R (emitDriverPosition i d' ?s)" by (simp add: in_step_def emitDriverPosition_def)
    moreover have "moveDriver i s = emitDriverPosition i d' ?s" using Some False d' by (simp add: moveDriver_def Let_def)
    ultimately show ?thesis by simp
  qed (use assms Some in \<open>simp add: moveDriver_def\<close>)
qed (use assms in \<open>simp add: moveDriver_def\<close>)

subsection \<open>Commands and ticks\<close>

abbreviation synced :: "event list \<Rightarrow> view \<Rightarrow> sim \<Rightarrow> bool" where
  "synced pre v0 s \<equiv> in_step pre v0 (city_roads (sCity s)) s"

lemma live_as_own: "live_as (city_roads (sCity s)) s = live_view s"
  by (simp add: live_as_def live_view_def)

lemma sim_inv_named:
  assumes "sim_inv s"
  shows "statuses_named s"
proof -
  note W = world_okD [OF base_invD(1) [of s]]
  have b: "base_inv s" using assms by (simp add: sim_inv_def)
  have "driver_status_named (dStatus d)" if "map_of (sDrivers s) i = Some d" for i d
    using driver_ok_status [OF W(4) [OF b that]] by (auto simp: driver_status_named_def)
  moreover have "order_status_named (oStatus ord)" if "map_of (sOrders s) k = Some ord" for k ord
    using W(5) [OF b that] unfolding order_ok_def by (elim conjE disjE) (simp_all add: order_status_named_def)
  ultimately show ?thesis unfolding statuses_named_def by blast
qed

lemma sim_inv_keyed:
  assumes "sim_inv s" "0 < sSpeed s"
  shows "keyed s"
proof -
  have b: "base_inv s" using assms(1) by (simp add: sim_inv_def)
  note W = world_okD [OF base_invD(1) [OF b]]
  have "dID d = i" if "map_of (sDrivers s) i = Some d" for i d using W(4) [OF that] by (simp add: driver_ok_def)
  moreover have "oID ord = k \<and> k \<noteq> ''''" if "map_of (sOrders s) k = Some ord" for k ord
  proof -
    have "k \<in> fst ` set (sOrders s)" using that by (force dest: map_of_SomeD)
    then obtain j where "k = shortID ''order'' j" using base_invD(2) [OF b] unfolding ids_ok_def by blast
    then show ?thesis using W(5) [OF that] by (simp add: order_ok_def shortID_def)
  qed
  ultimately show ?thesis using W(2,3) assms(2) unfolding keyed_def by blast
qed

lemma tick_synced:
  assumes inv: "sim_inv s" and range: "dispatch_in_range s" and step: "synced pre v0 s" and t: "tick s = Some s'"
  shows "synced pre v0 s'"
proof (cases "sPaused s")
  case False
  let ?R = "city_roads (sCity s)"
  have "in_step pre v0 ?R (foldl (\<lambda>s i. moveDriver i s) s1 ids)" if "in_step pre v0 ?R s1" for s1 ids
    using that by (induction ids arbitrary: s1) (auto intro: moveDriver_in_step)
  then have m: "in_step pre v0 ?R (moved s)" using step by (simp add: moved_def)
  have "in_step pre v0 ?R s'"
    using t False dispatchOptimized_in_step [OF m] retryPendingBaseline_in_step [OF m]
    by (simp add: tick_moved split: if_splits)
  moreover have "sCity s' = sCity s" using tick_inv [OF inv] range t by (auto simp: dispatch_in_range_def)
  ultimately show ?thesis by simp
qed (use step t in \<open>simp add: tick_def\<close>)

lemma reset_synced:
  assumes inv: "sim_inv s" and step: "synced pre v0 s"
  shows "synced pre v0 (reset s)"
proof -
  obtain s1 where s1: "reset s = emit EventSimulationSnapshot (snapshotPayload s1) s1" "sEvents s1 = sEvents s" "sSpeed s1 = sSpeed s"
    by (simp add: reset_def Let_def)
  have "0 < sSpeed s" using step by (simp add: in_step_def keyed_def)
  moreover have inv1: "sim_inv s1" using reset_inv [OF inv] by (simp add: s1(1))
  ultimately have k: "keyed s1" using sim_inv_keyed s1(3) by simp
  have "told pre v0 s1 (live_as (city_roads (sCity s)) s)" by (rule told_quiet) (use step s1(2) in \<open>simp_all add: in_step_def\<close>)
  from told_emit [OF this reads_snapshot [OF k sim_inv_named [OF inv1]]] show ?thesis
    using k by (simp add: s1(1) in_step_def live_as_own)
qed

lemma handle_synced:
  assumes inv: "sim_inv s" and step: "synced pre v0 s" and h: "handle ms cmd s = Some s'"
  shows "synced pre v0 s'"
proof (cases cmd)
  case (PlaceOrder p q)
  have "fresh_order s" using inv ids_ok_fresh [of "sNextOrderID s" "sOrders s"]
    by (simp add: fresh_order_def sim_inv_def base_inv_def)
  then show ?thesis
    using PlaceOrder h handlePlaceOrder_in_step [OF step] PlaceOrder_city [of p q s s'] by (simp add: handle_def)
next
  case (SetPaused b)
  have "told pre v0 (s\<lparr>sPaused := b\<rparr>) (live_view s)" using step by (simp add: in_step_def live_as_own told_def)
  from told_emit [OF this reads_paused [of b]] show ?thesis
    using SetPaused h step by (auto simp: handle_def in_step_def live_as_def live_view_def)
next
  case (SetSpeed m)
  show ?thesis
  proof (cases "0 < m")
    case True
    have "told pre v0 (s\<lparr>sSpeed := m\<rparr>) (live_view s)" using step by (simp add: in_step_def live_as_own told_def)
    note e = told_emit [OF this reads_speed [of m]]
    have "keyed s" using step by (simp add: in_step_def)
    then have "keyed (s\<lparr>sSpeed := m\<rparr>)" using True unfolding keyed_def by simp
    then show ?thesis
      using e SetSpeed True h by (auto simp: handle_def in_step_def live_as_def live_view_def)
  qed (use SetSpeed h step in \<open>simp add: handle_def\<close>)
qed (use h inv step reset_synced close_in_step reopen_in_step in \<open>auto simp: handle_def\<close>)

lemma handleTraced_synced:
  assumes "sim_inv s" "synced pre v0 s" "handleTraced ms cmd tr s = Some s'"
  shows "synced pre v0 s'"
proof (cases "tr = ''''")
  case False
  then obtain s1 where s1: "handle ms cmd (s\<lparr>sCurrentTrace := tr\<rparr>) = Some s1" "s' = s1\<lparr>sCurrentTrace := ''''\<rparr>"
    using assms(3) by (auto simp: handleTraced_def)
  have t: "sim_inv (x\<lparr>sCurrentTrace := y\<rparr>) = sim_inv x" "in_step pre v0 R (x\<lparr>sCurrentTrace := y\<rparr>) = in_step pre v0 R x" for x y R
    by (simp_all add: sim_inv_def base_inv_def in_step_def told_def)
  have "synced pre v0 s1" by (rule handle_synced [OF _ _ s1(1)]) (use assms(1,2) t in simp_all)
  then show ?thesis by (simp add: s1(2) t)
qed (use assms handle_synced in \<open>simp add: handleTraced_def\<close>)

inductive plays :: "sim \<Rightarrow> event list \<Rightarrow> sim \<Rightarrow> bool" for s0 where
  \<comment> \<open>commands and ticks, each followed by handing out its events, which together are \<open>es\<close>\<close>
  waits: "plays s0 [] s0"
| command: "plays s0 es s \<Longrightarrow> handleTraced ms cmd trace s = Some s1 \<Longrightarrow> takePending s1 = (fs, s2) \<Longrightarrow> plays s0 (es @ fs) s2"
| ticked: "plays s0 es s \<Longrightarrow> dispatch_in_range s \<Longrightarrow> tick s = Some s1 \<Longrightarrow> takePending s1 = (fs, s2) \<Longrightarrow> plays s0 (es @ fs) s2"

definition quiescent :: "sim \<Rightarrow> bool" where
  "quiescent s \<longleftrightarrow> sim_inv s \<and> keyed s \<and> sEvents s = []"

lemma told_drained:
  assumes "synced [] v0 s1" "sim_inv s1" "emits s s1" "sEvents s = []" "takePending s1 = (fs, s2)"
  shows "quiescent s2 \<and> follows v0 fs (live_view s2) \<and> map evSequence fs = [Suc (sSequence s)..<Suc (sSequence s2)] \<and>
    sSequence s \<le> sSequence s2 \<and> sID s2 = sID s \<and> (\<forall>e \<in> set fs. evSimulationID e = sID s \<and> encodable (evPayload e))"
proof -
  have s2: "fs = sEvents s1" "s2 = s1\<lparr>sEvents := []\<rparr>" using assms(5) by (auto simp: takePending_def)
  have "sim_inv s2" "keyed s2" "live_view s2 = live_view s1"
    using assms(1,2) unfolding s2(2) by (simp_all add: sim_inv_def base_inv_def in_step_def keyed_def live_view_def)
  moreover have "follows v0 fs (live_view s1)" using assms(1) by (simp add: in_step_def told_def live_as_own s2(1))
  ultimately show ?thesis using assms(3,4) s2 by (auto simp: quiescent_def emits_def)
qed

lemma synced_start: "keyed s \<Longrightarrow> sEvents s = [] \<Longrightarrow> synced [] (live_view s) s"
  by (simp add: in_step_def told_def follows_refl live_as_own)

lemma upt_join: "i \<le> j \<Longrightarrow> j \<le> k \<Longrightarrow> [i..<j] @ [j..<k] = [i..<k]"
  by (metis le_add_diff_inverse upt_add_eq_append)

lemma plays_told:
  assumes "plays s0 es s" "quiescent s0"
  shows "quiescent s \<and> follows (live_view s0) es (live_view s) \<and> map evSequence es = [Suc (sSequence s0)..<Suc (sSequence s)] \<and>
    sSequence s0 \<le> sSequence s \<and> sID s = sID s0 \<and> (\<forall>e \<in> set es. evSimulationID e = sID s0 \<and> encodable (evPayload e))"
  using assms
proof (induction rule: plays.induct)
  case waits
  then show ?case by (simp add: follows_refl)
next
  case (command es s ms cmd trace s1 fs s2)
  have q: "sim_inv s" "keyed s" "sEvents s = []" using command by (simp_all add: quiescent_def)
  have "sim_inv s1" using handleTraced_inv [OF q(1), of ms cmd trace] command.hyps(2) by auto
  from told_drained [OF handleTraced_synced [OF q(1) synced_start [OF q(2,3)] command.hyps(2)] this
      handleTraced_emits [OF command.hyps(2)] q(3) command.hyps(3)] command.IH [OF command.prems]
  show ?case using follows_append upt_join [of "Suc (sSequence s0)" "Suc (sSequence s)" "Suc (sSequence s2)"]
    by (auto simp del: upt_Suc)
next
  case (ticked es s s1 fs s2)
  have q: "sim_inv s" "keyed s" "sEvents s = []" using ticked by (simp_all add: quiescent_def)
  have "sim_inv s1" using tick_inv [OF q(1)] ticked.hyps(2,3) by (auto simp: dispatch_in_range_def)
  from told_drained [OF tick_synced [OF q(1) ticked.hyps(2) synced_start [OF q(2,3)] ticked.hyps(3)] this
      tick_emits [OF ticked.hyps(3)] q(3) ticked.hyps(4)] ticked.IH [OF ticked.prems]
  show ?case using follows_append upt_join [of "Suc (sSequence s0)" "Suc (sSequence s)" "Suc (sSequence s2)"]
    by (auto simp del: upt_Suc)
qed

subsection \<open>Reconstruction from the stored log\<close>

definition state_shows :: "replay_state \<Rightarrow> sim \<Rightarrow> bool" where
  \<comment> \<open>the reconstructed state agrees with the simulation on everything but route progress and clock\<close>
  "state_shows st s \<longleftrightarrow> rsSequence st = sSequence s \<and> rsNodes st = sorted_values (cNodes (sCity s)) \<and>
     rsEdges st = city_roads (sCity s) \<and> rsPaused st = sPaused s \<and> rsSpeed st = sSpeed s \<and>
     distinct (map rdID (rsDrivers st)) \<and> off_route ` set (rsDrivers st) = driver_row ` snd ` set (sDrivers s) \<and>
     distinct (map roID (rsOrders st)) \<and> set (rsOrders st) = order_row ` snd ` set (sOrders s)"

lemma lookup_all:
  assumes "set ks = fst ` set m" "distinct_keys m"
  shows "(\<lambda>k. the (map_of m k)) ` set ks = snd ` set m"
  using assms by (force simp: image_iff)

lemma rows_same:
  assumes "\<And>k. map_option f (map_of m k) = map_option g (map_of m' k)" "distinct_keys m'"
    "set ks = fst ` set m"
  shows "f ` (\<lambda>k. the (map_of m k)) ` set ks = g ` snd ` set m'"
proof -
  have "k \<in> set ks \<longleftrightarrow> map_of m k \<noteq> None" for k by (simp add: assms(3) map_of_eq_None_iff)
  then have dom: "k \<in> set ks \<longleftrightarrow> map_of m' k \<noteq> None" for k
    using assms(1) [of k] by (cases "map_of m k"; cases "map_of m' k") auto
  have "f (the (map_of m k)) = g (the (map_of m' k))" if "k \<in> set ks" for k
    using assms(1) [of k] that dom [of k] by (cases "map_of m k"; cases "map_of m' k") auto
  then have "f ` (\<lambda>k. the (map_of m k)) ` set ks = g ` (\<lambda>k. the (map_of m' k)) ` set ks" by (simp add: image_image)
  also have "(\<lambda>k. the (map_of m' k)) ` set ks = snd ` set m'"
    by (rule lookup_all [OF _ assms(2)]) (use dom in \<open>auto simp: map_of_eq_None_iff\<close>)
  finally show ?thesis .
qed

lemma built_state_shows:
  assumes b: "builder_ok b" "replay_view b = live_view s" and s: "keyed s" and n: "sbSequence b = sSequence s"
  shows "state_shows (sb_state b) s"
proof -
  have d: "map_option off_route (map_of (sbDrivers b) i) = map_option driver_row (map_of (sDrivers s) i)" for i
    using arg_cong [OF b(2), of vDrivers] by (simp add: replay_view_def live_view_def fun_eq_iff)
  have o: "map_option (\<lambda>x. x) (map_of (sbOrders b) i) = map_option order_row (map_of (sOrders s) i)" for i
    using arg_cong [OF b(2), of vOrders] by (simp add: replay_view_def live_view_def fun_eq_iff option.map_ident)
  have rest: "sbEdges b = city_roads (sCity s)" "sbNodes b = sorted_values (cNodes (sCity s))" "sbPaused b = sPaused s" "sbSpeed b = sSpeed s"
    using b(2) by (simp_all add: replay_view_def live_view_def)
  have dk: "distinct_keys (sDrivers s)" "distinct_keys (sOrders s)" using s by (simp_all add: keyed_def)
  have ids: "rdID (the (map_of (sbDrivers b) i)) = i" if "i \<in> set (sbDriverOrder b)" for i
  proof -
    have "i \<in> set (keys (sbDrivers b))" using that b(1) by (simp add: builder_ok_def)
    then obtain x where x: "map_of (sbDrivers b) i = Some x" unfolding in_keys_iff by blast
    then obtain y where "map_of (sDrivers s) i = Some y" "off_route x = driver_row y"
      using d [of i] by (cases "map_of (sDrivers s) i") auto
    then have "rdID (off_route x) = i" using s by (simp add: keyed_def driver_row_def)
    then show ?thesis using x by (simp add: off_route_def)
  qed
  have oids: "roID (the (map_of (sbOrders b) i)) = i" if "i \<in> set (sbOrderOrder b)" for i
  proof -
    have "i \<in> set (keys (sbOrders b))" using that b(1) by (simp add: builder_ok_def)
    then obtain x where x: "map_of (sbOrders b) i = Some x" unfolding in_keys_iff by blast
    then obtain y where "map_of (sOrders s) i = Some y" "x = order_row y"
      using o [of i] by (cases "map_of (sOrders s) i") auto
    then show ?thesis using x s by (simp add: keyed_def order_row_def)
  qed
  have "map rdID (rsDrivers (sb_state b)) = sbDriverOrder b" "map roID (rsOrders (sb_state b)) = sbOrderOrder b"
    using ids oids by (simp_all add: sb_state_def map_idI)
  moreover have "off_route ` set (rsDrivers (sb_state b)) = driver_row ` snd ` set (sDrivers s)"
    using rows_same [OF d dk(1), of "sbDriverOrder b"] b(1) by (simp add: sb_state_def builder_ok_def)
  moreover have "set (rsOrders (sb_state b)) = order_row ` snd ` set (sOrders s)"
    using rows_same [OF o dk(2), of "sbOrderOrder b"] b(1) by (simp add: sb_state_def builder_ok_def)
  ultimately show ?thesis using b(1) n rest by (simp add: state_shows_def builder_ok_def) (simp add: sb_state_def)
qed

lemma sb_driver_sequence [simp]: "sbSequence (sb_driver i f b) = sbSequence b" "sbSequence (sb_order k g b) = sbSequence b"
  by (simp_all add: sb_driver_def sb_order_def)

lemma sb_apply_sequence:
  assumes "sb_apply x b = Inr b'"
  shows "sbSequence b' = seSequence x"
proof -
  have s: "sbSequence b2 = sbSequence b1" if "applySnapshot p b1 = Inr b2" for p b1 b2
    using that by (auto simp: applySnapshot_def bind_res_Inr_iff)
  have p: "sbSequence b2 = sbSequence b1" if "apply_position i n b1 = Inr b2" for i n b1 b2
    using that by (auto simp: apply_position_def Let_def split: if_splits)
  have t: "sbSequence (apply_status i st b1) = sbSequence b1" for i st b1
    by (simp add: apply_status_def Let_def split: driver_status.splits option.splits)
  show ?thesis
    using assms by (cases "seType x") (auto simp: sb_apply_def Let_def bind_res_Inr_iff t dest!: s p)
qed

lemma fold_sequence:
  "fold_events None 0 xs b = Inr b' \<Longrightarrow> sbSequence b' = (if xs = [] then sbSequence b else seSequence (last xs))"
proof (induction xs arbitrary: b)
  case (Cons x xs)
  then obtain b1 where b1: "sb_apply x b = Inr b1" "fold_events None 0 xs b1 = Inr b'" by (auto simp: bind_res_Inr_iff)
  then show ?case using Cons.IH [OF b1(2)] sb_apply_sequence [OF b1(1)] by simp
qed simp

lemma fold_window:
  assumes "\<forall>x \<in> set xs. int (seSequence x) \<le> n \<and> (\<forall>y. base = Some y \<longrightarrow> ssSequence y < seSequence x)"
  shows "fold_events base n xs b = fold_events None 0 xs b"
  using assms
proof (induction xs arbitrary: b)
  case (Cons x xs)
  have "\<not> (0 < n \<and> n < int (seSequence x))" "\<not> (case base of None \<Rightarrow> False | Some y \<Rightarrow> seSequence x \<le> ssSequence y)"
    using Cons.prems by (auto simp: not_le split: option.splits)
  then show ?case using Cons by (cases "sb_apply x b") auto
qed simp

lemma zero_builder: "builder_ok (newStateBuilder i)"
  by (simp add: builder_ok_def newStateBuilder_def)

lemma Start_told:
  assumes "Start (NewWithConfig draws cfg) = (es0, s0)"
  shows "quiescent s0" "follows v es0 (live_view s0)" "map evSequence es0 = [1]" "sSequence s0 = 1" "sID s0 = cfID cfg"
    "\<forall>e \<in> set es0. evSimulationID e = cfID cfg \<and> encodable (evPayload e)"
proof -
  let ?s = "NewWithConfig draws cfg"
  have n: "sEvents ?s = []" "sSequence ?s = 0" "sID ?s = cfID cfg" "sSpeed ?s = 1"
    by (simp_all add: NewWithConfig_def Let_def config_defaults_def)
  have inv: "sim_inv ?s" by (rule NewWithConfig_inv)
  have k: "keyed ?s" by (rule sim_inv_keyed [OF inv]) (simp add: n)
  have s0: "s0 = (emit EventSimulationSnapshot (snapshotPayload ?s) ?s)\<lparr>sEvents := []\<rparr>"
    "es0 = sEvents (emit EventSimulationSnapshot (snapshotPayload ?s) ?s)"
    using assms by (auto simp: Start_def takePending_def)
  show "quiescent s0" unfolding s0(1) quiescent_def using inv k
    by (simp add: sim_inv_def base_inv_def keyed_def)
  have v: "live_view s0 = live_view ?s" unfolding s0(1) by (simp add: live_view_def)
  obtain e where e: "es0 = [e]" "evType e = EventSimulationSnapshot" "evPayload e = snapshotPayload ?s" "evSequence e = 1"
    "evSimulationID e = cfID cfg" unfolding s0(2) by (simp add: emit_def n)
  show "follows v es0 (live_view s0)" unfolding e(1) v
    by (rule follows_one) (simp add: e reads_snapshot [OF k sim_inv_named [OF inv]])
  show "map evSequence es0 = [1]" "\<forall>e \<in> set es0. evSimulationID e = cfID cfg \<and> encodable (evPayload e)" using e by simp_all
  show "sSequence s0 = 1" "sID s0 = cfID cfg" unfolding s0(1) by (simp_all add: emit_def n)
qed

lemma followed:
  assumes "follows v es v'" "builder_ok b" "replay_view b = v" "list_all2 stored_as xs es"
  obtains b' where "fold_events None 0 xs b = Inr b'" "builder_ok b'" "replay_view b' = v'"
  using assms unfolding follows_def by blast

lemma list_all2_split: "list_all2 P xs (ys @ zs) \<Longrightarrow> \<exists>xs1 xs2. xs = xs1 @ xs2 \<and> list_all2 P xs1 ys \<and> list_all2 P xs2 zs"
  by (auto simp: list_all2_append2)

lemma row_sequences:
  "list_all2 stored_as xs es \<Longrightarrow> map evSequence es = [Suc i..<Suc j] \<Longrightarrow> x \<in> set xs \<Longrightarrow> i < seSequence x \<and> seSequence x \<le> j"
proof -
  assume "list_all2 stored_as xs es" "map evSequence es = [Suc i..<Suc j]" "x \<in> set xs"
  then have "seSequence x \<in> set [Suc i..<Suc j]" using stored_rows by (metis image_eqI list.set_map)
  then show ?thesis by auto
qed

lemma StateAt_live:
  assumes start: "Start (NewWithConfig draws cfg) = (es0, s0)" and p: "plays s0 es1 s1" "plays s1 es2 s2" "plays s2 es3 s3"
    and rows: "list_all2 stored_as rows (es0 @ es1 @ es2 @ es3)"
    and base: "\<And>x. base = Some x \<Longrightarrow> ssSequence x = sSequence s1 \<and> ssPayload x = Raw (snapshotPayload s1)"
  shows "\<exists>st. StateAt i base (events_after (case base of None \<Rightarrow> 0 | Some x \<Rightarrow> int (ssSequence x)) rows) (int (sSequence s2)) = Inr st \<and>
    state_shows st s2"
proof -
  note S = Start_told [OF start]
  note T1 = plays_told [OF p(1) S(1)]
  note T2 = plays_told [OF p(2) conjunct1 [OF T1]]
  note T3 = plays_told [OF p(3) conjunct1 [OF T2]]
  let ?n = "int (sSequence s2)"
  obtain r0 r1 r2 r3 where r: "rows = r0 @ r1 @ r2 @ r3" "list_all2 stored_as r0 es0" "list_all2 stored_as r1 es1"
    "list_all2 stored_as r2 es2" "list_all2 stored_as r3 es3"
    using rows by (metis list_all2_split)
  have seq0: "seSequence x = 1" if "x \<in> set r0" for x
    using row_sequences [OF r(2), of 0 1 x] S(3) that by simp
  have seq1: "sSequence s0 < seSequence x \<and> seSequence x \<le> sSequence s1" if "x \<in> set r1" for x
    using row_sequences [OF r(3) _ that] T1 by blast
  have seq2: "sSequence s1 < seSequence x \<and> seSequence x \<le> sSequence s2" if "x \<in> set r2" for x
    using row_sequences [OF r(4) _ that] T2 by blast
  have seq3: "sSequence s2 < seSequence x \<and> seSequence x \<le> sSequence s3" if "x \<in> set r3" for x
    using row_sequences [OF r(5) _ that] T3 by blast
  have le: "1 \<le> sSequence s1" "sSequence s1 \<le> sSequence s2" "0 < ?n" using S(4) T1 T2 by auto
  have last: "sequence_of = sSequence s2" if "r2 \<noteq> [] \<Longrightarrow> sequence_of = seSequence (last r2)" "r2 = [] \<Longrightarrow> sequence_of = sSequence s1"
    for sequence_of
  proof (cases "r2 = []")
    case True
    then have "es2 = []" using r(4) by simp
    then have "[Suc (sSequence s1)..<Suc (sSequence s2)] = []" using T2 by simp
    then have "sSequence s1 = sSequence s2" using le(2) by (simp split: if_splits)
    then show ?thesis using that(2) True by simp
  next
    case False
    have "map seSequence r2 = [Suc (sSequence s1)..<Suc (sSequence s2)]" using stored_rows [OF r(4)] T2 by simp
    moreover from this have "sSequence s1 < sSequence s2" using False le(2) by (cases "sSequence s1 = sSequence s2") auto
    ultimately have "seSequence (last r2) = sSequence s2" using False last_map [of r2 seSequence] by simp
    then show ?thesis using that(1) False by simp
  qed
  have stop: "fold_events base ?n (xs @ r3) b = fold_events base ?n xs b" for xs b
    by (rule fold_events_stop [OF le(3)]) (use seq3 in auto)
  show ?thesis
  proof (cases base)
    case None
    have all: "events_after 0 rows = rows" using seq0 seq1 seq2 seq3 unfolding r(1) by (intro filter_True) fastforce
    obtain b0 where b0: "fold_events None 0 r0 (newStateBuilder i) = Inr b0" "builder_ok b0" "replay_view b0 = live_view s0"
      by (rule followed [OF S(2) zero_builder refl r(2)])
    obtain b1 where b1: "fold_events None 0 r1 b0 = Inr b1" "builder_ok b1" "replay_view b1 = live_view s1"
      using followed [OF _ b0(2,3) r(3)] T1 by blast
    obtain b2 where b2: "fold_events None 0 r2 b1 = Inr b2" "builder_ok b2" "replay_view b2 = live_view s2"
      using followed [OF _ b1(2,3) r(4)] T2 by blast
    have "fold_events None ?n (r0 @ r1 @ r2) (newStateBuilder i) = fold_events None 0 (r0 @ r1 @ r2) (newStateBuilder i)"
      by (rule fold_window) (use seq0 seq1 seq2 le in fastforce)
    then have run: "fold_events None ?n rows (newStateBuilder i) = Inr b2"
      using stop [of "r0 @ r1 @ r2"] b0(1) b1(1) b2(1) None by (simp add: r(1) fold_events_append)
    have "sbSequence b2 = sSequence s2"
    proof (rule last)
      show "r2 \<noteq> [] \<Longrightarrow> sbSequence b2 = seSequence (last r2)" using fold_sequence [OF b2(1)] by simp
      assume "r2 = []"
      then have "b2 = b1" using b2(1) by simp
      have r0: "map seSequence r0 = [1]" using stored_rows [OF r(2)] S(3) by simp
      have "sbSequence b0 = 1" using fold_sequence [OF b0(1)] r0 by (cases r0) auto
      moreover have "sbSequence b1 = (if r1 = [] then sbSequence b0 else seSequence (last r1))" by (rule fold_sequence [OF b1(1)])
      moreover have "map seSequence r1 = [Suc (sSequence s0)..<Suc (sSequence s1)]" using stored_rows [OF r(3)] T1 by simp
      ultimately show "sbSequence b2 = sSequence s1"
        using S(4) T1 last_map [of r1 seSequence] \<open>b2 = b1\<close> by (cases "r1 = []") (auto split: if_splits)
    qed
    from built_state_shows [OF b2(2,3) _ this] T2 show ?thesis
      using run all None by (simp add: StateAt_def quiescent_def)
  next
    case (Some x)
    have x: "ssSequence x = sSequence s1" "ssPayload x = Raw (snapshotPayload s1)" using base Some by simp_all
    have q1: "keyed s1" "sim_inv s1" using T1 by (simp_all add: quiescent_def)
    obtain b0 where b0: "applySnapshot (ssPayload x) (newStateBuilder i) = Inr b0" "builder_ok b0" "replay_view b0 = live_view s1"
      using applySnapshot_view [OF q1(1) sim_inv_named [OF q1(2)]] x(2) by metis
    let ?b = "b0\<lparr>sbSequence := ssSequence x, sbVirtualTime := ssVirtualTime x\<rparr>"
    have b: "builder_ok ?b" "replay_view ?b = live_view s1" using b0 by simp_all
    obtain b2 where b2: "fold_events None 0 r2 ?b = Inr b2" "builder_ok b2" "replay_view b2 = live_view s2"
      using followed [OF _ b r(4)] T2 by blast
    have "events_after (int (ssSequence x)) (r0 @ r1) = []" "events_after (int (ssSequence x)) (r2 @ r3) = r2 @ r3"
      using seq0 seq1 seq2 seq3 le S(4) x(1) by (auto simp: filter_empty_conv intro!: filter_True) fastforce+
    then have all: "events_after (int (ssSequence x)) rows = r2 @ r3" unfolding r(1) by (metis append.assoc append_Nil filter_append)
    have "fold_events base ?n r2 ?b = fold_events None 0 r2 ?b"
      by (rule fold_window) (use seq2 x(1) Some in auto)
    then have run: "fold_events base ?n (r2 @ r3) ?b = Inr b2" using stop b2(1) by simp
    have "sbSequence b2 = sSequence s2"
      by (rule last) (use fold_sequence [OF b2(1)] x(1) in simp_all)
    from built_state_shows [OF b2(2,3) _ this] T2 show ?thesis
      using run all b0(1) Some by (simp add: StateAt_def quiescent_def)
  qed
qed

lemma replay_run:
  assumes start: "Start (NewWithConfig draws cfg) = (es0, s0)"
    and run: "plays s0 es1 s1" "plays s1 es2 s2" "plays s2 es3 s3"
    and log: "memory_wf m" "list_all2 stored_as (log_of m (cfID cfg)) (es0 @ es1 @ es2 @ es3)"
    and base: "\<And>x. SnapshotAtOrBefore (cfID cfg) (int (sSequence s2)) m = Inr x \<Longrightarrow>
      ssSequence x = sSequence s1 \<and> ssPayload x = Raw (snapshotPayload s1)"
  shows "\<exists>st. reader_StateAt (cfID cfg) (int (sSequence s2)) m = Some (Inr st) \<and> state_shows st s2"
proof -
  let ?i = "cfID cfg" and ?n = "int (sSequence s2)"
  note S = Start_told [OF start]
  note T1 = plays_told [OF run(1) S(1)]
  have "1 \<le> sSequence s2" using plays_told [OF run(2) conjunct1 [OF T1]] T1 S(4) by linarith
  then have n: "pick_sequence ?i ?n m = ?n" by (simp add: pick_sequence_def)
  have "map seSequence (log_of m ?i) = map evSequence (es0 @ es1 @ es2 @ es3)" by (rule stored_rows [OF log(2)])
  then have "1 \<in> set (map seSequence (log_of m ?i))" using S(3) by simp
  then obtain x where "x \<in> set (log_of m ?i)" "seSequence x = 1" by auto
  then have "LatestSequence ?i m \<noteq> 0" using memory_log.latest_bound [OF log(1), of x ?i] by auto
  then obtain row where row: "reader_simulation ?i m = Inr row"
    by (cases "GetSimulation ?i m") (auto simp: reader_simulation_def GetSimulation_def lookup_row_def split: option.splits)
  have "ssSequence x = sSequence s1 \<and> ssPayload x = Raw (snapshotPayload s1)" if "pick_base ?i ?n m = Some x" for x
    using base that by (simp add: pick_base_def n split: sum.splits)
  from StateAt_live [OF start run log(2) this, where i = ?i] show ?thesis
    using reader_StateAt_collected [OF log(1) row, of ?n] by (simp add: n)
qed

text \<open>
  C6.  Replay reproduces the live run.  Take any run (its start, then any commands and ticks) whose
  events are in the store in the form the recorder writes (under any trace ids).  Reconstructing it at the sequence
  number of one of its states, from no snapshot or from one taken at an earlier state, returns, and
  yields that state: every driver's position, status, route and order, every order with its
  status and driver, every road's closed flag, the pause and the speed are those the simulation
  had.  (The driver's index into its route and the clock between events are not reproduced.)
\<close>

theorem replay_reproduces_live_run:
  assumes start: "Start (NewWithConfig draws cfg) = (es0, s0)"
    and run: "plays s0 es1 s1" "plays s1 es2 s2" "plays s2 es3 s3"
    and log: "memory_wf m" "list_all2 stored_as (log_of m (cfID cfg)) (es0 @ es1 @ es2 @ es3)"
    and base: "\<And>x. SnapshotAtOrBefore (cfID cfg) (int (sSequence s2)) m = Inr x \<Longrightarrow>
      ssSequence x = sSequence s1 \<and> ssPayload x = Raw (snapshotPayload s1)"
  shows "\<exists>st. reader_StateAt (cfID cfg) (int (sSequence s2)) m = Some (Inr st) \<and> state_shows st s2"
  by (rule replay_run [OF assms])

lemma encodable_stored:
  assumes "encodable (evPayload e)"
  obtains x where "stored_as x e" "seRecordedAt x = t"
proof -
  obtain x where "EventFrom e '''' t = Some x" "seRecordedAt x = t" using assms by (auto simp: EventFrom_def marshal_def)
  then show thesis by (intro that [of x] EventFrom_stored_as)
qed

theorem replay_reproduces_live_run_witness:
  "\<exists>m st. reader_StateAt ''sim'' 2 m = Some (Inr st) \<and> rsPaused st \<and> rsSequence st = 2"
proof -
  let ?draws = "\<lambda>_ _. 0" and ?cfg = "zero_config\<lparr>cfID := ''sim'', cfDriverCount := 1\<rparr>"
  let ?new = "NewWithConfig ?draws ?cfg"
  obtain es0 s0 where start: "Start ?new = (es0, s0)" by (cases "Start ?new")
  note S = Start_told [OF start]
  let ?p = "emit EventSimulationPaused (JObj [(''paused'', JBool True)]) (s0\<lparr>sPaused := True\<rparr>)"
  let ?s2 = "?p\<lparr>sEvents := []\<rparr>"
  have p: "plays s0 ([] @ sEvents ?p) ?s2"
    by (rule plays.command [OF plays.waits, where cmd = "SetPaused True" and trace = "''''" and ms = 0 and ?s1.0 = ?p])
      (simp_all add: handleTraced_def handle_def takePending_def)
  obtain e0 where e0: "es0 = [e0]" "evPayload e0 = snapshotPayload ?new"
    using start by (auto simp: Start_def takePending_def emit_def NewWithConfig_def Let_def)
  obtain e1 where e1: "sEvents ?p = [e1]" "evSequence e1 = 2" "evPayload e1 = JObj [(''paused'', JBool True)]" "evSimulationID e1 = ''sim''"
    using S(1,4,5) by (simp add: emit_def quiescent_def zero_config_def)
  obtain x0 where x0: "stored_as x0 e0" by (rule encodable_stored [of e0]) (simp_all add: e0)
  obtain x1 where x1: "stored_as x1 e1" by (rule encodable_stored [of e1]) (simp_all add: e1)
  let ?m = "NewMemory\<lparr>mEvents := [(''sim'', [x0, x1])], mSeen := [(''sim'', [1, 2])]\<rparr>"
  have q: "seSequence x0 = 1" "seSequence x1 = 2" "seSimulationID x0 = ''sim''" "seSimulationID x1 = ''sim''"
    using stored_row [OF x0] stored_row [OF x1] e1 S(3,6) e0(1) by (simp_all add: zero_config_def)
  have l: "log_of ?m i = (if i = ''sim'' then [x0, x1] else [])" for i by (simp add: log_of_def get_or_def)
  have wf: "memory_wf ?m"
    unfolding memory_wf_def l using q by (auto simp: NewMemory_def snapshots_of_def get_or_def log_ok_def
      intro: image_eqI [where x = x0] image_eqI [where x = x1])
  have "\<exists>st. reader_StateAt (cfID ?cfg) (int (sSequence ?s2)) ?m = Some (Inr st) \<and> state_shows st ?s2"
  proof (rule replay_reproduces_live_run [OF start plays.waits _ plays.waits wf])
    show "plays s0 ([] @ sEvents ?p) ?s2" by (rule p)
    show "list_all2 stored_as (log_of ?m (cfID ?cfg)) (es0 @ [] @ ([] @ sEvents ?p) @ [])"
      using x0 x1 l [of "''sim''"] by (simp add: zero_config_def e0(1) e1(1) del: One_nat_def)
  qed (simp add: SnapshotAtOrBefore_def NewMemory_def get_or_def snapshots_of_def)
  moreover have "sSequence ?s2 = 2" "sPaused ?s2" by (simp_all add: emit_def S(4))
  ultimately show ?thesis unfolding state_shows_def by (auto simp: zero_config_def)
qed

end
