(* ===== verification/RateLimit.thy ===== *)
theory RateLimit
  imports Store
begin

text \<open>
  \<open>internal/ratelimit/limiter.go\<close>: a token bucket per key.  A nil \<open>*Limiter\<close> is \<open>None\<close>; times and
  durations are integers (nanoseconds), and \<open>now\<close> is an argument.

  The lemmas bound what one key can be granted over any interleaving of requests, and show that the
  advertised waiting time is enough.
\<close>

record bucket =
  bkTokens :: real
  bkLastSeen :: timestamp

record limiter =
  lmRate :: real
  lmBurst :: real
  lmIdleTTL :: int
  lmBuckets :: "(string, bucket) gomap"

record limiter_config =
  lcPerSecond :: real
  lcBurst :: real
  lcIdleTTL :: int

definition nanos :: int where "nanos = 10 ^ 9"

definition Seconds :: "int \<Rightarrow> real" where
  "Seconds d = of_int d / of_int nanos"

definition New_limiter :: "limiter_config \<Rightarrow> limiter option" where
  "New_limiter cfg =
     (if lcPerSecond cfg \<le> 0 then None
      else Some \<lparr>lmRate = lcPerSecond cfg,
        lmBurst = (if lcBurst cfg \<le> 0 then lcPerSecond cfg else lcBurst cfg),
        lmIdleTTL = (if lcIdleTTL cfg \<le> 0 then 10 * 60 * nanos else lcIdleTTL cfg), lmBuckets = []\<rparr>)"

definition sweep :: "timestamp \<Rightarrow> limiter \<Rightarrow> limiter" where
  "sweep now l = l\<lparr>lmBuckets := filter (\<lambda>(k, b). \<not> now - bkLastSeen b > lmIdleTTL l) (lmBuckets l)\<rparr>"

definition refill :: "limiter \<Rightarrow> timestamp \<Rightarrow> bucket \<Rightarrow> bucket" where
  "refill l now b =
     (let tokens = bkTokens b + Seconds (now - bkLastSeen b) * lmRate l
      in \<lparr>bkTokens = (if tokens > lmBurst l then lmBurst l else tokens), bkLastSeen = now\<rparr>)"

definition Allow_on :: "string \<Rightarrow> timestamp \<Rightarrow> limiter \<Rightarrow> (bool \<times> int) \<times> limiter" where
  \<comment> \<open>\<open>Allow\<close> on a limiter that is not nil\<close>
  "Allow_on key now l0 =
     (let l = (if map_of (lmBuckets l0) key = None
               then sweep now (l0\<lparr>lmBuckets := AList.update key \<lparr>bkTokens = lmBurst l0, bkLastSeen = now\<rparr> (lmBuckets l0)\<rparr>)
               else l0);
          b = refill l now (case map_of (lmBuckets l) key of None \<Rightarrow> \<lparr>bkTokens = lmBurst l, bkLastSeen = now\<rparr> | Some b \<Rightarrow> b)
      in if bkTokens b < 1
         then ((False, \<lfloor>(1 - bkTokens b) / lmRate l * of_int nanos\<rfloor> + 10 ^ 6), l\<lparr>lmBuckets := adjust key (\<lambda>_. b) (lmBuckets l)\<rparr>)
         else ((True, 0), l\<lparr>lmBuckets := adjust key (\<lambda>_. b\<lparr>bkTokens := bkTokens b - 1\<rparr>) (lmBuckets l)\<rparr>))"

definition Allow :: "string \<Rightarrow> timestamp \<Rightarrow> limiter option \<Rightarrow> (bool \<times> int) \<times> limiter option" where
  "Allow key now l = (case l of None \<Rightarrow> ((True, 0), None) | Some l \<Rightarrow> (fst (Allow_on key now l), Some (snd (Allow_on key now l))))"

definition limiter_len :: "limiter option \<Rightarrow> nat" where
  "limiter_len l = (case l of None \<Rightarrow> 0 | Some l \<Rightarrow> length (lmBuckets l))"

subsection \<open>One request\<close>

definition limiter_ok :: "limiter \<Rightarrow> bool" where
  "limiter_ok l \<longleftrightarrow> 0 < lmRate l \<and> 0 < lmBurst l \<and> 0 < lmIdleTTL l \<and> distinct_keys (lmBuckets l) \<and>
     (\<forall>k b. map_of (lmBuckets l) k = Some b \<longrightarrow> bkTokens b \<le> lmBurst l)"

definition level :: "limiter \<Rightarrow> string \<Rightarrow> timestamp \<Rightarrow> real" where
  \<comment> \<open>the tokens a key would find at a time; a key without a bucket finds a full one\<close>
  "level l k t = (case map_of (lmBuckets l) k of None \<Rightarrow> lmBurst l | Some b \<Rightarrow> bkTokens (refill l t b))"

lemma limiter_okD:
  assumes "limiter_ok l"
  shows "0 < lmRate l" "0 < lmBurst l" "0 < lmIdleTTL l" "distinct_keys (lmBuckets l)"
    "map_of (lmBuckets l) k = Some b \<Longrightarrow> bkTokens b \<le> lmBurst l"
  using assms unfolding limiter_ok_def by blast+

lemma refill_tokens: "bkTokens (refill l t b) = min (lmBurst l) (bkTokens b + Seconds (t - bkLastSeen b) * lmRate l)"
  by (simp add: refill_def Let_def)

lemma refill_seen [simp]: "bkLastSeen (refill l t b) = t"
  by (simp add: refill_def Let_def)

lemma Seconds_simps: "Seconds 0 = 0" "Seconds (a + b) = Seconds a + Seconds b" "Seconds (a - b) = Seconds a - Seconds b"
  by (simp_all add: Seconds_def add_divide_distrib diff_divide_distrib)

lemma Seconds_nonneg: "0 \<le> d \<Longrightarrow> 0 \<le> Seconds d"
  by (simp add: Seconds_def nanos_def)

lemma map_of_filter_value:
  "distinct_keys m \<Longrightarrow> map_of (filter (\<lambda>(k, b). P b) m) k = (case map_of m k of None \<Rightarrow> None | Some b \<Rightarrow> if P b then Some b else None)"
proof (induction m)
  case (Cons x m)
  then show ?case by (cases x) (auto simp: map_of_eq_None_iff split: option.splits)
qed simp

lemma sweep_lookup:
  "distinct_keys (lmBuckets l) \<Longrightarrow> map_of (lmBuckets (sweep t l)) k =
    (case map_of (lmBuckets l) k of None \<Rightarrow> None | Some b \<Rightarrow> if t - bkLastSeen b > lmIdleTTL l then None else Some b)"
  by (simp add: sweep_def map_of_filter_value [of _ "\<lambda>b. \<not> t - bkLastSeen b > lmIdleTTL l" k, simplified] split: option.splits)

lemma sweep_simps [simp]:
  "lmRate (sweep t l) = lmRate l" "lmBurst (sweep t l) = lmBurst l" "lmIdleTTL (sweep t l) = lmIdleTTL l"
  by (simp_all add: sweep_def)

definition prepared :: "string \<Rightarrow> timestamp \<Rightarrow> limiter \<Rightarrow> limiter" where
  \<comment> \<open>the limiter once the key has a bucket\<close>
  "prepared key now l = (if map_of (lmBuckets l) key = None
     then sweep now (l\<lparr>lmBuckets := AList.update key \<lparr>bkTokens = lmBurst l, bkLastSeen = now\<rparr> (lmBuckets l)\<rparr>) else l)"

lemma prepared_facts:
  assumes ok: "limiter_ok l"
  shows "lmRate (prepared k t l) = lmRate l" "lmBurst (prepared k t l) = lmBurst l" "lmIdleTTL (prepared k t l) = lmIdleTTL l"
    "limiter_ok (prepared k t l)"
    "\<exists>b. map_of (lmBuckets (prepared k t l)) k = Some b \<and> bkTokens (refill l t b) = level l k t"
    "k' \<noteq> k \<Longrightarrow> map_of (lmBuckets (prepared k t l)) k' = map_of (lmBuckets l) k' \<or>
       (map_of (lmBuckets (prepared k t l)) k' = None \<and> (\<exists>b. map_of (lmBuckets l) k' = Some b \<and> lmIdleTTL l < t - bkLastSeen b))"
proof -
  note O = limiter_okD [OF ok]
  let ?l = "l\<lparr>lmBuckets := AList.update k \<lparr>bkTokens = lmBurst l, bkLastSeen = t\<rparr> (lmBuckets l)\<rparr>"
  have d: "distinct_keys (lmBuckets ?l)" using O(4) by simp
  note S = sweep_lookup [OF d]
  have look: "map_of (lmBuckets ?l) j = (if j = k then Some \<lparr>bkTokens = lmBurst l, bkLastSeen = t\<rparr> else map_of (lmBuckets l) j)" for j
    by (simp add: map_of_update)
  show "lmRate (prepared k t l) = lmRate l" "lmBurst (prepared k t l) = lmBurst l" "lmIdleTTL (prepared k t l) = lmIdleTTL l"
    by (simp_all add: prepared_def)
  have "distinct_keys (lmBuckets (sweep t ?l))" using d by (simp add: sweep_def distinct_map_filter)
  moreover have "bkTokens b \<le> lmBurst l" if "map_of (lmBuckets (sweep t ?l)) j = Some b" for j b
    using that O(5) unfolding S look by (auto split: if_splits option.splits)
  ultimately show "limiter_ok (prepared k t l)"
    using ok O by (auto simp: prepared_def limiter_ok_def)
  have "0 < lmIdleTTL l" by (rule O(3))
  then have "map_of (lmBuckets (sweep t ?l)) k = Some \<lparr>bkTokens = lmBurst l, bkLastSeen = t\<rparr>"
    unfolding S look by simp
  then show "\<exists>b. map_of (lmBuckets (prepared k t l)) k = Some b \<and> bkTokens (refill l t b) = level l k t"
    by (cases "map_of (lmBuckets l) k") (auto simp: prepared_def level_def refill_tokens Seconds_simps)
  show "map_of (lmBuckets (prepared k t l)) k' = map_of (lmBuckets l) k' \<or>
       (map_of (lmBuckets (prepared k t l)) k' = None \<and> (\<exists>b. map_of (lmBuckets l) k' = Some b \<and> lmIdleTTL l < t - bkLastSeen b))"
    if "k' \<noteq> k"
    using that unfolding prepared_def by (cases "map_of (lmBuckets l) k'") (auto simp: S look look [simplified])
qed

lemma Allow_on_effect:
  fixes k :: string and t :: timestamp
  assumes ok: "limiter_ok l"
  defines "l' \<equiv> snd (Allow_on k t l)"
  shows "fst (fst (Allow_on k t l)) \<longleftrightarrow> 1 \<le> level l k t"
    "snd (fst (Allow_on k t l)) = (if 1 \<le> level l k t then 0 else \<lfloor>(1 - level l k t) / lmRate l * of_int nanos\<rfloor> + 10 ^ 6)"
    "limiter_ok l'" "lmRate l' = lmRate l" "lmBurst l' = lmBurst l" "lmIdleTTL l' = lmIdleTTL l"
    "map_of (lmBuckets l') k = Some \<lparr>bkTokens = (if 1 \<le> level l k t then level l k t - 1 else level l k t), bkLastSeen = t\<rparr>"
    "k' \<noteq> k \<Longrightarrow> map_of (lmBuckets l') k' = map_of (lmBuckets (prepared k t l)) k'"
proof -
  note P = prepared_facts [OF ok, where k = k and t = t]
  obtain b where b: "map_of (lmBuckets (prepared k t l)) k = Some b" "bkTokens (refill l t b) = level l k t" using P(5) by blast
  have same: "refill (prepared k t l) t b = refill l t b" by (simp add: refill_def Let_def P)
  have run: "Allow_on k t l = (if level l k t < 1
      then ((False, \<lfloor>(1 - level l k t) / lmRate l * of_int nanos\<rfloor> + 10 ^ 6),
        (prepared k t l)\<lparr>lmBuckets := adjust k (\<lambda>_. refill l t b) (lmBuckets (prepared k t l))\<rparr>)
      else ((True, 0), (prepared k t l)\<lparr>lmBuckets := adjust k (\<lambda>_. (refill l t b)\<lparr>bkTokens := level l k t - 1\<rparr>) (lmBuckets (prepared k t l))\<rparr>))"
    unfolding Allow_on_def Let_def prepared_def [symmetric] b(1) option.case same b(2) P(1) by simp
  show "fst (fst (Allow_on k t l)) \<longleftrightarrow> 1 \<le> level l k t"
    "snd (fst (Allow_on k t l)) = (if 1 \<le> level l k t then 0 else \<lfloor>(1 - level l k t) / lmRate l * of_int nanos\<rfloor> + 10 ^ 6)"
    unfolding run by auto
  show "lmRate l' = lmRate l" "lmBurst l' = lmBurst l" "lmIdleTTL l' = lmIdleTTL l"
    unfolding l'_def run by (auto simp: P)
  show lk: "map_of (lmBuckets l') k = Some \<lparr>bkTokens = (if 1 \<le> level l k t then level l k t - 1 else level l k t), bkLastSeen = t\<rparr>"
    unfolding l'_def run using b by (auto simp: bucket.equality)
  show other: "map_of (lmBuckets l') k' = map_of (lmBuckets (prepared k t l)) k'" if "k' \<noteq> k" for k'
    unfolding l'_def run using that by auto
  have cap: "level l k t \<le> lmBurst l" by (auto simp: level_def refill_tokens split: option.splits)
  have "bkTokens b' \<le> lmBurst l" if "map_of (lmBuckets l') j = Some b'" for j b'
  proof (cases "j = k")
    case True
    then show ?thesis using that lk cap by auto
  next
    case False
    then show ?thesis using that other limiter_okD(5) [OF P(4)] P(2) by metis
  qed
  then show "limiter_ok l'"
    using limiter_okD [OF P(4)] unfolding limiter_ok_def l'_def run by (auto simp: P)
qed

subsection \<open>Any number of requests\<close>

fun run_requests :: "(string \<times> timestamp) list \<Rightarrow> limiter \<Rightarrow> (string \<times> bool) list \<times> limiter" where
  \<comment> \<open>the requests in the order in which they take the mutex, each with its answer\<close>
  "run_requests [] l = ([], l)"
| "run_requests ((k, t) # rs) l =
     (let (answer, l1) = Allow_on k t l; (answers, l2) = run_requests rs l1 in ((k, fst answer) # answers, l2))"

definition granted :: "string \<Rightarrow> (string \<times> bool) list \<Rightarrow> nat" where
  "granted k answers = count_list answers (k, True)"

definition clocked :: "limiter \<Rightarrow> timestamp \<Rightarrow> bool" where
  \<comment> \<open>no bucket was seen after the given time\<close>
  "clocked l t \<longleftrightarrow> limiter_ok l \<and> (\<forall>k b. map_of (lmBuckets l) k = Some b \<longrightarrow> 0 \<le> bkTokens b \<and> bkLastSeen b \<le> t)"

lemma clockedD:
  assumes "clocked l t"
  shows "limiter_ok l" "map_of (lmBuckets l) k = Some b \<Longrightarrow> 0 \<le> bkTokens b" "map_of (lmBuckets l) k = Some b \<Longrightarrow> bkLastSeen b \<le> t"
  using assms unfolding clocked_def by blast+

lemma Seconds_scaled: "0 < r \<Longrightarrow> a \<le> b \<Longrightarrow> Seconds a * r \<le> Seconds b * r"
  by (simp add: Seconds_def nanos_def)

lemma level_bounds:
  assumes c: "clocked l t" and "t \<le> u"
  shows "0 \<le> level l k u" "level l k u \<le> lmBurst l" "level l k t \<le> level l k u"
    "level l k u \<le> level l k t + lmRate l * Seconds (u - t)"
proof -
  note O = limiter_okD [OF clockedD(1) [OF c]]
  have g: "0 \<le> Seconds (u - t) * lmRate l" using O assms(2) by (simp add: Seconds_nonneg)
  show "level l k u \<le> lmBurst l" by (auto simp: level_def refill_tokens split: option.splits)
  show "0 \<le> level l k u"
  proof (cases "map_of (lmBuckets l) k")
    case (Some b)
    then have "0 \<le> bkTokens b" "0 \<le> Seconds (u - bkLastSeen b) * lmRate l"
      using clockedD(2,3) [OF c Some] O assms(2) by (simp_all add: Seconds_nonneg)
    then show ?thesis using O Some by (simp add: level_def refill_tokens)
  qed (use O in \<open>simp add: level_def\<close>)
  show "level l k t \<le> level l k u"
  proof (cases "map_of (lmBuckets l) k")
    case (Some b)
    have "Seconds (t - bkLastSeen b) * lmRate l \<le> Seconds (u - bkLastSeen b) * lmRate l"
      using O assms(2) by (intro Seconds_scaled) auto
    then show ?thesis using Some by (simp add: level_def refill_tokens)
  qed (simp add: level_def)
  show "level l k u \<le> level l k t + lmRate l * Seconds (u - t)"
    using g by (cases "map_of (lmBuckets l) k") (auto simp: level_def refill_tokens Seconds_simps algebra_simps)
qed

lemma Allow_on_clocked:
  assumes c: "clocked l t" and tu: "t \<le> u"
  shows "clocked (snd (Allow_on k u l)) u"
  unfolding clocked_def
proof (intro conjI allI impI)
  note A = Allow_on_effect [OF clockedD(1) [OF c], where k = k and t = u]
  show "limiter_ok (snd (Allow_on k u l))" by (rule A(3))
  fix j b
  assume b: "map_of (lmBuckets (snd (Allow_on k u l))) j = Some b"
  have "0 \<le> bkTokens b \<and> bkLastSeen b \<le> u"
  proof (cases "j = k")
    case True
    then show ?thesis using b A(7) level_bounds(1) [OF c tu, of k] by auto
  next
    case False
    then have "map_of (lmBuckets l) j = Some b"
      using b A(8) [OF False] prepared_facts(6) [OF clockedD(1) [OF c] False, where t = u] by auto
    then show ?thesis using clockedD(2,3) [OF c] tu by force
  qed
  then show "0 \<le> bkTokens b" "bkLastSeen b \<le> u" by simp_all
qed

lemma Allow_on_other_level:
  assumes c: "clocked l t" and tu: "t \<le> u" "u \<le> v" and ne: "j \<noteq> k"
  shows "level l j v \<le> level (snd (Allow_on k u l)) j v"
    "lmBurst l \<le> lmRate l * Seconds (lmIdleTTL l) \<Longrightarrow> level (snd (Allow_on k u l)) j v = level l j v"
proof -
  note ok = clockedD(1) [OF c]
  note O = limiter_okD [OF ok]
  note A = Allow_on_effect [OF ok, where k = k and t = u]
  have same: "refill (snd (Allow_on k u l)) v b = refill l v b" for b by (simp add: refill_def Let_def A)
  consider (kept) "map_of (lmBuckets (snd (Allow_on k u l))) j = map_of (lmBuckets l) j"
    | (gone) b where "map_of (lmBuckets (snd (Allow_on k u l))) j = None" "map_of (lmBuckets l) j = Some b" "lmIdleTTL l < u - bkLastSeen b"
    using A(8) [OF ne] prepared_facts(6) [OF ok ne, where t = u] by auto
  note cs = this
  show "level l j v \<le> level (snd (Allow_on k u l)) j v"
    using cs by cases (auto simp: level_def same A(5) refill_tokens split: option.splits)
  show "level (snd (Allow_on k u l)) j v = level l j v" if full: "lmBurst l \<le> lmRate l * Seconds (lmIdleTTL l)"
    using cs
  proof cases
    case kept
    then show ?thesis by (simp add: level_def same A(5) split: option.splits)
  next
    case gone
    have "Seconds (lmIdleTTL l) * lmRate l \<le> Seconds (v - bkLastSeen b) * lmRate l"
      using gone(3) tu O(1) by (intro Seconds_scaled) auto
    moreover have "0 \<le> bkTokens b" using clockedD(2) [OF c gone(2)] .
    ultimately show ?thesis using gone(1,2) full by (simp add: level_def refill_tokens A(5) mult.commute)
  qed
qed

lemma run_requests_Cons:
  "fst (run_requests ((k, t) # rs) l) = (k, fst (fst (Allow_on k t l))) # fst (run_requests rs (snd (Allow_on k t l)))"
  "snd (run_requests ((k, t) # rs) l) = snd (run_requests rs (snd (Allow_on k t l)))"
  by (simp_all add: case_prod_unfold Let_def)

declare run_requests.simps(2) [simp del]

lemma grants_bounded:
  assumes "clocked l t0" "lmBurst l \<le> lmRate l * Seconds (lmIdleTTL l)" "sorted (t0 # map snd rs @ [t1])"
  shows "real (granted k (fst (run_requests rs l))) \<le> level l k t0 + lmRate l * Seconds (t1 - t0)"
  using assms
proof (induction rs arbitrary: l t0)
  case Nil
  then have "0 \<le> level l k t0" "0 \<le> lmRate l * Seconds (t1 - t0)"
    using level_bounds(1) [OF Nil.prems(1) order_refl] limiter_okD(1) [OF clockedD(1) [OF Nil.prems(1)]]
    by (simp_all add: Seconds_nonneg)
  then show ?case by (simp add: granted_def)
next
  case (Cons r rs)
  obtain j u where r: "r = (j, u)" by force
  note c = Cons.prems(1)
  note A = Allow_on_effect [OF clockedD(1) [OF c], where k = j and t = u]
  have tu: "t0 \<le> u" using Cons.prems(3) r by simp
  have "clocked (snd (Allow_on j u l)) u" "sorted (u # map snd rs @ [t1])"
    using Allow_on_clocked [OF c tu] Cons.prems(3) r by simp_all
  from Cons.IH [OF this(1) _ this(2)] Cons.prems(2)
  have IH: "real (granted k (fst (run_requests rs (snd (Allow_on j u l))))) \<le> level (snd (Allow_on j u l)) k u + lmRate l * Seconds (t1 - u)"
    by (simp add: A)
  have up: "level l k u \<le> level l k t0 + lmRate l * Seconds (u - t0)" by (rule level_bounds(4) [OF c tu])
  have "level (snd (Allow_on j u l)) k u + (if j = k \<and> fst (fst (Allow_on j u l)) then 1 else 0) \<le> level l k u"
  proof (cases "j = k")
    case True
    have "level (snd (Allow_on j u l)) k u \<le> (if 1 \<le> level l k u then level l k u - 1 else level l k u)"
      using A(7) True by (simp add: level_def refill_tokens Seconds_simps)
    then show ?thesis using A(1) True by (auto split: if_splits)
  next
    case False
    then show ?thesis using Allow_on_other_level(2) [OF c tu order_refl _ Cons.prems(2), of k j] by simp
  qed
  moreover have "real (granted k (fst (run_requests (r # rs) l))) = real (granted k (fst (run_requests rs (snd (Allow_on j u l))))) +
      (if j = k \<and> fst (fst (Allow_on j u l)) then 1 else 0)"
    by (auto simp: r run_requests_Cons granted_def)
  moreover have "Seconds (t1 - u) + Seconds (u - t0) = Seconds (t1 - t0)" by (simp add: Seconds_simps)
  then have "lmRate l * Seconds (t1 - u) + lmRate l * Seconds (u - t0) = lmRate l * Seconds (t1 - t0)"
    by (metis distrib_left)
  ultimately show ?case using IH up by linarith
qed

lemma New_limiter_clocked:
  assumes "New_limiter cfg = Some l"
  shows "clocked l t" "level l k t = lmBurst l"
  using assms by (auto simp: New_limiter_def clocked_def limiter_ok_def level_def nanos_def split: if_splits)


definition test_limiter :: limiter_config where
  "test_limiter = \<lparr>lcPerSecond = 2, lcBurst = 3, lcIdleTTL = 0\<rparr>"

definition test_requests :: "(string \<times> timestamp) list" where
  "test_requests = [(''a'', 0), (''a'', 0), (''b'', 1), (''a'', 2), (''a'', 3), (''a'', 10 ^ 9)]"


lemma others_do_not_lower:
  assumes "clocked l t" "sorted (t # map snd rs @ [u])" "\<forall>r\<in>set rs. fst r \<noteq> k"
  shows "clocked (snd (run_requests rs l)) u \<and> level l k u \<le> level (snd (run_requests rs l)) k u \<and>
    lmRate (snd (run_requests rs l)) = lmRate l"
  using assms
proof (induction rs arbitrary: l t)
  case Nil
  then show ?case by (force simp: clocked_def)
next
  case (Cons r rs)
  obtain j v where r: "r = (j, v)" by force
  note c = Cons.prems(1)
  have tv: "t \<le> v" "v \<le> u" "sorted (v # map snd rs @ [u])" using Cons.prems(2) r by simp_all
  have jk: "k \<noteq> j" "\<forall>r\<in>set rs. fst r \<noteq> k" using Cons.prems(3) r by auto
  note IH = Cons.IH [OF Allow_on_clocked [OF c tv(1)] tv(3) jk(2), of j]
  show ?case
    using IH Allow_on_other_level(1) [OF c tv(1,2) jk(1)] Allow_on_effect(4) [OF clockedD(1) [OF c], where k = j and t = v]
    by (auto simp: r run_requests_Cons)
qed

text \<open>The waiting time a refusal advertises is enough: a caller that waits at least that long
  is let through, whatever requests other keys make meanwhile.\<close>

theorem retry_after_suffices:
  assumes "clocked l t" and "1 \<le> lmBurst l" and "Allow_on k t l = ((False, wait), l1)"
    and "sorted (t # map snd rs @ [u])" and "\<forall>r\<in>set rs. fst r \<noteq> k" and "t + wait \<le> u"
  shows "fst (fst (Allow_on k u (snd (run_requests rs l1))))"
proof -
  note ok = clockedD(1) [OF assms(1)]
  note A = Allow_on_effect [OF ok, where k = k and t = t]
  have l1: "l1 = snd (Allow_on k t l)" and no: "\<not> 1 \<le> level l k t" using assms(3) A(1) by simp_all
  have w: "wait = \<lfloor>(1 - level l k t) / lmRate l * of_int nanos\<rfloor> + 10 ^ 6" using A(2) assms(3) no by simp
  have r: "0 < lmRate l" by (rule limiter_okD(1) [OF ok])
  have above: "x \<le> of_int (\<lfloor>x\<rfloor> + 10 ^ 6)" for x :: real
  proof -
    have "x < of_int \<lfloor>x\<rfloor> + 1" by (rule real_of_int_floor_add_one_gt)
    moreover have "real_of_int (\<lfloor>x\<rfloor> + 10 ^ 6) = of_int \<lfloor>x\<rfloor> + 1000000" by simp
    ultimately show ?thesis by linarith
  qed
  have "(1 - level l k t) / lmRate l * of_int nanos \<le> of_int wait" unfolding w by (rule above)
  also have "\<dots> \<le> of_int (u - t)" using assms(6) by (simp only: of_int_le_iff)
  finally have "1 - level l k t \<le> Seconds (u - t) * lmRate l"
    using r by (simp add: Seconds_def nanos_def field_simps)
  then have "1 \<le> level l1 k u"
    using A(5,7) assms(2) no l1 A(4) by (simp add: level_def refill_tokens)
  moreover have c1: "clocked l1 t" unfolding l1 by (rule Allow_on_clocked [OF assms(1) order_refl])
  ultimately have "1 \<le> level (snd (run_requests rs l1)) k u" "clocked (snd (run_requests rs l1)) u"
    using others_do_not_lower [OF c1 assms(4,5)] by auto
  then show ?thesis using Allow_on_effect(1) [OF clockedD(1)] by blast
qed

theorem retry_after_suffices_witness:
  "let l = snd (run_requests (take 4 test_requests) (the (New_limiter test_limiter)));
       (answer, l1) = Allow_on ''a'' 3 l
   in \<not> fst answer \<and> fst (fst (Allow_on ''a'' (3 + snd answer) (snd (run_requests [(''b'', 4)] l1))))"
proof -
  let ?l = "snd (run_requests (take 4 test_requests) (the (New_limiter test_limiter)))"
  obtain a l1 where a: "Allow_on ''a'' 3 ?l = (a, l1)" by (cases "Allow_on ''a'' 3 ?l")
  have l: "?l = \<lparr>lmRate = 2, lmBurst = 3, lmIdleTTL = 600 * 10 ^ 9,
     lmBuckets = [(''a'', \<lparr>bkTokens = 4 / 10 ^ 9, bkLastSeen = 2\<rparr>), (''b'', \<lparr>bkTokens = 2, bkLastSeen = 1\<rparr>)]\<rparr>"
    by (simp add: New_limiter_def test_limiter_def test_requests_def run_requests.simps(2) Allow_on_def sweep_def refill_def Seconds_def nanos_def adjust_def)
  have a': "a = (False, 500999997)"
    using a unfolding l by (auto simp: Allow_on_def refill_def Seconds_def nanos_def Let_def)
  have "clocked ?l 3" unfolding l by (auto simp: clocked_def limiter_ok_def split: if_splits)
  from retry_after_suffices [OF this, of "''a''" 500999997 l1 "[(''b'', 4)]" "3 + 500999997"]
  show ?thesis using a a' by (simp add: l)
qed

text \<open>With a rate below one per second and no burst configured, the default burst is below one
  token, and no request is ever allowed.\<close>

theorem fractional_rate_never_allows:
  assumes "New_limiter cfg = Some l" and "lcPerSecond cfg < 1" and "lcBurst cfg \<le> 0"
  shows "(k, True) \<notin> set (fst (run_requests rs l))"
proof -
  have "lmBurst l < 1" "limiter_ok l" using assms New_limiter_clocked(1) [OF assms(1)] by (auto simp: New_limiter_def clocked_def split: if_splits)
  then show ?thesis
  proof (induction rs arbitrary: l)
    case (Cons r rs)
    obtain j v where r: "r = (j, v)" by force
    note A = Allow_on_effect [OF Cons.prems(2), where k = j and t = v]
    have "level l j v \<le> lmBurst l" by (auto simp: level_def refill_tokens split: option.splits)
    then have "\<not> fst (fst (Allow_on j v l))" using A(1) Cons.prems(1) by simp
    then show ?case using Cons.IH [of "snd (Allow_on j v l)"] A(3,5) Cons.prems by (auto simp: r run_requests_Cons)
  qed simp
qed

theorem fractional_rate_never_allows_witness:
  "(''a'', True) \<notin> set (fst (run_requests test_requests (the (New_limiter \<lparr>lcPerSecond = 1 / 2, lcBurst = 0, lcIdleTTL = 0\<rparr>))))"
  using fractional_rate_never_allows [of "\<lparr>lcPerSecond = 1 / 2, lcBurst = 0, lcIdleTTL = 0\<rparr>"]
  by (simp add: New_limiter_def)

end
