(* ===== verification/Actor.thy ===== *)
theory Actor
  imports Simulation_Events
begin

text \<open>
  The goroutine that owns a simulation (\<open>Simulation.Run\<close>, \<open>TrySubmitCtx\<close>, \<open>publish\<close>) and the hub
  that fans its events out (\<open>internal/transport/ws/hub.go\<close>).

  A buffered channel is a list with a capacity: a send appends and is possible only below the
  capacity, a receive takes the head.  Every function below is one step a goroutine takes
  between two points where it can be preempted or block; an operation that blocks
  is one whose guard does not hold.  \<open>None\<close> is a panic.
\<close>

subsection \<open>The actor loop\<close>

record actor =
  acSim :: sim
  acCommands :: "(command \<times> string) list"   \<comment> \<open>the channel \<open>commands\<close>: commands with their trace id\<close>
  acPublishing :: "event list"                \<comment> \<open>what \<open>publish\<close> still has to send\<close>
  acReset :: bool                             \<comment> \<open>the speed changed: the ticker is reset after publishing\<close>
  acEvents :: "event list"                    \<comment> \<open>the channel \<open>events\<close>\<close>
  acStopped :: bool                           \<comment> \<open>\<open>Run\<close> has returned and closed \<open>events\<close>\<close>

definition commandsCap :: nat where "commandsCap = 32"
definition eventsCap :: nat where "eventsCap = 256"

definition Run_start :: "sim \<Rightarrow> actor option" where
  \<comment> \<open>\<open>Run\<close> up to its loop: \<open>time.NewTicker\<close> panics on a period that is not positive\<close>
  "Run_start s =
     (if tickDuration s \<le> 0 then None
      else let (es, s1) = Start s
           in Some \<lparr>acSim = s1, acCommands = [], acPublishing = es, acReset = False, acEvents = [], acStopped = False\<rparr>)"

definition TrySubmitCtx :: "string \<Rightarrow> command \<Rightarrow> actor \<Rightarrow> bool \<times> actor" where
  "TrySubmitCtx trace cmd a =
     (if length (acCommands a) < commandsCap then (True, a\<lparr>acCommands := acCommands a @ [(cmd, trace)]\<rparr>)
      else (False, a))"

definition actor_ready :: "actor \<Rightarrow> bool" where
  \<comment> \<open>waiting in the \<open>select\<close>\<close>
  "actor_ready a \<longleftrightarrow> \<not> acStopped a \<and> acPublishing a = [] \<and> \<not> acReset a"

definition actor_command :: "real \<Rightarrow> actor \<Rightarrow> actor option" where
  \<comment> \<open>the \<open>commands\<close> case up to \<open>publish\<close>\<close>
  "actor_command ms a =
     (case acCommands a of
        [] \<Rightarrow> Some a
      | (cmd, trace) # rest \<Rightarrow>
          map_option (\<lambda>s. let (es, s1) = takePending s
              in a\<lparr>acSim := s1, acCommands := rest, acPublishing := es, acReset := (sSpeed s \<noteq> sSpeed (acSim a))\<rparr>)
            (handleTraced ms cmd trace (acSim a)))"

definition actor_reset :: "actor \<Rightarrow> actor option" where
  \<comment> \<open>\<open>ticker.Reset\<close>, which panics on a period that is not positive\<close>
  "actor_reset a = (if tickDuration (acSim a) \<le> 0 then None else Some (a\<lparr>acReset := False\<rparr>))"

definition actor_tick :: "actor \<Rightarrow> actor option" where
  "actor_tick a = map_option (\<lambda>s. let (es, s1) = takePending s in a\<lparr>acSim := s1, acPublishing := es\<rparr>) (tick (acSim a))"

definition actor_query :: "actor \<Rightarrow> event" where
  "actor_query a = buildSnapshotEvent (acSim a)"

definition actor_send :: "actor \<Rightarrow> actor" where
  \<comment> \<open>one round of \<open>publish\<close>, when the channel has room\<close>
  "actor_send a =
     (case acPublishing a of [] \<Rightarrow> a | e # es \<Rightarrow> a\<lparr>acPublishing := es, acEvents := acEvents a @ [e]\<rparr>)"

definition actor_stop :: "actor \<Rightarrow> actor" where
  "actor_stop a = a\<lparr>acStopped := True\<rparr>"

subsection \<open>The hub\<close>

record hub =
  hbSubs :: "(nat, event list) gomap"   \<comment> \<open>the subscribers' channels\<close>
  hbClosed :: bool
  hbDropped :: nat

definition subCap :: nat where "subCap = 64"

definition NewHub :: hub where "NewHub = \<lparr>hbSubs = [], hbClosed = False, hbDropped = 0\<rparr>"

definition hub_subscribe :: "nat \<Rightarrow> hub \<Rightarrow> hub" where
  \<comment> \<open>the id names the channel that \<open>Subscribe\<close> makes\<close>
  "hub_subscribe i h = h\<lparr>hbSubs := AList.update i [] (hbSubs h)\<rparr>"

definition hub_unsubscribe :: "nat \<Rightarrow> hub \<Rightarrow> hub" where
  \<comment> \<open>the connection that unsubscribes has stopped reading its channel\<close>
  "hub_unsubscribe i h = h\<lparr>hbSubs := AList.delete i (hbSubs h)\<rparr>"

definition hub_offer :: "event \<Rightarrow> event list \<Rightarrow> event list" where
  \<comment> \<open>the inner \<open>select\<close>: a full subscriber misses the event\<close>
  "hub_offer e xs = (if length xs < subCap then xs @ [e] else xs)"

definition hub_relay :: "event \<Rightarrow> hub \<Rightarrow> hub" where
  "hub_relay e h =
     h\<lparr>hbSubs := map (\<lambda>(i, xs). (i, hub_offer e xs)) (hbSubs h),
       hbDropped := hbDropped h + length (filter (\<lambda>(i, xs). \<not> length xs < subCap) (hbSubs h))\<rparr>"

definition hub_close :: "hub \<Rightarrow> hub" where
  \<comment> \<open>every channel is closed; what it holds can still be received\<close>
  "hub_close h = h\<lparr>hbClosed := True\<rparr>"

definition sub_receive :: "nat \<Rightarrow> hub \<Rightarrow> (event \<times> hub) option" where
  \<comment> \<open>a connection takes the next event from its channel\<close>
  "sub_receive i h =
     (case map_of (hbSubs h) i of
        Some (e # es) \<Rightarrow> Some (e, h\<lparr>hbSubs := AList.update i es (hbSubs h)\<rparr>)
      | _ \<Rightarrow> None)"

subsection \<open>What one step of the actor emits\<close>

definition numbered :: "sim \<Rightarrow> event list \<Rightarrow> sim \<Rightarrow> bool" where
  \<comment> \<open>the events a step hands out carry the numbers between the counters before and after\<close>
  "numbered s es s1 \<longleftrightarrow> map evSequence es = [Suc (sSequence s)..<Suc (sSequence s1)] \<and> sSequence s \<le> sSequence s1 \<and>
     sEvents s1 = [] \<and> sID s1 = sID s \<and> (\<forall>e \<in> set es. evSimulationID e = sID s \<and> evSchemaVersion e = 1 \<and> encodable (evPayload e))"

lemma emits_numbered:
  assumes "emits s t" "sEvents s = []"
  shows "numbered s (sEvents t) (t\<lparr>sEvents := []\<rparr>)"
  using assms by (auto simp: emits_def numbered_def simp del: upt_Suc)

lemma actor_command_numbered:
  assumes "actor_command ms a = Some a1" "sEvents (acSim a) = []" "acCommands a \<noteq> []"
  shows "numbered (acSim a) (acPublishing a1) (acSim a1) \<and> acEvents a1 = acEvents a \<and> acStopped a1 = acStopped a"
proof -
  obtain cmd trace rest s where c: "acCommands a = (cmd, trace) # rest" "handleTraced ms cmd trace (acSim a) = Some s"
    "a1 = a\<lparr>acSim := s\<lparr>sEvents := []\<rparr>, acCommands := rest, acPublishing := sEvents s, acReset := (sSpeed s \<noteq> sSpeed (acSim a))\<rparr>"
    using assms(1,3) by (cases "acCommands a") (auto simp: actor_command_def takePending_def split: option.splits)
  then show ?thesis using emits_numbered [OF handleTraced_emits [OF c(2)] assms(2)] by simp
qed

lemma actor_tick_numbered:
  assumes "actor_tick a = Some a1" "sEvents (acSim a) = []"
  shows "numbered (acSim a) (acPublishing a1) (acSim a1) \<and> acEvents a1 = acEvents a \<and> acStopped a1 = acStopped a"
proof -
  obtain s where s: "tick (acSim a) = Some s" "a1 = a\<lparr>acSim := s\<lparr>sEvents := []\<rparr>, acPublishing := sEvents s\<rparr>"
    using assms(1) by (auto simp: actor_tick_def takePending_def split: option.splits)
  then show ?thesis using emits_numbered [OF tick_emits [OF s(1)] assms(2)] by simp
qed

lemma Run_start_numbered:
  assumes "Run_start s = Some a" "sEvents s = []"
  shows "numbered s (acPublishing a) (acSim a)" "acEvents a = []" "acCommands a = []" "\<not> acStopped a" "\<not> acReset a"
  using assms emits_numbered [of s "emit EventSimulationSnapshot (snapshotPayload s) s"]
  by (auto simp: Run_start_def Start_def takePending_def emits_intros split: if_splits)

end
