(* ===== verification/Store_Interface.thy ===== *)
theory Store_Interface
  imports Store
begin

text \<open>
  The persistence contract \<open>store.Store\<close> (\<open>internal/store/store.go\<close>) as a record of operations over
  an arbitrary database state, the in-memory store as an instance of it, and the laws of the session
  operations as a locale.  A nil store is \<open>None\<close>; an operation may fail, which is what its error
  branch is for.
\<close>

record 'db store_ops =
  opCreateGuestSession :: "guest_session \<Rightarrow> 'db \<Rightarrow> (store_error + unit) \<times> 'db"
  opGetGuestSession :: "string \<Rightarrow> 'db \<Rightarrow> store_error + guest_session"
  opTouchGuestSession :: "string \<Rightarrow> timestamp \<Rightarrow> timestamp \<Rightarrow> 'db \<Rightarrow> (store_error + unit) \<times> 'db"
  opCreateSimulation :: "simulation_row \<Rightarrow> 'db \<Rightarrow> (store_error + unit) \<times> 'db"
  opGetSimulation :: "string \<Rightarrow> 'db \<Rightarrow> store_error + simulation_row"
  opCountSimulationsForToken :: "string \<Rightarrow> 'db \<Rightarrow> store_error + nat"
  opPurgeExpired :: "timestamp \<Rightarrow> 'db \<Rightarrow> (store_error + purge_result) \<times> 'db"
  opMarkShowcase :: "string \<Rightarrow> timestamp \<Rightarrow> 'db \<Rightarrow> (store_error + unit) \<times> 'db"
  opAppendEvents :: "stored_event list \<Rightarrow> 'db \<Rightarrow> (store_error + unit) \<times> 'db"
  opSaveSnapshot :: "stored_snapshot \<Rightarrow> 'db \<Rightarrow> (store_error + unit) \<times> 'db"
  opSaveComparison :: "comparison_row \<Rightarrow> 'db \<Rightarrow> (store_error + unit) \<times> 'db"
  opGetComparison :: "string \<Rightarrow> 'db \<Rightarrow> store_error + comparison_row"

definition memory_or :: "memory \<Rightarrow> store_error + memory \<Rightarrow> (store_error + unit) \<times> memory" where
  \<comment> \<open>a failed operation leaves the store as it was\<close>
  "memory_or m r = (case r of Inl e \<Rightarrow> (Inl e, m) | Inr m' \<Rightarrow> (Inr (), m'))"

definition memory_ops :: "memory store_ops" where
  "memory_ops = \<lparr>
     opCreateGuestSession = (\<lambda>g m. (Inr (), CreateGuestSession g m)),
     opGetGuestSession = GetGuestSession,
     opTouchGuestSession = (\<lambda>token seen expires m. memory_or m (TouchGuestSession token seen expires m)),
     opCreateSimulation = (\<lambda>row m. (Inr (), CreateSimulation row m)),
     opGetSimulation = GetSimulation,
     opCountSimulationsForToken = (\<lambda>token m. Inr (CountSimulationsForToken token m)),
     opPurgeExpired = (\<lambda>now m. (Inr (fst (PurgeExpired now m)), snd (PurgeExpired now m))),
     opMarkShowcase = (\<lambda>i t m. memory_or m (MarkShowcase i t m)),
     opAppendEvents = (\<lambda>es m. (Inr (), AppendEvents es m)),
     opSaveSnapshot = (\<lambda>x m. (Inr (), SaveSnapshot x m)),
     opSaveComparison = (\<lambda>x m. (Inr (), SaveComparison x m)),
     opGetComparison = GetComparison\<rparr>"

lemma memory_ops_simps [simp]:
  "opCreateGuestSession memory_ops g m = (Inr (), CreateGuestSession g m)"
  "opGetGuestSession memory_ops token m = GetGuestSession token m"
  "opTouchGuestSession memory_ops token seen expires m = memory_or m (TouchGuestSession token seen expires m)"
  "opCreateSimulation memory_ops row m = (Inr (), CreateSimulation row m)"
  "opGetSimulation memory_ops i m = GetSimulation i m"
  "opCountSimulationsForToken memory_ops token m = Inr (CountSimulationsForToken token m)"
  "opPurgeExpired memory_ops now m = (Inr (fst (PurgeExpired now m)), snd (PurgeExpired now m))"
  "opMarkShowcase memory_ops i t m = memory_or m (MarkShowcase i t m)"
  "opAppendEvents memory_ops es m = (Inr (), AppendEvents es m)"
  "opSaveSnapshot memory_ops x m = (Inr (), SaveSnapshot x m)"
  "opSaveComparison memory_ops c m = (Inr (), SaveComparison c m)"
  "opGetComparison memory_ops i m = GetComparison i m"
  by (simp_all add: memory_ops_def)

subsection \<open>What the session service relies on\<close>

locale session_store =
  fixes ops :: "'db store_ops" and valid :: "'db \<Rightarrow> bool" and rows :: "'db \<Rightarrow> string \<Rightarrow> guest_session option"
  assumes get: "valid db \<Longrightarrow> opGetGuestSession ops token db =
      (case rows db token of None \<Rightarrow> Inl StoreNotFound | Some g \<Rightarrow> Inr g)"
    and create: "valid db \<Longrightarrow> fst (opCreateGuestSession ops g db) = Inr () \<and> valid (snd (opCreateGuestSession ops g db)) \<and>
      rows (snd (opCreateGuestSession ops g db)) = (if rows db (gsToken g) = None then (rows db)(gsToken g \<mapsto> g) else rows db)"
    and touch: "valid db \<Longrightarrow> valid (snd (opTouchGuestSession ops token seen expires db)) \<and>
      rows (snd (opTouchGuestSession ops token seen expires db)) = (case rows db token of None \<Rightarrow> rows db
        | Some g \<Rightarrow> (rows db)(token \<mapsto> g\<lparr>gsLastSeenAt := seen, gsExpiresAt := expires\<rparr>))"
    and purge: "valid db \<Longrightarrow> valid (snd (opPurgeExpired ops now db)) \<and>
      rows (snd (opPurgeExpired ops now db)) =
        (\<lambda>token. case rows db token of None \<Rightarrow> None | Some g \<Rightarrow> if Expired g now then None else Some g)"

interpretation memory_sessions: session_store memory_ops memory_wf "\<lambda>m. map_of (mSessions m)"
proof
  fix m :: memory and token :: string and seen expires now :: timestamp and g :: guest_session
  show "memory_wf m \<Longrightarrow> opGetGuestSession memory_ops token m =
      (case map_of (mSessions m) token of None \<Rightarrow> Inl StoreNotFound | Some g \<Rightarrow> Inr g)"
    by (simp add: GetGuestSession_def lookup_row_def)
  show "memory_wf m \<Longrightarrow> fst (opCreateGuestSession memory_ops g m) = Inr () \<and> memory_wf (snd (opCreateGuestSession memory_ops g m)) \<and>
      map_of (mSessions (snd (opCreateGuestSession memory_ops g m))) =
        (if map_of (mSessions m) (gsToken g) = None then (map_of (mSessions m))(gsToken g \<mapsto> g) else map_of (mSessions m))"
    by (auto simp: CreateGuestSession_def memory_wf_def log_of_def snapshots_of_def raw_log_ok_def update_conv')
  show "memory_wf m \<Longrightarrow> memory_wf (snd (opTouchGuestSession memory_ops token seen expires m)) \<and>
      map_of (mSessions (snd (opTouchGuestSession memory_ops token seen expires m))) = (case map_of (mSessions m) token of
        None \<Rightarrow> map_of (mSessions m)
      | Some g \<Rightarrow> (map_of (mSessions m))(token \<mapsto> g\<lparr>gsLastSeenAt := seen, gsExpiresAt := expires\<rparr>))"
    by (auto simp: TouchGuestSession_def memory_or_def memory_wf_def log_of_def snapshots_of_def raw_log_ok_def update_conv'
        split: option.splits)
  show "memory_wf m \<Longrightarrow> memory_wf (snd (opPurgeExpired memory_ops now m)) \<and>
      map_of (mSessions (snd (opPurgeExpired memory_ops now m))) =
        (\<lambda>token. case map_of (mSessions m) token of None \<Rightarrow> None | Some g \<Rightarrow> if Expired g now then None else Some g)"
    using PurgeExpired_effect [of m now] by (auto simp: fun_eq_iff split: option.splits)
qed

end
