(* ===== verification/Recorder.thy ===== *)
theory Recorder
  imports Store_Interface Simulation
begin

text \<open>
  \<open>internal/replay/recorder.go\<close>: the recorder between a simulation and its hub.  It runs three
  goroutines: \<open>forwardAndQueue\<close> (or \<open>forward\<close> without a store), \<open>writeLoop\<close> and \<open>snapshotLoop\<close>.
  Each function is one step of one of them; the unbuffered \<open>flushRequests\<close> and its reply are the
  flag \<open>rdFlushing\<close>, the one-slot \<open>snapshotDue\<close> is a flag.
\<close>

record recorder_config =
  rcFlushInterval :: int
  rcBatchSize :: int
  rcSnapshotEvery :: int
  rcBufferSize :: int

definition withDefaults :: "recorder_config \<Rightarrow> recorder_config" where
  "withDefaults c =
     (let c = (if rcFlushInterval c \<le> 0 then c\<lparr>rcFlushInterval := 500 * 10 ^ 6\<rparr> else c);
          c = (if rcBatchSize c \<le> 0 then c\<lparr>rcBatchSize := 200\<rparr> else c);
          c = (if rcSnapshotEvery c \<le> 0 then c\<lparr>rcSnapshotEvery := 500\<rparr> else c)
      in if rcBufferSize c \<le> 0 then c\<lparr>rcBufferSize := 4096\<rparr> else c)"

record recorder =
  rdID :: string
  rdConfig :: recorder_config
  rdHolding :: "event option"       \<comment> \<open>taken from the simulation, not yet forwarded\<close>
  rdOut :: "event list"             \<comment> \<open>the channel to the hub\<close>
  rdOutClosed :: bool
  rdQueue :: "event list"           \<comment> \<open>the channel to the writer\<close>
  rdQueueClosed :: bool
  rdBatch :: "stored_event list"
  rdSince :: int                    \<comment> \<open>\<open>sinceSnapshot\<close>\<close>
  rdFlushing :: bool                \<comment> \<open>a flush request is being served\<close>
  rdSnapshotDue :: bool
  rdSnapshot :: "event option"      \<comment> \<open>a snapshot \<open>snapshotLoop\<close> has taken and not yet saved\<close>
  rdDone :: bool
  rdDropped :: nat

definition NewRecorder :: "string \<Rightarrow> recorder_config \<Rightarrow> recorder" where
  "NewRecorder i cfg = \<lparr>rdID = i, rdConfig = withDefaults cfg, rdHolding = None, rdOut = [], rdOutClosed = False,
     rdQueue = [], rdQueueClosed = False, rdBatch = [], rdSince = 0, rdFlushing = False, rdSnapshotDue = False,
     rdSnapshot = None, rdDone = False, rdDropped = 0\<rparr>"

subsection \<open>Forwarding\<close>

definition forward_take :: "bool \<Rightarrow> event \<Rightarrow> recorder \<Rightarrow> recorder" where
  \<comment> \<open>an event arrives; with a store it is offered to the queue, which is never waited for\<close>
  "forward_take persistent e r =
     (if \<not> persistent then r\<lparr>rdHolding := Some e\<rparr>
      else if int (length (rdQueue r)) < rcBufferSize (rdConfig r)
        then r\<lparr>rdHolding := Some e, rdQueue := rdQueue r @ [e]\<rparr>
      else r\<lparr>rdHolding := Some e, rdDropped := rdDropped r + 1\<rparr>)"

definition forward_put :: "recorder \<Rightarrow> recorder" where
  \<comment> \<open>\<open>out <- event\<close>, when \<open>out\<close> has room\<close>
  "forward_put r =
     (case rdHolding r of None \<Rightarrow> r | Some e \<Rightarrow> r\<lparr>rdHolding := None, rdOut := rdOut r @ [e]\<rparr>)"

definition forward_close :: "bool \<Rightarrow> recorder \<Rightarrow> recorder" where
  \<comment> \<open>the simulation's channel is closed and empty\<close>
  "forward_close persistent r =
     (if persistent then r\<lparr>rdQueueClosed := True, rdOutClosed := True\<rparr>
      else r\<lparr>rdOutClosed := True, rdDone := True\<rparr>)"

subsection \<open>Writing\<close>

definition rec_write :: "'db store_ops \<Rightarrow> stored_event list \<Rightarrow> 'db \<Rightarrow> int \<times> 'db" where
  "rec_write ops batch db =
     (case opAppendEvents ops batch db of (Inl _, db1) \<Rightarrow> (0, db1) | (Inr _, db1) \<Rightarrow> (int (length batch), db1))"

definition requestSnapshot :: "recorder \<Rightarrow> recorder" where
  "requestSnapshot r = r\<lparr>rdSnapshotDue := True\<rparr>"

definition rec_flush :: "'db store_ops \<Rightarrow> recorder \<times> 'db \<Rightarrow> recorder \<times> 'db" where
  "rec_flush ops = (\<lambda>(r, db).
     if rdBatch r = [] then (r, db)
     else let (written, db1) = rec_write ops (rdBatch r) db;
              r1 = r\<lparr>rdBatch := [], rdSince := rdSince r + written\<rparr>
          in (if rdSince r1 \<ge> rcSnapshotEvery (rdConfig r1) then requestSnapshot (r1\<lparr>rdSince := 0\<rparr>) else r1, db1))"

definition rec_enqueue :: "'db store_ops \<Rightarrow> timestamp \<Rightarrow> event \<Rightarrow> recorder \<times> 'db \<Rightarrow> recorder \<times> 'db" where
  "rec_enqueue ops now e = (\<lambda>(r, db).
     case EventFrom e (evTraceID e) now of
       None \<Rightarrow> (r, db)
     | Some x \<Rightarrow>
         let r1 = r\<lparr>rdBatch := rdBatch r @ [x]\<rparr>
         in if int (length (rdBatch r1)) \<ge> rcBatchSize (rdConfig r1) then rec_flush ops (r1, db) else (r1, db))"

definition writer_receive :: "'db store_ops \<Rightarrow> timestamp \<Rightarrow> recorder \<times> 'db \<Rightarrow> recorder \<times> 'db" where
  \<comment> \<open>an event from the queue, in the main \<open>select\<close> or in the drain loop of a flush request\<close>
  "writer_receive ops now = (\<lambda>(r, db).
     case rdQueue r of [] \<Rightarrow> (r, db) | e # es \<Rightarrow> rec_enqueue ops now e (r\<lparr>rdQueue := es\<rparr>, db))"

definition writer_closed :: "'db store_ops \<Rightarrow> recorder \<times> 'db \<Rightarrow> recorder \<times> 'db" where
  \<comment> \<open>the queue is closed and empty (in the main \<open>select\<close>)\<close>
  "writer_closed ops w = (let (r, db) = rec_flush ops w in (r\<lparr>rdDone := True\<rparr>, db))"

definition writer_drained :: "'db store_ops \<Rightarrow> recorder \<times> 'db \<Rightarrow> recorder \<times> 'db" where
  \<comment> \<open>the end of a flush request, once the queue is empty: flush, reply, and return if it is closed\<close>
  "writer_drained ops w = (let (r, db) = rec_flush ops w in (r\<lparr>rdFlushing := False, rdDone := rdQueueClosed r\<rparr>, db))"

definition writer_cancelled :: "'db store_ops \<Rightarrow> recorder \<times> 'db \<Rightarrow> recorder \<times> 'db" where
  \<comment> \<open>the \<open>ctx.Done()\<close> case: what is still in the queue is not read\<close>
  "writer_cancelled ops w = (let (r, db) = rec_flush ops w in (r\<lparr>rdDone := True\<rparr>, db))"

definition flush_request :: "recorder \<Rightarrow> recorder" where
  "flush_request r = r\<lparr>rdFlushing := True\<rparr>"

subsection \<open>Snapshots\<close>

definition snapshot_take :: "event \<Rightarrow> recorder \<Rightarrow> recorder" where
  \<comment> \<open>\<open>snapshotLoop\<close> receives from \<open>snapshotDue\<close> and asks the simulation for its state\<close>
  "snapshot_take e r = r\<lparr>rdSnapshotDue := False, rdSnapshot := Some e\<rparr>"

definition writeSnapshot :: "'db store_ops \<Rightarrow> timestamp \<Rightarrow> recorder \<times> 'db \<Rightarrow> recorder \<times> 'db" where
  "writeSnapshot ops now = (\<lambda>(r, db).
     case rdSnapshot r of
       None \<Rightarrow> (r, db)
     | Some e \<Rightarrow>
         (case marshal (evPayload e) of
            None \<Rightarrow> (r\<lparr>rdSnapshot := None\<rparr>, db)
          | Some p \<Rightarrow> (r\<lparr>rdSnapshot := None\<rparr>, snd (opSaveSnapshot ops
              \<lparr>ssSimulationID = rdID r, ssSequence = evSequence e, ssVirtualTime = evVirtualTime e, ssPayload = p,
                ssRecordedAt = now\<rparr> db))))"

end
