(* ===== verification/Pipeline.thy ===== *)
theory Pipeline
  imports Actor Recorder "HOL-Library.Sublist"
begin

text \<open>
  The wiring of one live run (\<open>Manager.Create\<close>): the simulation's goroutine, the recorder and the
  hub, connected by bounded channels, as a step relation over all interleavings of their goroutines,
  of the commands submitted to the run and of the connections that subscribe to it.

  The abstract specification is an append-only log with a cursor (\<open>log_step\<close>); the run refines it.
\<close>

record 'db pipeline =
  plActor :: actor
  plRecorder :: recorder
  plHub :: hub
  plStore :: 'db
  plCancelled :: bool
  plRelayed :: "event list"          \<comment> \<open>history: what the hub has taken from the recorder; no step reads it\<close>
  plGot :: "nat \<Rightarrow> event list"        \<comment> \<open>history: what each subscriber has received\<close>

definition new_pipeline :: "recorder_config \<Rightarrow> sim \<Rightarrow> 'db \<Rightarrow> 'db pipeline option" where
  \<comment> \<open>the part of \<open>Create\<close> that starts the goroutines\<close>
  "new_pipeline cfg s db =
     map_option (\<lambda>a. \<lparr>plActor = a, plRecorder = NewRecorder (sID s) cfg, plHub = NewHub, plStore = db, plCancelled = False,
       plRelayed = [], plGot = (\<lambda>_. [])\<rparr>) (Run_start s)"

definition set_writer :: "'db pipeline \<Rightarrow> recorder \<times> 'db \<Rightarrow> 'db pipeline" where
  "set_writer p w = p\<lparr>plRecorder := fst w, plStore := snd w\<rparr>"

abbreviation writer :: "'db pipeline \<Rightarrow> recorder \<times> 'db" where
  "writer p \<equiv> (plRecorder p, plStore p)"

inductive actor_step :: "'db pipeline \<Rightarrow> 'db pipeline \<Rightarrow> bool" where
  submit: "actor_step p (p\<lparr>plActor := snd (TrySubmitCtx trace cmd (plActor p))\<rparr>)"
| command: "actor_ready (plActor p) \<Longrightarrow> acCommands (plActor p) \<noteq> [] \<Longrightarrow> actor_command ms (plActor p) = Some a \<Longrightarrow>
    actor_step p (p\<lparr>plActor := a\<rparr>)"
| ticked: "actor_ready (plActor p) \<Longrightarrow> actor_tick (plActor p) = Some a \<Longrightarrow> actor_step p (p\<lparr>plActor := a\<rparr>)"
| reset: "acPublishing (plActor p) = [] \<Longrightarrow> acReset (plActor p) \<Longrightarrow> actor_reset (plActor p) = Some a \<Longrightarrow>
    actor_step p (p\<lparr>plActor := a\<rparr>)"
| stop: "plCancelled p \<Longrightarrow> actor_ready (plActor p) \<Longrightarrow> actor_step p (p\<lparr>plActor := actor_stop (plActor p)\<rparr>)"
| cancel: "actor_step p (p\<lparr>plCancelled := True\<rparr>)"

inductive forward_step :: "bool \<Rightarrow> 'db pipeline \<Rightarrow> 'db pipeline \<Rightarrow> bool" for persistent :: bool where
  send: "acPublishing (plActor p) \<noteq> [] \<Longrightarrow> length (acEvents (plActor p)) < eventsCap \<Longrightarrow>
    forward_step persistent p (p\<lparr>plActor := actor_send (plActor p)\<rparr>)"
| take: "acEvents (plActor p) = e # es \<Longrightarrow> rdHolding (plRecorder p) = None \<Longrightarrow>
    forward_step persistent p (p\<lparr>plActor := (plActor p)\<lparr>acEvents := es\<rparr>,
      plRecorder := forward_take persistent e (plRecorder p)\<rparr>)"
| put: "rdHolding (plRecorder p) \<noteq> None \<Longrightarrow> length (rdOut (plRecorder p)) < eventsCap \<Longrightarrow>
    forward_step persistent p (p\<lparr>plRecorder := forward_put (plRecorder p)\<rparr>)"
| relay: "rdOut (plRecorder p) = e # es \<Longrightarrow> \<not> hbClosed (plHub p) \<Longrightarrow>
    forward_step persistent p (p\<lparr>plRecorder := (plRecorder p)\<lparr>rdOut := es\<rparr>, plHub := hub_relay e (plHub p),
      plRelayed := plRelayed p @ [e]\<rparr>)"

inductive client_step :: "bool \<Rightarrow> 'db pipeline \<Rightarrow> 'db pipeline \<Rightarrow> bool" for persistent :: bool where
  closing: "acEvents (plActor p) = [] \<Longrightarrow> acStopped (plActor p) \<Longrightarrow> rdHolding (plRecorder p) = None \<Longrightarrow>
    client_step persistent p (p\<lparr>plRecorder := forward_close persistent (plRecorder p)\<rparr>)"
| closed: "rdOut (plRecorder p) = [] \<Longrightarrow> rdOutClosed (plRecorder p) \<Longrightarrow> client_step persistent p (p\<lparr>plHub := hub_close (plHub p)\<rparr>)"
| subscribe: "\<not> hbClosed (plHub p) \<Longrightarrow> i \<notin> set (keys (hbSubs (plHub p))) \<Longrightarrow>
    client_step persistent p (p\<lparr>plHub := hub_subscribe i (plHub p), plGot := (plGot p)(i := [])\<rparr>)"
| unsubscribe: "\<not> hbClosed (plHub p) \<Longrightarrow> client_step persistent p (p\<lparr>plHub := hub_unsubscribe i (plHub p)\<rparr>)"
| receive: "sub_receive i (plHub p) = Some (e, h) \<Longrightarrow>
    client_step persistent p (p\<lparr>plHub := h, plGot := (plGot p)(i := plGot p i @ [e])\<rparr>)"

inductive writer_step :: "'db store_ops \<Rightarrow> 'db pipeline \<Rightarrow> 'db pipeline \<Rightarrow> bool" for ops :: "'db store_ops" where
  received: "\<not> rdDone (plRecorder p) \<Longrightarrow> rdQueue (plRecorder p) \<noteq> [] \<Longrightarrow>
    writer_step ops p (set_writer p (writer_receive ops now (writer p)))"
| flushed: "\<not> rdDone (plRecorder p) \<Longrightarrow> \<not> rdFlushing (plRecorder p) \<Longrightarrow> writer_step ops p (set_writer p (rec_flush ops (writer p)))"
| queue_closed: "\<not> rdDone (plRecorder p) \<Longrightarrow> \<not> rdFlushing (plRecorder p) \<Longrightarrow> rdQueue (plRecorder p) = [] \<Longrightarrow>
    rdQueueClosed (plRecorder p) \<Longrightarrow> writer_step ops p (set_writer p (writer_closed ops (writer p)))"
| flush_requested: "\<not> rdDone (plRecorder p) \<Longrightarrow> \<not> rdFlushing (plRecorder p) \<Longrightarrow>
    writer_step ops p (p\<lparr>plRecorder := flush_request (plRecorder p)\<rparr>)"
| drained: "\<not> rdDone (plRecorder p) \<Longrightarrow> rdFlushing (plRecorder p) \<Longrightarrow> rdQueue (plRecorder p) = [] \<Longrightarrow>
    writer_step ops p (set_writer p (writer_drained ops (writer p)))"
| cancelled: "\<not> rdDone (plRecorder p) \<Longrightarrow> \<not> rdFlushing (plRecorder p) \<Longrightarrow> plCancelled p \<Longrightarrow>
    writer_step ops p (set_writer p (writer_cancelled ops (writer p)))"
| snapshot_taken: "rdSnapshotDue (plRecorder p) \<Longrightarrow> rdSnapshot (plRecorder p) = None \<Longrightarrow> actor_ready (plActor p) \<Longrightarrow>
    writer_step ops p (p\<lparr>plRecorder := snapshot_take (actor_query (plActor p)) (plRecorder p)\<rparr>)"
| snapshot_saved: "rdSnapshot (plRecorder p) \<noteq> None \<Longrightarrow> writer_step ops p (set_writer p (writeSnapshot ops now (writer p)))"

definition pipeline_step :: "'db store_ops option \<Rightarrow> 'db pipeline \<Rightarrow> 'db pipeline \<Rightarrow> bool" where
  "pipeline_step st p q \<longleftrightarrow>
     actor_step p q \<or> forward_step (st \<noteq> None) p q \<or> client_step (st \<noteq> None) p q \<or>
     (\<exists>ops. st = Some ops \<and> writer_step ops p q)"

inductive runs :: "'db store_ops option \<Rightarrow> 'db pipeline \<Rightarrow> 'db pipeline \<Rightarrow> bool" for st :: "'db store_ops option" and p0 :: "'db pipeline" where
  start: "runs st p0 p0"
| step: "runs st p0 p \<Longrightarrow> pipeline_step st p q \<Longrightarrow> runs st p0 q"

subsection \<open>The log the run refines\<close>

inductive log_step :: "event list \<times> nat \<Rightarrow> event list \<times> nat \<Rightarrow> bool" where
  \<comment> \<open>a log whose entries are numbered from 1, and how many of them have been relayed\<close>
  append: "map evSequence es = [Suc (length l)..<Suc (length l + length es)] \<Longrightarrow> log_step (l, n) (l @ es, n)"
| deliver: "n < length l \<Longrightarrow> log_step (l, n) (l, Suc n)"
| stutter: "log_step (l, n) (l, n)"

definition holding :: "recorder \<Rightarrow> event list" where
  "holding r = (case rdHolding r of None \<Rightarrow> [] | Some e \<Rightarrow> [e])"

definition taken :: "'db pipeline \<Rightarrow> event list" where
  \<comment> \<open>what the recorder has taken from the simulation, in order\<close>
  "taken p = plRelayed p @ rdOut (plRecorder p) @ holding (plRecorder p)"

definition log_of_run :: "'db pipeline \<Rightarrow> event list" where
  \<comment> \<open>everything the simulation has emitted, wherever it is by now\<close>
  "log_of_run p = taken p @ acEvents (plActor p) @ acPublishing (plActor p)"

definition log_view :: "'db pipeline \<Rightarrow> event list \<times> nat" where
  "log_view p = (log_of_run p, length (plRelayed p))"

definition stream_inv :: "'db pipeline \<Rightarrow> bool" where
  "stream_inv p \<longleftrightarrow>
     sEvents (acSim (plActor p)) = [] \<and> rdID (plRecorder p) = sID (acSim (plActor p)) \<and>
     map evSequence (log_of_run p) = [1..<Suc (sSequence (acSim (plActor p)))] \<and>
     (\<forall>e \<in> set (log_of_run p). evSimulationID e = rdID (plRecorder p) \<and> evSchemaVersion e = 1 \<and> encodable (evPayload e)) \<and>
     (acStopped (plActor p) \<longrightarrow> acPublishing (plActor p) = []) \<and>
     (\<forall>i xs. map_of (hbSubs (plHub p)) i = Some xs \<longrightarrow> subseq (plGot p i @ xs) (plRelayed p)) \<and>
     length (acEvents (plActor p)) \<le> eventsCap \<and> length (rdOut (plRecorder p)) \<le> eventsCap"

lemma stream_invD:
  assumes "stream_inv p"
  shows "sEvents (acSim (plActor p)) = []" "rdID (plRecorder p) = sID (acSim (plActor p))"
    "map evSequence (log_of_run p) = [1..<Suc (sSequence (acSim (plActor p)))]"
    "length (log_of_run p) = sSequence (acSim (plActor p))"
    "e \<in> set (log_of_run p) \<Longrightarrow> evSimulationID e = rdID (plRecorder p) \<and> evSchemaVersion e = 1 \<and> encodable (evPayload e)"
    "acStopped (plActor p) \<longrightarrow> acPublishing (plActor p) = []"
    "map_of (hbSubs (plHub p)) i = Some xs \<Longrightarrow> subseq (plGot p i @ xs) (plRelayed p)"
    "length (acEvents (plActor p)) \<le> eventsCap" "length (rdOut (plRecorder p)) \<le> eventsCap"
proof -
  show s: "map evSequence (log_of_run p) = [1..<Suc (sSequence (acSim (plActor p)))]"
    using assms unfolding stream_inv_def by blast
  show "length (log_of_run p) = sSequence (acSim (plActor p))" using arg_cong [OF s, of length] by (simp del: upt_Suc)
qed (use assms in \<open>unfold stream_inv_def, blast+\<close>)

lemma stream_quiet:
  \<comment> \<open>a step that moves no event\<close>
  assumes "stream_inv p" "log_of_run q = log_of_run p" "plRelayed q = plRelayed p"
    "acSim (plActor q) = acSim (plActor p)" "acEvents (plActor q) = acEvents (plActor p)"
    "acStopped (plActor q) \<longrightarrow> acPublishing (plActor q) = []"
    "rdID (plRecorder q) = rdID (plRecorder p)" "rdOut (plRecorder q) = rdOut (plRecorder p)"
    "hbSubs (plHub q) = hbSubs (plHub p)" "plGot q = plGot p"
  shows "stream_inv q \<and> log_step (log_view p) (log_view q)"
  using assms by (simp add: stream_inv_def log_view_def log_step.stutter)

lemma stream_emits:
  \<comment> \<open>a step of the actor that hands out events\<close>
  assumes inv: "stream_inv p" and ready: "actor_ready (plActor p)"
    and num: "numbered (acSim (plActor p)) (acPublishing a) (acSim a) \<and> acEvents a = acEvents (plActor p) \<and> acStopped a = acStopped (plActor p)"
  shows "stream_inv (p\<lparr>plActor := a\<rparr>) \<and> log_step (log_view p) (log_view (p\<lparr>plActor := a\<rparr>))"
proof -
  let ?q = "p\<lparr>plActor := a\<rparr>" and ?n = "sSequence (acSim (plActor p))"
  note D = stream_invD [OF inv]
  have log: "log_of_run ?q = log_of_run p @ acPublishing a" and run: "\<not> acStopped a"
    using ready num by (simp_all add: log_of_run_def taken_def actor_ready_def)
  have es: "map evSequence (acPublishing a) = [Suc ?n..<Suc (sSequence (acSim a))]" "?n \<le> sSequence (acSim a)"
    using num by (auto simp: numbered_def simp del: upt_Suc)
  have "length (acPublishing a) = sSequence (acSim a) - ?n" using arg_cong [OF es(1), of length] by (simp del: upt_Suc)
  then have "log_step (log_of_run p, length (plRelayed p)) (log_of_run p @ acPublishing a, length (plRelayed p))"
    using D(4) es by (intro log_step.append) (simp del: upt_Suc)
  moreover have "map evSequence (log_of_run ?q) = [1..<Suc (sSequence (acSim a))]"
    unfolding log using D(3) es upt_add_eq_append [of 1 "Suc ?n" "sSequence (acSim a) - ?n"] by (simp del: upt_Suc)
  ultimately show ?thesis
    using inv num run unfolding stream_inv_def log_view_def by (auto simp: log numbered_def simp del: upt_Suc)
qed

lemma actor_step_refines:
  assumes "actor_step p q" "stream_inv p"
  shows "stream_inv q \<and> log_step (log_view p) (log_view q)"
  using assms
proof cases
  case (command ms a)
  then show ?thesis using stream_emits [OF assms(2)] actor_command_numbered stream_invD(1) [OF assms(2)] by blast
next
  case (ticked a)
  then show ?thesis using stream_emits [OF assms(2)] actor_tick_numbered stream_invD(1) [OF assms(2)] by blast
next
  case (submit trace cmd)
  then show ?thesis
    using stream_invD(6) [OF assms(2)]
    by (intro stream_quiet [OF assms(2)]) (auto simp: TrySubmitCtx_def log_of_run_def taken_def)
next
  case (reset a)
  then have "a = (plActor p)\<lparr>acReset := False\<rparr>" by (auto simp: actor_reset_def split: if_splits)
  then show ?thesis
    using reset stream_invD(6) [OF assms(2)] by (intro stream_quiet [OF assms(2)]) (auto simp: log_of_run_def taken_def)
next
  case stop
  then show ?thesis
    by (intro stream_quiet [OF assms(2)]) (auto simp: actor_stop_def actor_ready_def log_of_run_def taken_def)
next
  case cancel
  then show ?thesis
    using stream_invD(6) [OF assms(2)] by (intro stream_quiet [OF assms(2)]) (auto simp: log_of_run_def taken_def)
qed

lemma holding_simps [simp]: "rdHolding r = None \<Longrightarrow> holding r = []" "rdHolding r = Some e \<Longrightarrow> holding r = [e]"
  by (simp_all add: holding_def)

lemma relay_subs:
  "map_of (hbSubs (hub_relay e h)) i = map_option (hub_offer e) (map_of (hbSubs h) i)"
  by (simp add: hub_relay_def map_of_map)

lemma forward_take_facts:
  "rdID (forward_take b e r) = rdID r" "rdOut (forward_take b e r) = rdOut r" "rdHolding (forward_take b e r) = Some e"
  by (simp_all add: forward_take_def)

lemma hub_offer_subseq: "subseq (xs @ ys) zs \<Longrightarrow> subseq (xs @ hub_offer e ys) (zs @ [e])"
  by (auto simp: hub_offer_def simp flip: append_assoc intro: list_emb_append_mono list_emb_append2)

lemma forward_step_refines:
  assumes "forward_step b p q" "stream_inv p"
  shows "stream_inv q \<and> log_step (log_view p) (log_view q)"
  using assms
proof cases
  case send
  obtain e es where e: "acPublishing (plActor p) = e # es" using send by (cases "acPublishing (plActor p)") auto
  have "log_of_run q = log_of_run p" "plRelayed q = plRelayed p" using send(1) e by (simp_all add: actor_send_def log_of_run_def taken_def)
  then show ?thesis
    using assms(2) send e unfolding stream_inv_def log_view_def by (simp add: actor_send_def log_step.stutter)
next
  case (take e es)
  have "log_of_run q = log_of_run p" "plRelayed q = plRelayed p"
    using take by (simp_all add: forward_take_facts log_of_run_def taken_def)
  then show ?thesis
    using assms(2) take unfolding stream_inv_def log_view_def by (simp add: forward_take_facts log_step.stutter)
next
  case put
  then obtain e where e: "rdHolding (plRecorder p) = Some e" by blast
  have "log_of_run q = log_of_run p" "plRelayed q = plRelayed p"
    using put(1) e by (simp_all add: forward_put_def log_of_run_def taken_def)
  then show ?thesis
    using assms(2) put e unfolding stream_inv_def log_view_def by (simp add: forward_put_def log_step.stutter)
next
  case (relay e es)
  have log: "log_of_run q = log_of_run p" "plRelayed q = plRelayed p @ [e]"
    using relay by (simp_all add: log_of_run_def taken_def holding_def)
  have "length (plRelayed p) < length (log_of_run p)" using relay by (simp add: log_of_run_def taken_def)
  then have "log_step (log_view p) (log_view q)" unfolding log_view_def log by (simp add: log_step.deliver)
  moreover have "subseq (plGot q i @ xs) (plRelayed q)" if m: "map_of (hbSubs (plHub q)) i = Some xs" for i xs
  proof -
    obtain ys where ys: "map_of (hbSubs (plHub p)) i = Some ys" "xs = hub_offer e ys"
      using m relay(1) by (auto simp: relay_subs)
    then show ?thesis unfolding log using hub_offer_subseq [OF stream_invD(7) [OF assms(2) ys(1)]] relay(1) by simp
  qed
  ultimately show ?thesis using assms(2) relay log(1) unfolding stream_inv_def by simp
qed

lemma client_step_refines:
  assumes "client_step b p q" "stream_inv p"
  shows "stream_inv q \<and> log_step (log_view p) (log_view q)"
  using assms
proof cases
  case closing
  then show ?thesis using stream_invD(6) [OF assms(2)]
    by (intro stream_quiet [OF assms(2)]) (auto simp: forward_close_def log_of_run_def taken_def holding_def)
next
  case closed
  then show ?thesis using stream_invD(6) [OF assms(2)]
    by (intro stream_quiet [OF assms(2)]) (auto simp: hub_close_def log_of_run_def taken_def)
next
  case (subscribe i)
  have "log_of_run q = log_of_run p" "plRelayed q = plRelayed p" using subscribe by (simp_all add: log_of_run_def taken_def)
  then show ?thesis using assms(2) subscribe unfolding stream_inv_def log_view_def
    by (auto simp: hub_subscribe_def map_of_update log_step.stutter)
next
  case (unsubscribe i)
  have "log_of_run q = log_of_run p" "plRelayed q = plRelayed p" using unsubscribe by (simp_all add: log_of_run_def taken_def)
  then show ?thesis using assms(2) unsubscribe unfolding stream_inv_def log_view_def
    by (auto simp: hub_unsubscribe_def map_of_delete log_step.stutter)
next
  case (receive i e h)
  obtain es where es: "map_of (hbSubs (plHub p)) i = Some (e # es)" "h = (plHub p)\<lparr>hbSubs := AList.update i es (hbSubs (plHub p))\<rparr>"
    using receive(2) by (auto simp: sub_receive_def split: option.splits list.splits)
  have "log_of_run q = log_of_run p" "plRelayed q = plRelayed p" using receive by (simp_all add: log_of_run_def taken_def)
  then show ?thesis using assms(2) receive es unfolding stream_inv_def log_view_def
    by (auto simp: map_of_update log_step.stutter)
qed

lemma rec_flush_keeps:
  "rdID (fst (rec_flush ops w)) = rdID (fst w)" "rdOut (fst (rec_flush ops w)) = rdOut (fst w)"
  "rdHolding (fst (rec_flush ops w)) = rdHolding (fst w)" "rdQueue (fst (rec_flush ops w)) = rdQueue (fst w)"
  by (simp_all add: rec_flush_def requestSnapshot_def case_prod_unfold Let_def)

lemma writer_keeps:
  "rdID (fst (writer_receive ops now w)) = rdID (fst w)" "rdOut (fst (writer_receive ops now w)) = rdOut (fst w)"
  "rdHolding (fst (writer_receive ops now w)) = rdHolding (fst w)"
  "rdID (fst (writeSnapshot ops now w)) = rdID (fst w)" "rdOut (fst (writeSnapshot ops now w)) = rdOut (fst w)"
  "rdHolding (fst (writeSnapshot ops now w)) = rdHolding (fst w)" "rdQueue (fst (writeSnapshot ops now w)) = rdQueue (fst w)"
  "rdBatch (fst (writeSnapshot ops now w)) = rdBatch (fst w)"
  by (simp_all add: writer_receive_def rec_enqueue_def writeSnapshot_def rec_flush_keeps case_prod_unfold Let_def
      split: list.splits option.splits)

lemma writer_step_refines:
  assumes "writer_step ops p q" "stream_inv p"
  shows "stream_inv q \<and> log_step (log_view p) (log_view q)"
proof -
  have h: "holding r = holding r'" if "rdHolding r = rdHolding r'" for r r' using that by (simp add: holding_def)
  have "plActor q = plActor p" "plHub q = plHub p" "plGot q = plGot p" "plRelayed q = plRelayed p"
    "rdID (plRecorder q) = rdID (plRecorder p)" "rdOut (plRecorder q) = rdOut (plRecorder p)"
    "rdHolding (plRecorder q) = rdHolding (plRecorder p)"
    using assms(1)
    by (cases; simp add: set_writer_def writer_keeps rec_flush_keeps writer_closed_def writer_drained_def writer_cancelled_def
        flush_request_def snapshot_take_def case_prod_unfold Let_def)+
  then show ?thesis using stream_invD(6) [OF assms(2)]
    by (intro stream_quiet [OF assms(2)]) (simp_all add: log_of_run_def taken_def holding_def)
qed

lemma pipeline_step_refines:
  "pipeline_step st p q \<Longrightarrow> stream_inv p \<Longrightarrow> stream_inv q \<and> log_step (log_view p) (log_view q)"
  unfolding pipeline_step_def using actor_step_refines forward_step_refines client_step_refines writer_step_refines by blast

lemma new_pipeline_inv:
  assumes "new_pipeline cfg s db = Some p" "sEvents s = []" "sSequence s = 0"
  shows "stream_inv p"
proof -
  obtain a where a: "Run_start s = Some a" "p = \<lparr>plActor = a, plRecorder = NewRecorder (sID s) cfg, plHub = NewHub,
      plStore = db, plCancelled = False, plRelayed = [], plGot = (\<lambda>_. [])\<rparr>"
    using assms(1) by (auto simp: new_pipeline_def)
  show ?thesis
    using Run_start_numbered [OF a(1) assms(2)] assms(3) unfolding stream_inv_def a(2)
    by (auto simp: numbered_def NewRecorder_def NewHub_def log_of_run_def taken_def holding_def eventsCap_def simp del: upt_Suc)
qed

lemma runs_inv:
  "runs st p0 p \<Longrightarrow> stream_inv p0 \<Longrightarrow> stream_inv p"
  by (induction rule: runs.induct) (auto dest: pipeline_step_refines)

subsection \<open>Shutting down, and never stalling\<close>

definition closing_inv :: "'db pipeline \<Rightarrow> bool" where
  \<comment> \<open>channels are closed in the order of the stream, each only when it is drained\<close>
  "closing_inv p \<longleftrightarrow>
     (rdOutClosed (plRecorder p) \<longrightarrow> acStopped (plActor p) \<and> acEvents (plActor p) = [] \<and> rdHolding (plRecorder p) = None) \<and>
     (hbClosed (plHub p) \<longrightarrow> rdOutClosed (plRecorder p) \<and> rdOut (plRecorder p) = [])"

lemma actor_step_closing:
  assumes "actor_step p q" "closing_inv p"
  shows "closing_inv q"
  using assms
proof cases
  case (command ms a)
  then show ?thesis using assms(2) by (auto simp: closing_inv_def actor_ready_def)
next
  case (ticked a)
  then show ?thesis using assms(2) by (auto simp: closing_inv_def actor_ready_def)
next
  case (reset a)
  then show ?thesis using assms(2) by (auto simp: closing_inv_def actor_reset_def split: if_splits)
qed (use assms(2) in \<open>auto simp: closing_inv_def TrySubmitCtx_def actor_stop_def\<close>)

lemma forward_step_closing:
  assumes "forward_step b p q" "closing_inv p" "stream_inv p"
  shows "closing_inv q"
  using assms
proof cases
  case send
  then show ?thesis
    using assms(2) stream_invD(6) [OF assms(3)] by (auto simp: closing_inv_def actor_send_def split: list.splits)
next
  case (take e es)
  then show ?thesis using assms(2) by (auto simp: closing_inv_def forward_take_def)
next
  case put
  then show ?thesis using assms(2) by (auto simp: closing_inv_def forward_put_def)
next
  case (relay e es)
  then show ?thesis using assms(2) by (auto simp: closing_inv_def hub_relay_def)
qed

lemma client_step_closing:
  assumes "client_step b p q" "closing_inv p"
  shows "closing_inv q"
  using assms
proof cases
  case (receive i e h)
  then show ?thesis using assms(2) by (auto simp: closing_inv_def sub_receive_def split: option.splits list.splits)
qed (use assms(2) in \<open>auto simp: closing_inv_def forward_close_def hub_close_def hub_subscribe_def hub_unsubscribe_def\<close>)

lemma rec_flush_closed: "rdOutClosed (fst (rec_flush ops w)) = rdOutClosed (fst w)"
  by (simp add: rec_flush_def requestSnapshot_def case_prod_unfold Let_def)

lemma writer_step_closing:
  assumes "writer_step ops p q" "closing_inv p"
  shows "closing_inv q"
proof -
  have "plActor q = plActor p" "plHub q = plHub p" "rdOut (plRecorder q) = rdOut (plRecorder p)"
    "rdHolding (plRecorder q) = rdHolding (plRecorder p)" "rdOutClosed (plRecorder q) = rdOutClosed (plRecorder p)"
    using assms(1)
    by (cases; simp add: set_writer_def writer_keeps rec_flush_keeps rec_flush_closed writer_closed_def writer_drained_def
        writer_cancelled_def writer_receive_def rec_enqueue_def writeSnapshot_def flush_request_def snapshot_take_def
        case_prod_unfold Let_def split: list.splits option.splits)+
  then show ?thesis using assms(2) by (simp add: closing_inv_def)
qed

lemma runs_closing:
  assumes "runs st p0 p" "stream_inv p0" "closing_inv p0"
  shows "closing_inv p"
  using assms
proof (induction rule: runs.induct)
  case (step p q)
  then show ?case
    using actor_step_closing forward_step_closing client_step_closing writer_step_closing runs_inv
    unfolding pipeline_step_def by metis
qed

definition waiting :: "'db pipeline \<Rightarrow> nat" where
  \<comment> \<open>the forwarding steps left until everything emitted so far has reached the hub\<close>
  "waiting p = 4 * length (acPublishing (plActor p)) + 3 * length (acEvents (plActor p)) +
     2 * length (holding (plRecorder p)) + length (rdOut (plRecorder p))"

lemma forward_step_waiting:
  assumes "forward_step b p q"
  shows "waiting p = Suc (waiting q)" "log_of_run q = log_of_run p"
  using assms
  by (cases; auto simp: waiting_def log_of_run_def taken_def holding_def actor_send_def forward_take_facts forward_put_def
      split: list.splits option.splits)+

lemma waiting_zero: "waiting p = 0 \<Longrightarrow> plRelayed p = log_of_run p"
  by (simp add: waiting_def log_of_run_def taken_def)

lemma forward_enabled:
  assumes "waiting p \<noteq> 0" "closing_inv p" "stream_inv p"
  shows "\<exists>q. forward_step b p q"
proof (cases "rdOut (plRecorder p)")
  case (Cons e es)
  then have "\<not> hbClosed (plHub p)" using assms(2) by (auto simp: closing_inv_def)
  then show ?thesis using forward_step.relay [OF Cons] by blast
next
  case out: Nil
  show ?thesis
  proof (cases "rdHolding (plRecorder p)")
    case (Some e)
    then show ?thesis using forward_step.put [of p] out by (auto simp: eventsCap_def)
  next
    case None
    show ?thesis
    proof (cases "acEvents (plActor p)")
      case (Cons e es)
      then show ?thesis using forward_step.take [OF Cons None] by blast
    next
      case Nil
      then have "acPublishing (plActor p) \<noteq> []" using assms(1) out None by (simp add: waiting_def)
      then show ?thesis using forward_step.send [of p] Nil by (auto simp: eventsCap_def)
    qed
  qed
qed

lemma forwarding_bound: "(forward_step b ^^ n) p q \<Longrightarrow> waiting p = n + waiting q \<and> log_of_run q = log_of_run p"
proof (induction n arbitrary: q)
  case (Suc n)
  then obtain r where "(forward_step b ^^ n) p r" "forward_step b r q" by auto
  then show ?case using Suc.IH forward_step_waiting by fastforce
qed simp

lemma forwarding_runs: "(forward_step b ^^ n) p q \<Longrightarrow> b = (st \<noteq> None) \<Longrightarrow> runs st p0 p \<Longrightarrow> runs st p0 q"
proof (induction n arbitrary: q)
  case (Suc n)
  then obtain r where "(forward_step b ^^ n) p r" "forward_step b r q" by auto
  from this(1) have "runs st p0 r" by (rule Suc.IH [OF _ Suc.prems(2,3)])
  moreover have "pipeline_step st r q" using \<open>forward_step b r q\<close> Suc.prems(2) by (simp add: pipeline_step_def)
  ultimately show ?case by (rule runs.step)
qed simp

lemma new_pipeline_closing: "new_pipeline cfg s db = Some p \<Longrightarrow> closing_inv p"
  by (auto simp: new_pipeline_def closing_inv_def NewRecorder_def NewHub_def)

lemma NewWithConfig_fresh: "sEvents (NewWithConfig draws c) = []" "sSequence (NewWithConfig draws c) = 0"
  "sID (NewWithConfig draws c) = cfID c"
  by (simp_all add: NewWithConfig_def Let_def config_defaults_def)

lemma live_inv:
  assumes "new_pipeline cfg (NewWithConfig draws c) db = Some p0" and "runs st p0 p"
  shows "stream_inv p" "closing_inv p"
proof -
  note inv = new_pipeline_inv [OF assms(1) NewWithConfig_fresh(1,2)]
  show "stream_inv p" by (rule runs_inv [OF assms(2) inv])
  show "closing_inv p" by (rule runs_closing [OF assms(2) inv new_pipeline_closing [OF assms(1)]])
qed

lemma subseq_increasing: "subseq ys xs \<Longrightarrow> sorted_wrt (<) (map f xs) \<Longrightarrow> sorted_wrt (<) (map f ys)"
  by (induction rule: list_emb.induct) (auto dest: list_emb_set)

text \<open>
  C5.  A live run refines an append-only log: whatever interleaving of the simulation, the
  recorder's goroutines, the hub, the submitted commands and the subscribing connections runs, each
  step either appends consecutively numbered events to the log, or relays its next entry to the hub,
  or changes nothing; and what each subscriber has received or can receive is in the log's order,
  without repeats.
\<close>

theorem live_run_refines_log:
  assumes "new_pipeline cfg (NewWithConfig draws c) db = Some p0" and "runs st p0 p" and "pipeline_step st p q"
  shows "log_step (log_view p) (log_view q) \<and>
    map evSequence (log_of_run p) = [1..<Suc (length (log_of_run p))] \<and> prefix (plRelayed p) (log_of_run p) \<and>
    (\<forall>i xs. map_of (hbSubs (plHub p)) i = Some xs \<longrightarrow>
       subseq (plGot p i @ xs) (plRelayed p) \<and> sorted_wrt (<) (map evSequence (plGot p i @ xs)))"
proof -
  note inv = live_inv(1) [OF assms(1,2)]
  have seqs: "map evSequence (log_of_run p) = [1..<Suc (length (log_of_run p))]"
    using stream_invD(3,4) [OF inv] by (simp del: upt_Suc)
  have pre: "prefix (plRelayed p) (log_of_run p)" by (simp add: log_of_run_def taken_def)
  have "sorted_wrt (<) (map evSequence (plRelayed p))"
    using pre seqs sorted_wrt_upt by (metis (no_types, lifting) map_mono_prefix prefix_def sorted_wrt_append)
  then show ?thesis using subseq_increasing pipeline_step_refines [OF assms(3) inv] stream_invD(7) [OF inv] seqs pre by blast
qed

text \<open>
  C7. The stream never stalls: as long as an emitted event has not reached the hub some goroutine
  can forward one, at most \<open>waiting\<close> forwarding steps are ever possible without a new event, and when
  none is left everything emitted has been relayed.  The recorder never holds it up, however slow
  its store is, and neither does a subscriber.
\<close>

theorem stream_never_stalls:
  assumes "new_pipeline cfg (NewWithConfig draws c) db = Some p0" and "runs st p0 p"
    and "(forward_step (st \<noteq> None) ^^ n) p q"
  shows "n \<le> waiting p \<and> log_of_run q = log_of_run p \<and>
    ((\<exists>r. forward_step (st \<noteq> None) q r) \<or> plRelayed q = log_of_run p)"
proof -
  have q: "runs st p0 q" by (rule forwarding_runs [OF assms(3) refl assms(2)])
  then show ?thesis
    using forwarding_bound [OF assms(3)] forward_enabled [OF _ live_inv(2,1) [OF assms(1) q], of "st \<noteq> None"]
      waiting_zero [of q] by (cases "waiting q = 0") auto
qed

subsection \<open>Witnesses\<close>

definition test_recorder :: recorder_config where
  "test_recorder = \<lparr>rcFlushInterval = 0, rcBatchSize = 0, rcSnapshotEvery = 0, rcBufferSize = 0\<rparr>"

definition test_config :: config where
  "test_config = zero_config\<lparr>cfID := ''sim'', cfSeed := 7, cfDriverCount := 3\<rparr>"

lemma test_pipeline: "\<exists>p0. new_pipeline test_recorder (NewWithConfig (\<lambda>_ _. 0) test_config) NewMemory = Some p0"
  by (simp add: new_pipeline_def Run_start_def tickDuration_def NewWithConfig_def Let_def config_defaults_def tickInterval_def
      Start_def takePending_def)

lemma new_pipeline_parts:
  assumes "new_pipeline cfg (NewWithConfig draws c) db = Some p"
  shows "plRecorder p = NewRecorder (cfID c) cfg" "plStore p = db" "acEvents (plActor p) = []"
    "\<exists>e. acPublishing (plActor p) = [e]" "plRelayed p = []"
  using assms
  by (auto simp: new_pipeline_def NewWithConfig_fresh Run_start_def Start_def takePending_def emit_def split: if_splits)

lemma test_store: "memory_wf NewMemory" "log_of NewMemory (cfID test_config) = []"
  by (rule NewMemory_wf) (simp add: log_of_def NewMemory_def)

theorem live_run_refines_log_witness:
  "\<exists>p0 q. new_pipeline test_recorder (NewWithConfig (\<lambda>_ _. 0) test_config) NewMemory = Some p0 \<and>
     forward_step True p0 q \<and> log_step (log_view p0) (log_view q)"
proof -
  obtain p0 where p0: "new_pipeline test_recorder (NewWithConfig (\<lambda>_ _. 0) test_config) NewMemory = Some p0"
    using test_pipeline by blast
  have "forward_step True p0 (p0\<lparr>plActor := actor_send (plActor p0)\<rparr>)"
    using new_pipeline_parts [OF p0] by (intro forward_step.send) (auto simp: eventsCap_def)
  moreover from this have "pipeline_step (Some memory_ops) p0 (p0\<lparr>plActor := actor_send (plActor p0)\<rparr>)"
    by (simp add: pipeline_step_def)
  ultimately show ?thesis using live_run_refines_log [OF p0 runs.start] p0 by blast
qed

theorem stream_never_stalls_witness:
  "\<exists>p0 r. new_pipeline test_recorder (NewWithConfig (\<lambda>_ _. 0) test_config) NewMemory = Some p0 \<and> waiting p0 = 4 \<and>
     forward_step True p0 r"
proof -
  obtain p0 where p0: "new_pipeline test_recorder (NewWithConfig (\<lambda>_ _. 0) test_config) NewMemory = Some p0"
    using test_pipeline by blast
  note P = new_pipeline_parts [OF p0]
  have w: "waiting p0 = 4" "plRelayed p0 \<noteq> log_of_run p0"
    using P p0 by (auto simp: waiting_def NewRecorder_def log_of_run_def taken_def new_pipeline_def)
  then have "\<exists>r. forward_step (Some memory_ops \<noteq> None) p0 r"
    using stream_never_stalls [OF p0 runs.start, where st = "Some memory_ops" and n = 0 and q = p0] by simp
  then show ?thesis using p0 w by auto
qed

end
