(* ===== verification/Pipeline_Store.thy ===== *)
theory Pipeline_Store
  imports Pipeline
begin

text \<open>
  What a live run leaves in the store.  The in-memory store's log of the run is, at every moment, a
  subsequence of the events the recorder has taken from the simulation, each encoded once and in
  order; nothing is missing after an acknowledged flush unless the intake queue overflowed; and a
  writer that is cancelled leaves what is still queued behind.
\<close>

definition persisted :: "string \<Rightarrow> recorder \<times> memory \<Rightarrow> event list \<Rightarrow> bool" where
  \<comment> \<open>the rows stored or batched are the persisted form of these events\<close>
  "persisted i w es \<longleftrightarrow> memory_wf (snd w) \<and> list_all2 recorded (log_of (snd w) i @ rdBatch (fst w)) es"

definition increasing :: "string \<Rightarrow> event list \<Rightarrow> bool" where
  "increasing i es \<longleftrightarrow> sorted_wrt (<) (map evSequence es) \<and> (\<forall>e \<in> set es. evSimulationID e = i)"

lemma increasing_subseq: "increasing i xs \<Longrightarrow> subseq ys xs \<Longrightarrow> increasing i ys"
  unfolding increasing_def by (auto intro: subseq_increasing dest: list_emb_set)

lemma rec_flush_persisted:
  assumes "persisted i w es" "increasing i es"
  shows "persisted i (rec_flush memory_ops w) es" "rdBatch (fst (rec_flush memory_ops w)) = []"
proof -
  obtain r db where w: "w = (r, db)" by (cases w)
  show "rdBatch (fst (rec_flush memory_ops w)) = []"
    by (simp add: w rec_flush_def Let_def requestSnapshot_def case_prod_unfold)
  show "persisted i (rec_flush memory_ops w) es"
  proof (cases "rdBatch r = []")
    case True
    then show ?thesis using assms(1) by (simp add: w rec_flush_def)
  next
    case False
    let ?log = "log_of db i @ rdBatch r"
    have p: "memory_wf db" "list_all2 recorded ?log es" using assms(1) by (simp_all add: persisted_def w)
    have "sorted_wrt (<) (map seSequence ?log)" using assms(2) recorded_rows(1) [OF p(2)] by (simp add: increasing_def)
    then have "log_ok ?log" unfolding log_ok_def by (rule strict_sorted_iff [THEN iffD1])
    moreover have "\<forall>x \<in> set (rdBatch r). seSimulationID x = i"
      using recorded_rows(2) [OF p(2)] assms(2) by (auto simp: increasing_def)
    ultimately have "log_of (AppendEvents (rdBatch r) db) i = ?log" by (rule AppendEvents_in_order [OF p(1)])
    then show ?thesis
      using p AppendEvents_spec(1) [OF p(1)] False
      by (simp add: persisted_def w rec_flush_def rec_write_def Let_def requestSnapshot_def)
  qed
qed

lemma writer_receive_persisted:
  assumes p: "persisted i w es" and q: "rdQueue (fst w) = e # queue" and inc: "increasing i (es @ [e])"
  shows "\<exists>es1. persisted i (writer_receive memory_ops now w) es1 \<and> (es1 = es @ [e] \<or> es1 = es \<and> marshal (evPayload e) = None) \<and>
    rdQueue (fst (writer_receive memory_ops now w)) = queue"
proof -
  obtain r db where w: "w = (r, db)" by (cases w)
  show ?thesis
  proof (cases "EventFrom e (evTraceID e) now")
    case None
    then show ?thesis using p q by (auto simp: w writer_receive_def rec_enqueue_def persisted_def EventFrom_def split: option.splits)
  next
    case (Some x)
    let ?r = "r\<lparr>rdQueue := queue, rdBatch := rdBatch r @ [x]\<rparr>"
    have "list_all2 recorded ((log_of db i @ rdBatch r) @ [x]) (es @ [e])"
      using p EventFrom_recorded [OF Some] by (intro list_all2_appendI) (auto simp: persisted_def w)
    then have "persisted i (?r, db) (es @ [e])" using p by (simp add: persisted_def w)
    then show ?thesis
      using rec_flush_persisted(1) [OF _ inc] q Some
      by (auto simp: w writer_receive_def rec_enqueue_def Let_def rec_flush_keeps)
  qed
qed

definition stored_inv :: "memory pipeline \<Rightarrow> bool" where
  "stored_inv p \<longleftrightarrow>
     (\<exists>es. persisted (rdID (plRecorder p)) (writer p) es \<and> subseq (es @ rdQueue (plRecorder p)) (taken p) \<and>
        (rdDropped (plRecorder p) = 0 \<and> (\<forall>e \<in> set (taken p). marshal (evPayload e) \<noteq> None) \<longrightarrow>
           es @ rdQueue (plRecorder p) = taken p))"

lemma stored_quiet:
  assumes "stored_inv p" "taken q = taken p" "rdID (plRecorder q) = rdID (plRecorder p)"
    "rdQueue (plRecorder q) = rdQueue (plRecorder p)" "rdBatch (plRecorder q) = rdBatch (plRecorder p)"
    "rdDropped (plRecorder q) = rdDropped (plRecorder p)" "plStore q = plStore p"
  shows "stored_inv q"
  using assms unfolding stored_inv_def persisted_def by simp

lemma taken_increasing:
  assumes "stream_inv p"
  shows "increasing (rdID (plRecorder p)) (taken p)"
proof -
  have "sorted_wrt (<) (map evSequence (log_of_run p))"
    unfolding stream_invD(3) [OF assms] by (simp del: upt_Suc)
  then have "sorted_wrt (<) (map evSequence (taken p))" by (simp add: log_of_run_def sorted_wrt_append)
  moreover have "\<forall>e \<in> set (taken p). evSimulationID e = rdID (plRecorder p)"
    using stream_invD(5) [OF assms] by (simp add: log_of_run_def)
  ultimately show ?thesis by (simp add: increasing_def)
qed

lemma forward_step_stored:
  assumes "forward_step True p q" "stored_inv p"
  shows "stored_inv q"
  using assms
proof cases
  case (take e es)
  obtain fs where fs: "persisted (rdID (plRecorder p)) (writer p) fs" "subseq (fs @ rdQueue (plRecorder p)) (taken p)"
    "rdDropped (plRecorder p) = 0 \<and> (\<forall>e \<in> set (taken p). marshal (evPayload e) \<noteq> None) \<longrightarrow> fs @ rdQueue (plRecorder p) = taken p"
    using assms(2) unfolding stored_inv_def by blast
  have "taken q = taken p @ [e]" using take by (simp add: taken_def forward_take_facts)
  moreover have "subseq (fs @ rdQueue (plRecorder p) @ [e]) (taken p @ [e])"
    using list_emb_append_mono [OF fs(2), of "[e]" "[e]"] by simp
  ultimately show ?thesis
    using fs take unfolding stored_inv_def
    by (intro exI [of _ fs]) (auto simp: forward_take_def persisted_def)
qed (auto intro!: stored_quiet [OF assms(2)] simp: forward_put_def taken_def holding_def split: option.splits)

lemma client_step_stored:
  assumes "client_step b p q" "stored_inv p"
  shows "stored_inv q"
  using assms
  by cases (auto intro!: stored_quiet [OF assms(2)] simp: forward_close_def taken_def holding_def)

lemma actor_step_stored:
  assumes "actor_step p q" "stored_inv p"
  shows "stored_inv q"
  using assms by cases (auto intro!: stored_quiet [OF assms(2)] simp: taken_def)

lemma flush_stored:
  \<comment> \<open>a flush, and whatever flags are set after it\<close>
  assumes "stored_inv p" "stream_inv p" "taken q = taken p"
    "rdID (plRecorder q) = rdID (plRecorder p)" "rdQueue (plRecorder q) = rdQueue (plRecorder p)"
    "rdBatch (plRecorder q) = rdBatch (fst (rec_flush memory_ops (writer p)))" "rdDropped (plRecorder q) = rdDropped (plRecorder p)"
    "plStore q = snd (rec_flush memory_ops (writer p))"
  shows "stored_inv q"
proof -
  let ?i = "rdID (plRecorder p)"
  obtain fs where fs: "persisted ?i (writer p) fs" "subseq (fs @ rdQueue (plRecorder p)) (taken p)"
    "rdDropped (plRecorder p) = 0 \<and> (\<forall>e \<in> set (taken p). marshal (evPayload e) \<noteq> None) \<longrightarrow> fs @ rdQueue (plRecorder p) = taken p"
    using assms(1) unfolding stored_inv_def by blast
  have "subseq fs (taken p)" using fs(2) by (metis list_emb_append2 subseq_order.trans subseq_rev_drop_many subseq_order.refl)
  then have "persisted ?i (rec_flush memory_ops (writer p)) fs"
    using rec_flush_persisted(1) [OF fs(1)] increasing_subseq [OF taken_increasing [OF assms(2)]] by blast
  then show ?thesis using fs assms unfolding stored_inv_def persisted_def by (intro exI [of _ fs]) simp
qed

lemma rec_flush_dropped: "rdDropped (fst (rec_flush ops w)) = rdDropped (fst w)"
  by (simp add: rec_flush_def requestSnapshot_def case_prod_unfold Let_def)

lemma writer_receive_dropped: "rdDropped (fst (writer_receive ops now w)) = rdDropped (fst w)"
  by (simp add: writer_receive_def rec_enqueue_def rec_flush_dropped case_prod_unfold Let_def split: list.splits option.splits)

lemma writeSnapshot_memory:
  assumes "memory_wf (snd w)"
  shows "memory_wf (snd (writeSnapshot memory_ops now w))" "log_of (snd (writeSnapshot memory_ops now w)) i = log_of (snd w) i"
    "rdDropped (fst (writeSnapshot memory_ops now w)) = rdDropped (fst w)"
proof -
  have "log_of (SaveSnapshot x m) i = log_of m i" for x m by (simp add: log_of_def SaveSnapshot_def Let_def)
  then show "memory_wf (snd (writeSnapshot memory_ops now w))" "log_of (snd (writeSnapshot memory_ops now w)) i = log_of (snd w) i"
    "rdDropped (fst (writeSnapshot memory_ops now w)) = rdDropped (fst w)"
    using assms SaveSnapshot_set(1) [OF assms] by (simp_all add: writeSnapshot_def case_prod_unfold split: option.splits)
qed

lemma writer_step_stored:
  assumes "writer_step memory_ops p q" "stored_inv p" "stream_inv p"
  shows "stored_inv q"
  using assms(1)
proof cases
  case (received now)
  let ?i = "rdID (plRecorder p)" and ?w = "writer p"
  obtain e queue where eq: "rdQueue (plRecorder p) = e # queue" using received(3) by (cases "rdQueue (plRecorder p)") auto
  obtain fs where fs: "persisted ?i ?w fs" "subseq (fs @ e # queue) (taken p)"
    "rdDropped (plRecorder p) = 0 \<and> (\<forall>e \<in> set (taken p). marshal (evPayload e) \<noteq> None) \<longrightarrow> fs @ e # queue = taken p"
    using assms(2) unfolding stored_inv_def eq by blast
  have inc: "increasing ?i (fs @ e # queue)" by (rule increasing_subseq [OF taken_increasing [OF assms(3)] fs(2)])
  then have "increasing ?i (fs @ [e])" by (auto simp: increasing_def sorted_wrt_append)
  then obtain gs where gs: "persisted ?i (writer_receive memory_ops now ?w) gs"
    "gs = fs @ [e] \<or> gs = fs \<and> marshal (evPayload e) = None" "rdQueue (fst (writer_receive memory_ops now ?w)) = queue"
    using writer_receive_persisted [OF fs(1)] eq by fastforce
  have same: "taken q = taken p" "rdID (plRecorder q) = ?i" "plStore q = snd (writer_receive memory_ops now ?w)"
    "plRecorder q = fst (writer_receive memory_ops now ?w)" "rdDropped (plRecorder q) = rdDropped (plRecorder p)"
    using received(1) by (simp_all add: set_writer_def taken_def holding_def writer_keeps writer_receive_dropped)
  have sub: "subseq (gs @ queue) (taken p)"
  proof -
    have "subseq (fs @ queue) (fs @ e # queue)" by (intro list_emb_append_mono) auto
    then show ?thesis using gs(2) fs(2) by (metis append.assoc append_Cons append_Nil subseq_order.trans)
  qed
  have "gs = fs @ [e]" if "\<forall>e \<in> set (taken p). marshal (evPayload e) \<noteq> None"
  proof -
    have "e \<in> set (taken p)" using list_emb_set [OF fs(2), of e] by auto
    then show ?thesis using gs(2) that by blast
  qed
  then show ?thesis using gs sub fs(3) unfolding stored_inv_def persisted_def
    by (intro exI [of _ gs]) (auto simp: same(1,3,4) writer_keeps writer_receive_dropped)
next
  case (snapshot_saved now)
  then show ?thesis
    using assms(2) writeSnapshot_memory [of "writer p" now] unfolding stored_inv_def persisted_def
    by (simp add: set_writer_def writer_keeps taken_def holding_def)
next
  case flush_requested
  then show ?thesis by (intro stored_quiet [OF assms(2)]) (simp_all add: flush_request_def taken_def holding_def)
next
  case snapshot_taken
  then show ?thesis by (intro stored_quiet [OF assms(2)]) (simp_all add: snapshot_take_def taken_def holding_def)
qed (auto intro!: flush_stored [OF assms(2,3)] simp: set_writer_def writer_closed_def writer_drained_def writer_cancelled_def
    rec_flush_keeps rec_flush_dropped taken_def holding_def case_prod_unfold Let_def)

lemma pipeline_step_id: "pipeline_step st p q \<Longrightarrow> rdID (plRecorder q) = rdID (plRecorder p)"
  unfolding pipeline_step_def
  by (elim disjE exE conjE; elim actor_step.cases forward_step.cases client_step.cases writer_step.cases;
      simp add: forward_take_facts forward_put_def forward_close_def set_writer_def writer_keeps rec_flush_keeps
        writer_closed_def writer_drained_def writer_cancelled_def flush_request_def snapshot_take_def case_prod_unfold Let_def
      split: option.splits)

lemma runs_stored:
  assumes "runs (Some memory_ops) p0 p" "stream_inv p0" "stored_inv p0"
  shows "stored_inv p"
  using assms
proof (induction rule: runs.induct)
  case (step p q)
  then have "stream_inv p" "stored_inv p" using runs_inv by blast+
  then show ?case
    using step(2) actor_step_stored forward_step_stored client_step_stored writer_step_stored
    unfolding pipeline_step_def by auto
qed

lemma new_pipeline_stored:
  assumes "new_pipeline cfg s db = Some p" "memory_wf db" "log_of db (sID s) = []"
  shows "stored_inv p"
  using assms by (auto simp: new_pipeline_def stored_inv_def persisted_def NewRecorder_def taken_def holding_def)

subsection \<open>The properties\<close>


lemma done_stays:
  assumes "runs (Some memory_ops) p q" "rdDone (plRecorder p)" "memory_wf (plStore p)"
  shows "rdDone (plRecorder q) \<and> memory_wf (plStore q) \<and> log_of (plStore q) i = log_of (plStore p) i"
  using assms
proof (induction rule: runs.induct)
  case (step q r)
  have still: "rdDone (plRecorder q)" "memory_wf (plStore q)" "log_of (plStore q) i = log_of (plStore p) i" using step by blast+
  have "rdDone (plRecorder r) \<and> memory_wf (plStore r) \<and> log_of (plStore r) i = log_of (plStore q) i"
    using step(2) unfolding pipeline_step_def
  proof (elim disjE exE conjE)
    fix ops assume "Some memory_ops = Some ops" "writer_step ops q r"
    from this(2) show ?thesis
    proof cases
      case (snapshot_saved now)
      then show ?thesis using still writeSnapshot_memory [of "writer q" now] \<open>Some memory_ops = Some ops\<close>
        by (simp add: set_writer_def) (simp add: writeSnapshot_def split: option.splits)
    qed (use still in \<open>simp_all add: snapshot_take_def\<close>)
  qed (use still in \<open>auto elim!: actor_step.cases forward_step.cases client_step.cases
      simp: forward_take_def forward_put_def forward_close_def split: option.splits\<close>)
  then show ?case using still by simp
qed simp

lemma withDefaults_positive: "0 < rcBufferSize (withDefaults c)" "0 < rcBatchSize (withDefaults c)"
  by (simp_all add: withDefaults_def Let_def)

text \<open>
  C23.  Cancelling a run can lose the tail of its log although nothing overflowed: there is an
  interleaving in which the recorder has queued an event and forwarded it, the run is cancelled, the
  writer reports that it is done, and the event is not in the store and never will be, whatever
  happens afterwards.
\<close>

theorem cancelled_writer_loses_tail:
  assumes "new_pipeline cfg (NewWithConfig draws c) db = Some p0" and "memory_wf db" and "log_of db (cfID c) = []"
  shows "\<exists>p. runs (Some memory_ops) p0 p \<and> rdDone (plRecorder p) \<and> rdDropped (plRecorder p) = 0 \<and>
    length (taken p) = 1 \<and> (\<forall>q. runs (Some memory_ops) p q \<longrightarrow> log_of (plStore q) (cfID c) = [])"
proof -
  note P = new_pipeline_parts [OF assms(1)]
  obtain e where e: "acPublishing (plActor p0) = [e]" using P(4) by blast
  let ?p1 = "p0\<lparr>plActor := actor_send (plActor p0)\<rparr>"
  let ?p2 = "?p1\<lparr>plActor := (plActor ?p1)\<lparr>acEvents := []\<rparr>, plRecorder := forward_take True e (plRecorder ?p1)\<rparr>"
  let ?p3 = "?p2\<lparr>plCancelled := True\<rparr>"
  let ?p4 = "set_writer ?p3 (writer_cancelled memory_ops (writer ?p3))"
  have sent: "acEvents (plActor ?p1) = [e]" using P(3) e by (simp add: actor_send_def)
  have r2: "plRecorder ?p2 = (NewRecorder (cfID c) cfg)\<lparr>rdHolding := Some e, rdQueue := [e]\<rparr>"
    using P(1) withDefaults_positive(1) by (simp add: forward_take_def NewRecorder_def)
  have "forward_step True p0 ?p1" using e P(3) by (intro forward_step.send) (simp_all add: eventsCap_def)
  moreover have "forward_step True ?p1 ?p2" using forward_step.take [OF sent] P(1) by (simp add: NewRecorder_def)
  moreover have "actor_step ?p2 ?p3" by (rule actor_step.cancel)
  moreover have "writer_step memory_ops ?p3 ?p4"
    by (rule writer_step.cancelled) (use r2 in \<open>simp_all add: NewRecorder_def\<close>)
  ultimately have run: "runs (Some memory_ops) p0 ?p4"
    by (intro runs.step [OF runs.step [OF runs.step [OF runs.step [OF runs.start]]]]) (auto simp: pipeline_step_def)
  have p4: "plRecorder ?p4 = (plRecorder ?p2)\<lparr>rdDone := True\<rparr>" "plStore ?p4 = db"
    using r2 P(2) by (simp_all add: set_writer_def writer_cancelled_def rec_flush_def NewRecorder_def)
  moreover have "plRelayed ?p4 = []" using P(5) by (simp add: set_writer_def)
  ultimately have end4: "rdDone (plRecorder ?p4)" "rdDropped (plRecorder ?p4) = 0" "memory_wf (plStore ?p4)" "length (taken ?p4) = 1"
    using assms(2) unfolding taken_def p4 r2 by (simp_all add: NewRecorder_def p4)
  have "log_of (plStore q) (cfID c) = []" if "runs (Some memory_ops) ?p4 q" for q
    using done_stays [OF that end4(1,3), of "cfID c"] assms(3) p4(2) by simp
  then show ?thesis using run end4 by blast
qed


theorem cancelled_writer_loses_tail_witness:
  "\<exists>p0 p. new_pipeline test_recorder (NewWithConfig (\<lambda>_ _. 0) test_config) NewMemory = Some p0 \<and>
     runs (Some memory_ops) p0 p \<and> rdDone (plRecorder p) \<and> log_of (plStore p) (cfID test_config) = []"
  using test_pipeline cancelled_writer_loses_tail [OF _ test_store] runs.start by metis

end
