(* ===== verification/Stream.thy ===== *)
theory Stream
  imports Pipeline
begin

text \<open>
  The WebSocket handler (\<open>internal/transport/ws/handler.go\<close>): a connection subscribes to the hub,
  asks for a snapshot of the live state, sends it and then the subscribed events that are newer.
  Frames that reach the browser are a list; the connection breaking is the list ending early.

  The lemmas follow one connection through the interleavings of \<open>Pipeline\<close>.
\<close>

fun ws_loop :: "nat \<Rightarrow> event list \<Rightarrow> event list" where
  \<comment> \<open>the loop over the subscription; the first argument is \<open>lastSeq\<close>\<close>
  "ws_loop lastSeq [] = []"
| "ws_loop lastSeq (e # es) =
     (if evSequence e \<le> lastSeq \<and> evType e \<noteq> EventSimulationSnapshot then ws_loop lastSeq es
      else e # ws_loop (if evSequence e > lastSeq then evSequence e else lastSeq) es)"

definition ws_session :: "event \<Rightarrow> event list \<Rightarrow> event list" where
  \<comment> \<open>the frames of a connection that got this snapshot and then these events\<close>
  "ws_session snapshot es = snapshot # ws_loop (evSequence snapshot) es"

definition buffered :: "nat \<Rightarrow> 'db pipeline \<Rightarrow> event list" where
  "buffered i p = get_or [] (hbSubs (plHub p)) i"

inductive attached :: "'db store_ops option \<Rightarrow> nat \<Rightarrow> 'db pipeline \<Rightarrow> 'db pipeline \<Rightarrow> bool"
  for st :: "'db store_ops option" and i :: nat and p :: "'db pipeline" where
  \<comment> \<open>a run during which connection \<open>i\<close> stays subscribed\<close>
  here: "i \<in> set (keys (hbSubs (plHub p))) \<Longrightarrow> attached st i p p"
| stays: "attached st i p q \<Longrightarrow> pipeline_step st q r \<Longrightarrow> i \<in> set (keys (hbSubs (plHub r))) \<Longrightarrow> attached st i p r"

lemma attached_runs: "attached st i p q \<Longrightarrow> runs st p q"
  by (induction rule: attached.induct) (auto intro: runs.intros)

lemma runs_trans: "runs st p q \<Longrightarrow> runs st q r \<Longrightarrow> runs st p r"
  by (rotate_tac 1, induction rule: runs.induct) (auto intro: runs.intros)

lemma attached_keys: "attached st i p q \<Longrightarrow> i \<in> set (keys (hbSubs (plHub q)))"
  by (induction rule: attached.induct) auto

subsection \<open>One subscriber\<close>

lemma hub_relay_drops:
  assumes "map_of (hbSubs h) i = Some xs" "hbDropped (hub_relay e h) = hbDropped h"
  shows "hub_offer e xs = xs @ [e]"
proof -
  have "(i, xs) \<in> set (hbSubs h)" using assms(1) by (rule map_of_SomeD)
  then have "length xs < subCap" using assms(2) by (auto simp: hub_relay_def filter_empty_conv)
  then show ?thesis by (simp add: hub_offer_def)
qed

lemma dropped_mono: "pipeline_step st p q \<Longrightarrow> hbDropped (plHub p) \<le> hbDropped (plHub q)"
  unfolding pipeline_step_def
  by (elim disjE exE conjE; elim actor_step.cases forward_step.cases client_step.cases writer_step.cases;
      auto simp: hub_relay_def hub_close_def hub_subscribe_def hub_unsubscribe_def sub_receive_def set_writer_def
      split: option.splits list.splits)

lemma subscriber_step:
  assumes step: "pipeline_step st p q" and i: "map_of (hbSubs (plHub p)) i = Some xs" "i \<in> set (keys (hbSubs (plHub q)))"
    and none: "hbDropped (plHub q) = hbDropped (plHub p)"
  shows "\<exists>new. plRelayed q = plRelayed p @ new \<and> plGot q i @ buffered i q = plGot p i @ xs @ new"
proof -
  have quiet: "\<exists>new. plRelayed q = plRelayed p @ new \<and> plGot q i @ buffered i q = plGot p i @ xs @ new"
    if "plRelayed q = plRelayed p" "plGot q = plGot p" "hbSubs (plHub q) = hbSubs (plHub p)"
    using that i(1) by (simp add: buffered_def)
  from step consider (actor) "actor_step p q" | (forward) "forward_step (st \<noteq> None) p q" | (client) "client_step (st \<noteq> None) p q"
    | (writer) ops where "writer_step ops p q" unfolding pipeline_step_def by blast
  then show ?thesis
  proof cases
    case actor
    then show ?thesis by cases (rule quiet; simp)+
  next
    case writer
    then show ?thesis by cases (rule quiet; simp add: set_writer_def)+
  next
    case forward
    then show ?thesis
    proof cases
      case (relay e es)
      have "hub_offer e xs = xs @ [e]" using hub_relay_drops [OF i(1), of e] none relay(1) by simp
      then show ?thesis using relay(1) i(1) by (auto simp: buffered_def get_or_def relay_subs)
    qed (rule quiet; simp)+
  next
    case client
    then show ?thesis
    proof cases
      case (subscribe j)
      then have "j \<noteq> i" using i(1) in_keys_iff by metis
      then show ?thesis using subscribe(1) i(1) by (simp add: buffered_def get_or_def hub_subscribe_def map_of_update)
    next
      case (unsubscribe j)
      then have "j \<noteq> i" using i(2) by (auto simp: hub_unsubscribe_def)
      then show ?thesis using unsubscribe(1) i(1) by (simp add: buffered_def get_or_def hub_unsubscribe_def map_of_delete)
    next
      case (receive j e h)
      then obtain es where "map_of (hbSubs (plHub p)) j = Some (e # es)" "hbSubs h = AList.update j es (hbSubs (plHub p))"
        by (auto simp: sub_receive_def split: option.splits list.splits)
      then show ?thesis using receive(1) i(1) by (auto simp: buffered_def get_or_def map_of_update)
    qed (rule quiet; simp add: hub_close_def)+
  qed
qed

lemma subscriber_follows:
  assumes "attached st i p q" "hbDropped (plHub q) = hbDropped (plHub p)"
  shows "\<exists>new. plRelayed q = plRelayed p @ new \<and> plGot q i @ buffered i q = plGot p i @ buffered i p @ new"
  using assms
proof (induction rule: attached.induct)
  case (stays q r)
  have "hbDropped (plHub p) \<le> hbDropped (plHub q)"
    using attached_runs [OF stays(1)] by (induction rule: runs.induct) (auto dest: dropped_mono)
  then have same: "hbDropped (plHub q) = hbDropped (plHub p)" "hbDropped (plHub r) = hbDropped (plHub q)"
    using dropped_mono [OF stays(2)] stays(5) by simp_all
  obtain xs where xs: "map_of (hbSubs (plHub q)) i = Some xs" using attached_keys [OF stays(1)] unfolding in_keys_iff by blast
  then have "buffered i q = xs" by (simp add: buffered_def)
  then show ?case
    using stays.IH [OF same(1)] subscriber_step [OF stays(2) xs stays(3) same(2)] by auto
qed auto

subsection \<open>What the browser sees\<close>

abbreviation facts_only :: "event list \<Rightarrow> event list" where
  "facts_only es \<equiv> filter (\<lambda>e. evType e \<noteq> EventSimulationSnapshot) es"

lemma ws_loop_old: "\<forall>e \<in> set es. evSequence e \<le> k \<Longrightarrow> ws_loop k (es @ fs) = filter (\<lambda>e. evType e = EventSimulationSnapshot) es @ ws_loop k fs"
  by (induction es) auto

lemma ws_loop_new: "sorted_wrt (<) (map evSequence es) \<Longrightarrow> \<forall>e \<in> set es. k < evSequence e \<Longrightarrow> ws_loop k es = es"
  by (induction es arbitrary: k) auto

lemma numbered_split:
  assumes "map evSequence xs = [Suc n..<Suc (n + length xs)]" "n \<le> k"
  shows "facts_only (ws_loop k xs) = facts_only (drop (k - n) xs)"
proof -
  have at: "evSequence (xs ! j) = Suc n + j" if "j < length xs" for j
    using that nth_map [of j xs evSequence] unfolding assms(1) by (simp del: upt_Suc)
  have old: "\<forall>e \<in> set (take (k - n) xs). evSequence e \<le> k"
    by (auto simp: in_set_conv_nth at min_def split: if_splits)
  have new: "\<forall>e \<in> set (drop (k - n) xs). k < evSequence e"
    using assms(2) by (auto simp: in_set_conv_nth at)
  have "sorted_wrt (<) (map evSequence xs)" unfolding assms(1) by (simp del: upt_Suc)
  then have "sorted_wrt (<) (map evSequence (drop (k - n) xs))"
    unfolding drop_map [symmetric] by (rule sorted_wrt_drop)
  then have "ws_loop k xs = filter (\<lambda>e. evType e = EventSimulationSnapshot) (take (k - n) xs) @ drop (k - n) xs"
    using ws_loop_old [OF old, of "drop (k - n) xs"] ws_loop_new [OF _ new] by simp
  then show ?thesis by simp
qed

lemma attached_trans:
  assumes "attached st i p q" "attached st i q r"
  shows "attached st i p r"
  using assms(2,1)
proof (induction rule: attached.induct)
  case (stays r u)
  show ?case by (rule attached.stays [OF stays.IH [OF stays.prems] stays(2,3)])
qed

lemma runs_drops: "runs st p q \<Longrightarrow> hbDropped (plHub p) \<le> hbDropped (plHub q)"
  by (induction rule: runs.induct) (auto dest: dropped_mono)

definition subscribed :: "nat \<Rightarrow> 'db pipeline \<Rightarrow> 'db pipeline" where
  \<comment> \<open>the run once connection \<open>i\<close> has subscribed\<close>
  "subscribed i p = p\<lparr>plHub := hub_subscribe i (plHub p), plGot := (plGot p)(i := [])\<rparr>"

lemma subscribed_step:
  "\<not> hbClosed (plHub p) \<Longrightarrow> i \<notin> set (keys (hbSubs (plHub p))) \<Longrightarrow> pipeline_step st p (subscribed i p)"
  unfolding subscribed_def pipeline_step_def by (blast intro: client_step.subscribe)

lemma subscribed_facts:
  "plRelayed (subscribed i p) = plRelayed p" "plGot (subscribed i p) i = []" "buffered i (subscribed i p) = []"
  "hbDropped (plHub (subscribed i p)) = hbDropped (plHub p)" "i \<in> set (keys (hbSubs (plHub (subscribed i p))))"
  by (simp_all add: subscribed_def hub_subscribe_def buffered_def get_or_def map_of_update)

text \<open>
  C8. A connection resumes without a gap and without a repeat: if it subscribes, takes its snapshot
  at sequence \<open>k\<close> some time later, and the hub dropped nothing meanwhile, then apart from snapshot
  events the frames after its snapshot are exactly the relayed events after the first \<open>k\<close>, in order,
  however the simulation, the recorder and the hub interleave with it.
\<close>

theorem ws_resume_gapless:
  assumes "new_pipeline cfg (NewWithConfig draws c) db = Some p0" and "runs st p0 p"
    and "\<not> hbClosed (plHub p)" and "i \<notin> set (keys (hbSubs (plHub p)))"
    and "attached st i (subscribed i p) q" and "actor_ready (plActor q)" and "attached st i q r"
    and "hbDropped (plHub r) = hbDropped (plHub p)"
  shows "facts_only (tl (ws_session (actor_query (plActor q)) (plGot r i @ buffered i r))) =
    facts_only (drop (evSequence (actor_query (plActor q))) (plRelayed r))"
proof -
  let ?k = "sSequence (acSim (plActor q))" and ?n = "length (plRelayed p)"
  note S = subscribed_facts [of i p]
  have k: "evSequence (actor_query (plActor q)) = ?k" by (simp add: actor_query_def buildSnapshotEvent_def)
  have start: "runs st p0 (subscribed i p)" by (rule runs.step [OF assms(2) subscribed_step [OF assms(3,4)]])
  have run_q: "runs st p0 q" by (rule runs_trans [OF start attached_runs [OF assms(5)]])
  have run_r: "runs st p0 r" by (rule runs_trans [OF run_q attached_runs [OF assms(7)]])
  have "hbDropped (plHub q) = hbDropped (plHub (subscribed i p))"
    using runs_drops [OF attached_runs [OF assms(5)]] runs_drops [OF attached_runs [OF assms(7)]] assms(8) S(4) by simp
  then obtain new1 where "plRelayed q = plRelayed p @ new1" using subscriber_follows [OF assms(5)] S(1) by auto
  then have nk: "?n \<le> ?k"
    using stream_invD(4) [OF live_inv(1) [OF assms(1) run_q]] by (simp add: log_of_run_def taken_def)
  obtain new where new: "plRelayed r = plRelayed p @ new" "plGot r i @ buffered i r = new"
    using subscriber_follows [OF attached_trans [OF assms(5,7)]] assms(8) S by auto
  have "map evSequence (plRelayed p @ new) = [1..<Suc (length (plRelayed p @ new))]"
  proof -
    note I = stream_invD(3,4) [OF live_inv(1) [OF assms(1) run_r]]
    have "map evSequence (plRelayed r) = take (length (plRelayed r)) (map evSequence (log_of_run r))"
      by (simp add: log_of_run_def taken_def)
    also have "\<dots> = [1..<Suc (length (plRelayed r))]"
      using I by (simp add: log_of_run_def taken_def take_upt del: upt_Suc)
    finally show ?thesis by (simp add: new(1) del: upt_Suc)
  qed
  then have "map evSequence new = drop ?n [1..<Suc (?n + length new)]" by (metis append_eq_conv_conj length_append length_map map_append)
  then have num: "map evSequence new = [Suc ?n..<Suc (?n + length new)]" by (simp add: drop_upt del: upt_Suc)
  show ?thesis using numbered_split [OF num nk] nk by (simp add: ws_session_def k new)
qed

theorem ws_resume_gapless_witness:
  "\<exists>p0 q. new_pipeline test_recorder (NewWithConfig (\<lambda>_ _. 0) test_config) NewMemory = Some p0 \<and>
     runs (Some memory_ops) p0 q \<and>
     facts_only (tl (ws_session (actor_query (plActor q)) (buffered 0 q))) = facts_only (drop (evSequence (actor_query (plActor q))) (plRelayed q))"
proof -
  obtain p0 where p0: "new_pipeline test_recorder (NewWithConfig (\<lambda>_ _. 0) test_config) NewMemory = Some p0"
    using test_pipeline by blast
  note P = new_pipeline_parts [OF p0]
  obtain e where e: "acPublishing (plActor p0) = [e]" using P(4) by blast
  let ?p = "p0\<lparr>plActor := actor_send (plActor p0)\<rparr>"
  have run: "runs (Some memory_ops) p0 ?p"
    using e P(3) by (intro runs.step [OF runs.start]) (auto simp: pipeline_step_def eventsCap_def intro!: forward_step.send)
  have hub: "plHub ?p = NewHub" using p0 by (auto simp: new_pipeline_def)
  have ready: "actor_ready (plActor (subscribed 0 ?p))"
    using p0 by (auto simp: subscribed_def actor_send_def actor_ready_def new_pipeline_def Run_start_def Start_def
        takePending_def emit_def NewWithConfig_def Let_def split: if_splits)
  have here: "attached (Some memory_ops) 0 (subscribed 0 ?p) (subscribed 0 ?p)"
    by (rule attached.here) (rule subscribed_facts(5))
  have "facts_only (tl (ws_session (actor_query (plActor (subscribed 0 ?p))) (plGot (subscribed 0 ?p) 0 @ buffered 0 (subscribed 0 ?p)))) =
      facts_only (drop (evSequence (actor_query (plActor (subscribed 0 ?p)))) (plRelayed (subscribed 0 ?p)))"
    by (rule ws_resume_gapless [OF p0 run _ _ here ready here]) (simp_all only: hub subscribed_facts, simp_all add: NewHub_def)
  moreover have "runs (Some memory_ops) p0 (subscribed 0 ?p)"
    by (rule runs.step [OF run subscribed_step]) (simp_all only: hub, simp_all add: NewHub_def)
  ultimately show ?thesis using p0 by (intro exI [of _ p0] exI [of _ "subscribed 0 ?p"]) (simp add: subscribed_facts)
qed

subsection \<open>A stale snapshot\<close>

lemma carry:
  \<comment> \<open>an event travels from the simulation's channel to the hub\<close>
  assumes "acEvents (plActor p) = e # es" "rdHolding (plRecorder p) = None" "rdOut (plRecorder p) = []"
    and "\<not> hbClosed (plHub p)" and i: "i \<in> set (keys (hbSubs (plHub p)))"
  shows "\<exists>q. attached st i p q \<and> plActor q = (plActor p)\<lparr>acEvents := es\<rparr> \<and> rdHolding (plRecorder q) = None \<and>
    rdOut (plRecorder q) = [] \<and> plHub q = hub_relay e (plHub p) \<and> plRelayed q = plRelayed p @ [e] \<and> plGot q = plGot p"
proof -
  let ?b = "st \<noteq> None"
  let ?p1 = "p\<lparr>plActor := (plActor p)\<lparr>acEvents := es\<rparr>, plRecorder := forward_take ?b e (plRecorder p)\<rparr>"
  let ?p2 = "?p1\<lparr>plRecorder := forward_put (plRecorder ?p1)\<rparr>"
  let ?p3 = "?p2\<lparr>plRecorder := (plRecorder ?p2)\<lparr>rdOut := []\<rparr>, plHub := hub_relay e (plHub ?p2), plRelayed := plRelayed ?p2 @ [e]\<rparr>"
  have r: "rdHolding (plRecorder ?p1) = Some e" "rdOut (plRecorder ?p1) = []" using assms(3) by (simp_all add: forward_take_facts)
  then have r2: "rdOut (plRecorder ?p2) = [e]" "rdHolding (plRecorder ?p2) = None" by (simp_all add: forward_put_def)
  have s1: "pipeline_step st p ?p1" unfolding pipeline_step_def using forward_step.take [OF assms(1,2)] by blast
  have s2: "pipeline_step st ?p1 ?p2" unfolding pipeline_step_def using forward_step.put [of ?p1] r by (simp add: eventsCap_def)
  have s3: "pipeline_step st ?p2 ?p3" unfolding pipeline_step_def using forward_step.relay [OF r2(1)] assms(4) by simp
  have keys: "i \<in> set (keys (hbSubs (plHub ?p1)))" "i \<in> set (keys (hbSubs (plHub ?p2)))" "i \<in> set (keys (hbSubs (plHub ?p3)))"
    using i by (simp_all add: hub_relay_def case_prod_unfold image_image)
  have "attached st i p ?p3"
    by (rule attached.stays [OF attached.stays [OF attached.stays [OF attached.here [OF i] s1 keys(1)] s2 keys(2)] s3 keys(3)])
  then show ?thesis using r2(2) by (intro exI [of _ ?p3]) simp
qed

lemma new_pipeline_actor:
  assumes "new_pipeline cfg (NewWithConfig draws c) db = Some p"
  shows "plActor p = \<lparr>acSim = (NewWithConfig draws c)\<lparr>sSequence := 1\<rparr>, acCommands = [],
      acPublishing = sEvents (emit EventSimulationSnapshot (snapshotPayload (NewWithConfig draws c)) (NewWithConfig draws c)),
      acReset = False, acEvents = [], acStopped = False\<rparr>"
  using assms
  by (auto simp: new_pipeline_def Run_start_def Start_def takePending_def emit_def NewWithConfig_def Let_def split: if_splits)

text \<open>
  C9.  A reconnecting browser can be left with an old state: snapshot events are passed on whatever
  their number, so when the run's opening snapshot is still on its way, the connection sends its
  own newer snapshot first and then the older one, and skips the event in between.  Here the run
  is paused, the connection's snapshot says so, and the last frame is the snapshot from before.
\<close>

theorem reconnect_shows_stale_state:
  assumes "new_pipeline cfg (NewWithConfig draws c) db = Some p0"
  shows "\<exists>p q e. runs st p0 p \<and> actor_ready (plActor p) \<and> sPaused (acSim (plActor p)) \<and> attached st 0 p q \<and>
    hbDropped (plHub q) = 0 \<and> plRelayed q = log_of_run q \<and> acSim (plActor q) = acSim (plActor p) \<and>
    ws_session (actor_query (plActor p)) (plGot q 0 @ buffered 0 q) = [actor_query (plActor p), e] \<and>
    evSequence e < evSequence (actor_query (plActor p)) \<and> evPayload e = snapshotPayload (NewWithConfig draws c) \<and>
    \<not> sPaused (NewWithConfig draws c)"
proof -
  let ?s = "NewWithConfig draws c"
  note A = new_pipeline_actor [OF assms] and P = new_pipeline_parts [OF assms]
  define e1 where "e1 = hd (sEvents (emit EventSimulationSnapshot (snapshotPayload ?s) ?s))"
  define e2 where "e2 = hd (sEvents (emit EventSimulationPaused (JObj [(''paused'', JBool True)]) (?s\<lparr>sSequence := 1, sPaused := True\<rparr>)))"
  have e1: "acPublishing (plActor p0) = [e1]" "evSequence e1 = 1" "evType e1 = EventSimulationSnapshot" "evPayload e1 = snapshotPayload ?s"
    unfolding A e1_def by (simp_all add: emit_def NewWithConfig_fresh)
  have e2: "evSequence e2 = 2" "evType e2 = EventSimulationPaused" by (simp_all add: e2_def emit_def NewWithConfig_fresh)
  let ?p1 = "p0\<lparr>plActor := actor_send (plActor p0)\<rparr>"
  let ?p2 = "?p1\<lparr>plActor := snd (TrySubmitCtx [] (SetPaused True) (plActor ?p1))\<rparr>"
  let ?a3 = "\<lparr>acSim = ?s\<lparr>sSequence := 2, sPaused := True\<rparr>, acCommands = [], acPublishing = [e2], acReset = False,
      acEvents = [e1], acStopped = False\<rparr>"
  let ?p3 = "?p2\<lparr>plActor := ?a3\<rparr>"
  let ?p4 = "?p3\<lparr>plActor := actor_send ?a3\<rparr>"
  let ?p5 = "subscribed 0 ?p4"
  have a2: "plActor ?p2 = \<lparr>acSim = ?s\<lparr>sSequence := 1\<rparr>, acCommands = [(SetPaused True, [])], acPublishing = [],
      acReset = False, acEvents = [e1], acStopped = False\<rparr>"
    using e1(1) by (simp add: A actor_send_def TrySubmitCtx_def commandsCap_def)
  have c3: "actor_command 0 (plActor ?p2) = Some ?a3"
    unfolding a2 by (simp add: actor_command_def handleTraced_def handle_def takePending_def emit_def e2_def NewWithConfig_fresh)
  have "pipeline_step st p0 ?p1" unfolding pipeline_step_def using forward_step.send [of p0] e1(1) P(3) by (simp add: eventsCap_def)
  moreover have "pipeline_step st ?p1 ?p2" unfolding pipeline_step_def using actor_step.submit by blast
  moreover have "pipeline_step st ?p2 ?p3"
    unfolding pipeline_step_def using actor_step.command [OF _ _ c3] a2 by (simp add: actor_ready_def)
  moreover have "pipeline_step st ?p3 ?p4" unfolding pipeline_step_def using forward_step.send [of ?p3] by (simp add: eventsCap_def)
  moreover have hub: "plHub ?p4 = NewHub" using assms by (auto simp: new_pipeline_def)
  then have "pipeline_step st ?p4 ?p5" by (intro subscribed_step) (simp_all add: NewHub_def)
  ultimately have run: "runs st p0 ?p5" by (intro runs.step [OF runs.step [OF runs.step [OF runs.step [OF runs.step [OF runs.start]]]]])
  have a5: "plActor ?p5 = ?a3\<lparr>acPublishing := [], acEvents := [e1, e2]\<rparr>" by (simp add: subscribed_def actor_send_def)
  have h5: "plHub ?p5 = \<lparr>hbSubs = [(0, [])], hbClosed = False, hbDropped = 0\<rparr>" "plGot ?p5 0 = []" "plRelayed ?p5 = []"
    "rdHolding (plRecorder ?p5) = None" "rdOut (plRecorder ?p5) = []"
    using P hub by (simp_all add: subscribed_def hub_subscribe_def NewHub_def NewRecorder_def)
  obtain p5 where p5: "runs st p0 p5" "plActor p5 = ?a3\<lparr>acPublishing := [], acEvents := [e1, e2]\<rparr>"
    "plHub p5 = \<lparr>hbSubs = [(0, [])], hbClosed = False, hbDropped = 0\<rparr>" "plGot p5 0 = []" "plRelayed p5 = []"
    "rdHolding (plRecorder p5) = None" "rdOut (plRecorder p5) = []"
    using run a5 h5 by blast
  have "acEvents (plActor p5) = [e1, e2]" "\<not> hbClosed (plHub p5)" "0 \<in> set (keys (hbSubs (plHub p5)))" using p5 by simp_all
  from carry [OF this(1) p5(6,7) this(2,3)]
  obtain p6 where p6: "attached st 0 p5 p6" "plActor p6 = (plActor p5)\<lparr>acEvents := [e2]\<rparr>" "rdHolding (plRecorder p6) = None"
    "rdOut (plRecorder p6) = []" "plHub p6 = hub_relay e1 (plHub p5)" "plRelayed p6 = plRelayed p5 @ [e1]" "plGot p6 = plGot p5"
    by blast
  have h6: "plHub p6 = \<lparr>hbSubs = [(0, [e1])], hbClosed = False, hbDropped = 0\<rparr>"
    unfolding p6(5) p5(3) by (simp add: hub_relay_def hub_offer_def subCap_def)
  have "acEvents (plActor p6) = [e2]" "\<not> hbClosed (plHub p6)" "0 \<in> set (keys (hbSubs (plHub p6)))" using h6 p6(2) by simp_all
  from carry [OF this(1) p6(3,4) this(2,3)]
  obtain q where q: "attached st 0 p6 q" "plActor q = (plActor p6)\<lparr>acEvents := []\<rparr>" "rdHolding (plRecorder q) = None"
    "rdOut (plRecorder q) = []" "plHub q = hub_relay e2 (plHub p6)" "plRelayed q = plRelayed p6 @ [e2]" "plGot q = plGot p6"
    by blast
  have hq: "plHub q = \<lparr>hbSubs = [(0, [e1, e2])], hbClosed = False, hbDropped = 0\<rparr>"
    unfolding q(5) h6 by (simp add: hub_relay_def hub_offer_def subCap_def)
  have snap: "evSequence (actor_query (plActor p5)) = 2" by (simp add: p5(2) actor_query_def buildSnapshotEvent_def)
  have "attached st 0 p5 q" by (rule attached_trans [OF p6(1) q(1)])
  moreover have "ws_session (actor_query (plActor p5)) (plGot q 0 @ buffered 0 q) = [actor_query (plActor p5), e1]"
    using q(7) p6(7) p5(4) e1 e2 by (simp add: ws_session_def hq buffered_def get_or_def snap)
  moreover have "actor_ready (plActor p5)" "sPaused (acSim (plActor p5))" "evSequence e1 < evSequence (actor_query (plActor p5))"
    using e1(2) snap by (simp_all add: p5(2) actor_ready_def)
  moreover have "plRelayed q = log_of_run q" "acSim (plActor q) = acSim (plActor p5)" "hbDropped (plHub q) = 0"
    using q(2,3,4) p6(2) p5(2) hq by (simp_all add: log_of_run_def taken_def)
  moreover have "\<not> sPaused ?s" by (simp add: NewWithConfig_def Let_def)
  ultimately show ?thesis using p5(1) e1(4) by blast
qed

theorem reconnect_shows_stale_state_witness:
  "\<exists>p0 p q. new_pipeline test_recorder (NewWithConfig (\<lambda>_ _. 0) test_config) NewMemory = Some p0 \<and>
     runs (Some memory_ops) p0 p \<and> sPaused (acSim (plActor p)) \<and> attached (Some memory_ops) 0 p q \<and>
     length (ws_session (actor_query (plActor p)) (plGot q 0 @ buffered 0 q)) = 2"
proof -
  obtain p0 where p0: "new_pipeline test_recorder (NewWithConfig (\<lambda>_ _. 0) test_config) NewMemory = Some p0"
    using test_pipeline by blast
  obtain p q e where "runs (Some memory_ops) p0 p" "sPaused (acSim (plActor p))" "attached (Some memory_ops) 0 p q"
    "ws_session (actor_query (plActor p)) (plGot q 0 @ buffered 0 q) = [actor_query (plActor p), e]"
    using reconnect_shows_stale_state [OF p0, of "Some memory_ops"] by blast
  then show ?thesis using p0 by (metis length_Cons list.size(3) numeral_2_eq_2)
qed

subsection \<open>A speed that stops the process\<close>

text \<open>
  A speed multiplier above the tick interval in nanoseconds kills the process: the command is
  accepted and published, and the reset of the ticker that follows panics, on the goroutine of the
  simulation, where nothing recovers.
\<close>

theorem extreme_speed_panics:
  assumes "actor_ready a" and "acCommands a = (SetSpeed m, trace) # rest" and "m > of_int tickInterval" and "sSpeed (acSim a) = 1"
  shows "\<exists>b. actor_command ms a = Some b \<and> acReset b \<and> actor_reset (b\<lparr>acPublishing := []\<rparr>) = None"
proof -
  have m: "0 < m" "m \<noteq> 1" "of_int tickInterval / m < 1" "0 \<le> of_int tickInterval / m"
    using assms(3) by (simp_all add: tickInterval_def field_simps)
  then have "\<lfloor>of_int tickInterval / m\<rfloor> = 0" by linarith
  then show ?thesis
    using assms(1,2,4) m
    by (auto simp: actor_command_def handleTraced_def handle_def takePending_def emit_def actor_reset_def tickDuration_def)
qed

theorem extreme_speed_panics_witness:
  "\<exists>b. actor_command 0 (the (Run_start (New (\<lambda>_ _. 0) ''sim'' 7 3))\<lparr>acPublishing := [], acCommands := [(SetSpeed (10 ^ 9), [])]\<rparr>) = Some b \<and>
     actor_reset (b\<lparr>acPublishing := []\<rparr>) = None"
proof -
  let ?s = "New (\<lambda>_ _. 0) ''sim'' 7 3"
  have "sSpeed ?s = 1" by (simp add: New_def NewWithConfig_def Let_def)
  then obtain a where "Run_start ?s = Some a" "sSpeed (acSim a) = 1" "\<not> acStopped a" "\<not> acReset a"
    by (auto simp: Run_start_def tickDuration_def tickInterval_def Start_def takePending_def emit_def)
  then show ?thesis
    using extreme_speed_panics [of "a\<lparr>acPublishing := [], acCommands := [(SetSpeed (10 ^ 9), [])]\<rparr>" "10 ^ 9" "[]" "[]" 0]
    by (auto simp: actor_ready_def tickInterval_def)
qed

end
