(* ===== verification/Sessions.thy ===== *)
theory Sessions
  imports Store_Interface
begin

text \<open>
  Guest sessions (\<open>internal/service/sessions.go\<close>) and the retention sweep (\<open>retention.go\<close>).  The
  service works against a store or, without one, against its own map; \<open>st\<close> is the store (\<open>None\<close>:
  nil) and the state is the service with the database.  Clock readings and the random token are
  arguments.  Each method is modelled as one step.
\<close>

datatype service_error = ErrNoSession | ErrForbidden | ErrQuota | ErrNotFound | ErrCapacity | ErrBusy | ErrOrderLimit
  | ErrStore store_error | ErrRandom

definition Hour :: int where "Hour = 3600 * 10 ^ 9"
definition DefaultSessionTTL :: int where "DefaultSessionTTL = Hour"
definition DefaultRunTTL :: int where "DefaultRunTTL = 2 * Hour"
definition DefaultSessionQuota :: int where "DefaultSessionQuota = 3"
definition touchInterval :: int where "touchInterval = 60 * 10 ^ 9"

record sessions =
  ssTTL :: int
  ssRunTTL :: int
  ssQuota :: int
  ssFallback :: "(string, guest_session) gomap"
  ssTouched :: "(string, timestamp) gomap"

definition NewSessions :: "int \<Rightarrow> int \<Rightarrow> int \<Rightarrow> sessions" where
  "NewSessions ttl runTTL quota = \<lparr>ssTTL = (if ttl \<le> 0 then DefaultSessionTTL else ttl),
     ssRunTTL = (if runTTL \<le> 0 then DefaultRunTTL else runTTL),
     ssQuota = (if quota \<le> 0 then DefaultSessionQuota else quota), ssFallback = [], ssTouched = []\<rparr>"

definition Issue :: "'db store_ops option \<Rightarrow> string option \<Rightarrow> timestamp \<Rightarrow> sessions \<times> 'db \<Rightarrow>
    (service_error + guest_session) \<times> (sessions \<times> 'db)" where
  \<comment> \<open>the token is what \<open>generateToken\<close> returned, \<open>None\<close> its error\<close>
  "Issue st token now = (\<lambda>(s, db).
     case token of
       None \<Rightarrow> (Inl ErrRandom, (s, db))
     | Some t \<Rightarrow>
         let session = \<lparr>gsToken = t, gsCreatedAt = now, gsLastSeenAt = now, gsExpiresAt = now + ssTTL s\<rparr>
         in case st of
              None \<Rightarrow> (Inr session, (s\<lparr>ssFallback := AList.update t session (ssFallback s)\<rparr>, db))
            | Some ops \<Rightarrow>
                (case opCreateGuestSession ops session db of
                   (Inl e, db1) \<Rightarrow> (Inl (ErrStore e), (s, db1))
                 | (Inr _, db1) \<Rightarrow> (Inr session, (s, db1))))"

definition session_lookup :: "'db store_ops option \<Rightarrow> string \<Rightarrow> sessions \<times> 'db \<Rightarrow> service_error + guest_session" where
  "session_lookup st token = (\<lambda>(s, db).
     case st of
       None \<Rightarrow> (case map_of (ssFallback s) token of None \<Rightarrow> Inl ErrNoSession | Some g \<Rightarrow> Inr g)
     | Some ops \<Rightarrow>
         (case opGetGuestSession ops token db of
            Inl StoreNotFound \<Rightarrow> Inl ErrNoSession
          | Inl e \<Rightarrow> Inl (ErrStore e)
          | Inr g \<Rightarrow> Inr g))"

definition recently_touched :: "timestamp \<Rightarrow> string \<Rightarrow> sessions \<Rightarrow> bool" where
  \<comment> \<open>a token that was never touched reads as the zero time, which is long ago\<close>
  "recently_touched now token s =
     (case map_of (ssTouched s) token of None \<Rightarrow> False | Some u \<Rightarrow> now - u < touchInterval)"

definition extend :: "'db store_ops option \<Rightarrow> guest_session \<Rightarrow> timestamp \<Rightarrow> sessions \<times> 'db \<Rightarrow> guest_session \<times> (sessions \<times> 'db)" where
  "extend st g now = (\<lambda>(s, db).
     if recently_touched now (gsToken g) s then (g, (s, db))
     else
       let s1 = s\<lparr>ssTouched := AList.update (gsToken g) now (ssTouched s)\<rparr>;
           g1 = g\<lparr>gsLastSeenAt := now, gsExpiresAt := now + ssTTL s\<rparr>
       in case st of
            None \<Rightarrow> (g1, (s1\<lparr>ssFallback := AList.update (gsToken g) g1 (ssFallback s1)\<rparr>, db))
          | Some ops \<Rightarrow> (g1, (s1, snd (opTouchGuestSession ops (gsToken g) now (now + ssTTL s) db))))"

definition Validate :: "'db store_ops option \<Rightarrow> string \<Rightarrow> timestamp \<Rightarrow> sessions \<times> 'db \<Rightarrow>
    (service_error + guest_session) \<times> (sessions \<times> 'db)" where
  "Validate st token now w =
     (if token = '''' then (Inl ErrNoSession, w)
      else case session_lookup st token w of
             Inl e \<Rightarrow> (Inl e, w)
           | Inr g \<Rightarrow>
               if Expired g now then (Inl ErrNoSession, w)
               else let (g1, w1) = extend st g now w in (Inr g1, w1))"

definition CheckQuota :: "'db store_ops option \<Rightarrow> string \<Rightarrow> int \<Rightarrow> sessions \<times> 'db \<Rightarrow> service_error option" where
  "CheckQuota st token held = (\<lambda>(s, db).
     if held \<ge> ssQuota s then Some ErrQuota
     else case st of
            None \<Rightarrow> None
          | Some ops \<Rightarrow>
              (case opCountSimulationsForToken ops token db of
                 Inl _ \<Rightarrow> None
               | Inr stored \<Rightarrow> if int stored \<ge> ssQuota s then Some ErrQuota else None))"

definition Forget :: "string \<Rightarrow> sessions \<Rightarrow> sessions" where
  "Forget token s = s\<lparr>ssFallback := AList.delete token (ssFallback s), ssTouched := AList.delete token (ssTouched s)\<rparr>"

definition purge_one :: "timestamp \<Rightarrow> sessions \<times> int \<Rightarrow> string \<times> guest_session \<Rightarrow> sessions \<times> int" where
  "purge_one now = (\<lambda>(s, removed) (token, g).
     if Expired g now then (Forget token s, removed + 1) else (s, removed))"

definition PurgeFallback :: "timestamp \<Rightarrow> sessions \<Rightarrow> int \<times> sessions" where
  "PurgeFallback now s = (let (s1, removed) = foldl (purge_one now) (s, 0) (ssFallback s) in (removed, s1))"

definition Sweep :: "'db store_ops option \<Rightarrow> timestamp \<Rightarrow> sessions \<times> 'db \<Rightarrow> purge_result \<times> (sessions \<times> 'db)" where
  \<comment> \<open>\<open>Retention.Sweep\<close> with a session service\<close>
  "Sweep st now = (\<lambda>(s, db).
     case st of
       None \<Rightarrow> (let (removed, s1) = PurgeFallback now s in (\<lparr>prSimulations = 0, prSessions = nat removed\<rparr>, (s1, db)))
     | Some ops \<Rightarrow>
         (case opPurgeExpired ops now db of
            (Inl _, db1) \<Rightarrow> (\<lparr>prSimulations = 0, prSessions = 0\<rparr>, (s, db1))
          | (Inr result, db1) \<Rightarrow> (result, (s, db1))))"

definition DefaultSweepInterval :: int where "DefaultSweepInterval = 5 * 60 * 10 ^ 9"

definition retention_interval :: "int \<Rightarrow> int" where
  \<comment> \<open>the interval \<open>NewRetention\<close> settles on\<close>
  "retention_interval i = (if i \<le> 0 then DefaultSweepInterval else i)"

subsection \<open>The sessions as a map\<close>

definition session_row :: "('db \<Rightarrow> string \<Rightarrow> guest_session option) \<Rightarrow> 'db store_ops option \<Rightarrow> sessions \<times> 'db \<Rightarrow> string \<Rightarrow> guest_session option" where
  \<comment> \<open>the session of a token, wherever it is kept\<close>
  "session_row rows st w = (case st of None \<Rightarrow> map_of (ssFallback (fst w)) | Some _ \<Rightarrow> rows (snd w))"

definition sessions_ok :: "('db \<Rightarrow> bool) \<Rightarrow> ('db \<Rightarrow> string \<Rightarrow> guest_session option) \<Rightarrow> 'db store_ops option \<Rightarrow> timestamp \<Rightarrow> sessions \<times> 'db \<Rightarrow> bool" where
  \<comment> \<open>no token was touched after the given time, and a touched session lives for its time-to-live since\<close>
  "sessions_ok valid rows st now w \<longleftrightarrow> valid (snd w) \<and> distinct_keys (ssFallback (fst w)) \<and> 0 < ssTTL (fst w) \<and>
     (\<forall>token g. session_row rows st w token = Some g \<longrightarrow> gsToken g = token) \<and>
     (\<forall>token u. map_of (ssTouched (fst w)) token = Some u \<longrightarrow> u \<le> now \<and>
        (\<forall>g. session_row rows st w token = Some g \<longrightarrow> u + ssTTL (fst w) \<le> gsExpiresAt g))"

lemma sessions_okD:
  assumes "sessions_ok valid rows st now w"
  shows "valid (snd w)" "distinct_keys (ssFallback (fst w))" "0 < ssTTL (fst w)"
    "session_row rows st w token = Some g \<Longrightarrow> gsToken g = token"
    "map_of (ssTouched (fst w)) token = Some u \<Longrightarrow> u \<le> now"
    "map_of (ssTouched (fst w)) token = Some u \<Longrightarrow> session_row rows st w token = Some g \<Longrightarrow> u + ssTTL (fst w) \<le> gsExpiresAt g"
  using assms unfolding sessions_ok_def by blast+

lemma purge_fold:
  assumes "distinct_keys xs" "distinct_keys (ssFallback s)"
  shows "map_of (ssFallback (fst (foldl (purge_one now) (s, n) xs))) token =
      (if \<exists>g. map_of xs token = Some g \<and> Expired g now then None else map_of (ssFallback s) token) \<and>
    distinct_keys (ssFallback (fst (foldl (purge_one now) (s, n) xs))) \<and>
    ssTTL (fst (foldl (purge_one now) (s, n) xs)) = ssTTL s \<and>
    map_of (ssTouched (fst (foldl (purge_one now) (s, n) xs))) token =
      (if \<exists>g. map_of xs token = Some g \<and> Expired g now then None else map_of (ssTouched s) token)"
  using assms
proof (induction xs arbitrary: s n)
  case (Cons x xs)
  obtain k g where x: "x = (k, g)" by force
  have k: "map_of xs k = None" using Cons.prems(1) x by (simp add: map_of_eq_None_iff)
  show ?case
  proof (cases "Expired g now")
    case True
    have "distinct_keys (ssFallback (Forget k s))" using Cons.prems(2) by (simp add: Forget_def)
    with Cons.IH [of "Forget k s" "n + 1"] Cons.prems(1) True k show ?thesis
      by (auto simp: x purge_one_def Forget_def map_of_delete split: if_splits)
  next
    case False
    with Cons.IH [of s n] Cons.prems k show ?thesis by (auto simp: x purge_one_def split: if_splits)
  qed
qed simp

lemma PurgeFallback_effect:
  fixes now :: timestamp
  assumes "distinct_keys (ssFallback s)"
  defines "s1 \<equiv> snd (PurgeFallback now s)"
  shows "map_of (ssFallback s1) = (\<lambda>token. case map_of (ssFallback s) token of None \<Rightarrow> None | Some g \<Rightarrow> if Expired g now then None else Some g)"
    "distinct_keys (ssFallback s1)" "ssTTL s1 = ssTTL s"
    "map_of (ssTouched s1) token =
      (if \<exists>g. map_of (ssFallback s) token = Some g \<and> Expired g now then None else map_of (ssTouched s) token)"
proof -
  have s1: "s1 = fst (foldl (purge_one now) (s, 0) (ssFallback s))"
    by (simp add: s1_def PurgeFallback_def case_prod_unfold Let_def)
  note F = purge_fold [OF assms(1,1), of now 0, folded s1]
  show "map_of (ssFallback s1) = (\<lambda>token. case map_of (ssFallback s) token of None \<Rightarrow> None | Some g \<Rightarrow> if Expired g now then None else Some g)"
    using F by (auto simp: fun_eq_iff split: option.splits)
  show "distinct_keys (ssFallback s1)" "ssTTL s1 = ssTTL s" using F by blast+
  show "map_of (ssTouched s1) token =
      (if \<exists>g. map_of (ssFallback s) token = Some g \<and> Expired g now then None else map_of (ssTouched s) token)"
    using F by blast
qed

datatype session_call = CallIssue string timestamp | CallValidate string timestamp | CallSweep timestamp

fun call_time :: "session_call \<Rightarrow> timestamp" where
  "call_time (CallIssue _ t) = t" | "call_time (CallValidate _ t) = t" | "call_time (CallSweep t) = t"

fun session_call_run :: "'db store_ops option \<Rightarrow> session_call \<Rightarrow> sessions \<times> 'db \<Rightarrow> sessions \<times> 'db" where
  "session_call_run st (CallIssue token t) w = snd (Issue st (Some token) t w)"
| "session_call_run st (CallValidate token t) w = snd (Validate st token t w)"
| "session_call_run st (CallSweep t) w = snd (Sweep st t w)"

definition session_calls :: "'db store_ops option \<Rightarrow> session_call list \<Rightarrow> sessions \<times> 'db \<Rightarrow> sessions \<times> 'db" where
  "session_calls st cs w = foldl (\<lambda>w c. session_call_run st c w) w cs"

subsection \<open>Any store that keeps its contract\<close>

context session_store
begin

lemma lookup_row:
  assumes "st = None \<or> st = Some ops" "sessions_ok valid rows st now w"
  shows "session_lookup st token w = (case session_row rows st w token of None \<Rightarrow> Inl ErrNoSession | Some g \<Rightarrow> Inr g)"
  using assms get [of "snd w" token] sessions_okD(1) [OF assms(2)]
  by (cases w) (auto simp: session_lookup_def session_row_def split: option.splits)

lemma issue_effect:
  fixes t :: timestamp and token :: string
  assumes "st = None \<or> st = Some ops" "sessions_ok valid rows st now w" "now \<le> t"
  defines "w1 \<equiv> snd (Issue st (Some token) t w)"
  shows "sessions_ok valid rows st t w1" "ssTTL (fst w1) = ssTTL (fst w)"
    "session_row rows st w k = Some g \<Longrightarrow> \<exists>g1. session_row rows st w1 k = Some g1 \<and> (g1 = g \<or> gsExpiresAt g1 = t + ssTTL (fst w))"
proof -
  obtain s db where w: "w = (s, db)" by (cases w)
  note O = sessions_okD [OF assms(2), unfolded w, simplified]
  let ?g = "\<lparr>gsToken = token, gsCreatedAt = t, gsLastSeenAt = t, gsExpiresAt = t + ssTTL s\<rparr>"
  obtain fb where w1: "fst w1 = s\<lparr>ssFallback := fb\<rparr>" "distinct_keys fb" "valid (snd w1)"
    "session_row rows st w1 token = Some ?g \<or> session_row rows st w1 token = session_row rows st w token \<and> session_row rows st w token \<noteq> None"
    "\<And>k. k \<noteq> token \<Longrightarrow> session_row rows st w1 k = session_row rows st w k"
  proof (cases st)
    case None
    show ?thesis
      by (rule that [of "AList.update token ?g (ssFallback s)"])
        (use O None in \<open>auto simp: w1_def w Issue_def Let_def session_row_def map_of_update\<close>)
  next
    case (Some ops')
    then have ops: "ops' = ops" using assms(1) by simp
    have r: "fst (opCreateGuestSession ops ?g db) = Inr ()" "valid (snd (opCreateGuestSession ops ?g db))"
      "rows (snd (opCreateGuestSession ops ?g db)) = (if rows db token = None then (rows db)(token \<mapsto> ?g) else rows db)"
      using create [OF O(1), of ?g] by simp_all
    then have "w1 = (s, snd (opCreateGuestSession ops ?g db))"
      by (auto simp: w1_def w Issue_def Let_def Some ops split: prod.splits sum.splits)
    then show ?thesis
      using r O by (intro that [of "ssFallback s"]) (auto simp: session_row_def Some w)
  qed
  have touched: "ssTouched (fst w1) = ssTouched s" "ssTTL (fst w1) = ssTTL s" using w1(1) by simp_all
  then show "ssTTL (fst w1) = ssTTL (fst w)" by (simp add: w)
  have row: "session_row rows st w1 k = Some g1 \<Longrightarrow> g1 = ?g \<and> k = token \<or> session_row rows st w k = Some g1" for k g1
    using w1(4,5) by (cases "k = token") auto
  show "sessions_ok valid rows st t w1"
    unfolding sessions_ok_def touched
  proof (intro conjI allI impI)
    fix k u assume u: "map_of (ssTouched s) k = Some u"
    show "u \<le> t" using O(5) [OF u] assms(3) by simp
    fix g assume "session_row rows st w1 k = Some g"
    then show "u + ssTTL s \<le> gsExpiresAt g" using row [of k g] O(5,6) [OF u] assms(3) by (auto simp: w)
  next
    fix k g assume "session_row rows st w1 k = Some g"
    then show "gsToken g = k" using row [of k g] O(4) by (auto simp: w)
  qed (use w1 O in simp_all)
  show "\<exists>g1. session_row rows st w1 k = Some g1 \<and> (g1 = g \<or> gsExpiresAt g1 = t + ssTTL (fst w))"
    if "session_row rows st w k = Some g"
    using that w1(4,5) by (cases "k = token") (auto simp: w)
qed

lemma extend_effect:
  fixes t :: timestamp and g :: guest_session
  assumes "st = None \<or> st = Some ops" "sessions_ok valid rows st now w" "now \<le> t" "session_row rows st w token = Some g"
  defines "w1 \<equiv> snd (extend st g t w)"
  shows "sessions_ok valid rows st t w1" "ssTTL (fst w1) = ssTTL (fst w)"
    "\<exists>g1. session_row rows st w1 token = Some g1 \<and> t + ssTTL (fst w) - touchInterval \<le> gsExpiresAt g1"
    "session_row rows st w k = Some h \<Longrightarrow> \<exists>h1. session_row rows st w1 k = Some h1 \<and> (h1 = h \<or> gsExpiresAt h1 = t + ssTTL (fst w))"
proof -
  obtain s db where w: "w = (s, db)" by (cases w)
  note O = sessions_okD [OF assms(2), unfolded w, simplified]
  have tok: "gsToken g = token" using O(4) assms(4) by (simp add: w)
  have "sessions_ok valid rows st t w1 \<and> ssTTL (fst w1) = ssTTL s \<and>
    (\<exists>g1. session_row rows st w1 token = Some g1 \<and> t + ssTTL s - touchInterval \<le> gsExpiresAt g1) \<and>
    (\<forall>k h. session_row rows st w k = Some h \<longrightarrow> (\<exists>h1. session_row rows st w1 k = Some h1 \<and> (h1 = h \<or> gsExpiresAt h1 = t + ssTTL s)))"
  proof (cases "recently_touched t token s")
    case True
    then obtain u where u: "map_of (ssTouched s) token = Some u" "t - u < touchInterval"
      by (auto simp: recently_touched_def split: option.splits)
    have "w1 = w" using True by (simp add: w1_def w extend_def tok)
    moreover have "sessions_ok valid rows st t w" using assms(2,3) unfolding sessions_ok_def by fastforce
    ultimately show ?thesis using O(6) [OF u(1)] u(2) assms(4) by (auto simp: w)
  next
    case False
    let ?g = "g\<lparr>gsLastSeenAt := t, gsExpiresAt := t + ssTTL s\<rparr>"
    obtain fb where w1: "fst w1 = s\<lparr>ssTouched := AList.update token t (ssTouched s), ssFallback := fb\<rparr>" "distinct_keys fb"
      "valid (snd w1)" "session_row rows st w1 = (session_row rows st w)(token \<mapsto> ?g)"
    proof (cases st)
      case None
      show ?thesis
        by (rule that [of "AList.update token ?g (ssFallback s)"])
          (use O None False in \<open>auto simp: w1_def w extend_def tok Let_def session_row_def update_conv'\<close>)
    next
      case (Some ops')
      then have ops: "ops' = ops" using assms(1) by simp
      have "rows db token = Some g" using assms(4) by (simp add: session_row_def Some w)
      then show ?thesis
        using touch [OF O(1), of token t "t + ssTTL s"] O False
        by (intro that [of "ssFallback s"]) (auto simp: w1_def w extend_def tok Let_def session_row_def Some ops)
    qed
    have "sessions_ok valid rows st t w1"
      unfolding sessions_ok_def w1(4)
    proof (intro conjI allI impI)
      fix k u assume u: "map_of (ssTouched (fst w1)) k = Some u"
      then have u': "k = token \<and> u = t \<or> k \<noteq> token \<and> map_of (ssTouched s) k = Some u"
        by (auto simp: w1(1) map_of_update split: if_splits)
      then show "u \<le> t" using O(5) [of k u] assms(3) by auto
      fix h assume "((session_row rows st w)(token \<mapsto> ?g)) k = Some h"
      then show "u + ssTTL (fst w1) \<le> gsExpiresAt h" using u' O(6) [of k u h] by (auto simp: w1(1) w split: if_splits)
    qed (use w1(1-3) O tok in \<open>auto simp: w split: if_splits\<close>)
    then show ?thesis by (auto simp: w1 touchInterval_def)
  qed
  then show "sessions_ok valid rows st t w1" "ssTTL (fst w1) = ssTTL (fst w)"
    "\<exists>g1. session_row rows st w1 token = Some g1 \<and> t + ssTTL (fst w) - touchInterval \<le> gsExpiresAt g1"
    "session_row rows st w k = Some h \<Longrightarrow> \<exists>h1. session_row rows st w1 k = Some h1 \<and> (h1 = h \<or> gsExpiresAt h1 = t + ssTTL (fst w))"
    by (simp_all add: w)
qed

lemma validate_result:
  assumes "st = None \<or> st = Some ops" "sessions_ok valid rows st now w"
  shows "fst (Validate st token t w) =
    (case session_row rows st w token of
       None \<Rightarrow> Inl ErrNoSession
     | Some g \<Rightarrow> if token = [] \<or> Expired g t then Inl ErrNoSession else Inr (fst (extend st g t w)))"
    "snd (Validate st token t w) =
    (case session_row rows st w token of
       None \<Rightarrow> w
     | Some g \<Rightarrow> if token = [] \<or> Expired g t then w else snd (extend st g t w))"
  using lookup_row [OF assms] by (auto simp: Validate_def case_prod_unfold Let_def split: option.splits)

lemma sweep_effect:
  fixes t :: timestamp
  assumes "st = None \<or> st = Some ops" "sessions_ok valid rows st now w" "now \<le> t"
  defines "w1 \<equiv> snd (Sweep st t w)"
  shows "sessions_ok valid rows st t w1" "ssTTL (fst w1) = ssTTL (fst w)"
    "session_row rows st w1 k = (case session_row rows st w k of None \<Rightarrow> None | Some g \<Rightarrow> if Expired g t then None else Some g)"
    "map_of (ssTouched (fst w1)) k = Some u \<Longrightarrow> map_of (ssTouched (fst w)) k = Some u"
    "session_row rows st w k = Some g \<Longrightarrow> \<not> Expired g t \<Longrightarrow> map_of (ssTouched (fst w1)) k = map_of (ssTouched (fst w)) k"
proof -
  obtain s db where w: "w = (s, db)" by (cases w)
  note O = sessions_okD [OF assms(2), unfolded w, simplified]
  have W: "valid (snd w1) \<and> distinct_keys (ssFallback (fst w1)) \<and> ssTTL (fst w1) = ssTTL s \<and>
    session_row rows st w1 = (\<lambda>k. case session_row rows st w k of None \<Rightarrow> None | Some g \<Rightarrow> if Expired g t then None else Some g) \<and>
    (\<forall>k u. map_of (ssTouched (fst w1)) k = Some u \<longrightarrow> map_of (ssTouched s) k = Some u) \<and>
    (\<forall>k g. session_row rows st w k = Some g \<longrightarrow> \<not> Expired g t \<longrightarrow> map_of (ssTouched (fst w1)) k = map_of (ssTouched s) k)"
  proof (cases st)
    case None
    then show ?thesis using PurgeFallback_effect [OF O(2), of t] O(1)
      by (auto simp: w1_def w Sweep_def case_prod_unfold Let_def session_row_def split: if_splits)
  next
    case (Some ops')
    then have ops: "ops' = ops" using assms(1) by simp
    have "w1 = (s, snd (opPurgeExpired ops t db))"
      by (auto simp: w1_def w Sweep_def Some ops split: prod.splits sum.splits)
    then show ?thesis using purge [OF O(1), of t] O by (simp add: session_row_def Some w)
  qed
  note W1 = conjunct2 [OF conjunct2 [OF W]]
  note W2 = conjunct1 [OF W1] and W3 = conjunct1 [OF conjunct2 [OF W1]]
    and W4 = conjunct1 [OF conjunct2 [OF conjunct2 [OF W1]]] and W5 = conjunct2 [OF conjunct2 [OF conjunct2 [OF W1]]]
  show "ssTTL (fst w1) = ssTTL (fst w)" using W2 by (simp add: w)
  show "session_row rows st w1 k = (case session_row rows st w k of None \<Rightarrow> None | Some g \<Rightarrow> if Expired g t then None else Some g)"
    by (rule fun_cong [OF W3])
  show "map_of (ssTouched (fst w1)) k = Some u \<Longrightarrow> map_of (ssTouched (fst w)) k = Some u" using W4 by (simp add: w)
  show "session_row rows st w k = Some g \<Longrightarrow> \<not> Expired g t \<Longrightarrow> map_of (ssTouched (fst w1)) k = map_of (ssTouched (fst w)) k"
    using W5 by (simp add: w)
  have row: "session_row rows st w1 k = Some g \<Longrightarrow> session_row rows st w k = Some g" for k g
    unfolding W3 by (auto split: option.splits if_splits)
  show "sessions_ok valid rows st t w1"
    unfolding sessions_ok_def
  proof (intro conjI allI impI)
    fix k u assume "map_of (ssTouched (fst w1)) k = Some u"
    then have u: "map_of (ssTouched s) k = Some u" using W4 by blast
    show "u \<le> t" using O(5) [OF u] assms(3) by simp
    fix g assume "session_row rows st w1 k = Some g"
    from row [OF this] show "u + ssTTL (fst w1) \<le> gsExpiresAt g" using O(6) [OF u] W2 by (simp add: w)
  next
    fix k g assume "session_row rows st w1 k = Some g"
    from row [OF this] show "gsToken g = k" using O(4) by (simp add: w)
  next
    show "valid (snd w1)" "distinct_keys (ssFallback (fst w1))" by (rule conjunct1 [OF W], rule conjunct1 [OF conjunct2 [OF W]])
    show "0 < ssTTL (fst w1)" using W2 O(3) by simp
  qed
qed

lemma call_effect:
  assumes "st = None \<or> st = Some ops" "sessions_ok valid rows st now w" "now \<le> call_time c"
  shows "sessions_ok valid rows st (call_time c) (session_call_run st c w)"
    "ssTTL (fst (session_call_run st c w)) = ssTTL (fst w)"
    "session_row rows st w k = Some g \<Longrightarrow> e \<le> gsExpiresAt g \<Longrightarrow> call_time c < e \<Longrightarrow> e \<le> call_time c + ssTTL (fst w) \<Longrightarrow>
      \<exists>g1. session_row rows st (session_call_run st c w) k = Some g1 \<and> e \<le> gsExpiresAt g1"
proof -
  let ?w1 = "session_call_run st c w" and ?t = "call_time c"
  have "sessions_ok valid rows st ?t ?w1 \<and> ssTTL (fst ?w1) = ssTTL (fst w) \<and>
    (session_row rows st w k = Some g \<longrightarrow> e \<le> gsExpiresAt g \<longrightarrow> ?t < e \<longrightarrow> e \<le> ?t + ssTTL (fst w) \<longrightarrow>
      (\<exists>g1. session_row rows st ?w1 k = Some g1 \<and> e \<le> gsExpiresAt g1))" for k g e
  proof (cases c)
    case (CallIssue token t)
    then have nt: "now \<le> t" using assms(3) by simp
    note I = issue_effect [OF assms(1,2) nt, where token = token]
    have "\<exists>g1. session_row rows st (snd (Issue st (Some token) t w)) k = Some g1 \<and> e \<le> gsExpiresAt g1"
      if g: "session_row rows st w k = Some g" "e \<le> gsExpiresAt g" "e \<le> t + ssTTL (fst w)"
      using I(3) [where k = k and g = g, OF g(1)] g(2,3) by auto
    then show ?thesis using I(1,2) CallIssue by simp
  next
    case (CallSweep t)
    then show ?thesis
      using sweep_effect [OF assms(1,2), of t] assms(3) by (auto simp: Expired_def)
  next
    case (CallValidate token t)
    have later: "sessions_ok valid rows st t w" using assms(2,3) CallValidate unfolding sessions_ok_def by fastforce
    show ?thesis
    proof (cases "session_row rows st w token")
      case None
      then show ?thesis using later CallValidate validate_result(2) [OF assms(1,2)] by auto
    next
      case (Some h)
      note E = extend_effect [OF assms(1,2) _ Some, of t]
      have "\<exists>g1. session_row rows st (snd (extend st h t w)) k = Some g1 \<and> e \<le> gsExpiresAt g1"
        if "session_row rows st w k = Some g" "e \<le> gsExpiresAt g" "e \<le> t + ssTTL (fst w)"
        using E(4) [OF _ that(1)] assms(3) CallValidate that by fastforce
      then show ?thesis
        using E(1,2) later assms(3) CallValidate validate_result(2) [OF assms(1,2), of token t] Some by auto
    qed
  qed
  then show "sessions_ok valid rows st ?t ?w1" "ssTTL (fst ?w1) = ssTTL (fst w)"
    "session_row rows st w k = Some g \<Longrightarrow> e \<le> gsExpiresAt g \<Longrightarrow> ?t < e \<Longrightarrow> e \<le> ?t + ssTTL (fst w) \<Longrightarrow>
      \<exists>g1. session_row rows st ?w1 k = Some g1 \<and> e \<le> gsExpiresAt g1"
    by blast+
qed

lemma calls_effect:
  assumes "st = None \<or> st = Some ops" "sessions_ok valid rows st now w" "sorted (now # map call_time cs @ [later])"
  shows "sessions_ok valid rows st later (session_calls st cs w) \<and> ssTTL (fst (session_calls st cs w)) = ssTTL (fst w) \<and>
    (session_row rows st w k = Some g \<longrightarrow> e \<le> gsExpiresAt g \<longrightarrow> later < e \<longrightarrow> e \<le> now + ssTTL (fst w) \<longrightarrow>
      (\<exists>g1. session_row rows st (session_calls st cs w) k = Some g1 \<and> e \<le> gsExpiresAt g1))"
  using assms(2,3)
proof (induction cs arbitrary: now w g)
  case Nil
  then show ?case unfolding session_calls_def sessions_ok_def by fastforce
next
  case (Cons c cs)
  have t: "now \<le> call_time c" "call_time c \<le> later" using Cons.prems(2) by simp_all
  note C = call_effect [OF assms(1) Cons.prems(1) t(1)]
  have s: "sorted (call_time c # map call_time cs @ [later])" using Cons.prems(2) by simp
  show ?case
    using Cons.IH [OF C(1) s] C(2,3) t by (fastforce simp: session_calls_def)
qed

lemma validated_survives:
  assumes "st = None \<or> st = Some ops" "sessions_ok valid rows st now w" "Validate st token now w = (Inr g, w1)"
    "sorted (now # map call_time cs @ [later])" "later < now + ssTTL (fst w) - touchInterval"
  shows "\<exists>g1. fst (Validate st token later (session_calls st cs w1)) = Inr g1"
proof -
  obtain h where h: "session_row rows st w token = Some h" "token \<noteq> []" "w1 = snd (extend st h now w)"
    using validate_result [OF assms(1,2), of token now] assms(3) by (auto split: option.splits if_splits)
  note E = extend_effect [OF assms(1,2) order_refl h(1), folded h(3)]
  obtain h1 where h1: "session_row rows st w1 token = Some h1" "now + ssTTL (fst w) - touchInterval \<le> gsExpiresAt h1"
    using E(3) by blast
  have "now + ssTTL (fst w) - touchInterval \<le> now + ssTTL (fst w1)" using E(2) by (simp add: touchInterval_def)
  then obtain h2 where "session_row rows st (session_calls st cs w1) token = Some h2" "now + ssTTL (fst w) - touchInterval \<le> gsExpiresAt h2"
    using calls_effect [OF assms(1) E(1) assms(4)] h1 assms(5) by blast
  moreover have "sessions_ok valid rows st later (session_calls st cs w1)"
    using calls_effect [OF assms(1) E(1) assms(4)] by blast
  ultimately show ?thesis
    using validate_result(1) [OF assms(1)] h(2) assms(5) by (auto simp: Expired_def)
qed

lemma sweep_invisible:
  assumes "st = None \<or> st = Some ops" "sessions_ok valid rows st now w" "now \<le> t" "t \<le> later"
  shows "fst (Validate st token later (snd (Sweep st t w))) = fst (Validate st token later w)"
proof -
  note S = sweep_effect [OF assms(1-3)]
  have e: "fst (extend st g later (snd (Sweep st t w))) = fst (extend st g later w)"
    if g: "session_row rows st w token = Some g" "\<not> Expired g later" for g
  proof -
    have "\<not> Expired g t" using g(2) assms(4) by (simp add: Expired_def)
    then have "map_of (ssTouched (fst (snd (Sweep st t w)))) token = map_of (ssTouched (fst w)) token" by (rule S(5) [OF g(1)])
    then show ?thesis
      using sessions_okD(4) [OF assms(2) g(1)] S(2)
      by (simp add: extend_def recently_touched_def case_prod_unfold Let_def split: option.splits)
  qed
  show ?thesis
    unfolding validate_result(1) [OF assms(1,2)] validate_result(1) [OF assms(1) S(1)] S(3)
    using e assms(4) by (auto simp: Expired_def split: option.splits)
qed

end

subsection \<open>The properties\<close>

definition started :: "int \<Rightarrow> int \<Rightarrow> int \<Rightarrow> sessions \<times> memory" where
  "started ttl runTTL quota = (NewSessions ttl runTTL quota, NewMemory)"

lemma started_ok: "sessions_ok memory_wf (\<lambda>m. map_of (mSessions m)) st now (started ttl runTTL quota)"
  using NewMemory_wf by (auto simp: sessions_ok_def started_def NewSessions_def session_row_def NewMemory_def DefaultSessionTTL_def
      Hour_def split: option.splits)

lemma calls_ok:
  assumes "st = None \<or> st = Some memory_ops" "sorted (map call_time cs @ [now])"
  shows "sessions_ok memory_wf (\<lambda>m. map_of (mSessions m)) st now (session_calls st cs (started ttl runTTL quota))"
proof -
  let ?first = "hd (map call_time cs @ [now])"
  have "sorted (?first # map call_time cs @ [now])" using assms(2) by (cases cs) auto
  then show ?thesis using memory_sessions.calls_effect [OF assms(1) started_ok] by blast
qed

text \<open>
  C20.  An active visitor is never cut off: once a token has been accepted it stays accepted for the
  session time-to-live less the minute in which expiries are not rewritten, whatever other visitors
  and retention sweeps do meanwhile, with a store and without.
\<close>

theorem session_survives_use:
  assumes "st = None \<or> st = Some memory_ops" and "sorted (map call_time before @ [now])"
    and "Validate st token now (session_calls st before (started ttl runTTL quota)) = (Inr g, w)"
    and "sorted (now # map call_time cs @ [later])" and "later < now + ssTTL (NewSessions ttl runTTL quota) - touchInterval"
  shows "\<exists>g1. fst (Validate st token later (session_calls st cs w)) = Inr g1"
proof -
  let ?w = "session_calls st before (started ttl runTTL quota)"
  have "ssTTL (fst ?w) = ssTTL (NewSessions ttl runTTL quota)"
  proof -
    let ?first = "hd (map call_time before @ [now])"
    have "sorted (?first # map call_time before @ [now])" using assms(2) by (cases before) auto
    then show ?thesis using memory_sessions.calls_effect [OF assms(1) started_ok] by (simp add: started_def)
  qed
  then show ?thesis
    using memory_sessions.validated_survives [OF assms(1) calls_ok [OF assms(1,2)] assms(3,4)] assms(5) by simp
qed

text \<open>
  C21.  The retention sweep cannot be observed through validation: any token at any later time gets
  the same answer, with the same session, whether or not the sweep ran.
\<close>

theorem sweep_unobservable:
  fixes ttl runTTL quota :: int
  assumes "st = None \<or> st = Some memory_ops" and "sorted (map call_time before @ [now])" and "now \<le> later"
  defines "w \<equiv> session_calls st before (started ttl runTTL quota)"
  shows "fst (Validate st token later (snd (Sweep st now w))) = fst (Validate st token later w)"
  unfolding w_def by (rule memory_sessions.sweep_invisible [OF assms(1) calls_ok [OF assms(1,2)] order_refl assms(3)])

theorem session_survives_use_witness:
  "\<exists>g. fst (Validate (Some memory_ops) ''t'' (50 * 60 * 10 ^ 9) (session_calls (Some memory_ops) [CallSweep (40 * 60 * 10 ^ 9)]
      (snd (Validate (Some memory_ops) ''t'' 5 (session_calls (Some memory_ops) [CallIssue ''t'' 0] (started 0 0 0)))))) = Inr g"
proof -
  let ?w = "session_calls (Some memory_ops) [CallIssue ''t'' 0] (started 0 0 0)"
  obtain g where "fst (Validate (Some memory_ops) ''t'' 5 ?w) = Inr g"
    by (simp add: session_calls_def started_def NewSessions_def Issue_def Validate_def session_lookup_def CreateGuestSession_def
        NewMemory_def GetGuestSession_def lookup_row_def Expired_def DefaultSessionTTL_def Hour_def case_prod_unfold Let_def)
  then have "Validate (Some memory_ops) ''t'' 5 ?w = (Inr g, snd (Validate (Some memory_ops) ''t'' 5 ?w))"
    by (metis prod.collapse)
  from session_survives_use [OF disjI2 [OF refl] _ this, of "[CallSweep (40 * 60 * 10 ^ 9)]" "50 * 60 * 10 ^ 9"]
  show ?thesis by (simp add: NewSessions_def DefaultSessionTTL_def Hour_def touchInterval_def)
qed

theorem sweep_unobservable_witness:
  "fst (Validate None ''t'' (8000 * 10 ^ 9) (snd (Sweep None (7200 * 10 ^ 9) (session_calls None [CallIssue ''t'' 0] (started 0 0 0))))) =
   fst (Validate None ''t'' (8000 * 10 ^ 9) (session_calls None [CallIssue ''t'' 0] (started 0 0 0)))"
  by (rule sweep_unobservable) simp_all

end
