(* ===== verification/Manager.thy ===== *)
theory Manager
  imports Sessions Pipeline
begin

text \<open>
  The manager (\<open>internal/service/manager.go\<close>): the live runs by id, who owns them, how many orders
  each has taken, and the routing of commands to them.  The state is one record with the runs, the
  session service (\<open>None\<close>: nil) and the database; \<open>st\<close> is the store.  The identity on the context is
  the argument \<open>token\<close>; generated ids, clock readings and trace ids are arguments.  Each method is a
  sequence of steps that hold the mutex; \<open>Create\<close> and \<open>Reset\<close> are also given step by step.
\<close>

definition MaxOrdersPerRun :: int where "MaxOrdersPerRun = 200"

record entry =
  enActor :: actor
  enHub :: hub
  enRecorder :: recorder
  enCancelled :: bool
  enOwner :: string
  enOrders :: int

record 'db manager =
  mgMax :: int
  mgSessions :: "sessions option"
  mgStore :: 'db
  mgEntries :: "(string, entry) gomap"

definition NewManagerWithConfig :: "int \<Rightarrow> sessions option \<Rightarrow> 'db \<Rightarrow> 'db manager" where
  "NewManagerWithConfig limit sessions db = \<lparr>mgMax = limit, mgSessions = sessions, mgStore = db, mgEntries = []\<rparr>"

definition NewManager :: "int \<Rightarrow> unit manager" where
  "NewManager limit = NewManagerWithConfig limit None ()"

definition authorize :: "entry \<Rightarrow> string \<Rightarrow> bool" where
  \<comment> \<open>refused: \<open>ErrNotFound\<close>\<close>
  "authorize e token \<longleftrightarrow> enOwner e = '''' \<or> enOwner e = token"

subsection \<open>Creating runs\<close>

definition held_by :: "string \<Rightarrow> (string, entry) gomap \<Rightarrow> int" where
  "held_by owner es = foldl (\<lambda>held (i, e). if enOwner e = owner then held + 1 else held) 0 es"

definition checkQuota :: "'db store_ops option \<Rightarrow> string \<Rightarrow> 'db manager \<Rightarrow> service_error option" where
  "checkQuota st owner m =
     (case mgSessions m of
        None \<Rightarrow> None
      | Some s \<Rightarrow> if owner = '''' then None else CheckQuota st owner (held_by owner (mgEntries m)) (s, mgStore m))"

definition recordSimulation :: "'db store_ops option \<Rightarrow> timestamp \<Rightarrow> string \<Rightarrow> int \<Rightarrow> int \<Rightarrow> string \<Rightarrow> 'db manager \<Rightarrow> 'db manager" where
  "recordSimulation st now i seed drivers owner m =
     (case st of
        None \<Rightarrow> m
      | Some ops \<Rightarrow>
          m\<lparr>mgStore := snd (opCreateSimulation ops
             \<lparr>srID = i, srSeed = seed, srDrivers = drivers, srStrategy = ''baseline'', srCreatedAt = now, srCompletedAt = None,
               srShowcase = False, srGuestToken = owner,
               srExpiresAt = (case mgSessions m of None \<Rightarrow> None
                  | Some s \<Rightarrow> if owner \<noteq> '''' then Some (now + ssRunTTL s) else None)\<rparr> (mgStore m))\<rparr>)"

definition new_entry :: "rand_source \<Rightarrow> string \<Rightarrow> int \<Rightarrow> int \<Rightarrow> string \<Rightarrow> entry option" where
  "new_entry draws i seed drivers owner =
     map_option (\<lambda>a. \<lparr>enActor = a, enHub = NewHub,
         enRecorder = NewRecorder i \<lparr>rcFlushInterval = 0, rcBatchSize = 0, rcSnapshotEvery = 0, rcBufferSize = 0\<rparr>,
         enCancelled = False, enOwner = owner, enOrders = 0\<rparr>)
       (Run_start (NewWithConfig draws (zero_config\<lparr>cfID := i, cfSeed := seed, cfDriverCount := drivers\<rparr>)))"

definition create_locked :: "'db store_ops option \<Rightarrow> rand_source \<Rightarrow> timestamp \<Rightarrow> string \<Rightarrow> string \<Rightarrow> string \<Rightarrow> int \<Rightarrow> int \<Rightarrow> 'db manager \<Rightarrow>
    ((service_error + string) \<times> 'db manager) option" where
  \<comment> \<open>\<open>Create\<close> under the mutex, after the quota check\<close>
  "create_locked st draws now gen owner i0 seed drivers m =
     (if mgMax m > 0 \<and> int (length (mgEntries m)) \<ge> mgMax m \<and> map_of (mgEntries m) i0 = None
      then Some (Inl ErrCapacity, m)
      else
        let i = (if i0 = '''' then gen else i0)
        in if map_of (mgEntries m) i \<noteq> None then Some (Inr i, m)
           else map_option (\<lambda>e. let m1 = recordSimulation st now i seed drivers owner m
                  in (Inr i, m1\<lparr>mgEntries := AList.update i e (mgEntries m1)\<rparr>)) (new_entry draws i seed drivers owner))"

definition Create :: "'db store_ops option \<Rightarrow> rand_source \<Rightarrow> timestamp \<Rightarrow> string \<Rightarrow> string \<Rightarrow> string \<Rightarrow> int \<Rightarrow> int \<Rightarrow> 'db manager \<Rightarrow>
    ((service_error + string) \<times> 'db manager) option" where
  "Create st draws now gen token i seed drivers m =
     (case checkQuota st token m of
        Some e \<Rightarrow> Some (Inl e, m)
      | None \<Rightarrow> create_locked st draws now gen token i seed drivers m)"

subsection \<open>Commands\<close>

definition set_entry :: "string \<Rightarrow> (entry \<Rightarrow> entry) \<Rightarrow> 'db manager \<Rightarrow> 'db manager" where
  "set_entry i f m = m\<lparr>mgEntries := adjust i f (mgEntries m)\<rparr>"

definition submit :: "string \<Rightarrow> string \<Rightarrow> string \<Rightarrow> command \<Rightarrow> 'db manager \<Rightarrow> service_error option \<times> 'db manager" where
  "submit token trace i cmd m =
     (case map_of (mgEntries m) i of
        None \<Rightarrow> (Some ErrNotFound, m)
      | Some e \<Rightarrow>
          if \<not> authorize e token then (Some ErrNotFound, m)
          else (let (ok, a) = TrySubmitCtx trace cmd (enActor e)
                in if ok then (None, set_entry i (\<lambda>e. e\<lparr>enActor := a\<rparr>) m) else (Some ErrBusy, m)))"

definition reserveOrder :: "string \<Rightarrow> string \<Rightarrow> 'db manager \<Rightarrow> service_error option \<times> 'db manager" where
  "reserveOrder token i m =
     (case map_of (mgEntries m) i of
        None \<Rightarrow> (Some ErrNotFound, m)
      | Some e \<Rightarrow>
          if \<not> authorize e token then (Some ErrNotFound, m)
          else if enOrders e \<ge> MaxOrdersPerRun then (Some ErrOrderLimit, m)
          else (None, set_entry i (\<lambda>e. e\<lparr>enOrders := enOrders e + 1\<rparr>) m))"

definition releaseOrder :: "string \<Rightarrow> 'db manager \<Rightarrow> 'db manager" where
  "releaseOrder i m = set_entry i (\<lambda>e. if enOrders e > 0 then e\<lparr>enOrders := enOrders e - 1\<rparr> else e) m"

definition manager_PlaceOrder :: "string \<Rightarrow> string \<Rightarrow> string \<Rightarrow> node_id \<Rightarrow> node_id \<Rightarrow> 'db manager \<Rightarrow> service_error option \<times> 'db manager" where
  "manager_PlaceOrder token trace i pickup destination m =
     (case reserveOrder token i m of
        (Some e, m1) \<Rightarrow> (Some e, m1)
      | (None, m1) \<Rightarrow>
          (case submit token trace i (PlaceOrder pickup destination) m1 of
             (Some e, m2) \<Rightarrow> (Some e, releaseOrder i m2)
           | (None, m2) \<Rightarrow> (None, m2)))"

definition manager_SetPaused :: "string \<Rightarrow> string \<Rightarrow> string \<Rightarrow> bool \<Rightarrow> 'db manager \<Rightarrow> service_error option \<times> 'db manager" where
  "manager_SetPaused token trace i b m = submit token trace i (SetPaused b) m"

definition clear_orders :: "string \<Rightarrow> 'db manager \<Rightarrow> 'db manager" where
  "clear_orders i m = set_entry i (\<lambda>e. e\<lparr>enOrders := 0\<rparr>) m"

definition manager_Reset :: "string \<Rightarrow> string \<Rightarrow> string \<Rightarrow> 'db manager \<Rightarrow> service_error option \<times> 'db manager" where
  "manager_Reset token trace i m =
     (case submit token trace i Reset m of
        (Some e, m1) \<Rightarrow> (Some e, m1)
      | (None, m1) \<Rightarrow> (None, clear_orders i m1))"

definition manager_SetSpeed :: "string \<Rightarrow> string \<Rightarrow> string \<Rightarrow> real \<Rightarrow> 'db manager \<Rightarrow> service_error option \<times> 'db manager" where
  "manager_SetSpeed token trace i x m = submit token trace i (SetSpeed x) m"

definition manager_CloseRoad :: "string \<Rightarrow> string \<Rightarrow> string \<Rightarrow> string \<Rightarrow> edge_id \<Rightarrow> 'db manager \<Rightarrow> (service_error + string) \<times> 'db manager" where
  "manager_CloseRoad token trace gen i edgeID m =
     (case submit token trace i (CloseRoad edgeID gen) m of
        (Some e, m1) \<Rightarrow> (Inl e, m1)
      | (None, m1) \<Rightarrow> (Inr gen, m1))"

definition manager_ReopenRoad :: "string \<Rightarrow> string \<Rightarrow> string \<Rightarrow> edge_id \<Rightarrow> 'db manager \<Rightarrow> service_error option \<times> 'db manager" where
  "manager_ReopenRoad token trace i edgeID m = submit token trace i (ReopenRoad edgeID) m"

subsection \<open>Reading\<close>

definition Get :: "string \<Rightarrow> 'db manager \<Rightarrow> actor option" where
  "Get i m = map_option enActor (map_of (mgEntries m) i)"

definition StreamLookup :: "string \<Rightarrow> string \<Rightarrow> 'db manager \<Rightarrow> (hub \<times> actor) option" where
  "StreamLookup i token m =
     (case map_of (mgEntries m) i of
        None \<Rightarrow> None
      | Some e \<Rightarrow> if authorize e token then Some (enHub e, enActor e) else None)"

definition Authorize :: "string \<Rightarrow> string \<Rightarrow> 'db manager \<Rightarrow> service_error option" where
  "Authorize token i m =
     (case map_of (mgEntries m) i of
        None \<Rightarrow> Some ErrNotFound
      | Some e \<Rightarrow> if authorize e token then None else Some ErrNotFound)"

definition manager_Snapshot :: "string \<Rightarrow> string \<Rightarrow> 'db manager \<Rightarrow> service_error + event" where
  \<comment> \<open>\<open>CurrentSnapshot\<close> is answered once the actor is back in its loop\<close>
  "manager_Snapshot token i m =
     (case Authorize token i m of
        Some e \<Rightarrow> Inl e
      | None \<Rightarrow> (case Get i m of None \<Rightarrow> Inl ErrNotFound | Some a \<Rightarrow> Inr (actor_query a)))"

subsection \<open>Keeping runs\<close>

definition writeFinalSnapshot :: "'db store_ops \<Rightarrow> timestamp \<Rightarrow> string \<Rightarrow> actor \<Rightarrow> 'db \<Rightarrow> 'db" where
  "writeFinalSnapshot ops now i a db =
     (let e = actor_query a
      in case EventFrom e '''' now of
           None \<Rightarrow> db
         | Some x \<Rightarrow> snd (opSaveSnapshot ops \<lparr>ssSimulationID = i, ssSequence = evSequence e, ssVirtualTime = evVirtualTime e,
             ssPayload = sePayload x, ssRecordedAt = now\<rparr> db))"

fun drain_queue :: "'db store_ops \<Rightarrow> timestamp \<Rightarrow> nat \<Rightarrow> recorder \<times> 'db \<Rightarrow> recorder \<times> 'db" where
  "drain_queue ops now 0 w = w"
| "drain_queue ops now (Suc n) w = drain_queue ops now n (writer_receive ops now w)"

definition recorder_Flush :: "'db store_ops \<Rightarrow> timestamp \<Rightarrow> bool \<Rightarrow> recorder \<times> 'db \<Rightarrow> recorder \<times> 'db" where
  \<comment> \<open>\<open>Flush\<close>: served by the writer with no event arriving meanwhile, or given up (the writer has
      exited, or the context expired first)\<close>
  "recorder_Flush ops now served = (\<lambda>(r, db).
     if rdDone r \<or> \<not> served then (r, db)
     else writer_drained ops (drain_queue ops now (length (rdQueue r)) (flush_request r, db)))"

definition manager_MarkShowcase :: "'db store_ops option \<Rightarrow> string \<Rightarrow> timestamp \<Rightarrow> bool \<Rightarrow> string \<Rightarrow> 'db manager \<Rightarrow>
    service_error option \<times> 'db manager" where
  "manager_MarkShowcase st token now served i m =
     (case st of
        None \<Rightarrow> (Some ErrNotFound, m)
      | Some ops \<Rightarrow>
          let mark = (\<lambda>m. case opMarkShowcase ops i now (mgStore m) of
                (Inl StoreNotFound, db) \<Rightarrow> (Some ErrNotFound, m\<lparr>mgStore := db\<rparr>)
              | (Inl e, db) \<Rightarrow> (Some (ErrStore e), m\<lparr>mgStore := db\<rparr>)
              | (Inr _, db) \<Rightarrow> (None, m\<lparr>mgStore := db\<rparr>))
          in case map_of (mgEntries m) i of
               None \<Rightarrow> mark m
             | Some e \<Rightarrow>
                 (case Authorize token i m of
                    Some err \<Rightarrow> (Some err, m)
                  | None \<Rightarrow>
                      let db = writeFinalSnapshot ops now i (enActor e) (mgStore m);
                          (r, db1) = recorder_Flush ops now served (enRecorder e, db)
                      in mark (set_entry i (\<lambda>e. e\<lparr>enRecorder := r\<rparr>) (m\<lparr>mgStore := db1\<rparr>))))"

definition Shutdown :: "'db manager \<Rightarrow> (string, entry) gomap \<times> 'db manager" where
  \<comment> \<open>the runs it cancels and then waits for, and the manager, which has none left\<close>
  "Shutdown m = (map (\<lambda>(i, e). (i, e\<lparr>enCancelled := True\<rparr>)) (mgEntries m), m\<lparr>mgEntries := []\<rparr>)"

subsection \<open>Ownership\<close>

datatype request = AskPlace node_id node_id | AskPaused bool | AskReset | AskSpeed real | AskClose string edge_id | AskReopen edge_id

fun run_call :: "string \<Rightarrow> string \<Rightarrow> string \<Rightarrow> request \<Rightarrow> 'db manager \<Rightarrow> service_error option \<times> 'db manager" where
  \<comment> \<open>the command routes; of \<open>CloseRoad\<close> only the error\<close>
  "run_call token trace i (AskPlace p q) m = manager_PlaceOrder token trace i p q m"
| "run_call token trace i (AskPaused b) m = manager_SetPaused token trace i b m"
| "run_call token trace i AskReset m = manager_Reset token trace i m"
| "run_call token trace i (AskSpeed x) m = manager_SetSpeed token trace i x m"
| "run_call token trace i (AskClose gen k) m =
     (case manager_CloseRoad token trace gen i k m of (Inl e, m1) \<Rightarrow> (Some e, m1) | (Inr _, m1) \<Rightarrow> (None, m1))"
| "run_call token trace i (AskReopen k) m = manager_ReopenRoad token trace i k m"

lemmas call_defs = manager_PlaceOrder_def manager_SetPaused_def manager_Reset_def manager_SetSpeed_def manager_CloseRoad_def
  manager_ReopenRoad_def reserveOrder_def submit_def

definition without_run :: "string \<Rightarrow> 'db manager \<Rightarrow> 'db manager" where
  "without_run i m = m\<lparr>mgEntries := AList.delete i (mgEntries m)\<rparr>"

lemma without_run_entry: "map_of (mgEntries (without_run i m)) i = None"
  by (simp add: without_run_def map_of_delete)

lemma unknown_run:
  assumes "case map_of (mgEntries m) i of None \<Rightarrow> True | Some e \<Rightarrow> \<not> authorize e token"
  shows "run_call token trace i c m = (Some ErrNotFound, m)" "manager_Snapshot token i m = Inl ErrNotFound"
    "StreamLookup i token m = None" "Authorize token i m = Some ErrNotFound"
  using assms by (cases c; auto simp: call_defs manager_Snapshot_def StreamLookup_def Authorize_def split: option.splits)+

text \<open>
  C10.  A run looks absent to everybody but its owner: to another session every command, read, stream
  and authorization check answers exactly as if the run did not exist, and changes nothing; saving it
  as a showcase is refused without a trace as well.
\<close>

theorem foreign_runs_look_absent:
  assumes "map_of (mgEntries m) i = Some e" and "enOwner e \<noteq> ''''" and "enOwner e \<noteq> token"
  shows "fst (run_call token trace i c m) = fst (run_call token trace i c (without_run i m)) \<and> snd (run_call token trace i c m) = m \<and>
    manager_Snapshot token i m = manager_Snapshot token i (without_run i m) \<and>
    StreamLookup i token m = StreamLookup i token (without_run i m) \<and> Authorize token i m = Authorize token i (without_run i m) \<and>
    manager_MarkShowcase st token now served i m = (Some ErrNotFound, m)"
proof -
  have no: "\<not> authorize e token" using assms(2,3) by (simp add: authorize_def)
  then have "manager_MarkShowcase st token now served i m = (Some ErrNotFound, m)"
    using assms(1) by (simp add: manager_MarkShowcase_def Authorize_def split: option.splits)
  then show ?thesis
    using unknown_run [where m = m and i = i and token = token]
      unknown_run [where m = "without_run i m" and i = i and token = token] assms(1) no by (simp add: without_run_entry)
qed

subsection \<open>Limits\<close>

datatype happening = Asked string string request | Moved actor
  \<comment> \<open>a request (token, trace, command), or the run's goroutine has changed its state\<close>

fun run_event :: "string \<Rightarrow> happening \<Rightarrow> 'db manager \<times> int \<Rightarrow> 'db manager \<times> int" where
  \<comment> \<open>with a count of the orders accepted since the last accepted reset\<close>
  "run_event i (Asked token trace c) (m, n) =
     (let (err, m1) = run_call token trace i c m
      in (m1, if err \<noteq> None then n else (case c of AskPlace _ _ \<Rightarrow> n + 1 | AskReset \<Rightarrow> 0 | _ \<Rightarrow> n)))"
| "run_event i (Moved a) (m, n) = (set_entry i (\<lambda>e. e\<lparr>enActor := a\<rparr>) m, n)"

lemma set_entry_entry: "map_of (mgEntries (set_entry i f m)) i = map_option f (map_of (mgEntries m) i)"
  by (simp add: set_entry_def)

lemma submit_orders:
  assumes "map_of (mgEntries m) i = Some e" "submit token trace i cmd m = (err, m1)"
  shows "\<exists>e1. map_of (mgEntries m1) i = Some e1 \<and> enOrders e1 = enOrders e"
  using assms by (auto simp: submit_def TrySubmitCtx_def set_entry_entry split: if_splits)

lemma plain_call:
  assumes "\<nexists>p q. c = AskPlace p q" "c \<noteq> AskReset"
  shows "\<exists>cmd. run_call token trace i c m = submit token trace i cmd m"
proof (cases c)
  case (AskClose gen k)
  obtain err m1 where "submit token trace i (CloseRoad k gen) m = (err, m1)" by force
  then show ?thesis using AskClose by (intro exI [of _ "CloseRoad k gen"]) (simp add: manager_CloseRoad_def split: option.splits)
qed (use assms in \<open>auto simp: manager_SetPaused_def manager_SetSpeed_def manager_ReopenRoad_def\<close>)

lemma run_event_orders:
  assumes "map_of (mgEntries m) i = Some e" "enOrders e = n" "0 \<le> n" "n \<le> MaxOrdersPerRun" "run_event i c (m, n) = (m1, n1)"
  shows "\<exists>e1. map_of (mgEntries m1) i = Some e1 \<and> enOrders e1 = n1 \<and> 0 \<le> n1 \<and> n1 \<le> MaxOrdersPerRun"
proof (cases c)
  case (Moved a)
  then show ?thesis using assms by (auto simp: set_entry_entry)
next
  case (Asked token trace call)
  obtain err m2 where r: "run_call token trace i call m = (err, m2)" by force
  have m1: "m1 = m2" "n1 = (if err \<noteq> None then n else (case call of AskPlace _ _ \<Rightarrow> n + 1 | AskReset \<Rightarrow> 0 | _ \<Rightarrow> n))"
    using assms(5) r by (simp_all add: Asked)
  have other: ?thesis if plain: "\<nexists>p q. call = AskPlace p q" "call \<noteq> AskReset"
  proof -
    obtain cmd where "submit token trace i cmd m = (err, m2)" using plain_call [OF plain, of token trace i m] r by auto
    from submit_orders [OF assms(1) this]
    obtain e2 where "map_of (mgEntries m2) i = Some e2" "enOrders e2 = n" using assms(2) by blast
    moreover have "n1 = n" using m1(2) plain by (cases call) auto
    ultimately show ?thesis using m1(1) assms(3,4) by blast
  qed
  show ?thesis
  proof (cases call)
    case (AskPlace p q)
    show ?thesis
    proof (cases "authorize e token \<and> n < MaxOrdersPerRun")
      case False
      then have "run_call token trace i call m = (Some (if authorize e token then ErrOrderLimit else ErrNotFound), m)"
        using assms(1,2) by (auto simp: AskPlace manager_PlaceOrder_def reserveOrder_def)
      then show ?thesis using r assms(1-4) m1 by auto
    next
      case True
      let ?m = "set_entry i (\<lambda>e. e\<lparr>enOrders := enOrders e + 1\<rparr>) m"
      obtain err2 m3 where s: "submit token trace i (PlaceOrder p q) ?m = (err2, m3)" by force
      then obtain e3 where e3: "map_of (mgEntries m3) i = Some e3" "enOrders e3 = n + 1"
        using submit_orders [OF _ s, of "e\<lparr>enOrders := n + 1\<rparr>"] assms(1,2) by (auto simp: set_entry_entry)
      have "run_call token trace i call m = (case err2 of Some x \<Rightarrow> (Some x, releaseOrder i m3) | None \<Rightarrow> (None, m3))"
        using True s assms(1,2) by (simp add: AskPlace manager_PlaceOrder_def reserveOrder_def split: option.splits)
      then show ?thesis using r m1 e3 True assms(3,4)
        by (auto simp: AskPlace releaseOrder_def set_entry_entry split: option.splits)
    qed
  next
    case AskReset
    obtain err2 m3 where s: "submit token trace i Reset m = (err2, m3)" by force
    obtain e3 where e3: "map_of (mgEntries m3) i = Some e3" "enOrders e3 = n"
      using submit_orders [OF assms(1) s] assms(2) by blast
    have "run_call token trace i call m = (case err2 of Some x \<Rightarrow> (Some x, m3) | None \<Rightarrow> (None, clear_orders i m3))"
      using s by (simp add: AskReset manager_Reset_def split: option.splits)
    then show ?thesis using r m1 e3 assms(3,4)
      by (auto simp: AskReset clear_orders_def set_entry_entry MaxOrdersPerRun_def split: option.splits)
  qed (use other in simp_all)
qed


lemma held_by_count: "held_by owner es = int (length (filter (\<lambda>(i, e). enOwner e = owner) es))"
proof -
  have "foldl (\<lambda>held (i, e). if enOwner e = owner then held + 1 else held) n es = n + int (length (filter (\<lambda>(i, e). enOwner e = owner) es))" for n :: int
    by (induction es arbitrary: n) auto
  then show ?thesis by (simp add: held_by_def)
qed

lemma update_fresh: "map_of es i = None \<Longrightarrow> AList.update i e es = es @ [(i, e)]"
  by (induction es) (auto split: if_splits)

lemma new_entry_total: "\<exists>e. new_entry draws i seed drivers owner = Some e \<and> enOwner e = owner \<and> enOrders e = 0"
  by (simp add: new_entry_def Run_start_def tickDuration_def NewWithConfig_def Let_def config_defaults_def tickInterval_def
      Start_def takePending_def)

lemma recordSimulation_parts: "mgEntries (recordSimulation st now i seed drivers owner m) = mgEntries m"
  "mgMax (recordSimulation st now i seed drivers owner m) = mgMax m"
  "mgSessions (recordSimulation st now i seed drivers owner m) = mgSessions m"
  by (simp_all add: recordSimulation_def split: option.splits)

lemma create_locked_effect:
  assumes "map_of (mgEntries m) '''' = None" "gen \<noteq> ''''"
  shows "\<exists>r m1. create_locked st draws now gen owner i seed drivers m = Some (r, m1) \<and> mgMax m1 = mgMax m \<and> mgSessions m1 = mgSessions m \<and>
    (mgEntries m1 = mgEntries m \<or>
      (\<exists>k e. mgEntries m1 = mgEntries m @ [(k, e)] \<and> map_of (mgEntries m) k = None \<and> k \<noteq> '''' \<and> enOwner e = owner \<and>
        (mgMax m > 0 \<longrightarrow> int (length (mgEntries m)) < mgMax m)))"
proof (cases "mgMax m > 0 \<and> int (length (mgEntries m)) \<ge> mgMax m \<and> map_of (mgEntries m) i = None")
  case True
  then show ?thesis by (simp add: create_locked_def)
next
  case False
  let ?k = "if i = '''' then gen else i"
  show ?thesis
  proof (cases "map_of (mgEntries m) ?k")
    case (Some e)
    then show ?thesis unfolding create_locked_def if_not_P [OF False] by simp
  next
    case None
    obtain e where e: "new_entry draws ?k seed drivers owner = Some e" "enOwner e = owner"
      using new_entry_total by blast
    show ?thesis
    proof (cases "mgMax m > 0 \<and> int (length (mgEntries m)) \<ge> mgMax m")
      case full: True
      then have "map_of (mgEntries m) i \<noteq> None" using False by (elim conjE) simp
      then show ?thesis using None assms(1) by (auto split: if_splits)
    next
      case room: False
      then show ?thesis using None e assms(2)
        unfolding create_locked_def if_not_P [OF False] by (auto simp: Let_def recordSimulation_parts update_fresh)
    qed
  qed
qed

subsection \<open>Quotas\<close>

record creation =
  cnToken :: string
  cnID :: string
  cnGenerated :: string
  cnSeed :: int
  cnDrivers :: int
  cnNow :: timestamp

fun creations :: "'db store_ops option \<Rightarrow> rand_source \<Rightarrow> creation list \<Rightarrow> 'db manager \<Rightarrow> 'db manager option" where
  "creations st draws [] m = Some m"
| "creations st draws (c # cs) m =
     Option.bind (Create st draws (cnNow c) (cnGenerated c) (cnToken c) (cnID c) (cnSeed c) (cnDrivers c) m)
       (\<lambda>r. creations st draws cs (snd r))"

definition within_limits :: "'db manager \<Rightarrow> bool" where
  "within_limits m \<longleftrightarrow> map_of (mgEntries m) '''' = None \<and>
     (\<forall>s token. mgSessions m = Some s \<longrightarrow> 0 \<le> ssQuota s \<longrightarrow> token \<noteq> '''' \<longrightarrow> held_by token (mgEntries m) \<le> ssQuota s) \<and>
     (mgMax m > 0 \<longrightarrow> int (length (mgEntries m)) \<le> mgMax m)"

lemma checkQuota_room:
  assumes "checkQuota st token m = None" "mgSessions m = Some s" "token \<noteq> ''''"
  shows "held_by token (mgEntries m) < ssQuota s"
  using assms by (auto simp: checkQuota_def CheckQuota_def split: if_splits)

lemma Create_within_limits:
  assumes "within_limits m" "gen \<noteq> ''''"
  shows "\<exists>r m1. Create st draws now gen token i seed drivers m = Some (r, m1) \<and> within_limits m1 \<and>
    mgMax m1 = mgMax m \<and> mgSessions m1 = mgSessions m"
proof (cases "checkQuota st token m")
  case (Some e)
  then show ?thesis using assms(1) by (simp add: Create_def)
next
  case None
  have empty: "map_of (mgEntries m) '''' = None" using assms(1) by (simp add: within_limits_def)
  obtain r m1 where m1: "create_locked st draws now gen token i seed drivers m = Some (r, m1)" "mgMax m1 = mgMax m"
    "mgSessions m1 = mgSessions m"
    "mgEntries m1 = mgEntries m \<or> (\<exists>k e. mgEntries m1 = mgEntries m @ [(k, e)] \<and> map_of (mgEntries m) k = None \<and> k \<noteq> '''' \<and>
        enOwner e = token \<and> (mgMax m > 0 \<longrightarrow> int (length (mgEntries m)) < mgMax m))"
    using create_locked_effect [OF empty assms(2), of st draws now token i seed drivers] by blast
  have "within_limits m1"
    using m1(4)
  proof (elim disjE exE conjE)
    fix k e assume new: "mgEntries m1 = mgEntries m @ [(k, e)]" "k \<noteq> ''''" "enOwner e = token"
      "mgMax m > 0 \<longrightarrow> int (length (mgEntries m)) < mgMax m"
    have "held_by t (mgEntries m1) = held_by t (mgEntries m) + (if t = token then 1 else 0)" for t
      by (simp add: held_by_count new)
    then show ?thesis
      using assms(1) checkQuota_room [OF None] new unfolding within_limits_def m1(2,3) by (auto simp: map_add_def)
  qed (use assms(1) m1(2,3) in \<open>simp add: within_limits_def\<close>)
  then show ?thesis using m1(1-3) None by (simp add: Create_def)
qed

text \<open>
  C11.  Creating runs one after the other keeps every limit: creation never panics, no session ever
  holds more live runs than its quota and the manager never more than its maximum, whatever store is
  attached and whatever it answers.
\<close>

theorem creations_within_limits:
  assumes "\<forall>c \<in> set cs. cnGenerated c \<noteq> ''''" and "0 \<le> ssQuota s"
  shows "\<exists>m. creations st draws cs (NewManagerWithConfig limit (Some s) db) = Some m \<and>
    (\<forall>token. token \<noteq> '''' \<longrightarrow> held_by token (mgEntries m) \<le> ssQuota s) \<and>
    (limit > 0 \<longrightarrow> int (length (mgEntries m)) \<le> limit)"
proof -
  have "\<exists>m1. creations st draws cs m = Some m1 \<and> within_limits m1 \<and> mgMax m1 = mgMax m \<and> mgSessions m1 = mgSessions m"
    if "within_limits m" for m :: "'a manager"
    using that assms(1)
  proof (induction cs arbitrary: m)
    case (Cons c cs)
    obtain r m1 where "Create st draws (cnNow c) (cnGenerated c) (cnToken c) (cnID c) (cnSeed c) (cnDrivers c) m = Some (r, m1)"
      "within_limits m1" "mgMax m1 = mgMax m" "mgSessions m1 = mgSessions m"
      using Create_within_limits [OF Cons.prems(1)] Cons.prems(2) by (metis list.set_intros(1))
    then show ?case using Cons.IH [of m1] Cons.prems(2) by simp
  qed simp
  moreover have "within_limits (NewManagerWithConfig limit (Some s) db)"
    by (simp add: within_limits_def NewManagerWithConfig_def held_by_def)
  ultimately obtain m1 where m1: "creations st draws cs (NewManagerWithConfig limit (Some s) db) = Some m1" "within_limits m1"
    "mgMax m1 = limit" "mgSessions m1 = Some s"
    by (fastforce simp: NewManagerWithConfig_def)
  then show ?thesis using assms(2) by (auto simp: within_limits_def)
qed

text \<open>
  The quota is checked before the mutex is taken for the creation, so two requests of one
  session can both pass it and leave the session with more runs than its quota.
\<close>

theorem concurrent_creates_exceed_quota:
  assumes "mgSessions m = Some s" and "token \<noteq> ''''" and "held_by token (mgEntries m) = ssQuota s - 1" and "mgMax m \<le> 0"
    and "map_of (mgEntries m) i = None" and "map_of (mgEntries m) j = None" and "i \<noteq> j" and "i \<noteq> ''''" and "j \<noteq> ''''"
  shows "checkQuota None token m = None \<and>
    (\<exists>m1 m2. create_locked None draws now gen token i seed drivers m = Some (Inr i, m1) \<and>
       create_locked None draws now gen token j seed drivers m1 = Some (Inr j, m2) \<and>
       held_by token (mgEntries m2) = ssQuota s + 1)"
proof -
  obtain d where d: "new_entry draws i seed drivers token = Some d" "enOwner d = token" using new_entry_total by blast
  obtain e where e: "new_entry draws j seed drivers token = Some e" "enOwner e = token" using new_entry_total by blast
  let ?m1 = "m\<lparr>mgEntries := mgEntries m @ [(i, d)]\<rparr>" and ?m2 = "m\<lparr>mgEntries := mgEntries m @ [(i, d), (j, e)]\<rparr>"
  have "create_locked None draws now gen token i seed drivers m = Some (Inr i, ?m1)"
    using assms d by (simp add: create_locked_def recordSimulation_def update_fresh)
  moreover have "create_locked None draws now gen token j seed drivers ?m1 = Some (Inr j, ?m2)"
    using assms e by (simp add: create_locked_def recordSimulation_def update_fresh map_add_def)
  moreover have "held_by token (mgEntries ?m2) = ssQuota s + 1"
    using assms(3) d(2) e(2) by (simp add: held_by_count)
  ultimately show ?thesis using assms(1-3) by (auto simp: checkQuota_def CheckQuota_def)
qed

subsection \<open>Witnesses\<close>

definition test_manager :: "unit manager" where
  "test_manager = NewManagerWithConfig 0 (Some (NewSessions 0 0 1)) ()"

definition test_entry :: entry where
  "test_entry = the (new_entry (\<lambda>_ _. 0) ''a'' 7 3 ''t'')"

lemma test_entry: "enOwner test_entry = ''t''" "enOrders test_entry = 0"
  unfolding test_entry_def using new_entry_total [of "\<lambda>_ _. 0" "''a''" 7 3 "''t''"] by auto

theorem foreign_runs_look_absent_witness:
  "fst (run_call ''u'' '''' ''a'' AskReset (test_manager\<lparr>mgEntries := [(''a'', test_entry)]\<rparr>)) = Some ErrNotFound"
proof -
  let ?m = "test_manager\<lparr>mgEntries := [(''a'', test_entry)]\<rparr>"
  have "fst (run_call ''u'' '''' ''a'' AskReset ?m) = fst (run_call ''u'' '''' ''a'' AskReset (without_run ''a'' ?m))"
    using foreign_runs_look_absent [of ?m "''a''" test_entry "''u''" "''''" AskReset None 0 True] by (simp add: test_entry)
  then show ?thesis by (simp add: without_run_def manager_Reset_def submit_def)
qed


definition test_creations :: "creation list" where
  "test_creations = [\<lparr>cnToken = ''t'', cnID = ''a'', cnGenerated = ''g'', cnSeed = 7, cnDrivers = 3, cnNow = 0\<rparr>,
      \<lparr>cnToken = ''t'', cnID = ''b'', cnGenerated = ''h'', cnSeed = 7, cnDrivers = 3, cnNow = 0\<rparr>]"

theorem creations_within_limits_witness:
  "\<exists>m. creations None (\<lambda>_ _. 0) test_creations test_manager = Some m \<and> held_by ''t'' (mgEntries m) \<le> 1"
proof -
  have "\<forall>c \<in> set test_creations. cnGenerated c \<noteq> ''''" by (simp add: test_creations_def)
  from creations_within_limits [OF this, of "NewSessions 0 0 1" None "\<lambda>_ _. 0" 0 "()"]
  obtain m where "creations None (\<lambda>_ _. 0) test_creations test_manager = Some m"
    "\<forall>token. token \<noteq> '''' \<longrightarrow> held_by token (mgEntries m) \<le> 1"
    by (auto simp: NewSessions_def test_manager_def)
  then show ?thesis by blast
qed

theorem concurrent_creates_exceed_quota_witness:
  "\<exists>m1 m2. create_locked None (\<lambda>_ _. 0) 0 ''g'' ''t'' ''a'' 7 3 test_manager = Some (Inr ''a'', m1) \<and>
     create_locked None (\<lambda>_ _. 0) 0 ''g'' ''t'' ''b'' 7 3 m1 = Some (Inr ''b'', m2) \<and> held_by ''t'' (mgEntries m2) = 2"
proof -
  have M: "mgSessions test_manager = Some (NewSessions 0 0 1)" "held_by ''t'' (mgEntries test_manager) = ssQuota (NewSessions 0 0 1) - 1"
    "mgMax test_manager \<le> 0" "map_of (mgEntries test_manager) x = None" "ssQuota (NewSessions 0 0 1) + 1 = 2" for x
    by (simp_all add: test_manager_def NewManagerWithConfig_def NewSessions_def held_by_def)
  show ?thesis
    using concurrent_creates_exceed_quota [OF M(1) _ M(2,3) M(4,4), of "''a''" "''b''" "\<lambda>_ _. 0" 0 "''g''" 7 3] M(5) by simp
qed

end
