(* ===== verification/Comparison.thy ===== *)
theory Comparison
  imports Simulation_Motion Store_Interface
begin

text \<open>
  Comparing the two strategies (\<open>internal/service/comparison.go\<close>): seeded demand scenarios, the
  headless run of a scenario under one strategy, the metrics drawn from it, and the service that
  keeps results.  \<open>draws\<close> is the generator's \<open>Float64\<close> stream and \<open>picks seed k n\<close> the \<open>k\<close>-th number
  \<open>Intn(n)\<close> yields for a seed.  A failed type assertion on an event payload is a panic (\<open>None\<close>), as is
  a panic of the simulation.

  The lemmas show that a run returns, that its metrics account for every order once, and that the
  two strategies are scored on the same demand.
\<close>

type_synonym int_source = "int \<Rightarrow> nat \<Rightarrow> nat \<Rightarrow> nat"

datatype demand_level = DemandLight | DemandSteady | DemandRush | DemandOther string

record arrival =
  arTime :: real
  arPickup :: node_id
  arDestination :: node_id

record scenario =
  scSeed :: int
  scDrivers :: int
  scDemand :: demand_level
  scArrivals :: "arrival list"
  scBatchWindow :: real
  scMinBatchSize :: int
  scMaxWait :: real
  scWeights :: cost_weights
  scMaxTime :: real

record metrics =
  mtAlgorithm :: string
  mtCompleted :: nat
  mtUnassigned :: nat
  mtServed :: real
  mtAveragePickup :: real
  mtP95Pickup :: real
  mtDistance :: real
  mtBatch :: nat
  mtImmediate :: nat

record comparison_result =
  coID :: string
  coScenario :: scenario
  coBaseline :: metrics
  coOptimized :: metrics

record demand_shape =
  shOrders :: int
  shInterval :: real
  shMaxTime :: real

subsection \<open>Scenarios\<close>

definition demandShapes :: "demand_level \<Rightarrow> demand_shape option" where
  "demandShapes d = (case d of
     DemandLight \<Rightarrow> Some \<lparr>shOrders = 12, shInterval = 6, shMaxTime = 400\<rparr>
   | DemandSteady \<Rightarrow> Some \<lparr>shOrders = 20, shInterval = 3, shMaxTime = 400\<rparr>
   | DemandRush \<Rightarrow> Some \<lparr>shOrders = 0, shInterval = 0, shMaxTime = 1000\<rparr>
   | DemandOther _ \<Rightarrow> None)"

definition demand_named :: "string \<Rightarrow> demand_level" where
  \<comment> \<open>\<open>DemandLevel(raw)\<close>\<close>
  "demand_named raw = (if raw = ''light'' then DemandLight else if raw = ''steady'' then DemandSteady
     else if raw = ''rush'' then DemandRush else DemandOther raw)"

definition NormalizeDemand :: "string \<Rightarrow> demand_level" where
  "NormalizeDemand raw = (case demandShapes (demand_named raw) of Some _ \<Rightarrow> demand_named raw | None \<Rightarrow> DemandSteady)"

definition rushOrderCount :: "int \<Rightarrow> int" where
  "rushOrderCount drivers =
     (let n = drivers * 2 in if n < 20 then 20 else if n > 30 then 30 else n)"

partial_function (option) draw_destination :: "(nat \<Rightarrow> nat \<Rightarrow> nat) \<Rightarrow> node_id list \<Rightarrow> node_id \<Rightarrow> nat \<Rightarrow> (node_id \<times> nat) option" where
  \<comment> \<open>drawing until the destination is not the pickup; \<open>None\<close>: for ever\<close>
  "draw_destination intn ids pickup k =
     (let destination = ids ! intn k (length ids)
      in if destination = pickup then draw_destination intn ids pickup (k + 1) else Some (destination, k + 1))"

fun draw_arrivals :: "(nat \<Rightarrow> nat \<Rightarrow> nat) \<Rightarrow> node_id list \<Rightarrow> real \<Rightarrow> nat \<Rightarrow> nat \<Rightarrow> nat \<Rightarrow> arrival list option" where
  \<comment> \<open>the loop over \<open>i\<close>, with the number of arrivals left and of numbers drawn\<close>
  "draw_arrivals intn ids interval i 0 k = Some []"
| "draw_arrivals intn ids interval i (Suc n) k =
     (let pickup = ids ! intn k (length ids)
      in case draw_destination intn ids pickup (k + 1) of
           None \<Rightarrow> None
         | Some (destination, k1) \<Rightarrow>
             map_option ((#) \<lparr>arTime = real i * interval, arPickup = pickup, arDestination = destination\<rparr>)
               (draw_arrivals intn ids interval (Suc i) n k1))"

definition ScenarioFor :: "rand_source \<Rightarrow> int_source \<Rightarrow> int \<Rightarrow> int \<Rightarrow> demand_level \<Rightarrow> scenario option" where
  "ScenarioFor draws picks seed drivers0 demand0 =
     (let drivers = (if drivers0 \<le> 0 then 12 else drivers0);
          (demand, shape) = (case demandShapes demand0 of
             Some shape \<Rightarrow> (demand0, shape) | None \<Rightarrow> (DemandSteady, the (demandShapes DemandSteady)));
          orderCount = (if demand = DemandRush then rushOrderCount drivers else shOrders shape);
          interval = (if demand = DemandRush then 0 else shInterval shape);
          ids = sort (keys (cNodes (GenerateGrid draws (DefaultGridConfig seed))))
      in map_option (\<lambda>arrivals. \<lparr>scSeed = seed, scDrivers = drivers, scDemand = demand, scArrivals = arrivals,
             scBatchWindow = 2, scMinBatchSize = 2, scMaxWait = 2, scWeights = DefaultCostWeights,
             scMaxTime = shMaxTime shape\<rparr>)
           (draw_arrivals (picks seed) ids interval 0 (nat orderCount) 0))"

definition DefaultScenario :: "rand_source \<Rightarrow> int_source \<Rightarrow> int \<Rightarrow> int \<Rightarrow> scenario option" where
  "DefaultScenario draws picks seed drivers = ScenarioFor draws picks seed drivers DemandSteady"

subsection \<open>Running a scenario\<close>

definition payload_num :: "string \<Rightarrow> json \<Rightarrow> real option" where
  \<comment> \<open>\<open>payload.(map[string]any)[k].(float64)\<close>\<close>
  "payload_num k j = (case j of JObj kvs \<Rightarrow> (case map_of kvs k of Some (JNum x) \<Rightarrow> Some x | _ \<Rightarrow> None) | _ \<Rightarrow> None)"

definition payload_str :: "string \<Rightarrow> json \<Rightarrow> string option" where
  "payload_str k j = (case j of JObj kvs \<Rightarrow> (case map_of kvs k of Some (JStr x) \<Rightarrow> Some x | _ \<Rightarrow> None) | _ \<Rightarrow> None)"

definition record_one :: "event \<Rightarrow> event list \<times> real \<Rightarrow> (event list \<times> real) option" where
  "record_one e = (\<lambda>(assigned, driven).
     if evType e = EventOrderAssigned then Some (assigned @ [e], driven)
     else if evType e = EventRouteComputed then
       map_option (\<lambda>x. (assigned, driven + x)) (payload_num ''distance'' (evPayload e))
     else Some (assigned, driven))"

fun applyDue :: "real \<Rightarrow> arrival list \<Rightarrow> sim \<Rightarrow> event list \<times> real \<Rightarrow> (arrival list \<times> sim \<times> event list \<times> real) option" where
  \<comment> \<open>the list is \<open>arrivals[arrivalIdx:]\<close>\<close>
  "applyDue now [] s acc = Some ([], s, acc)"
| "applyDue now (a # rest) s acc =
     (if arTime a \<le> now
      then case Apply 0 (PlaceOrder (arPickup a) (arDestination a)) s of
             None \<Rightarrow> None
           | Some (es, s1) \<Rightarrow> (case fold_opt record_one es acc of None \<Rightarrow> None | Some acc1 \<Rightarrow> applyDue now rest s1 acc1)
      else Some (a # rest, s, acc))"

definition scenario_step :: "nat \<Rightarrow> arrival list \<times> sim \<times> event list \<times> real \<Rightarrow> (arrival list \<times> sim \<times> event list \<times> real) option" where
  \<comment> \<open>the body of the tick loop\<close>
  "scenario_step n = (\<lambda>(arrivals, s, acc).
     case Advance s of
       None \<Rightarrow> None
     | Some (es, s1) \<Rightarrow>
         (case fold_opt record_one es acc of None \<Rightarrow> None | Some acc1 \<Rightarrow> applyDue (real (n + 1)) arrivals s1 acc1))"

function scenario_loop :: "real \<Rightarrow> nat \<Rightarrow> arrival list \<times> sim \<times> event list \<times> real \<Rightarrow> (arrival list \<times> sim \<times> event list \<times> real) option" where
  "scenario_loop maxTime n w =
     (if real n < maxTime
      then case scenario_step n w of None \<Rightarrow> None | Some w1 \<Rightarrow> scenario_loop maxTime (n + 1) w1
      else Some w)"
  by pat_completeness auto
termination
  by (relation "measure (\<lambda>(maxTime, n, w). nat \<lceil>maxTime - real n\<rceil>)") (auto, linarith)

declare scenario_loop.simps [simp del]

definition scenario_config :: "scenario \<Rightarrow> strategy \<Rightarrow> string \<Rightarrow> config" where
  "scenario_config sc st label = \<lparr>cfID = ''comparison-'' @ label, cfSeed = scSeed sc, cfDriverCount = scDrivers sc,
     cfStrategy = st, cfBatchWindow = scBatchWindow sc, cfMinBatchSize = scMinBatchSize sc, cfMaxWait = scMaxWait sc,
     cfCandidates = 0, cfWeights = scWeights sc\<rparr>"

definition scenario_horizon :: "scenario \<Rightarrow> real" where
  "scenario_horizon sc = (if scMaxTime sc \<le> 0 then 200 else scMaxTime sc)"

definition play_scenario :: "rand_source \<Rightarrow> scenario \<Rightarrow> strategy \<Rightarrow> string \<Rightarrow> (arrival list \<times> sim \<times> event list \<times> real) option" where
  \<comment> \<open>\<open>runScenario\<close> up to the call of \<open>summarize\<close>\<close>
  "play_scenario draws sc st label =
     (let s = snd (Start (NewWithConfig draws (scenario_config sc st label)));
          arrivals = sort_key arTime (scArrivals sc)
      in case applyDue 0 arrivals s ([], 0) of
           None \<Rightarrow> None
         | Some w \<Rightarrow> scenario_loop (scenario_horizon sc) 0 w)"

subsection \<open>Metrics\<close>

definition mean :: "real list \<Rightarrow> real" where
  "mean xs = (if xs = [] then 0 else foldl (+) 0 xs / real (length xs))"

definition percentile :: "real list \<Rightarrow> real \<Rightarrow> real" where
  "percentile xs p =
     (if xs = [] then 0
      else let rank0 = \<lceil>p * real (length xs)\<rceil> - 1;
               rank1 = (if rank0 < 0 then 0 else rank0);
               rank = (if rank1 \<ge> int (length xs) then int (length xs) - 1 else rank1)
           in xs ! nat rank)"

definition assigned_eta :: "event \<Rightarrow> (order_id, real) gomap \<Rightarrow> (order_id, real) gomap option" where
  "assigned_eta e m =
     (case (payload_str ''orderId'' (evPayload e), payload_num ''pickupEtaVirtualTime'' (evPayload e)) of
        (Some i, Some eta) \<Rightarrow> Some (AList.update i eta m)
      | _ \<Rightarrow> None)"

definition pickup_time :: "(order_id, real) gomap \<Rightarrow> real \<Rightarrow> order_summary \<Rightarrow> real" where
  "pickup_time etas maxTime su = (case map_of etas (suID su) of Some eta \<Rightarrow> eta - suCreatedAt su | None \<Rightarrow> maxTime - suCreatedAt su)"

definition summarize :: "sim \<Rightarrow> event list \<Rightarrow> real \<Rightarrow> real \<Rightarrow> string \<Rightarrow> metrics option" where
  "summarize s assigned driven maxTime label =
     map_option (\<lambda>etas.
       let orders = Orders s;
           times = sort (map (pickup_time etas maxTime) orders);
           completed = length (filter (\<lambda>su. suStatus su = OrderDelivered) orders);
           unassigned = length (filter (\<lambda>su. suStatus su = OrderUnassignable \<or> suStatus su = OrderPending) orders)
       in \<lparr>mtAlgorithm = label, mtCompleted = completed, mtUnassigned = unassigned,
           mtServed = (if orders = [] then 0 else real completed / real (length orders)),
           mtAveragePickup = mean times, mtP95Pickup = percentile times (95 / 100), mtDistance = driven,
           mtBatch = fst (DispatchCounts s), mtImmediate = snd (DispatchCounts s)\<rparr>)
     (fold_opt assigned_eta assigned [])"

definition runScenario :: "rand_source \<Rightarrow> scenario \<Rightarrow> strategy \<Rightarrow> string \<Rightarrow> metrics option" where
  "runScenario draws sc st label =
     (case play_scenario draws sc st label of
        None \<Rightarrow> None
      | Some (_, s, assigned, driven) \<Rightarrow> summarize s assigned driven (scenario_horizon sc) label)"

definition RunComparison :: "rand_source \<Rightarrow> scenario \<Rightarrow> comparison_result option" where
  "RunComparison draws sc =
     (case (runScenario draws sc StrategyBaseline ''baseline'', runScenario draws sc StrategyOptimized ''optimized'') of
        (Some b, Some x) \<Rightarrow> Some \<lparr>coID = '''', coScenario = sc, coBaseline = b, coOptimized = x\<rparr>
      | _ \<Rightarrow> None)"

subsection \<open>What a run does to the demand\<close>

definition demand_of :: "sim \<Rightarrow> order_id \<Rightarrow> (node_id \<times> node_id \<times> real) option" where
  \<comment> \<open>the part of an order its customer decides\<close>
  "demand_of s k = map_option (\<lambda>x. (oPickup x, oDestination x, oCreatedAt x)) (map_of (sOrders s) k)"

lemma demand_of_frame [simp]:
  "demand_of (s\<lparr>sVirtualTime := t\<rparr>) = demand_of s" "demand_of (s\<lparr>sEvents := es\<rparr>) = demand_of s"
  by (simp_all add: demand_of_def fun_eq_iff)

definition readable_as :: "event_type \<Rightarrow> json \<Rightarrow> bool" where
  \<comment> \<open>the type assertions of \<open>record\<close> and \<open>summarize\<close> hold\<close>
  "readable_as t p \<longleftrightarrow> (t = EventRouteComputed \<longrightarrow> payload_num ''distance'' p \<noteq> None) \<and>
     (t = EventOrderAssigned \<longrightarrow> payload_str ''orderId'' p \<noteq> None \<and> payload_num ''pickupEtaVirtualTime'' p \<noteq> None)"

abbreviation readable :: "event \<Rightarrow> bool" where
  "readable e \<equiv> readable_as (evType e) (evPayload e)"

definition idle_kept :: "sim \<Rightarrow> sim \<Rightarrow> bool" where
  \<comment> \<open>the same drivers; one that was idle before still is since the same time, or has become idle now\<close>
  "idle_kept s s' \<longleftrightarrow> (\<forall>i d'. map_of (sDrivers s') i = Some d' \<longrightarrow>
     (\<exists>d. map_of (sDrivers s) i = Some d \<and> (dIdleSince d' = dIdleSince d \<or> dIdleSince d' = sVirtualTime s)))"

definition keeps :: "sim \<Rightarrow> sim \<Rightarrow> bool" where
  "keeps s s' \<longleftrightarrow> demand_of s' = demand_of s \<and> sNextOrderID s' = sNextOrderID s \<and>
     sVirtualTime s' = sVirtualTime s \<and> sPaused s' = sPaused s \<and> sStrategy s' = sStrategy s \<and>
     sCity s' = sCity s \<and> sWeights s' = sWeights s \<and> idle_kept s s' \<and>
     (\<exists>es. sEvents s' = sEvents s @ es \<and> list_all readable es)"

named_theorems keeps_intros \<open>steps that leave the demand alone and emit readable events\<close>

lemma keeps_refl [keeps_intros, simp]: "keeps s s"
  by (simp add: keeps_def idle_kept_def)

lemma keeps_trans: "keeps s s' \<Longrightarrow> keeps s' s'' \<Longrightarrow> keeps s s''"
proof -
  assume "keeps s s'" "keeps s' s''"
  then have "idle_kept s s''" unfolding keeps_def idle_kept_def by metis
  with \<open>keeps s s'\<close> \<open>keeps s' s''\<close> show ?thesis by (fastforce simp: keeps_def)
qed

lemma idle_kept_same: "sDrivers s' = sDrivers s \<Longrightarrow> idle_kept s s'"
  by (simp add: idle_kept_def)

lemma keeps_emit [keeps_intros]: "keeps s s' \<Longrightarrow> readable_as t p \<Longrightarrow> keeps s (emit t p s')"
  by (rule keeps_trans) (auto simp: keeps_def emit_def demand_of_def fun_eq_iff idle_kept_same)

lemma readable_payloads [keeps_intros]:
  "readable_as EventRouteComputed (route_payload i r len)"
  "readable_as EventOrderAssigned (JObj [(''orderId'', JStr k), (''driverId'', JStr i), (''pickupEtaVirtualTime'', JNum x), (''pickupDistance'', JNum y)])"
  "readable_as EventDriverStatusChanged p" "readable_as EventOrderUnassignable p" "readable_as EventOrderDelivered p"
  "readable_as EventRouteInvalidated p" "readable_as EventDriverPositionUpdate p" "readable_as EventOrderPlaced p"
  by (simp_all add: readable_as_def route_payload_def payload_num_def payload_str_def)

lemma keeps_driver [keeps_intros]:
  assumes "keeps s s'" "\<And>d. dIdleSince (f d) = dIdleSince d \<or> dIdleSince (f d) = sVirtualTime s'"
  shows "keeps s (set_driver i f s')"
proof (rule keeps_trans [OF assms(1)])
  have "idle_kept s' (set_driver i f s')"
    using assms(2) by (auto simp: idle_kept_def set_driver_def map_of_adjust)
  then show "keeps s' (set_driver i f s')"
    by (simp add: keeps_def demand_of_def fun_eq_iff set_driver_def)
qed

lemma keeps_order:
  assumes "keeps s s'" "\<And>x. oPickup (f x) = oPickup x" "\<And>x. oDestination (f x) = oDestination x" "\<And>x. oCreatedAt (f x) = oCreatedAt x"
  shows "keeps s (set_order k f s')"
proof -
  have "demand_of (set_order k f s') = demand_of s'"
    by (auto simp: demand_of_def set_order_def map_of_adjust fun_eq_iff option.map_comp comp_def assms(2-4))
  then show ?thesis using assms(1) by (simp add: keeps_def set_order_def idle_kept_def)
qed

lemma keeps_order_status [keeps_intros]:
  "keeps s s' \<Longrightarrow> keeps s (set_order k (\<lambda>x. x\<lparr>oStatus := st\<rparr>) s')"
  "keeps s s' \<Longrightarrow> keeps s (set_order k (\<lambda>x. x\<lparr>oStatus := st, oAssignedDriver := d\<rparr>) s')"
  by (rule keeps_order; simp)+

lemma keeps_update [keeps_intros]:
  "keeps s s' \<Longrightarrow> keeps s (s'\<lparr>sIndex := x\<rparr>)" "keeps s s' \<Longrightarrow> keeps s (s'\<lparr>sPending := xs\<rparr>)"
  "keeps s s' \<Longrightarrow> keeps s (s'\<lparr>sBatchCount := n\<rparr>)"
  "keeps s s' \<Longrightarrow> keeps s (s'\<lparr>sImmediateCount := n\<rparr>)"
  by (auto simp: keeps_def demand_of_def fun_eq_iff idle_kept_def)

lemma keeps_fold_opt:
  assumes "\<And>x s s'. f x s = Some s' \<Longrightarrow> keeps s s'" "fold_opt f xs s = Some s'"
  shows "keeps s s'"
  using assms(2)
proof (induction xs arbitrary: s)
  case (Cons x xs)
  then obtain s1 where "f x s = Some s1" "fold_opt f xs s1 = Some s'" by (auto split: option.splits)
  then show ?case using Cons.IH assms(1) keeps_trans by blast
qed simp

lemma applyAssignment_keeps: "applyAssignment a s = Some s' \<Longrightarrow> keeps s s'"
  by (auto simp: applyAssignment_def commit_assignment_def Let_def split: option.splits list.splits
      intro!: keeps_intros)

lemma assignBaseline_keeps: "assignBaseline i ord s = Some s' \<Longrightarrow> keeps s s'"
  by (auto simp: assignBaseline_def split: option.splits if_splits
      intro!: keeps_intros intro: applyAssignment_keeps)

lemma retryPendingBaseline_keeps:
  assumes "retryPendingBaseline s = Some s'"
  shows "keeps s s'"
proof -
  have one: "retry_one i s = Some s' \<Longrightarrow> keeps s s'" for i s s'
    by (auto simp: retry_one_def assignBaseline_keeps split: option.splits if_splits)
  have "keeps (s\<lparr>sPending := []\<rparr>) s'" if "fold_opt retry_one (sPending s) (s\<lparr>sPending := []\<rparr>) = Some s'"
    by (rule keeps_fold_opt [OF one that])
  then show ?thesis
    using assms keeps_trans [OF keeps_update(2) [OF keeps_refl]]
    by (auto simp: retryPendingBaseline_def split: if_splits)
qed

lemma dispatchImmediateBaseline_keeps:
  assumes "dispatchImmediateBaseline s = Some s'"
  shows "keeps s s'"
proof -
  have drop: "keeps s (s\<lparr>sPending := rest, sImmediateCount := n\<rparr>)" for rest n
    by (simp add: keeps_def demand_of_def fun_eq_iff idle_kept_same)
  show ?thesis
    using assms by (auto simp: dispatchImmediateBaseline_def Let_def split: list.splits option.splits if_splits
        intro!: keeps_intros dest!: assignBaseline_keeps intro: keeps_trans [OF drop])
qed

lemma runBatch_keeps:
  assumes "runBatch s = Some s'"
  shows "keeps s s'"
proof (cases rule: runBatch_cases [OF assms])
  case (2 orders index as infs s1 s2)
  have rej: "reject_order i s = Some s' \<Longrightarrow> keeps s s'" for i s s'
    by (auto simp: reject_order_def split: option.splits intro!: keeps_intros)
  have "keeps s s1"
    by (rule keeps_trans [OF _ keeps_fold_opt [OF applyAssignment_keeps 2(5)]]) (auto intro!: keeps_intros)
  then have "keeps s s2" by (rule keeps_trans [OF _ keeps_fold_opt [OF rej 2(6)]])
  then show ?thesis unfolding 2(7) by (intro keeps_intros)
qed simp

lemma dispatchOptimized_keeps: "dispatchOptimized s = Some s' \<Longrightarrow> keeps s s'"
  by (auto simp: dispatchOptimized_def Let_def split: list.splits option.splits if_splits
      intro: runBatch_keeps dispatchImmediateBaseline_keeps keeps_intros)

lemma handleDriverAtNode_keeps: "keeps s (handleDriverAtNode i s)"
  by (auto simp: handleDriverAtNode_def finish_delivery_def reach_pickup_def Let_def split: option.splits
      intro!: keeps_intros)

lemma moveDriver_keeps: "keeps s (moveDriver i s)"
proof -
  have adv: "keeps s (advance_driver i nxt s)" for nxt s
    unfolding advance_driver_def by (rule keeps_trans [OF _ handleDriverAtNode_keeps]) (auto intro!: keeps_intros)
  have "keeps s (move_loop i budget s)" for budget
    by (rule move_loop_invariant [of "\<lambda>_. keeps s"]) (auto intro: keeps_trans adv intro!: keeps_intros)
  then show ?thesis
    by (auto simp: moveDriver_def emitDriverPosition_def Let_def split: option.splits intro!: keeps_intros)
qed

lemma moved_keeps: "keeps (s\<lparr>sVirtualTime := sVirtualTime s + 1\<rparr>) (moved s)"
proof -
  let ?s = "s\<lparr>sVirtualTime := sVirtualTime s + 1\<rparr>"
  have "keeps ?s (foldl (\<lambda>s i. moveDriver i s) s1 ids)" if "keeps ?s s1" for s1 ids
    using that
  proof (induction ids arbitrary: s1)
    case (Cons i ids)
    show ?case using Cons.IH [OF keeps_trans [OF Cons.prems moveDriver_keeps]] by simp
  qed simp
  then show ?thesis unfolding moved_def virtualStepPerTick_def by simp
qed

lemma tick_keeps:
  assumes "tick s = Some s'" "\<not> sPaused s"
  shows "keeps (s\<lparr>sVirtualTime := sVirtualTime s + 1\<rparr>) s'"
  using assms(1) unfolding tick_moved [OF assms(2)]
  by (auto split: if_splits dest!: dispatchOptimized_keeps retryPendingBaseline_keeps intro: keeps_trans [OF moved_keeps])

subsection \<open>The demand a run serves\<close>

definition listed :: "(node_id \<times> node_id \<times> real) list \<Rightarrow> order_id \<Rightarrow> (node_id \<times> node_id \<times> real) option" where
  \<comment> \<open>the orders numbered in the order they were placed\<close>
  "listed placed = map_of (map (\<lambda>j. (shortID ''order'' (j + 1), placed ! j)) [0..<length placed])"

lemma listed_snoc: "listed (placed @ [x]) = (listed placed)(shortID ''order'' (length placed + 1) := Some x)"
proof -
  let ?row = "\<lambda>xs j. (shortID ''order'' (j + 1), xs ! j)"
  let ?k = "shortID ''order'' (length placed + 1)"
  have rows: "map (?row (placed @ [x])) [0..<length placed] = map (?row placed) [0..<length placed]"
    by (rule map_cong) (simp_all add: nth_append)
  have fresh: "map_of (map (?row placed) [0..<length placed]) ?k = None"
    by (simp add: map_of_eq_None_iff image_image) auto
  have "listed (placed @ [x]) = map_of (map (?row (placed @ [x])) [0..<length placed] @ [(?k, x)])"
    by (simp add: listed_def)
  then have "listed (placed @ [x]) = map_of (map (?row placed) [0..<length placed] @ [(?k, x)])" by (simp only: rows)
  then show ?thesis using fresh by (auto simp: listed_def map_add_def fun_eq_iff split: option.splits)
qed

lemma listed_order: "listed placed k = Some x \<Longrightarrow> \<exists>j < length placed. k = shortID ''order'' (j + 1) \<and> x = placed ! j"
  by (auto simp: listed_def dest!: map_of_SomeD)

lemma listed_dom: "dom (listed placed) = (\<lambda>j. shortID ''order'' (j + 1)) ` {0..<length placed}"
  by (simp add: listed_def dom_map_of_conv_image_fst image_image)

definition timely :: "rand_source \<Rightarrow> config \<Rightarrow> sim \<Rightarrow> bool" where
  \<comment> \<open>the generated city and the configured weights, and no driver idle since before the start or after now\<close>
  "timely draws cfg s \<longleftrightarrow> sCity s = GenerateGrid draws (DefaultGridConfig (cfSeed cfg)) \<and>
     sWeights s = cfWeights (config_defaults cfg) \<and> 0 \<le> sVirtualTime s \<and>
     (\<forall>i d. map_of (sDrivers s) i = Some d \<longrightarrow> 0 \<le> dIdleSince d \<and> dIdleSince d \<le> sVirtualTime s)"

lemma timely_keeps: "timely draws cfg s \<Longrightarrow> keeps s s' \<Longrightarrow> timely draws cfg s'"
  unfolding timely_def keeps_def idle_kept_def by (metis order_refl)

lemma timely_frame [simp]:
  "timely draws cfg (s\<lparr>sEvents := es\<rparr>) = timely draws cfg s"
  by (simp add: timely_def)

lemma timely_later: "timely draws cfg s \<Longrightarrow> sVirtualTime s \<le> t \<Longrightarrow> timely draws cfg (s\<lparr>sVirtualTime := t\<rparr>)"
  unfolding timely_def by fastforce

definition at_tick :: "rand_source \<Rightarrow> config \<Rightarrow> nat \<Rightarrow> (node_id \<times> node_id \<times> real) list \<Rightarrow> sim \<Rightarrow> bool" where
  "at_tick draws cfg n placed s \<longleftrightarrow> reachable draws cfg s \<and> sEvents s = [] \<and> \<not> sPaused s \<and> sVirtualTime s = real n \<and>
     sNextOrderID s = length placed \<and> demand_of s = listed placed \<and> sStrategy s = cfStrategy (config_defaults cfg) \<and> timely draws cfg s"

lemma placeDrivers_idle: "map_of (placeDrivers c n) i = Some d \<Longrightarrow> dIdleSince d = 0"
proof -
  have "\<forall>d. map_of (foldl (\<lambda>m i. AList.update (shortID ''driver'' i) (new_driver (shortID ''driver'' i) (f i)) m) m xs) i = Some d \<longrightarrow>
      dIdleSince d = 0" if "\<forall>d. map_of m i = Some d \<longrightarrow> dIdleSince d = 0" for m and f :: "nat \<Rightarrow> node_id" and xs
    using that
  proof (induction xs arbitrary: m)
    case (Cons x xs)
    show ?case unfolding foldl_Cons by (rule Cons.IH) (use Cons.prems in \<open>simp add: map_of_update new_driver_def\<close>)
  qed simp
  from this [of "[]"] show "map_of (placeDrivers c n) i = Some d \<Longrightarrow> dIdleSince d = 0"
    by (simp add: placeDrivers_def Let_def)
qed

lemma Start_at_tick: "at_tick draws cfg 0 [] (snd (Start (NewWithConfig draws cfg)))"
proof -
  let ?s = "NewWithConfig draws cfg"
  let ?r = "emit EventSimulationSnapshot (snapshotPayload ?s) ?s"
  have parts: "sVirtualTime ?s = 0" "\<not> sPaused ?s" "sNextOrderID ?s = 0" "sOrders ?s = []" "sEvents ?s = []"
    "sStrategy ?s = cfStrategy (config_defaults cfg)" "sWeights ?s = cfWeights (config_defaults cfg)"
    "sCity ?s = GenerateGrid draws (DefaultGridConfig (cfSeed cfg))"
    "sDrivers ?s = placeDrivers (sCity ?s) (cfDriverCount (config_defaults cfg))"
    by (simp_all add: NewWithConfig_def Let_def config_defaults_def)
  have "reset ?s = ?r" by (simp add: reset_def NewWithConfig_def Let_def)
  then have r: "handleTraced 0 Reset '''' ?s = Some ?r" by (simp add: handleTraced_def handle_def)
  have "timely draws cfg ?r"
    using parts by (auto simp: timely_def emit_def dest: placeDrivers_idle)
  moreover have "reachable draws cfg (?r\<lparr>sEvents := []\<rparr>)"
    using reachable.drained [OF reachable.command [OF reachable.created r], of "sEvents ?r" "?r\<lparr>sEvents := []\<rparr>"]
    by (simp add: takePending_def)
  moreover have "snd (Start ?s) = ?r\<lparr>sEvents := []\<rparr>" by (simp add: Start_def takePending_def)
  moreover have "demand_of (?r\<lparr>sEvents := []\<rparr>) = listed []"
    using parts(4) by (simp add: emit_def demand_of_def listed_def fun_eq_iff)
  ultimately show ?thesis using parts by (simp add: at_tick_def emit_def)
qed

lemma drained_at_tick:
  assumes r: "reachable draws cfg s1" and k: "keeps s s1" and s: "sEvents s = []" "\<not> sPaused s" "sVirtualTime s = real n"
    "sNextOrderID s = length placed" "demand_of s = listed placed" "sStrategy s = cfStrategy (config_defaults cfg)"
    "timely draws cfg s" and t: "takePending s1 = (es, s2)"
  shows "at_tick draws cfg n placed s2 \<and> list_all readable es"
proof -
  have s2: "es = sEvents s1" "s2 = s1\<lparr>sEvents := []\<rparr>" using t by (auto simp: takePending_def)
  have "reachable draws cfg s2" by (rule reachable.drained [OF r t])
  moreover have "demand_of s2 = demand_of s1" by (simp add: s2(2) demand_of_def fun_eq_iff)
  moreover have "timely draws cfg s2" using timely_keeps [OF s(7) k] s2 by simp
  ultimately show ?thesis using k s(1-6) s2 by (auto simp: at_tick_def keeps_def)
qed

lemma handlePlaceOrder_keeps: "handlePlaceOrder p q s = Some s1 \<Longrightarrow> keeps (record_order (placed_order p q s) s) s1"
  by (auto simp: handlePlaceOrder_def Let_def split: if_splits
      dest!: assignBaseline_keeps dispatchImmediateBaseline_keeps intro: keeps_trans [OF keeps_update(2) [OF keeps_refl]] keeps_intros)

lemma Apply_at_tick:
  assumes at: "at_tick draws cfg n placed s"
  shows "\<exists>es s1. Apply 0 (PlaceOrder p q) s = Some (es, s1) \<and> at_tick draws cfg n (placed @ [(p, q, real n)]) s1 \<and> list_all readable es"
proof -
  have s: "reachable draws cfg s" "sEvents s = []" "\<not> sPaused s" "sVirtualTime s = real n" "sNextOrderID s = length placed"
    "demand_of s = listed placed" "sStrategy s = cfStrategy (config_defaults cfg)" "timely draws cfg s"
    using at by (simp_all add: at_tick_def)
  let ?s = "record_order (placed_order p q s) s"
  obtain s1 where s1: "handlePlaceOrder p q s = Some s1"
    using handle_inv [OF reachable_inv [OF s(1)], of 0 "PlaceOrder p q"] by (auto simp: handle_def)
  note kp = handlePlaceOrder_keeps [OF s1]
  let ?t = "?s\<lparr>sEvents := []\<rparr>" and ?e = "sEvents ?s"
  have e: "list_all readable ?e" by (simp add: record_order_def emit_def s(2) readable_as_def)
  have "demand_of ?s = (demand_of s)(oID (placed_order p q s) := Some (p, q, real n))"
    by (auto simp: demand_of_def record_order_def emit_def placed_order_def map_of_update s(4) fun_eq_iff)
  then have d: "demand_of ?s = listed (placed @ [(p, q, real n)])"
    unfolding listed_snoc by (simp add: s(5,6) placed_order_def)
  have r1: "reachable draws cfg s1"
    by (rule reachable.command [OF s(1), where cmd = "PlaceOrder p q" and trace = "''''" and ms = 0])
      (simp add: handleTraced_def handle_def s1)
  obtain es s2 where t: "takePending s1 = (es, s2)" by (cases "takePending s1")
  then have s2: "es = sEvents s1" "s2 = s1\<lparr>sEvents := []\<rparr>" by (auto simp: takePending_def)
  have "reachable draws cfg s2" by (rule reachable.drained [OF r1 t])
  moreover have "demand_of s2 = demand_of s1" by (simp add: s2(2) demand_of_def fun_eq_iff)
  moreover have "sVirtualTime ?s = real n" "\<not> sPaused ?s" "sNextOrderID ?s = length (placed @ [(p, q, real n)])" "sStrategy ?s = cfStrategy (config_defaults cfg)"
    using s by (simp_all add: record_order_def emit_def)
  moreover have "timely draws cfg s2"
  proof -
    have "timely draws cfg ?s" using s(8) by (simp add: timely_def record_order_def emit_def)
    from timely_keeps [OF this kp] show ?thesis using s2(2) by simp
  qed
  ultimately have "at_tick draws cfg n (placed @ [(p, q, real n)]) s2"
    using kp d s2(2) by (simp add: at_tick_def keeps_def)
  moreover have "list_all readable es" using kp e s2(1) by (auto simp: keeps_def)
  moreover have "Apply 0 (PlaceOrder p q) s = Some (es, s2)" by (simp add: Apply_def handle_def s1 t)
  ultimately show ?thesis by blast
qed

lemma Advance_at_tick:
  assumes at: "at_tick draws cfg n placed s" and range: "dispatch_in_range s"
  shows "\<exists>es s1. Advance s = Some (es, s1) \<and> at_tick draws cfg (n + 1) placed s1 \<and> list_all readable es"
proof -
  have s: "reachable draws cfg s" "sEvents s = []" "\<not> sPaused s" "sVirtualTime s = real n" "sNextOrderID s = length placed"
    "demand_of s = listed placed" "sStrategy s = cfStrategy (config_defaults cfg)" "timely draws cfg s"
    using at by (simp_all add: at_tick_def)
  obtain s1 where s1: "tick s = Some s1"
    using tick_inv [OF reachable_inv [OF s(1)]] range by (auto simp: dispatch_in_range_def)
  obtain es s2 where t: "takePending s1 = (es, s2)" by (cases "takePending s1")
  let ?s = "s\<lparr>sVirtualTime := sVirtualTime s + 1\<rparr>"
  have "at_tick draws cfg (n + 1) placed s2 \<and> list_all readable es"
    by (rule drained_at_tick [OF reachable.ticked [OF s(1) range s1] tick_keeps [OF s1 s(3)] _ _ _ _ _ _ timely_later [OF s(8)] t])
      (use s in simp_all)
  then show ?thesis using t by (simp add: Advance_def s1)
qed

lemma record_readable:
  assumes "list_all readable es"
  shows "\<exists>acc1. fold_opt record_one es acc = Some acc1 \<and> (list_all readable (fst acc) \<longrightarrow> list_all readable (fst acc1)) \<and>
    (\<forall>e \<in> set (fst acc1). e \<in> set (fst acc) \<or> evType e = EventOrderAssigned)"
  using assms
proof (induction es arbitrary: acc)
  case (Cons e es)
  obtain xs d where acc: "acc = (xs, d)" by (cases acc)
  have e: "readable e" using Cons.prems by simp
  have "\<exists>acc0. record_one e acc = Some acc0 \<and> (list_all readable (fst acc) \<longrightarrow> list_all readable (fst acc0)) \<and>
      (\<forall>x \<in> set (fst acc0). x \<in> set (fst acc) \<or> evType x = EventOrderAssigned)"
  proof (cases "evType e = EventOrderAssigned")
    case True
    then show ?thesis using e by (simp add: acc record_one_def)
  next
    case False
    then show ?thesis using e by (cases "evType e = EventRouteComputed") (auto simp: acc record_one_def readable_as_def)
  qed
  then obtain acc0 where acc0: "record_one e acc = Some acc0" "list_all readable (fst acc) \<longrightarrow> list_all readable (fst acc0)"
    "\<forall>x \<in> set (fst acc0). x \<in> set (fst acc) \<or> evType x = EventOrderAssigned"
    by blast
  obtain acc1 where "fold_opt record_one es acc0 = Some acc1" "list_all readable (fst acc0) \<longrightarrow> list_all readable (fst acc1)"
    "\<forall>x \<in> set (fst acc1). x \<in> set (fst acc0) \<or> evType x = EventOrderAssigned"
    using Cons.IH [of acc0] Cons.prems by auto
  then show ?case using acc0 by (intro exI [of _ acc1]) auto
qed simp

definition due :: "nat \<Rightarrow> arrival \<Rightarrow> bool" where
  "due n a \<longleftrightarrow> arTime a \<le> real n"

definition placed_at :: "nat \<Rightarrow> arrival \<Rightarrow> node_id \<times> node_id \<times> real" where
  "placed_at n a = (arPickup a, arDestination a, real n)"

definition scored :: "event list \<times> real \<Rightarrow> bool" where
  "scored acc \<longleftrightarrow> list_all readable (fst acc) \<and> (\<forall>e \<in> set (fst acc). evType e = EventOrderAssigned)"

lemma record_scored: "list_all readable es \<Longrightarrow> scored acc \<Longrightarrow> \<exists>acc1. fold_opt record_one es acc = Some acc1 \<and> scored acc1"
  using record_readable [of es acc] unfolding scored_def by blast

lemma applyDue_at_tick:
  assumes "at_tick draws cfg n placed s" "scored acc"
  shows "\<exists>s1 acc1. applyDue (real n) arrivals s acc = Some (dropWhile (due n) arrivals, s1, acc1) \<and>
    at_tick draws cfg n (placed @ map (placed_at n) (takeWhile (due n) arrivals)) s1 \<and> scored acc1"
  using assms
proof (induction arrivals arbitrary: placed s acc)
  case (Cons a arrivals)
  show ?case
  proof (cases "due n a")
    case True
    obtain es s1 where s1: "Apply 0 (PlaceOrder (arPickup a) (arDestination a)) s = Some (es, s1)"
      "at_tick draws cfg n (placed @ [placed_at n a]) s1" "list_all readable es"
      using Apply_at_tick [OF Cons.prems(1), of "arPickup a" "arDestination a"] unfolding placed_at_def by blast
    obtain acc1 where acc1: "fold_opt record_one es acc = Some acc1" "scored acc1"
      using record_scored [OF s1(3) Cons.prems(2)] by blast
    show ?thesis using Cons.IH [OF s1(2) acc1(2)] True s1(1) acc1(1) by (simp add: due_def)
  qed (use Cons.prems in \<open>simp add: due_def\<close>)
qed simp

fun scenario_after :: "rand_source \<Rightarrow> scenario \<Rightarrow> strategy \<Rightarrow> string \<Rightarrow> nat \<Rightarrow> (arrival list \<times> sim \<times> event list \<times> real) option" where
  \<comment> \<open>the run before tick \<open>n\<close>\<close>
  "scenario_after draws sc st label 0 =
     applyDue 0 (sort_key arTime (scArrivals sc)) (snd (Start (NewWithConfig draws (scenario_config sc st label)))) ([], 0)"
| "scenario_after draws sc st label (Suc n) = Option.bind (scenario_after draws sc st label n) (scenario_step n)"

fun placed_by :: "arrival list \<Rightarrow> nat \<Rightarrow> (node_id \<times> node_id \<times> real) list" where
  "placed_by arrivals 0 = map (placed_at 0) (takeWhile (due 0) arrivals)"
| "placed_by arrivals (Suc n) = placed_by arrivals n @
     map (placed_at (Suc n)) (takeWhile (due (Suc n)) (dropWhile (due n) arrivals))"

definition in_range_before :: "rand_source \<Rightarrow> scenario \<Rightarrow> strategy \<Rightarrow> string \<Rightarrow> nat \<Rightarrow> bool" where
  \<comment> \<open>every batch of the run stays in the solver's range\<close>
  "in_range_before draws sc st label N \<longleftrightarrow>
     (\<forall>n < N. \<forall>w. scenario_after draws sc st label n = Some w \<longrightarrow> dispatch_in_range (fst (snd w)))"

lemma dropWhile_due: "dropWhile (due (Suc n)) (dropWhile (due n) xs) = dropWhile (due (Suc n)) xs"
proof -
  have "due n a \<Longrightarrow> due (Suc n) a" for a by (simp add: due_def)
  then show ?thesis by (induction xs) auto
qed

lemma takeWhile_due: "takeWhile (due n) xs @ takeWhile (due (Suc n)) (dropWhile (due n) xs) = takeWhile (due (Suc n)) xs"
proof -
  have "due n a \<Longrightarrow> due (Suc n) a" for a by (simp add: due_def)
  then show ?thesis by (induction xs) auto
qed

lemma placed_by_due:
  "map (\<lambda>(p, q, t). (p, q)) (placed_by arrivals n) = map (\<lambda>a. (arPickup a, arDestination a)) (takeWhile (due n) arrivals)"
proof (induction n)
  case (Suc n)
  have "map (\<lambda>(p, q, t). (p, q)) (placed_by arrivals (Suc n)) = map (\<lambda>a. (arPickup a, arDestination a))
      (takeWhile (due n) arrivals @ takeWhile (due (Suc n)) (dropWhile (due n) arrivals))"
    using Suc.IH by (simp add: placed_at_def comp_def)
  then show ?case by (simp only: takeWhile_due)
qed (simp add: placed_at_def case_prod_beta comp_def)

lemma scenario_after_at_tick:
  assumes "in_range_before draws sc st label n"
  shows "\<exists>s acc. scenario_after draws sc st label n = Some (dropWhile (due n) (sort_key arTime (scArrivals sc)), s, acc) \<and>
    at_tick draws (scenario_config sc st label) n (placed_by (sort_key arTime (scArrivals sc)) n) s \<and> scored acc"
  using assms
proof (induction n)
  case 0
  show ?case
    using applyDue_at_tick [OF Start_at_tick, where acc = "([], 0)" and draws = draws and cfg = "scenario_config sc st label"
        and arrivals = "sort_key arTime (scArrivals sc)"]
    by (simp add: scored_def)
next
  case (Suc n)
  let ?as = "sort_key arTime (scArrivals sc)" and ?cfg = "scenario_config sc st label"
  obtain s acc where s: "scenario_after draws sc st label n = Some (dropWhile (due n) ?as, s, acc)"
    "at_tick draws ?cfg n (placed_by ?as n) s" "scored acc"
  proof -
    have "in_range_before draws sc st label n" using Suc.prems unfolding in_range_before_def by (meson less_SucI)
    from Suc.IH [OF this] show thesis using that by blast
  qed
  have "dispatch_in_range s" using Suc.prems s(1) by (fastforce simp: in_range_before_def)
  from Advance_at_tick [OF s(2) this]
  obtain es s1 where s1: "Advance s = Some (es, s1)" "at_tick draws ?cfg (Suc n) (placed_by ?as n) s1" "list_all readable es" by auto
  obtain acc1 where acc1: "fold_opt record_one es acc = Some acc1" "scored acc1" using record_scored [OF s1(3) s(3)] by blast
  from applyDue_at_tick [OF s1(2) acc1(2), of "dropWhile (due n) ?as"] show ?case
    using s(1) s1(1) acc1(1) by (simp add: scenario_step_def dropWhile_due)
qed

lemma scenario_loop_after:
  assumes "scenario_after draws sc st label n = Some w" "n \<le> N" "\<And>m. m < N \<longleftrightarrow> real m < T" "\<exists>v. scenario_after draws sc st label N = Some v"
  shows "scenario_loop T n w = scenario_after draws sc st label N"
  using assms(1,2)
proof (induction "N - n" arbitrary: n w)
  case 0
  then show ?case using assms(3) [of n] by (subst scenario_loop.simps) simp
next
  case (Suc k)
  have "n < N" using Suc.hyps(2) by simp
  have some: "\<exists>v. scenario_after draws sc st label m = Some v" if "m \<le> N" for m
    using that assms(4)
  proof (induction "N - m" arbitrary: m)
    case (Suc j)
    have "j = N - Suc m" "Suc m \<le> N" using Suc.hyps(2) by simp_all
    from Suc.hyps(1) [OF this Suc.prems(2)] show ?case by (auto simp: bind_eq_Some_conv)
  qed simp
  obtain v where v: "scenario_after draws sc st label (Suc n) = Some v" using some [of "Suc n"] \<open>n < N\<close> by auto
  then have "scenario_step n w = Some v" using Suc.prems(1) by simp
  moreover have "scenario_loop T (Suc n) v = scenario_after draws sc st label N"
    by (rule Suc.hyps(1) [OF _ v]) (use Suc.hyps(2) \<open>n < N\<close> in simp_all)
  ultimately show ?case using assms(3) [of n] \<open>n < N\<close> by (subst scenario_loop.simps) simp
qed

lemma horizon_ticks: "0 < T \<Longrightarrow> m < nat \<lceil>T\<rceil> \<longleftrightarrow> real m < T"
  by linarith

lemma play_scenario_after:
  assumes "in_range_before draws sc st label (nat \<lceil>scenario_horizon sc\<rceil>)"
  shows "play_scenario draws sc st label = scenario_after draws sc st label (nat \<lceil>scenario_horizon sc\<rceil>)"
proof -
  let ?N = "nat \<lceil>scenario_horizon sc\<rceil>"
  have r: "in_range_before draws sc st label 0" by (simp add: in_range_before_def)
  obtain w where w: "scenario_after draws sc st label 0 = Some w" using scenario_after_at_tick [OF r] by blast
  have "scenario_loop (scenario_horizon sc) 0 w = scenario_after draws sc st label ?N"
  proof (rule scenario_loop_after [OF w])
    show "m < ?N \<longleftrightarrow> real m < scenario_horizon sc" for m by (rule horizon_ticks) (simp add: scenario_horizon_def)
    show "\<exists>v. scenario_after draws sc st label ?N = Some v" using scenario_after_at_tick [OF assms] by blast
  qed simp
  then show ?thesis using w by (simp add: play_scenario_def Let_def)
qed

lemma etas_readable:
  assumes "list_all readable es" "\<forall>e \<in> set es. evType e = EventOrderAssigned"
  shows "\<exists>m1. fold_opt assigned_eta es m = Some m1"
  using assms
proof (induction es arbitrary: m)
  case (Cons e es)
  then obtain k x where "payload_str ''orderId'' (evPayload e) = Some k" "payload_num ''pickupEtaVirtualTime'' (evPayload e) = Some x"
    by (auto simp: readable_as_def)
  then show ?case using Cons by (simp add: assigned_eta_def)
qed simp

lemma orders_count:
  assumes "at_tick draws cfg n placed s"
  shows "length (sOrders s) = length placed"
proof -
  have d: "distinct_keys (sOrders s)"
    using reachable_inv assms base_invD(6) by (auto simp: at_tick_def sim_inv_def)
  have "dom (map_of (sOrders s)) = dom (demand_of s)" by (auto simp: demand_of_def)
  also have "\<dots> = (\<lambda>j. shortID ''order'' (j + 1)) ` {0..<length placed}" using assms by (simp add: at_tick_def listed_dom)
  finally have "set (map fst (sOrders s)) = (\<lambda>j. shortID ''order'' (j + 1)) ` {0..<length placed}" by (simp add: dom_map_of_conv_image_fst)
  moreover have "card ((\<lambda>j. shortID ''order'' (j + 1)) ` {0..<length placed}) = length placed"
    by (subst card_image) (auto simp: inj_on_def)
  ultimately show ?thesis using distinct_card [OF d] by simp
qed

lemma sorted_takeWhile_filter: "sorted (map f xs) \<Longrightarrow> takeWhile (\<lambda>x. f x \<le> (c :: real)) xs = filter (\<lambda>x. f x \<le> c) xs"
proof (induction xs)
  case (Cons a xs)
  show ?case
  proof (cases "f a \<le> c")
    case False
    then have "\<forall>x \<in> set xs. \<not> f x \<le> c" using Cons.prems by fastforce
    then show ?thesis using False by (simp add: filter_empty_conv)
  qed (use Cons in simp)
qed simp

lemma due_count:
  "length (takeWhile (due n) (sort_key arTime xs)) = length (filter (due n) xs)"
proof -
  have "takeWhile (due n) (sort_key arTime xs) = filter (due n) (sort_key arTime xs)"
    unfolding due_def by (rule sorted_takeWhile_filter) simp
  then show ?thesis by (metis mset_filter mset_sort size_mset)
qed

definition accounts_for :: "metrics \<Rightarrow> nat \<Rightarrow> bool" where
  "accounts_for m n \<longleftrightarrow> mtCompleted m + mtUnassigned m \<le> n \<and> mtServed m * real n = real (mtCompleted m) \<and>
     0 \<le> mtServed m \<and> mtServed m \<le> 1"

lemma runScenario_total:
  assumes "in_range_before draws sc st label (nat \<lceil>scenario_horizon sc\<rceil>)"
  obtains s acc m where
    "play_scenario draws sc st label = Some (dropWhile (due (nat \<lceil>scenario_horizon sc\<rceil>)) (sort_key arTime (scArrivals sc)), s, acc)"
    "demand_of s = listed (placed_by (sort_key arTime (scArrivals sc)) (nat \<lceil>scenario_horizon sc\<rceil>))"
    "length (sOrders s) = length (filter (due (nat \<lceil>scenario_horizon sc\<rceil>)) (scArrivals sc))"
    "runScenario draws sc st label = Some m" "accounts_for m (length (sOrders s))"
proof -
  let ?N = "nat \<lceil>scenario_horizon sc\<rceil>" and ?as = "sort_key arTime (scArrivals sc)"
  obtain s acc where s: "scenario_after draws sc st label ?N = Some (dropWhile (due ?N) ?as, s, acc)"
    "at_tick draws (scenario_config sc st label) ?N (placed_by ?as ?N) s" "scored acc"
    using scenario_after_at_tick [OF assms] by blast
  have p: "play_scenario draws sc st label = Some (dropWhile (due ?N) ?as, s, acc)"
    using play_scenario_after [OF assms] s(1) by simp
  have "length (placed_by ?as ?N) = length (takeWhile (due ?N) ?as)" using arg_cong [OF placed_by_due, of length] by simp
  then have n: "length (sOrders s) = length (filter (due ?N) (scArrivals sc))"
    using orders_count [OF s(2)] by (simp add: due_count)
  obtain etas where e: "fold_opt assigned_eta (fst acc) [] = Some etas" using etas_readable s(3) unfolding scored_def by blast
  obtain xs d where acc: "acc = (xs, d)" by (cases acc)
  have len: "length (Orders s) = length (sOrders s)" by (simp add: Orders_def)
  have disjoint: "length (filter (\<lambda>su. suStatus su = OrderDelivered) os) +
      length (filter (\<lambda>su. suStatus su = OrderUnassignable \<or> suStatus su = OrderPending) os) \<le> length os" for os :: "order_summary list"
    by (induction os) auto
  have le: "length (filter (\<lambda>su. suStatus su = OrderDelivered) os) \<le> length os" for os :: "order_summary list" by (rule length_filter_le)
  obtain m where m: "summarize s xs d (scenario_horizon sc) label = Some m" "accounts_for m (length (Orders s))"
    using e disjoint [of "Orders s"] le [of "Orders s"]
    by (auto simp: summarize_def acc Let_def accounts_for_def divide_le_eq)
  show thesis
    by (rule that [OF p _ n]) (use s(2) m p acc len in \<open>simp_all add: at_tick_def runScenario_def\<close>)
qed

end
