(* ===== verification/Comparison_Range.thy ===== *)
theory Comparison_Range
  imports Comparison
begin

text \<open>
  The comparison needs no assumption on the numbers of a run: in the default city every route is
  short, no order and no driver has waited longer than the run lasts, so every batch of a scenario
  with moderate weights stays in the solver's range.  With a generator whose numbers do not get
  stuck, \<open>ScenarioFor\<close> returns a scenario of that kind, and the comparison of it returns.
\<close>

subsection \<open>Routes of the default city\<close>

definition linked :: "city \<Rightarrow> node_id \<Rightarrow> node_id \<Rightarrow> real \<Rightarrow> bool" where
  "linked c u v L \<longleftrightarrow> (\<exists>es. open_path c u es v \<and> path_len es \<le> L)"

lemma linked_refl: "0 \<le> L \<Longrightarrow> linked c u u L"
  unfolding linked_def by (rule exI [of _ "[]"]) simp

lemma linked_trans: "linked c u v L \<Longrightarrow> linked c v w M \<Longrightarrow> linked c u w (L + M)"
proof -
  assume "linked c u v L" "linked c v w M"
  then obtain es fs where "open_path c u es v" "path_len es \<le> L" "open_path c v fs w" "path_len fs \<le> M"
    unfolding linked_def by blast
  then have "open_path c u (es @ fs) w \<and> path_len (es @ fs) \<le> L + M" by (auto simp: open_path_append)
  then show ?thesis unfolding linked_def by blast
qed

lemma linked_mono: "linked c u v L \<Longrightarrow> L \<le> M \<Longrightarrow> linked c u v M"
  unfolding linked_def using order_trans by blast

lemma gap_upper:
  fixes a b :: real
  assumes "\<bar>a - real m * s\<bar> \<le> j" "\<bar>b - real n * s\<bar> \<le> j" "m = n \<or> m = n + 1 \<or> n = m + 1" "0 \<le> s"
  shows "\<bar>a - b\<bar> \<le> (if m = n then 0 else s) + 2 * j"
  using assms by (auto simp: abs_le_iff distrib_right)

definition road_bound :: "grid_config \<Rightarrow> real" where
  "road_bound cfg = gcCellSpacing cfg + 4 * (gcJitterFraction cfg * gcCellSpacing cfg)"

lemma GenerateGrid_weight_upper:
  assumes "rand_ok draws" "0 \<le> gcJitterFraction cfg" "0 \<le> gcCellSpacing cfg"
    and e: "e \<in> set (edges_from (GenerateGrid draws cfg) n)"
  shows "eWeight e \<le> road_bound cfg"
proof -
  let ?c = "GenerateGrid draws cfg" and ?s = "gcCellSpacing cfg"
  let ?j = "gcJitterFraction cfg * ?s"
  have j: "0 \<le> ?j" using assms(2,3) by simp
  obtain r c r' c' where l: "((r, c), (r', c')) \<in> set (grid_links (gcRows cfg) (gcCols cfg))"
    and w: "eWeight e = euclid ?c (grid_node_id r c) (grid_node_id r' c')"
    by (rule GenerateGrid_edge_cells [OF e]) (simp add: grid_edge_weight [of ?c] GenerateGrid_simps)
  note R = grid_links_range [OF l]
  define a b where "a = node_at ?c (grid_node_id r c)" and "b = node_at ?c (grid_node_id r' c')"
  have near: "near_cell cfg r c a" "near_cell cfg r' c' b"
    unfolding a_def b_def using GenerateGrid_near [OF assms(1) j] R by auto
  have "\<bar>nX a - nX b\<bar> \<le> (if c = c' then 0 else ?s) + 2 * ?j" "\<bar>nY a - nY b\<bar> \<le> (if r = r' then 0 else ?s) + 2 * ?j"
    using gap_upper [of "nX a" c ?s ?j "nX b" c'] gap_upper [of "nY a" r ?s ?j "nY b" r'] near R(6) assms(3)
    by (auto simp: near_cell_def)
  moreover have "eWeight e \<le> \<bar>nX a - nX b\<bar> + \<bar>nY a - nY b\<bar>"
    unfolding w euclid_def a_def b_def using sqrt_sum_squares_le_sum_abs by blast
  ultimately show ?thesis using R(6) by (auto simp: road_bound_def split: if_splits)
qed

lemma GenerateGrid_link_linked:
  assumes "rand_ok draws" "0 \<le> gcJitterFraction cfg" "0 \<le> gcCellSpacing cfg"
    and "((r, c), (r', c')) \<in> set (grid_links (gcRows cfg) (gcCols cfg))"
  shows "linked (GenerateGrid draws cfg) (grid_node_id r c) (grid_node_id r' c') (road_bound cfg)"
proof -
  note e = GenerateGrid_edge [OF assms(4), of draws]
  from GenerateGrid_weight_upper [OF assms(1-3) e] GenerateGrid_open [OF e] show ?thesis
    using e unfolding linked_def by (intro exI [of _ "[grid_edge (grid_node_map draws cfg) (grid_node_id r c, grid_node_id r' c')]"]) simp
qed

lemma GenerateGrid_origin_linked:
  assumes ok: "rand_ok draws" "0 \<le> gcJitterFraction cfg" "0 \<le> gcCellSpacing cfg" and "r < gcRows cfg" "c < gcCols cfg"
  shows "linked (GenerateGrid draws cfg) (grid_node_id r c) (grid_node_id 0 0) (real (r + c) * road_bound cfg) \<and>
    linked (GenerateGrid draws cfg) (grid_node_id 0 0) (grid_node_id r c) (real (r + c) * road_bound cfg)"
  using assms(4,5)
proof (induction "r + c" arbitrary: r c)
  case 0
  then show ?case by (simp add: linked_refl)
next
  case (Suc n)
  let ?go = "linked (GenerateGrid draws cfg)" and ?W = "road_bound cfg"
  have step: ?case if "r' + c' = n" "r' < gcRows cfg" "c' < gcCols cfg"
      "?go (grid_node_id r c) (grid_node_id r' c') ?W" "?go (grid_node_id r' c') (grid_node_id r c) ?W" for r' c'
  proof -
    have "?W + real (r' + c') * ?W = real (r + c) * ?W" "real (r' + c') * ?W + ?W = real (r + c) * ?W"
      using that(1) Suc.hyps(2) [symmetric] by (simp_all add: distrib_right)
    then show ?thesis
      using Suc.hyps(1) [OF that(1) [symmetric] that(2,3)] linked_trans [OF that(4)] linked_trans [OF _ that(5)] by metis
  qed
  show ?case
  proof (cases c)
    case 0
    then obtain r' where "r = Suc r'" using Suc.hyps(2) by (cases r) auto
    then show ?thesis
      using step [of r' c] Suc.prems Suc.hyps(2) grid_links_step(3,4) [of r' "gcRows cfg" c "gcCols cfg"]
        GenerateGrid_link_linked [OF ok] by auto
  next
    case (Suc c')
    then show ?thesis
      using step [of r c'] Suc.prems Suc.hyps(2) grid_links_step(1,2) [of r "gcRows cfg" c' "gcCols cfg"]
        GenerateGrid_link_linked [OF ok] by auto
  qed
qed

lemma open_path_ends:
  "open_path c u es v \<Longrightarrow> es \<noteq> [] \<Longrightarrow> (\<exists>e. e \<in> set (edges_from c u)) \<and> (\<exists>w e. e \<in> set (edges_from c w) \<and> eTo e = v)"
proof (induction es arbitrary: u)
  case (Cons e es)
  then show ?case by (cases "es = []") auto
qed simp

lemma default_route_bound:
  assumes "rand_ok draws" "FindRoute (GenerateGrid draws (DefaultGridConfig seed)) u v = Some r"
  shows "0 \<le> rDistance r \<and> rDistance r \<le> 3200"
proof -
  let ?cfg = "DefaultGridConfig seed" and ?W = "road_bound (DefaultGridConfig seed)"
  let ?c = "GenerateGrid draws ?cfg"
  have W: "?W = 160" by (simp add: road_bound_def DefaultGridConfig_def)
  have short: "shortest_route ?c u v r" by (rule FindRoute_Some_shortest [OF GenerateGrid_metric assms(2)])
  then obtain es where es: "open_path ?c u es v" "rDistance r = path_len es"
    and least: "\<And>fs. open_path ?c u fs v \<Longrightarrow> rDistance r \<le> path_len fs"
    unfolding shortest_route_def by blast
  have nonneg: "open_path ?c w fs x \<Longrightarrow> 0 \<le> path_len fs" for w fs x
    using GenerateGrid_weight_lower [OF assms(1), where cfg = ?cfg]
    by (induction fs arbitrary: w) (fastforce simp: DefaultGridConfig_def)+
  show ?thesis
  proof (cases "es = []")
    case True
    then show ?thesis using es(2) by simp
  next
    case False
    obtain r1 c1 r2 c2 where cells: "u = grid_node_id r1 c1" "v = grid_node_id r2 c2" "r1 < 6" "c1 < 6" "r2 < 6" "c2 < 6"
    proof -
      obtain e where e: "e \<in> set (edges_from ?c u)" using open_path_ends [OF es(1) False] by blast
      obtain w f where f: "f \<in> set (edges_from ?c w)" "eTo f = v" using open_path_ends [OF es(1) False] by blast
      obtain r1 c1 r1' c1' where l1: "((r1, c1), (r1', c1')) \<in> set (grid_links (gcRows ?cfg) (gcCols ?cfg))" "u = grid_node_id r1 c1"
        by (rule GenerateGrid_edge_cells [OF e])
      obtain r2 c2 r2' c2' where l2: "((r2', c2'), (r2, c2)) \<in> set (grid_links (gcRows ?cfg) (gcCols ?cfg))"
        "f = grid_edge (grid_node_map draws ?cfg) (grid_node_id r2' c2', grid_node_id r2 c2)"
        by (rule GenerateGrid_edge_cells [OF f(1)])
      have "v = grid_node_id r2 c2" using f(2) l2(2) by simp
      then show thesis
        using that [of r1 c1 r2 c2] l1(2) grid_links_range(1,2) [OF l1(1)] grid_links_range(3,4) [OF l2(1)]
        by (simp add: DefaultGridConfig_def)
    qed
    have ok: "0 \<le> gcJitterFraction ?cfg" "0 \<le> gcCellSpacing ?cfg" by (simp_all add: DefaultGridConfig_def)
    have "linked ?c u (grid_node_id 0 0) (real (r1 + c1) * ?W)" "linked ?c (grid_node_id 0 0) v (real (r2 + c2) * ?W)"
      unfolding cells(1,2) using GenerateGrid_origin_linked [OF assms(1) ok] cells(3-6) by (simp_all add: DefaultGridConfig_def)
    from linked_trans [OF this] obtain fs where fs: "open_path ?c u fs v" "path_len fs \<le> real (r1 + c1) * 160 + real (r2 + c2) * 160"
      unfolding linked_def W by blast
    have "real (r1 + c1) \<le> 10" "real (r2 + c2) \<le> 10" using cells(3-6) by simp_all
    then have "path_len fs \<le> 3200" using fs(2) by simp
    then show ?thesis using least [OF fs(1)] nonneg [OF es(1)] es(2) by simp
  qed
qed

subsection \<open>Every batch is in the solver's range\<close>

definition scenario_weights :: "scenario \<Rightarrow> cost_weights" where
  "scenario_weights sc = (if scWeights sc = zero_weights then DefaultCostWeights else scWeights sc)"

definition moderate :: "scenario \<Rightarrow> bool" where
  \<comment> \<open>the weights times the longest route and the longest wait stay below the solver's sentinel\<close>
  "moderate sc \<longleftrightarrow>
     \<bar>wPickupDistance (scenario_weights sc)\<bar> * 3200 + \<bar>wWaitTime (scenario_weights sc)\<bar> * (scenario_horizon sc + 1) +
       \<bar>wDriverIdleTime (scenario_weights sc)\<bar> * (scenario_horizon sc + 1) < Unreachable \<and>
     length (scArrivals sc) \<le> 10 ^ 6"

lemma placed_by_times: "\<forall>x \<in> set (placed_by arrivals n). 0 \<le> snd (snd x) \<and> snd (snd x) \<le> real n"
  by (induction n) (auto simp: placed_at_def)

lemma placed_by_length: "length (placed_by (sort_key arTime xs) n) \<le> length xs"
proof -
  have "length (placed_by (sort_key arTime xs) n) = length (takeWhile (due n) (sort_key arTime xs))"
    using arg_cong [OF placed_by_due, of length] by simp
  also have "\<dots> \<le> length xs" by (metis length_sort length_takeWhile_le)
  finally show ?thesis .
qed

lemma pair_cost_bound:
  assumes "0 \<le> rDistance r" "rDistance r \<le> 3200" "0 \<le> now - oCreatedAt ord" "now - oCreatedAt ord \<le> T" "0 \<le> now - dIdleSince d" "now - dIdleSince d \<le> T"
  shows "\<bar>pair_cost w now ord d r\<bar> \<le> \<bar>wPickupDistance w\<bar> * 3200 + \<bar>wWaitTime w\<bar> * T + \<bar>wDriverIdleTime w\<bar> * T"
proof -
  have "\<bar>wPickupDistance w * rDistance r\<bar> \<le> \<bar>wPickupDistance w\<bar> * 3200"
    using assms(1,2) by (simp add: abs_mult mult_left_mono)
  moreover have "\<bar>wWaitTime w * (now - oCreatedAt ord)\<bar> \<le> \<bar>wWaitTime w\<bar> * T"
    using assms(3,4) by (simp add: abs_mult mult_left_mono)
  moreover have "\<bar>wDriverIdleTime w * (now - dIdleSince d)\<bar> \<le> \<bar>wDriverIdleTime w\<bar> * T"
    using assms(5,6) by (simp add: abs_mult mult_left_mono)
  ultimately show ?thesis unfolding pair_cost_def by linarith
qed

lemma dispatch_moderate:
  assumes "rand_ok draws" "moderate sc" and at: "at_tick draws (scenario_config sc st label) n (placed_by (sort_key arTime (scArrivals sc)) n) s"
    and n: "real n < scenario_horizon sc"
  shows "dispatch_in_range s"
proof -
  let ?s = "s\<lparr>sVirtualTime := sVirtualTime s + 1\<rparr>" and ?m = "moved s" and ?T = "scenario_horizon sc + 1"
  let ?B = "\<bar>wPickupDistance (scenario_weights sc)\<bar> * 3200 + \<bar>wWaitTime (scenario_weights sc)\<bar> * ?T + \<bar>wDriverIdleTime (scenario_weights sc)\<bar> * ?T"
  have inv: "sim_inv (moved s)" using at by (auto simp: at_tick_def intro: moved_inv reachable_inv)
  have time: "sVirtualTime s = real n" and "timely draws (scenario_config sc st label) s" using at by (simp_all add: at_tick_def)
  then have t: "timely draws (scenario_config sc st label) ?m"
    by (intro timely_keeps [OF timely_later moved_keeps]) simp_all
  have now: "sVirtualTime ?m = real n + 1" and demand: "demand_of ?m = listed (placed_by (sort_key arTime (scArrivals sc)) n)"
    using moved_keeps [of s] at time by (simp_all add: keeps_def at_tick_def)
  have city: "sCity ?m = GenerateGrid draws (DefaultGridConfig (scSeed sc))" and weights: "sWeights ?m = scenario_weights sc"
    using t by (simp_all add: timely_def scenario_config_def config_defaults_def scenario_weights_def)
  have created: "0 \<le> oCreatedAt ord \<and> oCreatedAt ord \<le> real n" if "ord \<in> set (pending_orders ?m)" for ord
  proof -
    have "map_of (sOrders ?m) (oID ord) = Some ord" using pending_orders_spec(2) [OF inv that] by blast
    then have "demand_of ?m (oID ord) = Some (oPickup ord, oDestination ord, oCreatedAt ord)" by (simp add: demand_of_def)
    then obtain j where "j < length (placed_by (sort_key arTime (scArrivals sc)) n)"
      "(oPickup ord, oDestination ord, oCreatedAt ord) = placed_by (sort_key arTime (scArrivals sc)) n ! j"
      unfolding demand using listed_order by metis
    then have "(oPickup ord, oDestination ord, oCreatedAt ord) \<in> set (placed_by (sort_key arTime (scArrivals sc)) n)" by simp
    from placed_by_times [THEN bspec, OF this] show ?thesis by simp
  qed
  have "costs_below (sCity ?m) (sDrivers ?m) (pending_orders ?m) (sWeights ?m) (sVirtualTime ?m) ?B"
    unfolding costs_below_def weights
  proof (intro ballI allI impI)
    fix ord i d r
    assume ord: "ord \<in> set (pending_orders ?m)" and d: "map_of (sDrivers ?m) i = Some d" and r: "route_to (sCity ?m) (sDrivers ?m) ord i = Some r"
    have "FindRoute (GenerateGrid draws (DefaultGridConfig (scSeed sc))) (dPosition d) (oPickup ord) = Some r"
      using r d by (simp add: route_to_def city)
    from default_route_bound [OF assms(1) this] have dist: "0 \<le> rDistance r" "rDistance r \<le> 3200" by simp_all
    have idle: "0 \<le> dIdleSince d" "dIdleSince d \<le> real n + 1" using t d now by (auto simp: timely_def)
    show "\<bar>pair_cost (scenario_weights sc) (sVirtualTime ?m) ord d r\<bar> \<le> ?B"
      by (rule pair_cost_bound [OF dist]) (use created [OF ord] idle n now in simp_all)
  qed
  moreover have "?B < Unreachable" using assms(2) by (simp add: moderate_def)
  moreover have "(2 * real (length (pending_orders ?m)) + 2) * Unreachable < hung_inf"
  proof -
    have "length (pending_orders ?m) = length (sPending ?m)" by (simp add: pending_orders_def)
    also have "\<dots> = card (pending_ids (sOrders ?m))" using inv distinct_card [of "sPending ?m"] by (simp add: sim_inv_def)
    also have "\<dots> \<le> card (set (map fst (sOrders ?m)))"
      by (rule card_mono) (auto simp: pending_ids_def dest: map_of_SomeD intro: rev_image_eqI)
    also have "\<dots> = card (dom (demand_of ?m))"
      by (rule arg_cong [where f = card]) (auto simp: demand_of_def dom_map_of_conv_image_fst [symmetric])
    also have "\<dots> \<le> length (placed_by (sort_key arTime (scArrivals sc)) n)"
      unfolding demand listed_dom by (rule order_trans [OF card_image_le]) simp_all
    also have "\<dots> \<le> 10 ^ 6" using placed_by_length [of "scArrivals sc" n] assms(2) by (simp add: moderate_def)
    finally have "real (length (pending_orders ?m)) \<le> 10 ^ 6" by simp
    then have "(2 * real (length (pending_orders ?m)) + 2) * Unreachable \<le> (2 * 10 ^ 6 + 2) * Unreachable"
      by (intro mult_right_mono) (simp_all add: Unreachable_def)
    also have "\<dots> < hung_inf" by (simp add: Unreachable_def hung_inf_def)
    finally show ?thesis .
  qed
  ultimately have "batch_in_range ?m" unfolding batch_in_range_def costs_in_range_def by blast
  then show ?thesis by (simp add: dispatch_in_range_def)
qed

lemma moderate_in_range:
  assumes "rand_ok draws" "moderate sc"
  shows "in_range_before draws sc st label (nat \<lceil>scenario_horizon sc\<rceil>)"
proof -
  have "in_range_before draws sc st label N" if "N \<le> nat \<lceil>scenario_horizon sc\<rceil>" for N
    using that
  proof (induction N)
    case (Suc N)
    then have IH: "in_range_before draws sc st label N" by simp
    obtain s acc where s: "scenario_after draws sc st label N = Some (dropWhile (due N) (sort_key arTime (scArrivals sc)), s, acc)"
      "at_tick draws (scenario_config sc st label) N (placed_by (sort_key arTime (scArrivals sc)) N) s"
      using scenario_after_at_tick [OF IH] by blast
    have "real N < scenario_horizon sc" using Suc.prems by linarith
    from dispatch_moderate [OF assms s(2) this] show ?case using IH s(1) unfolding in_range_before_def by (auto simp: less_Suc_eq)
  qed (simp add: in_range_before_def)
  then show ?thesis by simp
qed

subsection \<open>The scenarios the program generates\<close>

definition unstuck :: "(nat \<Rightarrow> nat \<Rightarrow> nat) \<Rightarrow> nat \<Rightarrow> bool" where
  "unstuck intn n \<longleftrightarrow> (\<forall>k. intn k n < n) \<and> (\<forall>k i. \<exists>j \<ge> k. intn j n \<noteq> i)"

definition picks_ok :: "int_source \<Rightarrow> bool" where
  \<comment> \<open>the documented range of \<open>rand.Intn\<close>, and a stream that does not repeat one number for ever\<close>
  "picks_ok picks \<longleftrightarrow> (\<forall>seed n. 2 \<le> n \<longrightarrow> unstuck (picks seed) n)"

lemma draw_destination_returns:
  assumes ids: "distinct ids" "pickup \<in> set ids" "unstuck intn (length ids)"
  shows "\<exists>d k1. draw_destination intn ids pickup k = Some (d, k1) \<and> d \<in> set ids \<and> d \<noteq> pickup"
proof -
  obtain i where i: "i < length ids" "ids ! i = pickup" using ids(2) by (auto simp: in_set_conv_nth)
  have draws: "intn k (length ids) < length ids" for k using ids(3) by (simp add: unstuck_def)
  obtain j where j: "k \<le> j" "intn j (length ids) \<noteq> i" using ids(3) unfolding unstuck_def by blast
  then show ?thesis
  proof (induction "j - k" arbitrary: k)
    case 0
    then have "ids ! intn k (length ids) \<noteq> pickup" using ids(1) draws i by (auto simp: nth_eq_iff_index_eq)
    then show ?case using draws by (subst draw_destination.simps) simp
  next
    case (Suc n)
    show ?case
    proof (cases "ids ! intn k (length ids) = pickup")
      case True
      then show ?thesis using Suc.hyps(1) [of "k + 1"] Suc.hyps(2) Suc.prems by (subst draw_destination.simps) simp
    next
      case False
      then show ?thesis using draws by (subst draw_destination.simps) simp
    qed
  qed
qed

definition arrival_ok :: "node_id set \<Rightarrow> arrival \<Rightarrow> bool" where
  "arrival_ok nodes a \<longleftrightarrow> arPickup a \<in> nodes \<and> arDestination a \<in> nodes \<and> arDestination a \<noteq> arPickup a"

lemma draw_arrivals_returns:
  assumes "distinct ids" "unstuck intn (length ids)"
  shows "\<exists>as. draw_arrivals intn ids interval i n k = Some as \<and> (\<forall>a \<in> set as. arrival_ok (set ids) a) \<and>
    map arTime as = map (\<lambda>m. real m * interval) [i..<i + n]"
proof (induction n arbitrary: i k)
  case (Suc n)
  have pickup: "ids ! intn k (length ids) \<in> set ids" using assms(2) by (simp add: unstuck_def)
  obtain d k1 where d: "draw_destination intn ids (ids ! intn k (length ids)) (k + 1) = Some (d, k1)" "d \<in> set ids"
    "d \<noteq> ids ! intn k (length ids)"
    using draw_destination_returns [OF assms(1) pickup assms(2)] by blast
  obtain as where "draw_arrivals intn ids interval (Suc i) n k1 = Some as" "\<forall>a \<in> set as. arrival_ok (set ids) a"
    "map arTime as = map (\<lambda>m. real m * interval) [Suc i..<Suc i + n]"
    using Suc.IH by blast
  then show ?case using d pickup by (simp add: arrival_ok_def upt_conv_Cons)
qed simp

definition demand_count :: "int \<Rightarrow> demand_level \<Rightarrow> nat" where
  "demand_count drivers demand = (case demand of
     DemandLight \<Rightarrow> 12 | DemandRush \<Rightarrow> nat (rushOrderCount (if drivers \<le> 0 then 12 else drivers)) | _ \<Rightarrow> 20)"

lemma rushOrderCount_bounds: "20 \<le> rushOrderCount n \<and> rushOrderCount n \<le> 30"
  by (simp add: rushOrderCount_def Let_def)

lemma demand_count_bounds: "12 \<le> demand_count drivers demand \<and> demand_count drivers demand \<le> 30"
  using rushOrderCount_bounds [of "if drivers \<le> 0 then 12 else drivers"] by (auto simp: demand_count_def split: demand_level.splits)

lemma ScenarioFor_total:
  assumes "picks_ok picks"
  shows "\<exists>sc. ScenarioFor draws picks seed drivers demand = Some sc \<and> length (scArrivals sc) = demand_count drivers demand \<and>
    (\<forall>a \<in> set (scArrivals sc). arrival_ok (grid_nodes (DefaultGridConfig seed)) a \<and> 0 \<le> arTime a \<and> arTime a < scenario_horizon sc) \<and>
    sorted (map arTime (scArrivals sc)) \<and> moderate sc"
proof -
  let ?c = "GenerateGrid draws (DefaultGridConfig seed)"
  let ?ids = "sort (keys (cNodes ?c))"
  have len: "length ?ids = 36" using GenerateGrid_nodes(3) [of draws "DefaultGridConfig seed"] by (simp add: DefaultGridConfig_def)
  have nodes: "set ?ids = grid_nodes (DefaultGridConfig seed)" "distinct ?ids"
    using GenerateGrid_nodes(1,2) [of draws "DefaultGridConfig seed"] by (auto simp: grid_nodes_def)
  have "unstuck (picks seed) (length ?ids)" using assms unfolding picks_ok_def len by simp
  note A = draw_arrivals_returns [OF nodes(2) this, unfolded nodes(1)]
  define d where "d = (case demand of DemandOther _ \<Rightarrow> DemandSteady | _ \<Rightarrow> demand)"
  define h where "h = (if d = DemandRush then 1000 else 400 :: real)"
  define v where "v = (if d = DemandRush then 0 else if d = DemandLight then 6 else 3 :: real)"
  define n where "n = demand_count drivers demand"
  obtain as where as: "draw_arrivals (picks seed) ?ids v 0 n 0 = Some as" "\<forall>a \<in> set as. arrival_ok (grid_nodes (DefaultGridConfig seed)) a"
    "map arTime as = map (\<lambda>m. real m * v) [0..<n]"
    using A [of v 0 n 0] by auto
  let ?sc = "\<lparr>scSeed = seed, scDrivers = (if drivers \<le> 0 then 12 else drivers), scDemand = d, scArrivals = as,
    scBatchWindow = 2, scMinBatchSize = 2, scMaxWait = 2, scWeights = DefaultCostWeights, scMaxTime = h\<rparr>"
  have sc: "ScenarioFor draws picks seed drivers demand = Some ?sc"
    using as(1) unfolding ScenarioFor_def d_def h_def v_def n_def demand_count_def Let_def
    by (cases demand) (simp_all add: demandShapes_def)
  have n: "12 \<le> n" "n \<le> 30" using demand_count_bounds by (simp_all add: n_def)
  have v: "0 \<le> v" "v \<le> 6" by (simp_all add: v_def)
  have hor: "scenario_horizon ?sc = h" "400 \<le> h" "h \<le> 1000" by (auto simp: scenario_horizon_def h_def)
  have times: "0 \<le> arTime a \<and> arTime a < h" if "a \<in> set as" for a
  proof -
    have "arTime a \<in> set (map arTime as)" using that by simp
    then obtain m where m: "m < n" "arTime a = real m * v" unfolding as(3) by auto
    have "real m * v \<le> 30 * 6" by (rule mult_mono) (use m(1) n v in simp_all)
    then show ?thesis using m v(1) hor(2) by simp
  qed
  have "length as = n" using arg_cong [OF as(3), of length] by simp
  moreover have "sorted (map arTime as)" unfolding as(3) by (auto simp: sorted_map sorted_wrt_upt mult_right_mono v(1) intro: sorted_wrt_mono_rel [OF _ sorted_upt])
  moreover have "moderate ?sc"
  proof -
    have w: "scenario_weights ?sc = DefaultCostWeights" by (simp add: scenario_weights_def)
    have "3200 + (h + 1) + (h + 1) / 10 < 1000000000000" using hor(3) by (simp add: field_simps)
    then show ?thesis
      unfolding moderate_def hor(1) w using \<open>length as = n\<close> n(2) by (simp add: DefaultCostWeights_def Unreachable_def)
  qed
  ultimately show ?thesis using sc as(2) times hor(1) by (simp add: n_def)
qed

text \<open>
  C27.  Scenario generation returns for every seed, number of drivers and demand level, with any
  generator whose numbers do not get stuck: as many arrivals as the level asks for (20 to 30 in a
  rush, scaled with the drivers), in the order of their times, all due before the run ends, each
  between two different intersections of the city the run will use.
\<close>

theorem ScenarioFor_returns:
  assumes "picks_ok picks"
  shows "\<exists>sc. ScenarioFor draws picks seed drivers demand = Some sc \<and> length (scArrivals sc) = demand_count drivers demand \<and>
    (\<forall>a \<in> set (scArrivals sc). arrival_ok (grid_nodes (DefaultGridConfig seed)) a \<and> 0 \<le> arTime a \<and> arTime a < scenario_horizon sc) \<and>
    sorted (map arTime (scArrivals sc)) \<and> moderate sc"
  by (rule ScenarioFor_total [OF assms])

lemma modular_picks_ok: "picks_ok (\<lambda>_ k n. k mod n)"
  unfolding picks_ok_def unstuck_def
proof (intro conjI allI impI)
  fix n k i :: nat
  assume n: "2 \<le> n"
  show "\<exists>j \<ge> k. j mod n \<noteq> i"
  proof (cases "k mod n = i")
    case True
    have "Suc k mod n \<noteq> k mod n" using n by (simp add: mod_Suc)
    then show ?thesis using True by (intro exI [of _ "Suc k"]) simp
  qed blast
qed simp

theorem ScenarioFor_returns_witness:
  "\<exists>sc. ScenarioFor (\<lambda>_ _. 1 / 2) (\<lambda>_ k n. k mod n) 7 (-1) DemandRush = Some sc \<and> length (scArrivals sc) = 24"
  using ScenarioFor_returns [OF modular_picks_ok, where draws = "\<lambda>_ _. 1 / 2" and seed = 7 and drivers = "-1" and demand = DemandRush]
  by (auto simp: demand_count_def rushOrderCount_def)



end
