(* ===== verification/Comparisons.thy ===== *)
theory Comparisons
  imports Comparison_Range
begin

text \<open>
  The service that runs and keeps comparisons (\<open>Comparisons\<close> of \<open>internal/service/comparison.go\<close>): its
  results by id, written through to the store as JSON, and read back from the store for a result
  another process produced.  \<open>st\<close> is the store (\<open>None\<close>: nil), the state is the service with the
  database, the generated id and the clock reading are arguments.  The struct tags decide the JSON
  form of a result.
\<close>

type_synonym comparisons = "(string, comparison_result) gomap"

definition NewComparisons :: comparisons where
  "NewComparisons = []"

subsection \<open>JSON\<close>

definition demand_str :: "demand_level \<Rightarrow> string" where
  "demand_str d = (case d of DemandLight \<Rightarrow> ''light'' | DemandSteady \<Rightarrow> ''steady'' | DemandRush \<Rightarrow> ''rush'' | DemandOther t \<Rightarrow> t)"

definition enc_arrival :: "arrival \<Rightarrow> json" where
  "enc_arrival a = JObj [(''virtualTime'', JNum (arTime a)), (''pickup'', JStr (arPickup a)), (''destination'', JStr (arDestination a))]"

definition enc_weights :: "cost_weights \<Rightarrow> json" where
  "enc_weights w = JObj [(''pickupDistance'', JNum (wPickupDistance w)), (''waitTime'', JNum (wWaitTime w)),
     (''driverIdleTime'', JNum (wDriverIdleTime w))]"

definition enc_scenario :: "scenario \<Rightarrow> json" where
  "enc_scenario sc = JObj [(''seed'', JNum (of_int (scSeed sc))), (''drivers'', JNum (of_int (scDrivers sc))),
     (''demand'', JStr (demand_str (scDemand sc))), (''arrivals'', JArr (map enc_arrival (scArrivals sc))),
     (''batchWindow'', JNum (scBatchWindow sc)), (''minBatchSize'', JNum (of_int (scMinBatchSize sc))),
     (''maxWaitVirtualTime'', JNum (scMaxWait sc)), (''weights'', enc_weights (scWeights sc)),
     (''maxVirtualTime'', JNum (scMaxTime sc))]"

definition enc_metrics :: "metrics \<Rightarrow> json" where
  "enc_metrics m = JObj [(''algorithm'', JStr (mtAlgorithm m)), (''completedDeliveries'', JNum (of_nat (mtCompleted m))),
     (''unassignedOrders'', JNum (of_nat (mtUnassigned m))), (''servedFraction'', JNum (mtServed m)),
     (''averagePickupTime'', JNum (mtAveragePickup m)), (''p95PickupTime'', JNum (mtP95Pickup m)),
     (''totalDistance'', JNum (mtDistance m)), (''batchDispatches'', JNum (of_nat (mtBatch m))),
     (''immediateDispatches'', JNum (of_nat (mtImmediate m)))]"

definition enc_result :: "comparison_result \<Rightarrow> json" where
  "enc_result r = JObj [(''id'', JStr (coID r)), (''scenario'', enc_scenario (coScenario r)),
     (''baseline'', enc_metrics (coBaseline r)), (''optimized'', enc_metrics (coOptimized r))]"

definition dec_count :: "json \<Rightarrow> nat option" where
  \<comment> \<open>a count is never negative in what the program writes\<close>
  "dec_count j = map_option nat (dec_int j)"

definition dec_arrival :: "json \<Rightarrow> arrival option" where
  "dec_arrival j = Option.bind (as_object j) (\<lambda>kvs.
     Option.bind (field ''virtualTime'' 0 dec_real kvs) (\<lambda>t.
     Option.bind (field ''pickup'' '''' dec_string kvs) (\<lambda>p.
     Option.bind (field ''destination'' '''' dec_string kvs) (\<lambda>d.
       Some \<lparr>arTime = t, arPickup = p, arDestination = d\<rparr>))))"

definition dec_weights :: "json \<Rightarrow> cost_weights option" where
  "dec_weights j = Option.bind (as_object j) (\<lambda>kvs.
     Option.bind (field ''pickupDistance'' 0 dec_real kvs) (\<lambda>p.
     Option.bind (field ''waitTime'' 0 dec_real kvs) (\<lambda>w.
     Option.bind (field ''driverIdleTime'' 0 dec_real kvs) (\<lambda>i.
       Some \<lparr>wPickupDistance = p, wWaitTime = w, wDriverIdleTime = i\<rparr>))))"

definition dec_scenario :: "json \<Rightarrow> scenario option" where
  "dec_scenario j = Option.bind (as_object j) (\<lambda>kvs.
     Option.bind (field ''seed'' 0 dec_int kvs) (\<lambda>seed.
     Option.bind (field ''drivers'' 0 dec_int kvs) (\<lambda>drivers.
     Option.bind (field ''demand'' '''' dec_string kvs) (\<lambda>demand.
     Option.bind (field ''arrivals'' [] (dec_list dec_arrival) kvs) (\<lambda>arrivals.
     Option.bind (field ''batchWindow'' 0 dec_real kvs) (\<lambda>window.
     Option.bind (field ''minBatchSize'' 0 dec_int kvs) (\<lambda>minBatch.
     Option.bind (field ''maxWaitVirtualTime'' 0 dec_real kvs) (\<lambda>maxWait.
     Option.bind (field ''weights'' zero_weights dec_weights kvs) (\<lambda>weights.
     Option.bind (field ''maxVirtualTime'' 0 dec_real kvs) (\<lambda>maxTime.
       Some \<lparr>scSeed = seed, scDrivers = drivers, scDemand = demand_named demand, scArrivals = arrivals, scBatchWindow = window,
         scMinBatchSize = minBatch, scMaxWait = maxWait, scWeights = weights, scMaxTime = maxTime\<rparr>))))))))))"

definition dec_metrics :: "json \<Rightarrow> metrics option" where
  "dec_metrics j = Option.bind (as_object j) (\<lambda>kvs.
     Option.bind (field ''algorithm'' '''' dec_string kvs) (\<lambda>algorithm.
     Option.bind (field ''completedDeliveries'' 0 dec_count kvs) (\<lambda>completed.
     Option.bind (field ''unassignedOrders'' 0 dec_count kvs) (\<lambda>unassigned.
     Option.bind (field ''servedFraction'' 0 dec_real kvs) (\<lambda>served.
     Option.bind (field ''averagePickupTime'' 0 dec_real kvs) (\<lambda>average.
     Option.bind (field ''p95PickupTime'' 0 dec_real kvs) (\<lambda>p95.
     Option.bind (field ''totalDistance'' 0 dec_real kvs) (\<lambda>distance.
     Option.bind (field ''batchDispatches'' 0 dec_count kvs) (\<lambda>batch.
     Option.bind (field ''immediateDispatches'' 0 dec_count kvs) (\<lambda>immediate.
       Some \<lparr>mtAlgorithm = algorithm, mtCompleted = completed, mtUnassigned = unassigned, mtServed = served,
         mtAveragePickup = average, mtP95Pickup = p95, mtDistance = distance, mtBatch = batch, mtImmediate = immediate\<rparr>))))))))))"

definition zero_scenario :: scenario where
  "zero_scenario = \<lparr>scSeed = 0, scDrivers = 0, scDemand = DemandOther '''', scArrivals = [], scBatchWindow = 0,
     scMinBatchSize = 0, scMaxWait = 0, scWeights = zero_weights, scMaxTime = 0\<rparr>"

definition zero_metrics :: metrics where
  "zero_metrics = \<lparr>mtAlgorithm = '''', mtCompleted = 0, mtUnassigned = 0, mtServed = 0, mtAveragePickup = 0,
     mtP95Pickup = 0, mtDistance = 0, mtBatch = 0, mtImmediate = 0\<rparr>"

definition dec_result :: "json \<Rightarrow> comparison_result option" where
  "dec_result j = Option.bind (as_object j) (\<lambda>kvs.
     Option.bind (field ''id'' '''' dec_string kvs) (\<lambda>i.
     Option.bind (field ''scenario'' zero_scenario dec_scenario kvs) (\<lambda>sc.
     Option.bind (field ''baseline'' zero_metrics dec_metrics kvs) (\<lambda>b.
     Option.bind (field ''optimized'' zero_metrics dec_metrics kvs) (\<lambda>x.
       Some \<lparr>coID = i, coScenario = sc, coBaseline = b, coOptimized = x\<rparr>)))))"

subsection \<open>The service\<close>

definition comparison_persist :: "'db store_ops option \<Rightarrow> timestamp \<Rightarrow> comparison_result \<Rightarrow> 'db \<Rightarrow> 'db" where
  "comparison_persist st now r db =
     (case st of
        None \<Rightarrow> db
      | Some ops \<Rightarrow>
          (case marshal (enc_result r) of
             None \<Rightarrow> db
           | Some payload \<Rightarrow> snd (opSaveComparison ops \<lparr>crID = coID r, crSeed = scSeed (coScenario r),
               crDrivers = scDrivers (coScenario r), crResult = payload, crCreatedAt = now\<rparr> db)))"

definition comparisons_Create :: "'db store_ops option \<Rightarrow> rand_source \<Rightarrow> int_source \<Rightarrow> string \<Rightarrow> timestamp \<Rightarrow> int \<Rightarrow> int \<Rightarrow>
    demand_level \<Rightarrow> comparisons \<times> 'db \<Rightarrow> (comparison_result \<times> (comparisons \<times> 'db)) option" where
  "comparisons_Create st draws picks gen now seed drivers demand = (\<lambda>(results, db).
     map_option (\<lambda>r0. let r = r0\<lparr>coID := gen\<rparr>
         in (r, (AList.update (coID r) r results, comparison_persist st now r db)))
       (Option.bind (ScenarioFor draws picks seed drivers demand) (RunComparison draws)))"

definition comparisons_Get :: "'db store_ops option \<Rightarrow> string \<Rightarrow> comparisons \<times> 'db \<Rightarrow> comparison_result option" where
  "comparisons_Get st i = (\<lambda>(results, db).
     case map_of results i of
       Some r \<Rightarrow> Some r
     | None \<Rightarrow>
         (case st of
            None \<Rightarrow> None
          | Some ops \<Rightarrow>
              (case opGetComparison ops i db of
                 Inl _ \<Rightarrow> None
               | Inr row \<Rightarrow> Option.bind (unmarshal (crResult row)) dec_result)))"

subsection \<open>Round trips\<close>

lemma dec_count_nat [simp]: "dec_count (JNum (real n)) = Some n"
  using dec_simps(4) [of "int n"] by (simp add: dec_count_def)

lemma dec_arrival_enc [simp]: "dec_arrival (enc_arrival a) = Some a"
  by (simp add: dec_arrival_def enc_arrival_def field_def)

lemma dec_weights_enc [simp]: "dec_weights (enc_weights w) = Some w"
  by (simp add: dec_weights_def enc_weights_def field_def)

definition demand_known :: "demand_level \<Rightarrow> bool" where
  \<comment> \<open>a level the constructors name in one way only\<close>
  "demand_known d \<longleftrightarrow> demand_named (demand_str d) = d"

lemma dec_scenario_enc: "demand_known (scDemand sc) \<Longrightarrow> dec_scenario (enc_scenario sc) = Some sc"
  using dec_all_map [of "scArrivals sc" dec_arrival enc_arrival "\<lambda>x. x"]
  by (simp add: dec_scenario_def enc_scenario_def field_def demand_known_def)

lemma dec_metrics_enc [simp]: "dec_metrics (enc_metrics m) = Some m"
  by (simp add: dec_metrics_def enc_metrics_def field_def)

lemma dec_result_enc: "demand_known (scDemand (coScenario r)) \<Longrightarrow> dec_result (enc_result r) = Some r"
  by (simp add: dec_result_def enc_result_def field_def dec_scenario_enc)

lemma encodable_result: "marshal (enc_result r) = Some (Raw (enc_result r))"
  by (simp add: marshal_def enc_result_def enc_scenario_def enc_metrics_def enc_weights_def enc_arrival_def list_all_iff)

lemma ScenarioFor_demand: "ScenarioFor draws picks seed drivers demand = Some sc \<Longrightarrow> demand_known (scDemand sc)"
  by (auto simp: ScenarioFor_def Let_def demandShapes_def demand_known_def demand_named_def demand_str_def
      split: demand_level.splits prod.splits)

text \<open>
  C28.  Creating a comparison returns, whatever the seed, the number of drivers and the level of
  demand; the result carries the generated id, scores both strategies on the generated scenario, and
  can be read back, from this process and, through the JSON in the store, from any other process
  attached to it, unchanged; every other result reads as before.
\<close>

theorem comparisons_roundtrip:
  assumes "rand_ok draws" and "picks_ok picks"
  shows "\<exists>r w. comparisons_Create (Some memory_ops) draws picks gen now seed drivers demand (results, m) = Some (r, w) \<and> coID r = gen \<and>
    ScenarioFor draws picks seed drivers demand = Some (coScenario r) \<and>
    comparisons_Get (Some memory_ops) gen w = Some r \<and> comparisons_Get (Some memory_ops) gen (NewComparisons, snd w) = Some r \<and>
    (\<forall>i. i \<noteq> gen \<longrightarrow> comparisons_Get (Some memory_ops) i w = comparisons_Get (Some memory_ops) i (results, m))"
proof -
  obtain sc where sc: "ScenarioFor draws picks seed drivers demand = Some sc" "moderate sc"
    using ScenarioFor_total [OF assms(2), of draws seed drivers demand] by blast
  obtain b where b: "runScenario draws sc StrategyBaseline ''baseline'' = Some b"
    by (rule runScenario_total [OF moderate_in_range [OF assms(1) sc(2)]])
  obtain x where x: "runScenario draws sc StrategyOptimized ''optimized'' = Some x"
    by (rule runScenario_total [OF moderate_in_range [OF assms(1) sc(2)]])
  let ?r = "\<lparr>coID = gen, coScenario = sc, coBaseline = b, coOptimized = x\<rparr>"
  let ?w = "(AList.update gen ?r results, comparison_persist (Some memory_ops) now ?r m)"
  have "RunComparison draws sc = Some \<lparr>coID = [], coScenario = sc, coBaseline = b, coOptimized = x\<rparr>"
    by (simp add: RunComparison_def b x)
  then have c: "comparisons_Create (Some memory_ops) draws picks gen now seed drivers demand (results, m) = Some (?r, ?w)"
    by (simp add: comparisons_Create_def sc(1) Let_def)
  have stored: "snd ?w = SaveComparison \<lparr>crID = gen, crSeed = scSeed sc, crDrivers = scDrivers sc, crResult = Raw (enc_result ?r),
      crCreatedAt = now\<rparr> m"
    by (simp add: comparison_persist_def encodable_result)
  have "dec_result (enc_result ?r) = Some ?r" by (rule dec_result_enc) (simp add: ScenarioFor_demand [OF sc(1)])
  then have "comparisons_Get (Some memory_ops) gen (NewComparisons, snd ?w) = Some ?r"
    unfolding stored by (simp add: comparisons_Get_def NewComparisons_def SaveComparison_def GetComparison_def lookup_row_def
        map_of_update unmarshal_def)
  moreover have "comparisons_Get (Some memory_ops) gen ?w = Some ?r" by (simp add: comparisons_Get_def map_of_update)
  moreover have "comparisons_Get (Some memory_ops) i ?w = comparisons_Get (Some memory_ops) i (results, m)" if "i \<noteq> gen" for i
    using that stored by (cases "map_of results i")
      (simp_all add: comparisons_Get_def map_of_update SaveComparison_def GetComparison_def lookup_row_def)
  ultimately show ?thesis using c sc(1) by (intro exI [of _ ?r] exI [of _ ?w]) simp
qed

theorem comparisons_roundtrip_witness:
  "\<exists>r w. comparisons_Create (Some memory_ops) (\<lambda>_ _. 1 / 2) (\<lambda>_ k n. k mod n) ''c1'' 0 7 3 DemandRush (NewComparisons, NewMemory) = Some (r, w) \<and>
     comparisons_Get (Some memory_ops) ''c1'' (NewComparisons, snd w) = Some r"
  using comparisons_roundtrip [OF _ modular_picks_ok, where draws = "\<lambda>_ _. 1 / 2" and gen = "''c1''" and now = 0 and seed = 7
      and drivers = 3 and demand = DemandRush and results = NewComparisons and m = NewMemory]
  by (auto simp: rand_ok_def)

end
