(* ===== verification/Http.thy ===== *)
theory Http
  imports Manager Comparisons Reader RateLimit
begin

text \<open>
  The HTTP layer below the handlers (\<open>internal/transport/http\<close>: \<open>security.go\<close>, \<open>idempotency.go\<close>, the
  pattern table of \<open>server.go\<close>): requests and responses, origins, tokens and addresses, the router, and
  the cache of outcomes that deduplicates retried commands.

  A request carries the unescaped segments of its path; \<open>rqClean\<close> says whether \<open>net/http\<close> leaves the
  path as it is (no empty, dot or dot-dot segment).  The body is what a JSON decoder finds in it, with
  the number of bytes it reads up to the end of the first value.  Header and query lists are read at
  the first occurrence of a name.  A response holds the value its handler encodes.
\<close>

datatype http_method = GET | HEAD | POST | DELETE | OPTIONS | OtherMethod string

record request =
  rqMethod :: http_method
  rqSegments :: "string list"
  rqClean :: bool
  rqQuery :: "(string \<times> string) list"
  rqHeader :: "(string \<times> string) list"
  rqRemoteAddr :: string
  rqContentLength :: int
  rqBody :: raw_message
  rqBodySize :: int

datatype response_body =
    NoBody | ErrorBody string string | TextBody string | JsonBody json | EventBody event
  | SessionBody string timestamp int | ComparisonBody comparison_result | LogBody replay_log | StateBody replay_state | MetricsBody | StreamBody string

record response =
  rsStatus :: nat
  rsHeader :: "(string, string) gomap"
  rsBody :: response_body

definition header :: "string \<Rightarrow> request \<Rightarrow> string" where
  "header k rq = get_or '''' (rqHeader rq) k"

definition query :: "string \<Rightarrow> request \<Rightarrow> string" where
  "query k rq = get_or '''' (rqQuery rq) k"

definition url_path :: "request \<Rightarrow> string" where
  "url_path rq = concat (map ((#) CHR ''/'') (rqSegments rq))"

definition set_header :: "string \<Rightarrow> string \<Rightarrow> response \<Rightarrow> response" where
  "set_header k v rs = rs\<lparr>rsHeader := AList.update k v (rsHeader rs)\<rparr>"

definition writeStatus :: "nat \<Rightarrow> response" where
  "writeStatus n = \<lparr>rsStatus = n, rsHeader = [], rsBody = NoBody\<rparr>"

definition writeJSON :: "nat \<Rightarrow> response_body \<Rightarrow> response" where
  "writeJSON n b = \<lparr>rsStatus = n, rsHeader = [(''Content-Type'', ''application/json'')], rsBody = b\<rparr>"

definition writeError :: "nat \<Rightarrow> string \<Rightarrow> string \<Rightarrow> response" where
  "writeError n code message = writeJSON n (ErrorBody code message)"

subsection \<open>Strings and addresses\<close>

definition is_space :: "char \<Rightarrow> bool" where
  "is_space c \<longleftrightarrow> c = CHR '' '' \<or> (9 \<le> (of_char c :: nat) \<and> (of_char c :: nat) \<le> 13)"

definition TrimSpace :: "string \<Rightarrow> string" where
  "TrimSpace s = rev (dropWhile is_space (rev (dropWhile is_space s)))"

definition has_prefix :: "string \<Rightarrow> string \<Rightarrow> bool" where
  "has_prefix p s \<longleftrightarrow> take (length p) s = p"

definition has_suffix :: "string \<Rightarrow> string \<Rightarrow> bool" where
  "has_suffix p s \<longleftrightarrow> has_prefix (rev p) (rev s)"

definition SplitHost :: "string \<Rightarrow> string option" where
  \<comment> \<open>the host of \<open>net.SplitHostPort\<close>\<close>
  "SplitHost s =
     (let before = rev (tl (dropWhile (\<lambda>c. c \<noteq> CHR '':'') (rev s)))
      in if CHR '':'' \<notin> set s then None
         else if hd s = CHR ''['' then
           (let host = takeWhile (\<lambda>c. c \<noteq> CHR '']'') s
            in if length host + 1 = length before \<and> CHR ''['' \<notin> set (tl s) \<and> CHR '']'' \<notin> set (drop (length host + 1) s)
               then Some (tl host) else None)
         else if CHR '':'' \<in> set before \<or> CHR ''['' \<in> set s \<or> CHR '']'' \<in> set s then None
         else Some before)"

definition bearerPrefix :: string where "bearerPrefix = ''Bearer ''"

definition bearerToken :: "request \<Rightarrow> string" where
  "bearerToken rq =
     (let h = header ''Authorization'' rq
      in if has_prefix bearerPrefix h then TrimSpace (drop (length bearerPrefix) h) else query ''token'' rq)"

definition clientIP :: "request \<Rightarrow> string" where
  "clientIP rq =
     (let forwarded = header ''X-Forwarded-For'' rq
      in if forwarded \<noteq> '''' then TrimSpace (takeWhile (\<lambda>c. c \<noteq> CHR '','') forwarded)
         else case SplitHost (rqRemoteAddr rq) of None \<Rightarrow> rqRemoteAddr rq | Some host \<Rightarrow> host)"

definition isPublicRoute :: "request \<Rightarrow> bool" where
  "isPublicRoute rq \<longleftrightarrow> url_path rq = ''/api/v1/guest-sessions'' \<or> has_prefix ''/health/'' (url_path rq) \<or>
     url_path rq = ''/metrics'' \<or> has_suffix ''/replay'' (url_path rq)"

definition isStreamRequest :: "request \<Rightarrow> bool" where
  "isStreamRequest rq \<longleftrightarrow> has_suffix ''/stream'' (url_path rq)"

definition maxRequestBytes :: int where "maxRequestBytes = 16 * 2 ^ 10"

definition limitBody :: "request \<Rightarrow> request" where
  \<comment> \<open>reading a body past the cap fails\<close>
  "limitBody rq = (if rqBodySize rq > maxRequestBytes then rq\<lparr>rqBody := RawBad ''''\<rparr> else rq)"

subsection \<open>Origins\<close>

record origin_policy =
  opAllowed :: "string list"
  opPermissive :: bool

definition newOriginPolicy :: "string list \<Rightarrow> origin_policy" where
  "newOriginPolicy origins =
     (let allowed = filter (\<lambda>x. x \<noteq> '''') (map TrimSpace origins) in \<lparr>opAllowed = allowed, opPermissive = (allowed = [])\<rparr>)"

definition permits :: "origin_policy \<Rightarrow> string \<Rightarrow> bool" where
  "permits p origin \<longleftrightarrow> origin = '''' \<or> opPermissive p \<or> origin \<in> set (opAllowed p)"

subsection \<open>Routes\<close>

datatype endpoint = ToGuestSessions | ToSimulations | ToSimulation string | ToOrders string | ToClosures string | ToReopen string
  | ToPause string | ToResume string | ToReset string | ToSpeed string | ToShowcase string | ToReplay string
  | ToStream string | ToComparisons | ToComparison string | ToLive | ToReady | ToMetrics

fun run_patterns :: "string \<Rightarrow> string \<Rightarrow> (http_method \<times> endpoint) list" where
  \<comment> \<open>the patterns below \<open>/api/v1/simulations/{id}\<close>\<close>
  "run_patterns i last_segment =
     (if last_segment = ''orders'' then [(POST, ToOrders i)]
      else if last_segment = ''closures'' then [(POST, ToClosures i), (DELETE, ToReopen i)]
      else if last_segment = ''pause'' then [(POST, ToPause i)]
      else if last_segment = ''resume'' then [(POST, ToResume i)]
      else if last_segment = ''reset'' then [(POST, ToReset i)]
      else if last_segment = ''speed'' then [(POST, ToSpeed i)]
      else if last_segment = ''showcase'' then [(POST, ToShowcase i)]
      else if last_segment = ''replay'' then [(GET, ToReplay i)]
      else if last_segment = ''stream'' then [(GET, ToStream i)]
      else [])"

definition api_patterns :: "string list \<Rightarrow> (http_method \<times> endpoint) list" where
  \<comment> \<open>the patterns below \<open>/api/v1\<close>\<close>
  "api_patterns segs = (case segs of
     [a] \<Rightarrow> if a = ''guest-sessions'' then [(POST, ToGuestSessions)]
            else if a = ''simulations'' then [(POST, ToSimulations)]
            else if a = ''comparisons'' then [(POST, ToComparisons)] else []
   | [a, i] \<Rightarrow> if i = '''' then [] else if a = ''simulations'' then [(GET, ToSimulation i)]
            else if a = ''comparisons'' then [(GET, ToComparison i)] else []
   | [a, i, b] \<Rightarrow> if i = '''' \<or> a \<noteq> ''simulations'' then [] else run_patterns i b
   | _ \<Rightarrow> [])"

definition patterns :: "string list \<Rightarrow> (http_method \<times> endpoint) list" where
  "patterns segs = (case segs of
     [] \<Rightarrow> []
   | a # rest \<Rightarrow>
       if segs = [''health'', ''live''] then [(GET, ToLive)]
       else if segs = [''health'', ''ready''] then [(GET, ToReady)]
       else if segs = [''metrics''] then [(GET, ToMetrics)]
       else if a = ''api'' \<and> rest \<noteq> [] \<and> hd rest = ''v1'' then api_patterns (tl rest)
       else [])"

definition method_matches :: "http_method \<Rightarrow> http_method \<Rightarrow> bool" where
  \<comment> \<open>a \<open>GET\<close> pattern matches \<open>HEAD\<close> as well\<close>
  "method_matches pattern m \<longleftrightarrow> m = pattern \<or> (pattern = GET \<and> m = HEAD)"

datatype routed = Route endpoint | RouteRedirect | RouteMethod | RouteMissing

definition mux :: "request \<Rightarrow> routed" where
  "mux rq =
     (if \<not> rqClean rq then RouteRedirect
      else let ps = patterns (rqSegments rq)
           in case find (\<lambda>(p, r). method_matches p (rqMethod rq)) ps of
                Some (_, r) \<Rightarrow> Route r
              | None \<Rightarrow> if ps = [] then RouteMissing else RouteMethod)"

subsection \<open>Remembered outcomes\<close>

record stored_response =
  stStatus :: nat
  stBody :: response_body
  stContentType :: string
  stStoredAt :: timestamp

record idempotency =
  icTTL :: int
  icMax :: int
  icEntries :: "(string, stored_response) gomap"

definition idempotencyTTL :: int where "idempotencyTTL = 600 * 10 ^ 9"
definition idempotencyMaxEntries :: int where "idempotencyMaxEntries = 4096"

definition newIdempotencyCache :: "int \<Rightarrow> int \<Rightarrow> idempotency" where
  "newIdempotencyCache ttl limit = \<lparr>icTTL = (if ttl \<le> 0 then idempotencyTTL else ttl),
     icMax = (if limit \<le> 0 then idempotencyMaxEntries else limit), icEntries = []\<rparr>"

definition ic_stale :: "idempotency \<Rightarrow> timestamp \<Rightarrow> stored_response \<Rightarrow> bool" where
  "ic_stale c now x \<longleftrightarrow> now - stStoredAt x > icTTL c"

definition cache_Get :: "string \<Rightarrow> timestamp \<Rightarrow> idempotency \<Rightarrow> stored_response option \<times> idempotency" where
  "cache_Get k now c =
     (case map_of (icEntries c) k of
        None \<Rightarrow> (None, c)
      | Some x \<Rightarrow> if ic_stale c now x then (None, c\<lparr>icEntries := AList.delete k (icEntries c)\<rparr>) else (Some x, c))"

definition evict_visit :: "timestamp \<Rightarrow> idempotency \<times> string \<times> timestamp \<Rightarrow> string \<times> stored_response \<Rightarrow> idempotency \<times> string \<times> timestamp" where
  "evict_visit now = (\<lambda>(c, oldestKey, oldestAt) (k, x).
     if ic_stale c now x then (c\<lparr>icEntries := AList.delete k (icEntries c)\<rparr>, oldestKey, oldestAt)
     else if oldestKey = '''' \<or> stStoredAt x < oldestAt then (c, k, stStoredAt x)
     else (c, oldestKey, oldestAt))"

definition evict :: "timestamp \<Rightarrow> idempotency \<Rightarrow> idempotency" where
  "evict now c0 =
     (let (c, oldestKey, _) = foldl (evict_visit now) (c0, '''', 0) (icEntries c0)
      in if int (length (icEntries c)) \<ge> icMax c \<and> oldestKey \<noteq> ''''
         then c\<lparr>icEntries := AList.delete oldestKey (icEntries c)\<rparr> else c)"

definition cache_Put :: "string \<Rightarrow> stored_response \<Rightarrow> timestamp \<Rightarrow> idempotency \<Rightarrow> idempotency" where
  "cache_Put k x now c0 =
     (let c = (if int (length (icEntries c0)) \<ge> icMax c0 then evict now c0 else c0)
      in c\<lparr>icEntries := AList.update k (x\<lparr>stStoredAt := now\<rparr>) (icEntries c)\<rparr>)"

definition cache_Len :: "idempotency \<Rightarrow> nat" where
  "cache_Len c = length (icEntries c)"

definition writeStored :: "stored_response \<Rightarrow> response" where
  "writeStored x = \<lparr>rsStatus = stStatus x,
     rsHeader = (if stContentType x \<noteq> '''' then [(''Content-Type'', stContentType x)] else []), rsBody = stBody x\<rparr>"

subsection \<open>The cache stays within its bound\<close>

definition cache_ok :: "idempotency \<Rightarrow> bool" where
  "cache_ok c \<longleftrightarrow> 0 < icTTL c \<and> 0 < icMax c \<and> distinct_keys (icEntries c) \<and> '''' \<notin> fst ` set (icEntries c) \<and>
     int (length (icEntries c)) \<le> icMax c"

definition visited_ok :: "timestamp \<Rightarrow> idempotency \<Rightarrow> (string \<times> stored_response) list \<Rightarrow> idempotency \<times> string \<times> timestamp \<Rightarrow> bool" where
  \<comment> \<open>the state of the loop of \<open>evict\<close> after some visits: what is left, and the oldest of the fresh ones\<close>
  "visited_ok now c0 seen st \<longleftrightarrow>
     (let (c, k, u) = st in icTTL c = icTTL c0 \<and> icMax c = icMax c0 \<and>
        icEntries c = filter (\<lambda>(j, x). j \<in> fst ` set seen \<longrightarrow> \<not> ic_stale c0 now x) (icEntries c0) \<and>
        (if k = '''' then (\<forall>(j, x) \<in> set seen. ic_stale c0 now x)
         else (\<exists>x. (k, x) \<in> set seen \<and> \<not> ic_stale c0 now x \<and> u = stStoredAt x) \<and>
           (\<forall>(j, x) \<in> set seen. \<not> ic_stale c0 now x \<longrightarrow> u \<le> stStoredAt x)))"

lemma delete_filter: "AList.delete k m = filter (\<lambda>(j, x). j \<noteq> k) m"
  by (induction m) auto

lemma evict_visits:
  assumes ok: "distinct_keys (icEntries c0)" "'''' \<notin> fst ` set (icEntries c0)"
    and all: "icEntries c0 = seen @ rest" and st: "visited_ok now c0 seen st"
  shows "visited_ok now c0 (icEntries c0) (foldl (evict_visit now) st rest)"
  using all st
proof (induction rest arbitrary: seen st)
  case (Cons y rest)
  obtain j x where y: "y = (j, x)" by (cases y)
  obtain c k u where st: "st = (c, k, u)" by (cases st)
  have j: "j \<noteq> ''''" "j \<notin> fst ` set seen" using ok Cons.prems(1) by (auto simp: y)
  have in0: "(j, z) \<in> set (icEntries c0) \<longleftrightarrow> z = x" for z
    using ok(1) map_of_in_set [OF ok(1)] Cons.prems(1) by (metis in_set_conv_decomp option.inject y)
  have same: "ic_stale c now x = ic_stale c0 now x" using Cons.prems(2) by (simp add: st visited_ok_def ic_stale_def)
  have "visited_ok now c0 (seen @ [y]) (evict_visit now st y)"
  proof (cases "ic_stale c0 now x")
    case True
    have "filter (\<lambda>(i, z). i \<noteq> j) (filter (\<lambda>(i, z). i \<in> fst ` set seen \<longrightarrow> \<not> ic_stale c0 now z) (icEntries c0)) =
        filter (\<lambda>(i, z). i \<in> fst ` set (seen @ [y]) \<longrightarrow> \<not> ic_stale c0 now z) (icEntries c0)"
      unfolding filter_filter by (rule filter_cong) (use j(2) in0 True in \<open>auto simp: y\<close>)
    then show ?thesis using Cons.prems(2) True same
      by (auto simp: visited_ok_def evict_visit_def st y delete_filter Let_def split: if_splits)
  next
    case False
    have "filter (\<lambda>(i, z). i \<in> fst ` set seen \<longrightarrow> \<not> ic_stale c0 now z) (icEntries c0) =
        filter (\<lambda>(i, z). i \<in> fst ` set (seen @ [y]) \<longrightarrow> \<not> ic_stale c0 now z) (icEntries c0)"
      by (rule filter_cong) (use j(2) in0 False in \<open>auto simp: y\<close>)
    then show ?thesis using Cons.prems(2) False same j(1)
      by (fastforce simp: visited_ok_def evict_visit_def st y Let_def split: if_splits)
  qed
  then show ?case using Cons.IH [of "seen @ [y]"] Cons.prems(1) by simp
qed simp

lemma evict_room:
  assumes "cache_ok c"
  shows "cache_ok (evict now c)" "int (length (icEntries (evict now c))) < icMax c" "icMax (evict now c) = icMax c"
    "icTTL (evict now c) = icTTL c"
proof -
  have ok: "0 < icTTL c" "0 < icMax c" "distinct_keys (icEntries c)" "'''' \<notin> fst ` set (icEntries c)" "int (length (icEntries c)) \<le> icMax c"
    using assms by (simp_all add: cache_ok_def)
  obtain c1 k u where f: "foldl (evict_visit now) (c, '''', 0) (icEntries c) = (c1, k, u)" by (cases "foldl (evict_visit now) (c, '''', 0) (icEntries c)")
  have "visited_ok now c [] (c, '''', 0)" by (simp add: visited_ok_def)
  from evict_visits [OF ok(3,4) _ this, of "icEntries c"] f have v: "visited_ok now c (icEntries c) (c1, k, u)" by simp
  then have c1: "icTTL c1 = icTTL c" "icMax c1 = icMax c" "icEntries c1 = filter (\<lambda>(j, x). \<not> ic_stale c now x) (icEntries c)"
    by (auto simp: visited_ok_def intro!: filter_cong) force+
  have d: "distinct_keys (icEntries c1)" "'''' \<notin> fst ` set (icEntries c1)" "length (icEntries c1) \<le> length (icEntries c)"
    using ok(3,4) unfolding c1(3) by (auto simp: distinct_map_filter)
  have k: "if k = '''' then icEntries c1 = [] else k \<in> fst ` set (icEntries c1)"
    using v unfolding visited_ok_def c1(3) by (auto simp: filter_empty_conv intro!: rev_image_eqI split: if_splits)
  have len: "length (AList.delete k (icEntries c1)) < length (icEntries c1)" if "k \<noteq> ''''" using k that length_delete_less by metis
  have e: "evict now c = (if int (length (icEntries c1)) \<ge> icMax c \<and> k \<noteq> '''' then c1\<lparr>icEntries := AList.delete k (icEntries c1)\<rparr> else c1)"
    using f c1(2) by (simp add: evict_def)
  show small: "int (length (icEntries (evict now c))) < icMax c"
  proof (cases "k = ''''")
    case True
    then have "length (icEntries c1) = 0" using k by simp
    then show ?thesis unfolding e using True ok(2) by simp
  next
    case False
    then show ?thesis unfolding e using len d(3) ok(5) by simp
  qed
  show "icMax (evict now c) = icMax c" "icTTL (evict now c) = icTTL c" unfolding e using c1(1,2) by simp_all
  moreover have "distinct_keys (icEntries (evict now c))" "'''' \<notin> fst ` set (icEntries (evict now c))"
    unfolding e using d(1,2) by simp_all
  ultimately show "cache_ok (evict now c)" using small ok(1,2) by (simp add: cache_ok_def)
qed

lemma cache_Put_ok:
  assumes "cache_ok c" "k \<noteq> ''''"
  shows "cache_ok (cache_Put k x now c)"
proof -
  let ?c = "if int (length (icEntries c)) \<ge> icMax c then evict now c else c"
  have "cache_ok ?c" "int (length (icEntries ?c)) < icMax ?c" using evict_room [OF assms(1), of now] assms(1) by auto
  then show ?thesis
    using assms(2) length_update_le [of k "x\<lparr>stStoredAt := now\<rparr>" "icEntries ?c"]
    unfolding cache_Put_def Let_def by (simp add: cache_ok_def)
qed

lemma cache_Get_ok: "cache_ok c \<Longrightarrow> cache_ok (snd (cache_Get k now c))"
  using length_delete_le_plain [of k "icEntries c"] by (auto simp: cache_Get_def cache_ok_def split: option.splits)

lemma newIdempotencyCache_ok: "cache_ok (newIdempotencyCache ttl limit)"
  by (simp add: newIdempotencyCache_def cache_ok_def idempotencyTTL_def idempotencyMaxEntries_def)

end
