(* ===== verification/Server.thy ===== *)
theory Server
  imports Http
begin

text \<open>
  The HTTP server (\<open>internal/transport/http/server.go\<close> with the middleware of \<open>security.go\<close> and
  \<open>middleware.go\<close>).  Its state is the manager (which holds the session service and the database),
  the comparisons, the limiter and the remembered outcomes; \<open>svStored\<close> says whether a store is
  attached, here the in-memory one.  The server, the manager and the session service share one
  session service and one store, as \<open>cmd/server/main.go\<close> wires them.

  What a request meets outside the program is the record \<open>world\<close>: the clock, generated ids, seeds and
  tokens, the trace id, the random streams, whether a recorder answered a flush in time and whether the
  WebSocket upgrade succeeded.  A handler returns \<open>None\<close> when it panics or does not return.
\<close>

record server =
  svManager :: "memory manager"
  svCompare :: comparisons
  svStored :: bool
  svLimiter :: "limiter option"
  svIdem :: idempotency
  svOrigins :: origin_policy

record world =
  woNow :: timestamp
  woID :: string
  woSeed :: int
  woTrace :: string
  woToken :: "string option"
  woServed :: bool
  woUpgraded :: bool
  woDraws :: rand_source
  woPicks :: int_source

record server_config =
  scfManager :: "memory manager"
  scfCompare :: comparisons
  scfStored :: bool
  scfOrigins :: "string list"
  scfPerSecond :: real
  scfBurst :: real

definition limiterFor :: "real \<Rightarrow> real \<Rightarrow> limiter option" where
  "limiterFor perSecond burst = New_limiter \<lparr>lcPerSecond = perSecond, lcBurst = burst, lcIdleTTL = 0\<rparr>"

definition NewServerWithConfig :: "server_config \<Rightarrow> server" where
  "NewServerWithConfig cfg = \<lparr>svManager = scfManager cfg, svCompare = scfCompare cfg, svStored = scfStored cfg,
     svLimiter = limiterFor (scfPerSecond cfg) (scfBurst cfg),
     svIdem = newIdempotencyCache idempotencyTTL idempotencyMaxEntries, svOrigins = newOriginPolicy (scfOrigins cfg)\<rparr>"

definition server_store :: "server \<Rightarrow> memory store_ops option" where
  "server_store s = (if svStored s then Some memory_ops else None)"

definition server_db :: "server \<Rightarrow> memory" where
  "server_db s = mgStore (svManager s)"

type_synonym handler = "string \<Rightarrow> world \<Rightarrow> request \<Rightarrow> server \<Rightarrow> (response \<times> server) option"

subsection \<open>Errors and request bodies\<close>

definition writeServiceError :: "service_error \<Rightarrow> response" where
  "writeServiceError e = (case e of
     ErrNotFound \<Rightarrow> writeError 404 ''not_found'' ''simulation not found''
   | ErrCapacity \<Rightarrow> writeError 429 ''capacity'' ''simulation capacity reached''
   | ErrQuota \<Rightarrow> writeError 429 ''quota'' ''this session already has as many simulations as it may; reset or reuse one''
   | ErrOrderLimit \<Rightarrow> writeError 429 ''order_limit'' ''this simulation has as many orders as it may hold; reset it to continue''
   | ErrForbidden \<Rightarrow> writeError 403 ''forbidden'' ''not your simulation''
   | ErrBusy \<Rightarrow> writeError 503 ''busy'' ''simulation is busy, retry shortly''
   | _ \<Rightarrow> writeError 500 ''internal'' ''unexpected error'')"

definition no_replay :: response where
  "no_replay = writeError 404 ''not_found'' ''no replay exists for that simulation''"

definition writeReplayError :: "replay_error \<Rightarrow> response" where
  "writeReplayError e =
     (if e = ReplayNotFound then no_replay else writeError 500 ''internal'' ''could not read the replay'')"

definition bad_request :: "string \<Rightarrow> response" where
  "bad_request message = writeError 400 ''invalid_request'' message"

definition bad_json :: response where
  "bad_json = writeError 400 ''invalid_json'' ''request body is not valid JSON''"

definition decode :: "request \<Rightarrow> (json \<Rightarrow> 'a option) \<Rightarrow> 'a \<Rightarrow> 'a option" where
  \<comment> \<open>an empty body is an empty object; \<open>None\<close>: the 400 was written\<close>
  "decode rq dec zero = (if rqContentLength rq = 0 then Some zero else Option.bind (unmarshal (rqBody rq)) dec)"

definition clamp :: "int \<Rightarrow> int \<Rightarrow> int \<Rightarrow> int" where
  "clamp v lo hi = (if v < lo then lo else if v > hi then hi else v)"

definition defaultDrivers :: int where "defaultDrivers = 12"
definition maxDrivers :: int where "maxDrivers = 40"

definition dec_int64 :: "json \<Rightarrow> int option" where
  "dec_int64 j = (case dec_int j of None \<Rightarrow> None | Some n \<Rightarrow> if - (2 ^ 63) \<le> n \<and> n < 2 ^ 63 then Some n else None)"

definition dec_ptr :: "(json \<Rightarrow> 'a option) \<Rightarrow> json \<Rightarrow> 'a option option" where
  \<comment> \<open>a pointer field: \<open>null\<close> leaves it nil\<close>
  "dec_ptr dec j = (if j = JNull then Some None else map_option Some (dec j))"

definition dec_create :: "json \<Rightarrow> (int option \<times> int option) option" where
  "dec_create j = Option.bind (as_object j) (\<lambda>kvs.
     Option.bind (field ''seed'' None (dec_ptr dec_int64) kvs) (\<lambda>seed.
     Option.bind (field ''drivers'' None (dec_ptr dec_int64) kvs) (\<lambda>drivers. Some (seed, drivers))))"

definition dec_create_comparison :: "json \<Rightarrow> (int option \<times> int option \<times> string option) option" where
  "dec_create_comparison j = Option.bind (as_object j) (\<lambda>kvs.
     Option.bind (dec_create j) (\<lambda>(seed, drivers).
     Option.bind (field ''demand'' None (dec_ptr dec_string) kvs) (\<lambda>demand. Some (seed, drivers, demand))))"

definition dec_place :: "json \<Rightarrow> (string \<times> string) option" where
  "dec_place j = Option.bind (as_object j) (\<lambda>kvs.
     Option.bind (field ''pickup'' '''' dec_string kvs) (\<lambda>p.
     Option.bind (field ''destination'' '''' dec_string kvs) (\<lambda>d. Some (p, d))))"

definition dec_one :: "string \<Rightarrow> 'a \<Rightarrow> (json \<Rightarrow> 'a option) \<Rightarrow> json \<Rightarrow> 'a option" where
  \<comment> \<open>a request with one field\<close>
  "dec_one k zero dec j = Option.bind (as_object j) (field k zero dec)"

subsection \<open>Handlers\<close>

definition createGuestSession :: "world \<Rightarrow> server \<Rightarrow> (response \<times> server) option" where
  "createGuestSession w s =
     (case mgSessions (svManager s) of
        None \<Rightarrow> Some (writeError 503 ''no_sessions'' ''this server does not issue guest sessions'', s)
      | Some ss \<Rightarrow>
          let (r, (ss1, db)) = Issue (server_store s) (woToken w) (woNow w) (ss, server_db s);
              s1 = s\<lparr>svManager := svManager s\<lparr>mgSessions := Some ss1, mgStore := db\<rparr>\<rparr>
          in Some (case r of
                Inl _ \<Rightarrow> writeError 500 ''internal'' ''could not issue a guest session''
              | Inr g \<Rightarrow> writeJSON 201 (SessionBody (gsToken g) (gsExpiresAt g) (ssQuota ss)), s1))"

definition createSimulation :: handler where
  "createSimulation token w rq s =
     (case decode rq dec_create (None, None) of
        None \<Rightarrow> Some (bad_json, s)
      | Some (seed0, drivers0) \<Rightarrow>
          let seed = (case seed0 of None \<Rightarrow> woSeed w | Some x \<Rightarrow> x);
              drivers = (case drivers0 of None \<Rightarrow> defaultDrivers | Some x \<Rightarrow> clamp x 1 maxDrivers)
          in map_option (\<lambda>(r, m). ((case r of
                 Inl e \<Rightarrow> writeServiceError e
               | Inr i \<Rightarrow> writeJSON 201 (JsonBody (JObj [(''id'', JStr i), (''seed'', JNum (of_int seed)), (''drivers'', JNum (of_int drivers))]))),
                 s\<lparr>svManager := m\<rparr>))
               (Create (server_store s) (woDraws w) (woNow w) (woID w) token '''' seed drivers (svManager s)))"

definition getSimulation :: "string \<Rightarrow> string \<Rightarrow> server \<Rightarrow> (response \<times> server) option" where
  "getSimulation i token s =
     Some (case manager_Snapshot token i (svManager s) of
        Inl e \<Rightarrow> writeServiceError e
      | Inr e \<Rightarrow> writeJSON 200 (EventBody e), s)"

definition createComparison :: handler where
  "createComparison token w rq s =
     (case decode rq dec_create_comparison (None, None, None) of
        None \<Rightarrow> Some (bad_json, s)
      | Some (seed0, drivers0, demand0) \<Rightarrow>
          let seed = (case seed0 of None \<Rightarrow> woSeed w | Some x \<Rightarrow> x);
              drivers = (case drivers0 of None \<Rightarrow> defaultDrivers | Some x \<Rightarrow> clamp x 1 maxDrivers);
              demand = (case demand0 of None \<Rightarrow> DemandRush | Some x \<Rightarrow> NormalizeDemand x)
          in map_option (\<lambda>(r, (results, db)).
               (writeJSON 201 (ComparisonBody r), s\<lparr>svManager := svManager s\<lparr>mgStore := db\<rparr>, svCompare := results\<rparr>))
               (comparisons_Create (server_store s) (woDraws w) (woPicks w) (woID w) (woNow w) seed drivers demand
                 (svCompare s, server_db s)))"

definition getComparison :: "string \<Rightarrow> server \<Rightarrow> (response \<times> server) option" where
  "getComparison i s =
     Some (case comparisons_Get (server_store s) i (svCompare s, server_db s) of
        None \<Rightarrow> writeError 404 ''not_found'' ''comparison not found''
      | Some r \<Rightarrow> writeJSON 200 (ComparisonBody r), s)"

definition accepted :: "server \<Rightarrow> service_error option \<times> memory manager \<Rightarrow> (response \<times> server) option" where
  \<comment> \<open>the end of the handlers that submit a command\<close>
  "accepted s = (\<lambda>(err, m). Some (case err of None \<Rightarrow> writeStatus 202 | Some e \<Rightarrow> writeServiceError e, s\<lparr>svManager := m\<rparr>))"

definition placeOrder :: "string \<Rightarrow> handler" where
  "placeOrder i token w rq s =
     (case decode rq dec_place ('''', '''') of
        None \<Rightarrow> Some (bad_json, s)
      | Some (p, d) \<Rightarrow>
          if p = '''' \<or> d = '''' then Some (bad_request ''pickup and destination are required'', s)
          else accepted s (manager_PlaceOrder token (woTrace w) i p d (svManager s)))"

definition closeRoad :: "string \<Rightarrow> handler" where
  "closeRoad i token w rq s =
     (case decode rq (dec_one ''edgeId'' '''' dec_string) '''' of
        None \<Rightarrow> Some (bad_json, s)
      | Some e \<Rightarrow>
          if e = '''' then Some (bad_request ''edgeId is required'', s)
          else (case manager_CloseRoad token (woTrace w) (woID w) i e (svManager s) of
                  (Inl err, m) \<Rightarrow> Some (writeServiceError err, s\<lparr>svManager := m\<rparr>)
                | (Inr c, m) \<Rightarrow> Some (writeJSON 202 (JsonBody (JObj [(''commandId'', JStr c)])), s\<lparr>svManager := m\<rparr>)))"

definition reopenRoad :: "string \<Rightarrow> handler" where
  "reopenRoad i token w rq s =
     (let e = query ''edgeId'' rq
      in if e = '''' then Some (bad_request ''edgeId is required'', s)
         else accepted s (manager_ReopenRoad token (woTrace w) i e (svManager s)))"

definition setPaused :: "string \<Rightarrow> bool \<Rightarrow> handler" where
  "setPaused i b token w rq s = accepted s (manager_SetPaused token (woTrace w) i b (svManager s))"

definition reset_run :: "string \<Rightarrow> handler" where
  "reset_run i token w rq s = accepted s (manager_Reset token (woTrace w) i (svManager s))"

definition setSpeed :: "string \<Rightarrow> handler" where
  "setSpeed i token w rq s =
     (case decode rq (dec_one ''multiplier'' 0 dec_real) 0 of
        None \<Rightarrow> Some (bad_json, s)
      | Some x \<Rightarrow>
          if x \<le> 0 then Some (bad_request ''multiplier must be positive'', s)
          else accepted s (manager_SetSpeed token (woTrace w) i x (svManager s)))"

definition markShowcase :: "string \<Rightarrow> handler" where
  "markShowcase i token w rq s =
     (if \<not> svStored s
      then Some (writeError 503 ''no_persistence'' ''this server has no database attached, so runs cannot be saved'', s)
      else case manager_MarkShowcase (server_store s) token (woNow w) (woServed w) i (svManager s) of
             (Some e, m) \<Rightarrow> Some (writeServiceError e, s\<lparr>svManager := m\<rparr>)
           | (None, m) \<Rightarrow> Some (writeJSON 200 (JsonBody (JObj [(''id'', JStr i), (''showcase'', JBool True),
               (''replayUrl'', JStr (''/replay/'' @ i))])), s\<lparr>svManager := m\<rparr>))"

definition validate :: "world \<Rightarrow> string \<Rightarrow> sessions \<Rightarrow> server \<Rightarrow> (service_error + guest_session) \<times> server" where
  \<comment> \<open>\<open>s.sessions.Validate\<close>\<close>
  "validate w token ss s =
     (let (r, (ss1, db)) = Validate (server_store s) token (woNow w) (ss, server_db s)
      in (r, s\<lparr>svManager := svManager s\<lparr>mgSessions := Some ss1, mgStore := db\<rparr>\<rparr>))"

definition mayReadReplay :: "string \<Rightarrow> world \<Rightarrow> request \<Rightarrow> server \<Rightarrow> bool \<times> server" where
  "mayReadReplay i w rq s =
     (if \<not> svStored s then (False, s)
      else case GetSimulation i (server_db s) of
             Inl _ \<Rightarrow> (True, s)
           | Inr row \<Rightarrow>
               if srShowcase row \<or> srGuestToken row = '''' then (True, s)
               else case mgSessions (svManager s) of
                      None \<Rightarrow> (False, s)
                    | Some ss \<Rightarrow>
                        if bearerToken rq = '''' then (False, s)
                        else (case validate w (bearerToken rq) ss s of
                                (Inl _, s1) \<Rightarrow> (False, s1)
                              | (Inr g, s1) \<Rightarrow> (gsToken g = srGuestToken row, s1)))"

definition intParam :: "string \<Rightarrow> int \<Rightarrow> int option" where
  "intParam raw fallback = (if raw = '''' then Some fallback else atoi raw)"

definition read_replay :: "string \<Rightarrow> request \<Rightarrow> memory \<Rightarrow> response option" where
  \<comment> \<open>\<open>getReplay\<close> once the caller may read\<close>
  "read_replay i rq db =
     (if query ''at'' rq \<noteq> '''' then
        (case atoi (query ''at'' rq) of
           None \<Rightarrow> Some (bad_request ''at must be a sequence number'')
         | Some n \<Rightarrow> (case reader_StateAt i n db of
             None \<Rightarrow> None
           | Some (Inl ReplayPanic) \<Rightarrow> None
           | Some (Inl e) \<Rightarrow> Some (writeReplayError e)
           | Some (Inr state) \<Rightarrow> Some (writeJSON 200 (StateBody state))))
      else case intParam (query ''fromSequence'' rq) 0 of
             None \<Rightarrow> Some (bad_request ''fromSequence must be a number'')
           | Some from_seq \<Rightarrow>
               (case intParam (query ''limit'' rq) 0 of
                  None \<Rightarrow> Some (bad_request ''limit must be a number'')
                | Some limit \<Rightarrow> (case Load i from_seq limit db of
                    Inl ReplayPanic \<Rightarrow> None
                  | Inl e \<Rightarrow> Some (writeReplayError e)
                  | Inr page \<Rightarrow> Some (writeJSON 200 (LogBody page)))))"

definition getReplay :: "string \<Rightarrow> world \<Rightarrow> request \<Rightarrow> server \<Rightarrow> (response \<times> server) option" where
  "getReplay i w rq s =
     (if \<not> svStored s
      then Some (writeError 503 ''no_persistence'' ''this server has no database attached, so no history was recorded'', s)
      else let (ok, s1) = mayReadReplay i w rq s
           in if \<not> ok then Some (no_replay, s1)
              else map_option (\<lambda>rs. (rs, s1)) (read_replay i rq (server_db s1)))"

definition stream :: "string \<Rightarrow> string \<Rightarrow> world \<Rightarrow> server \<Rightarrow> (response \<times> server) option" where
  \<comment> \<open>up to the upgrade; the frames of an accepted connection are in \<open>Stream\<close>\<close>
  "stream i token w s =
     (case StreamLookup i token (svManager s) of
        None \<Rightarrow> Some (\<lparr>rsStatus = 404, rsHeader = [], rsBody = TextBody ''404 page not found''\<rparr>, s)
      | Some _ \<Rightarrow> Some (if woUpgraded w then \<lparr>rsStatus = 101, rsHeader = [], rsBody = StreamBody i\<rparr> else writeStatus 400, s))"

definition ready :: "server \<Rightarrow> (response \<times> server) option" where
  \<comment> \<open>\<open>Ping\<close> of the in-memory store always answers\<close>
  "ready s = Some (writeStatus 200, s)"

fun handle_route :: "endpoint \<Rightarrow> handler" where
  "handle_route ToGuestSessions token w rq s = createGuestSession w s"
| "handle_route ToSimulations token w rq s = createSimulation token w rq s"
| "handle_route (ToSimulation i) token w rq s = getSimulation i token s"
| "handle_route (ToOrders i) token w rq s = placeOrder i token w rq s"
| "handle_route (ToClosures i) token w rq s = closeRoad i token w rq s"
| "handle_route (ToReopen i) token w rq s = reopenRoad i token w rq s"
| "handle_route (ToPause i) token w rq s = setPaused i True token w rq s"
| "handle_route (ToResume i) token w rq s = setPaused i False token w rq s"
| "handle_route (ToReset i) token w rq s = reset_run i token w rq s"
| "handle_route (ToSpeed i) token w rq s = setSpeed i token w rq s"
| "handle_route (ToShowcase i) token w rq s = markShowcase i token w rq s"
| "handle_route (ToReplay i) token w rq s = getReplay i w rq s"
| "handle_route (ToStream i) token w rq s = stream i token w s"
| "handle_route ToComparisons token w rq s = createComparison token w rq s"
| "handle_route (ToComparison i) token w rq s = getComparison i s"
| "handle_route ToLive token w rq s = Some (writeStatus 200, s)"
| "handle_route ToReady token w rq s = ready s"
| "handle_route ToMetrics token w rq s =
     Some (\<lparr>rsStatus = 200, rsHeader = [(''Content-Type'', ''text/plain; version=0.0.4; charset=utf-8'')], rsBody = MetricsBody\<rparr>, s)"

definition serve_mux :: handler where
  "serve_mux token w rq s =
     (case mux rq of
        Route r \<Rightarrow> handle_route r token w rq s
      | RouteRedirect \<Rightarrow> Some (writeStatus 307, s)
      | RouteMethod \<Rightarrow> Some (\<lparr>rsStatus = 405, rsHeader = [], rsBody = TextBody ''Method Not Allowed''\<rparr>, s)
      | RouteMissing \<Rightarrow> Some (\<lparr>rsStatus = 404, rsHeader = [], rsBody = TextBody ''404 page not found''\<rparr>, s))"

subsection \<open>Middleware\<close>

definition idem_scope :: "string \<Rightarrow> request \<Rightarrow> string" where
  "idem_scope token rq = token @ CHR 0x00 # url_path rq @ CHR 0x00 # header ''Idempotency-Key'' rq"

definition idem_lookup :: "string \<Rightarrow> world \<Rightarrow> request \<Rightarrow> server \<Rightarrow> response option \<times> server" where
  \<comment> \<open>the middleware up to the call of the handler\<close>
  "idem_lookup token w rq s =
     (let (hit, c) = cache_Get (idem_scope token rq) (woNow w) (svIdem s)
      in (map_option (\<lambda>x. set_header ''Idempotent-Replay'' ''true'' (writeStored x)) hit, s\<lparr>svIdem := c\<rparr>))"

definition idem_finish :: handler where
  \<comment> \<open>the handler, and what the middleware does after it\<close>
  "idem_finish token w rq s =
     map_option (\<lambda>(rs, s1). (rs, if rsStatus rs < 300
         then s1\<lparr>svIdem := cache_Put (idem_scope token rq) \<lparr>stStatus = rsStatus rs, stBody = rsBody rs,
                stContentType = get_or '''' (rsHeader rs) ''Content-Type'', stStoredAt = 0\<rparr> (woNow w) (svIdem s1)\<rparr>
         else s1))
       (serve_mux token w rq s)"

definition has_key :: "request \<Rightarrow> bool" where
  "has_key rq \<longleftrightarrow> header ''Idempotency-Key'' rq \<noteq> '''' \<and> rqMethod rq = POST"

definition with_idempotency :: handler where
  "with_idempotency token w rq s =
     (if \<not> has_key rq then serve_mux token w rq s
      else if length (header ''Idempotency-Key'' rq) > 200 then Some (bad_request ''idempotency key is too long'', s)
      else case idem_lookup token w rq s of
             (Some rs, s1) \<Rightarrow> Some (rs, s1)
           | (None, s1) \<Rightarrow> idem_finish token w rq s1)"

definition authenticate :: "world \<Rightarrow> request \<Rightarrow> server \<Rightarrow> (response \<times> server) option" where
  "authenticate w rq s =
     (case mgSessions (svManager s) of
        None \<Rightarrow> with_idempotency '''' w rq s
      | Some ss \<Rightarrow>
          if isPublicRoute rq then with_idempotency '''' w rq s
          else (case validate w (bearerToken rq) ss s of
                  (Inl ErrNoSession, s1) \<Rightarrow> Some (writeError 401 ''no_session''
                    ''missing or expired guest session; request one from POST /api/v1/guest-sessions'', s1)
                | (Inl _, s1) \<Rightarrow> Some (writeError 500 ''internal'' ''unexpected error'', s1)
                | (Inr g, s1) \<Rightarrow> with_idempotency (gsToken g) w rq s1))"

definition retry_seconds :: "int \<Rightarrow> int" where
  \<comment> \<open>\<open>int(retry.Round(time.Second).Seconds())\<close>, half away from zero\<close>
  "retry_seconds d = (if d < 0 then - ((- d + nanos div 2) div nanos) else (d + nanos div 2) div nanos)"

definition rateLimit :: "world \<Rightarrow> request \<Rightarrow> server \<Rightarrow> (response \<times> server) option" where
  "rateLimit w rq s =
     (if svLimiter s = None \<or> rqMethod rq = OPTIONS then authenticate w rq s
      else
        let key = (if bearerToken rq = '''' then clientIP rq else bearerToken rq);
            ((ok, retry), l) = Allow key (woNow w) (svLimiter s);
            s1 = s\<lparr>svLimiter := l\<rparr>
        in if \<not> ok then Some (set_header ''Retry-After'' (show_int (retry_seconds retry))
                (writeError 429 ''rate_limited'' ''too many requests, slow down''), s1)
           else authenticate w rq s1)"

definition withTelemetry :: "world \<Rightarrow> request \<Rightarrow> server \<Rightarrow> (response \<times> server) option" where
  "withTelemetry w rq s =
     (if isStreamRequest rq then rateLimit w rq s
      else map_option (\<lambda>(rs, s1). (set_header ''X-Trace-Id'' (woTrace w) rs, s1)) (rateLimit w rq s))"

definition cors_headers :: "string \<Rightarrow> response \<Rightarrow> response" where
  "cors_headers origin rs =
     (let rs1 = (if origin = '''' then rs else set_header ''Vary'' ''Origin'' (set_header ''Access-Control-Allow-Origin'' origin rs))
      in set_header ''Access-Control-Expose-Headers'' ''X-Trace-Id, Retry-After''
          (set_header ''Access-Control-Allow-Headers'' ''Content-Type, Authorization, Idempotency-Key''
            (set_header ''Access-Control-Allow-Methods'' ''GET, POST, DELETE, OPTIONS'' rs1)))"

definition serve :: "world \<Rightarrow> request \<Rightarrow> server \<Rightarrow> (response \<times> server) option" where
  \<comment> \<open>the handler \<open>Routes\<close> returns: \<open>withCORS\<close> around \<open>limitBody\<close> around the rest\<close>
  "serve w rq s =
     (let origin = header ''Origin'' rq
      in if \<not> permits (svOrigins s) origin then Some (writeError 403 ''origin_not_allowed'' ''origin is not allowed'', s)
         else if rqMethod rq = OPTIONS then Some (cors_headers origin (writeStatus 204), s)
         else map_option (\<lambda>(rs, s1). (cors_headers origin rs, s1)) (withTelemetry w (limitBody rq) s))"

end
