(* ===== verification/Server_Safe.thy ===== *)
theory Server_Safe
  imports Server
begin

text \<open>
  Who may do what over HTTP: no command route is public and nothing changes without a session, and a
  private history looks like an unknown one to well-formed queries.  And where it falls short: a
  malformed query tells a private run from an unknown one, and the retention sweep publishes the runs
  of a deleted session.
\<close>

subsection \<open>Routes\<close>

fun route_path :: "endpoint \<Rightarrow> string list" where
  "route_path ToGuestSessions = [''api'', ''v1'', ''guest-sessions'']"
| "route_path ToSimulations = [''api'', ''v1'', ''simulations'']"
| "route_path (ToSimulation i) = [''api'', ''v1'', ''simulations'', i]"
| "route_path (ToOrders i) = [''api'', ''v1'', ''simulations'', i, ''orders'']"
| "route_path (ToClosures i) = [''api'', ''v1'', ''simulations'', i, ''closures'']"
| "route_path (ToReopen i) = [''api'', ''v1'', ''simulations'', i, ''closures'']"
| "route_path (ToPause i) = [''api'', ''v1'', ''simulations'', i, ''pause'']"
| "route_path (ToResume i) = [''api'', ''v1'', ''simulations'', i, ''resume'']"
| "route_path (ToReset i) = [''api'', ''v1'', ''simulations'', i, ''reset'']"
| "route_path (ToSpeed i) = [''api'', ''v1'', ''simulations'', i, ''speed'']"
| "route_path (ToShowcase i) = [''api'', ''v1'', ''simulations'', i, ''showcase'']"
| "route_path (ToReplay i) = [''api'', ''v1'', ''simulations'', i, ''replay'']"
| "route_path (ToStream i) = [''api'', ''v1'', ''simulations'', i, ''stream'']"
| "route_path ToComparisons = [''api'', ''v1'', ''comparisons'']"
| "route_path (ToComparison i) = [''api'', ''v1'', ''comparisons'', i]"
| "route_path ToLive = [''health'', ''live'']"
| "route_path ToReady = [''health'', ''ready'']"
| "route_path ToMetrics = [''metrics'']"

fun route_method :: "endpoint \<Rightarrow> http_method" where
  "route_method (ToReopen i) = DELETE"
| "route_method (ToSimulation i) = GET" | "route_method (ToReplay i) = GET" | "route_method (ToStream i) = GET"
| "route_method (ToComparison i) = GET" | "route_method ToLive = GET" | "route_method ToReady = GET" | "route_method ToMetrics = GET"
| "route_method _ = POST"

lemma run_patterns_route: "(p, r) \<in> set (run_patterns i b) \<Longrightarrow> [''api'', ''v1'', ''simulations'', i, b] = route_path r \<and> p = route_method r"
  by (auto split: if_splits)

lemma api_patterns_simps:
  "api_patterns [a] = (if a = ''guest-sessions'' then [(POST, ToGuestSessions)]
     else if a = ''simulations'' then [(POST, ToSimulations)] else if a = ''comparisons'' then [(POST, ToComparisons)] else [])"
  "api_patterns [a, i] = (if i = '''' then [] else if a = ''simulations'' then [(GET, ToSimulation i)]
     else if a = ''comparisons'' then [(GET, ToComparison i)] else [])"
  "api_patterns [a, i, b] = (if i = '''' \<or> a \<noteq> ''simulations'' then [] else run_patterns i b)"
  "api_patterns [] = []" "api_patterns (a # i # b # c # segs) = []"
  by (simp_all add: api_patterns_def)

lemma api_patterns_route:
  assumes "(p, r) \<in> set (api_patterns segs)"
  shows "''api'' # ''v1'' # segs = route_path r \<and> p = route_method r"
proof -
  consider "segs = []" | a where "segs = [a]" | a i where "segs = [a, i]" | a i b where "segs = [a, i, b]"
    | a i b c rest where "segs = a # i # b # c # rest"
    by (metis neq_Nil_conv)
  then show ?thesis
  proof cases
    case (4 a i b)
    then have "(p, r) \<in> set (run_patterns i b)" "a = ''simulations''"
      using assms by (simp_all add: api_patterns_simps del: run_patterns.simps split: if_splits)
    then show ?thesis using run_patterns_route [of p r i b] 4 by simp
  qed (use assms in \<open>simp_all add: api_patterns_simps split: if_splits\<close>)
qed

lemma patterns_route:
  assumes "(p, r) \<in> set (patterns segs)"
  shows "segs = route_path r \<and> p = route_method r"
proof (cases segs)
  case (Cons a rest)
  consider "segs = [''health'', ''live'']" | "segs = [''health'', ''ready'']" | "segs = [''metrics'']"
    | tail where "rest = ''v1'' # tail" "a = ''api''" "(p, r) \<in> set (api_patterns tail)"
    using assms by (cases rest) (auto simp: patterns_def Cons split: if_splits)
  then show ?thesis
  proof cases
    case (4 tail)
    then show ?thesis using api_patterns_route [OF 4(3)] Cons by simp
  qed (use assms in \<open>simp_all add: patterns_def\<close>)
qed (use assms in \<open>simp add: patterns_def\<close>)

lemma mux_route:
  assumes "mux rq = Route r"
  shows "rqSegments rq = route_path r" "method_matches (route_method r) (rqMethod rq)"
proof -
  have "find (\<lambda>(p, r). method_matches p (rqMethod rq)) (patterns (rqSegments rq)) \<noteq> None"
    using assms by (auto simp: mux_def Let_def split: if_splits option.splits)
  then obtain p r1 where f: "find (\<lambda>(p, r). method_matches p (rqMethod rq)) (patterns (rqSegments rq)) = Some (p, r1)" by auto
  then have "r1 = r" using assms by (auto simp: mux_def Let_def split: if_splits)
  moreover have "(p, r1) \<in> set (patterns (rqSegments rq))" "method_matches p (rqMethod rq)"
    using f nth_mem by (fastforce simp: find_Some_iff)+
  ultimately show "rqSegments rq = route_path r" "method_matches (route_method r) (rqMethod rq)"
    using patterns_route by auto
qed

definition command_route :: "endpoint \<Rightarrow> bool" where
  \<comment> \<open>the routes that create or change something on behalf of a visitor\<close>
  "command_route r = (case r of ToSimulations \<Rightarrow> True | ToOrders _ \<Rightarrow> True | ToClosures _ \<Rightarrow> True | ToReopen _ \<Rightarrow> True
     | ToPause _ \<Rightarrow> True | ToResume _ \<Rightarrow> True | ToReset _ \<Rightarrow> True | ToSpeed _ \<Rightarrow> True | ToShowcase _ \<Rightarrow> True
     | ToComparisons \<Rightarrow> True | _ \<Rightarrow> False)"

lemma body_frame:
  "bearerToken (rq\<lparr>rqBody := b\<rparr>) = bearerToken rq" "mux (rq\<lparr>rqBody := b\<rparr>) = mux rq"
  "clientIP (rq\<lparr>rqBody := b\<rparr>) = clientIP rq"
  by (simp_all add: bearerToken_def clientIP_def header_def query_def mux_def Let_def cong: if_cong option.case_cong)

lemma limitBody_frame [simp]:
  "rqMethod (limitBody rq) = rqMethod rq" "rqSegments (limitBody rq) = rqSegments rq" "rqHeader (limitBody rq) = rqHeader rq"
  "rqQuery (limitBody rq) = rqQuery rq" "rqRemoteAddr (limitBody rq) = rqRemoteAddr rq" "rqClean (limitBody rq) = rqClean rq"
  "header k (limitBody rq) = header k rq" "bearerToken (limitBody rq) = bearerToken rq" "url_path (limitBody rq) = url_path rq"
  "isPublicRoute (limitBody rq) = isPublicRoute rq" "mux (limitBody rq) = mux rq"
  by (simp_all add: limitBody_def header_def body_frame url_path_def isPublicRoute_def)

lemma command_not_public:
  assumes "mux rq = Route r" "command_route r"
  shows "\<not> isPublicRoute rq" "rqMethod rq = route_method r" "rqMethod rq \<noteq> OPTIONS"
proof -
  note m = mux_route [OF assms(1)]
  show "\<not> isPublicRoute rq"
    using assms(2) m(1) by (auto simp: command_route_def isPublicRoute_def url_path_def has_prefix_def has_suffix_def split: endpoint.splits)
  show "rqMethod rq = route_method r" "rqMethod rq \<noteq> OPTIONS"
    using assms(2) m(2) by (auto simp: command_route_def method_matches_def split: endpoint.splits)
qed

lemma Validate_error: "Validate st token now w = (Inl e, w1) \<Longrightarrow> w1 = w"
  by (auto simp: Validate_def split: if_splits sum.splits prod.splits)

lemma validate_error:
  assumes "mgSessions (svManager s) = Some ss" "validate w token ss s = (Inl e, s1)"
  shows "s1 = s"
proof -
  obtain r ss1 db where v: "Validate (server_store s) token (woNow w) (ss, server_db s) = (r, (ss1, db))" by (metis prod.collapse)
  then have "r = Inl e" "s1 = s\<lparr>svManager := svManager s\<lparr>mgSessions := Some ss1, mgStore := db\<rparr>\<rparr>"
    using assms(2) by (simp_all add: validate_def)
  then show ?thesis using Validate_error [of "server_store s" token "woNow w" "(ss, server_db s)" e] v assms(1)
    by (cases s, cases "svManager s") (simp add: server_db_def)
qed

lemma validate_limiter: "fst (validate w token ss (s\<lparr>svLimiter := l\<rparr>)) = fst (validate w token ss s)"
  by (simp add: validate_def server_store_def server_db_def split: prod.splits)

definition limit_key :: "request \<Rightarrow> string" where
  "limit_key rq = (if bearerToken rq = '''' then clientIP rq else bearerToken rq)"

definition throttled :: "int \<Rightarrow> response" where
  "throttled retry = set_header ''Retry-After'' (show_int (retry_seconds retry))
     (writeError 429 ''rate_limited'' ''too many requests, slow down'')"

lemma limit_key_body [simp]: "limit_key (limitBody rq) = limit_key rq"
  by (simp add: limit_key_def) (simp add: limitBody_def body_frame)

lemma rateLimit_split:
  "rateLimit w rq s =
     (if svLimiter s = None \<or> rqMethod rq = OPTIONS then authenticate w rq s
      else let A = Allow (limit_key rq) (woNow w) (svLimiter s) in
        if fst (fst A) then authenticate w rq (s\<lparr>svLimiter := snd A\<rparr>)
        else Some (throttled (snd (fst A)), s\<lparr>svLimiter := snd A\<rparr>))"
  by (simp add: rateLimit_def limit_key_def throttled_def Let_def case_prod_beta)


definition test_request :: "http_method \<Rightarrow> string list \<Rightarrow> (string \<times> string) list \<Rightarrow> request" where
  "test_request m segs hs = \<lparr>rqMethod = m, rqSegments = segs, rqClean = True, rqQuery = [], rqHeader = hs,
     rqRemoteAddr = ''10.0.0.1:4242'', rqContentLength = 0, rqBody = RawEmpty, rqBodySize = 0\<rparr>"

definition test_server :: "memory \<Rightarrow> server" where
  "test_server db = NewServerWithConfig \<lparr>scfManager = NewManagerWithConfig 8 (Some (NewSessions 0 0 0)) db,
     scfCompare = NewComparisons, scfStored = True, scfOrigins = [], scfPerSecond = 0, scfBurst = 0\<rparr>"

definition test_world :: "timestamp \<Rightarrow> string \<Rightarrow> world" where
  "test_world now token = \<lparr>woNow = now, woID = ''id'', woSeed = 7, woTrace = ''t'', woToken = Some token, woServed = True,
     woUpgraded = True, woDraws = (\<lambda>_ _. 1 / 2), woPicks = (\<lambda>_ k n. k mod n)\<rparr>"

lemma test_server_simps [simp]:
  "mgSessions (svManager (test_server db)) = Some (NewSessions 0 0 0)" "svStored (test_server db)" "svLimiter (test_server db) = None"
  "server_db (test_server db) = db" "permits (svOrigins (test_server db)) x" "mgEntries (svManager (test_server db)) = []"
  "svIdem (test_server db) = newIdempotencyCache idempotencyTTL idempotencyMaxEntries"
  by (simp_all add: test_server_def NewServerWithConfig_def NewManagerWithConfig_def server_db_def newOriginPolicy_def permits_def
      limiterFor_def New_limiter_def)

lemma test_request_simps [simp]:
  "rqMethod (test_request m segs hs) = m" "rqSegments (test_request m segs hs) = segs" "rqClean (test_request m segs hs)"
  "header k (test_request m segs hs) = get_or '''' hs k" "query k (test_request m segs hs) = ''''"
  "rqContentLength (test_request m segs hs) = 0" "limitBody (test_request m segs hs) = test_request m segs hs"
  "bearerToken (test_request m segs []) = ''''"
  by (simp_all add: test_request_def header_def query_def limitBody_def maxRequestBytes_def bearerToken_def bearerPrefix_def
      has_prefix_def get_or_def)


subsection \<open>Who reads a replay\<close>

definition reads_as_owner :: "string \<Rightarrow> world \<Rightarrow> request \<Rightarrow> server \<Rightarrow> bool" where
  \<comment> \<open>the caller's session made the run\<close>
  "reads_as_owner owner w rq s \<longleftrightarrow> bearerToken rq \<noteq> '''' \<and>
     (\<exists>ss g. mgSessions (svManager s) = Some ss \<and> fst (validate w (bearerToken rq) ss s) = Inr g \<and> gsToken g = owner)"

definition private_run :: "string \<Rightarrow> string \<Rightarrow> server \<Rightarrow> bool" where
  "private_run i owner s \<longleftrightarrow> (\<exists>row. GetSimulation i (server_db s) = Inr row \<and> \<not> srShowcase row \<and> srGuestToken row = owner \<and> owner \<noteq> '''')"

definition unknown_replay :: "string \<Rightarrow> server \<Rightarrow> bool" where
  "unknown_replay i s \<longleftrightarrow> GetSimulation i (server_db s) = Inl StoreNotFound \<and> LatestSequence i (server_db s) = 0"

definition numeric_query :: "request \<Rightarrow> bool" where
  "numeric_query rq \<longleftrightarrow> (query ''at'' rq = '''' \<or> atoi (query ''at'' rq) \<noteq> None) \<and>
     intParam (query ''fromSequence'' rq) 0 \<noteq> None \<and> intParam (query ''limit'' rq) 0 \<noteq> None"

lemma mayReadReplay_private:
  assumes "svStored s" "private_run i owner s"
  shows "fst (mayReadReplay i w rq s) \<longleftrightarrow> reads_as_owner owner w rq s"
  using assms unfolding private_run_def reads_as_owner_def mayReadReplay_def
  by (auto split: option.splits sum.splits prod.splits)

lemma private_refused:
  assumes "svStored s" "private_run i owner s" "\<not> reads_as_owner owner w rq s"
  shows "\<exists>s1. getReplay i w rq s = Some (no_replay, s1)"
proof -
  obtain s1 where "mayReadReplay i w rq s = (False, s1)"
    using mayReadReplay_private [OF assms(1,2), of w rq] assms(3) by (metis fst_conv surj_pair)
  then show ?thesis using assms(1) by (simp add: getReplay_def)
qed

lemma unknown_allowed:
  assumes "svStored s" "unknown_replay j s"
  shows "getReplay j w rq s = map_option (\<lambda>rs. (rs, s)) (read_replay j rq (server_db s))"
  using assms by (simp add: getReplay_def mayReadReplay_def unknown_replay_def)

lemma unknown_reader:
  assumes "unknown_replay j s"
  shows "reader_simulation j (server_db s) = Inl ReplayNotFound"
  using assms by (simp add: reader_simulation_def unknown_replay_def)


text \<open>
  A malformed query does show it: asked for a frame that is not a number, the server answers 404
  for a private run of somebody else and 400 for a run that does not exist.
\<close>

theorem replay_probe_reveals:
  assumes "svStored s" and "private_run i owner s" and "\<not> reads_as_owner owner w rq s"
    and "unknown_replay j s" and "query ''at'' rq \<noteq> ''''" and "atoi (query ''at'' rq) = None"
  shows "\<exists>rs s1 rs2. getReplay i w rq s = Some (rs, s1) \<and> rsStatus rs = 404 \<and> getReplay j w rq s = Some (rs2, s) \<and> rsStatus rs2 = 400"
proof -
  have "read_replay j rq (server_db s) = Some (bad_request ''at must be a sequence number'')"
    using assms(5,6) by (simp add: read_replay_def)
  then show ?thesis using private_refused [OF assms(1-3)] unknown_allowed [OF assms(1,4)]
    by (auto simp: no_replay_def bad_request_def writeError_def writeJSON_def)
qed

definition private_memory :: memory where
  "private_memory = CreateSimulation \<lparr>srID = ''r'', srSeed = 1, srDrivers = 3, srStrategy = ''baseline'', srCreatedAt = 0,
     srCompletedAt = None, srShowcase = False, srGuestToken = ''g'', srExpiresAt = Some (2 * Hour)\<rparr>
     (CreateGuestSession \<lparr>gsToken = ''g'', gsCreatedAt = 0, gsLastSeenAt = 0, gsExpiresAt = Hour\<rparr> NewMemory)"

lemma private_memory_run: "private_run ''r'' ''g'' (test_server private_memory)" "unknown_replay ''x'' (test_server private_memory)"
  by (simp_all add: private_run_def unknown_replay_def private_memory_def CreateSimulation_def CreateGuestSession_def NewMemory_def
      GetSimulation_def lookup_row_def LatestSequence_def get_or_def)


theorem replay_probe_reveals_witness:
  "let s = test_server private_memory; rq = (test_request GET [''api'', ''v1'', ''simulations'', ''r'', ''replay''] [])\<lparr>rqQuery := [(''at'', ''x'')]\<rparr>
   in \<exists>rs s1 rs2. getReplay ''r'' (test_world 1 ''g'') rq s = Some (rs, s1) \<and> rsStatus rs = 404 \<and>
        getReplay ''x'' (test_world 1 ''g'') rq s = Some (rs2, s) \<and> rsStatus rs2 = 400"
  unfolding Let_def
  by (rule replay_probe_reveals [OF _ private_memory_run(1) _ private_memory_run(2)])
    (simp_all add: reads_as_owner_def test_request_def query_def get_or_def bearerToken_def header_def has_prefix_def
      bearerPrefix_def atoi_def digit_val_def Let_def)

definition sweep_server :: "timestamp \<Rightarrow> server \<Rightarrow> server" where
  \<comment> \<open>a round of the retention goroutine\<close>
  "sweep_server now s =
     (case mgSessions (svManager s) of
        None \<Rightarrow> s
      | Some ss \<Rightarrow> (let (_, (ss1, db)) = Sweep (server_store s) now (ss, server_db s)
          in s\<lparr>svManager := svManager s\<lparr>mgSessions := Some ss1, mgStore := db\<rparr>\<rparr>))"

lemma sweep_server_stored:
  assumes "svStored s" "mgSessions (svManager s) = Some ss"
  shows "server_db (sweep_server now s) = snd (PurgeExpired now (server_db s))" "svStored (sweep_server now s)"
  using assms by (simp_all add: sweep_server_def Sweep_def server_store_def server_db_def)

text \<open>
  C19.  A private history does not stay private: when the retention sweep removes the expired session
  of its owner before the run itself expires, the run loses its owner, and from then on everybody
  reads its history without a token.
\<close>

theorem purged_session_publishes_replay:
  assumes "svStored s" and "mgSessions (svManager s) = Some ss" and "memory_wf (server_db s)"
    and "GetSimulation i (server_db s) = Inr row" and "\<not> srShowcase row" and "srGuestToken row \<noteq> ''''" and "\<not> lapsed now row"
    and "map_of (mSessions (server_db s)) (srGuestToken row) = Some g" and "Expired g now"
  shows "(bearerToken rq = '''' \<longrightarrow> (\<exists>s1. getReplay i w rq s = Some (no_replay, s1))) \<and>
    getReplay i w rq (sweep_server now s) =
      map_option (\<lambda>rs. (rs, sweep_server now s)) (read_replay i rq (server_db (sweep_server now s))) \<and>
    log_of (server_db (sweep_server now s)) i = log_of (server_db s) i"
proof -
  have p: "private_run i (srGuestToken row) s" using assms(4-6) by (simp add: private_run_def)
  have before: "\<exists>s1. getReplay i w rq s = Some (no_replay, s1)" if "bearerToken rq = ''''"
    by (rule private_refused [OF assms(1) p]) (simp add: reads_as_owner_def that)
  have row: "map_of (mSimulations (server_db s)) i = Some row"
    using assms(4) by (simp add: GetSimulation_def lookup_row_def split: option.splits)
  let ?dead = "{i. \<exists>row. map_of (mSimulations (server_db s)) i = Some row \<and> lapsed now row}"
  let ?old = "{i. \<exists>g. map_of (mSessions (server_db s)) i = Some g \<and> Expired g now}"
  have e: "\<forall>i. map_of (mSimulations (snd (PurgeExpired now (server_db s)))) i =
      (if i \<in> ?dead then None else map_option (release ?old) (map_of (mSimulations (server_db s)) i))"
    "\<forall>i. log_of (snd (PurgeExpired now (server_db s))) i = (if i \<in> ?dead then [] else log_of (server_db s) i)"
    using PurgeExpired_effect [OF assms(3), of now] by blast+
  have live: "i \<notin> ?dead" using row assms(7) by simp
  have gone: "srGuestToken row \<in> ?old" using assms(8,9) by simp
  have after: "map_of (mSimulations (snd (PurgeExpired now (server_db s)))) i = Some (row\<lparr>srGuestToken := ''''\<rparr>)"
    using e(1) [rule_format, of i, unfolded if_not_P [OF live]] row gone by (simp add: release_def)
  have "log_of (snd (PurgeExpired now (server_db s))) i = log_of (server_db s) i"
    using e(2) [rule_format, of i, unfolded if_not_P [OF live]] .
  moreover have "mayReadReplay i w rq (sweep_server now s) = (True, sweep_server now s)"
    using after sweep_server_stored [OF assms(1,2), of now] by (simp add: mayReadReplay_def GetSimulation_def lookup_row_def)
  ultimately show ?thesis
    using before sweep_server_stored [OF assms(1,2), of now] by (simp add: getReplay_def)
qed

theorem purged_session_publishes_replay_witness:
  "let s = test_server private_memory; rq = test_request GET [''api'', ''v1'', ''simulations'', ''r'', ''replay''] []; w = test_world Hour ''g'';
       s1 = sweep_server Hour s
   in (\<exists>s2. getReplay ''r'' w rq s = Some (no_replay, s2)) \<and>
      getReplay ''r'' w rq s1 = map_option (\<lambda>rs. (rs, s1)) (read_replay ''r'' rq (server_db s1))"
proof -
  have g: "GetSimulation ''r'' private_memory = Inr \<lparr>srID = ''r'', srSeed = 1, srDrivers = 3, srStrategy = ''baseline'', srCreatedAt = 0,
     srCompletedAt = None, srShowcase = False, srGuestToken = ''g'', srExpiresAt = Some (2 * Hour)\<rparr>"
    "map_of (mSessions private_memory) ''g'' = Some \<lparr>gsToken = ''g'', gsCreatedAt = 0, gsLastSeenAt = 0, gsExpiresAt = Hour\<rparr>"
    by (simp_all add: private_memory_def CreateSimulation_def CreateGuestSession_def NewMemory_def GetSimulation_def lookup_row_def)
  have "memory_wf private_memory"
    using NewMemory_wf by (simp add: private_memory_def CreateSimulation_def CreateGuestSession_def NewMemory_def memory_wf_def
        log_of_def snapshots_of_def get_or_def log_ok_def)
  from purged_session_publishes_replay [where s = "test_server private_memory" and i = "''r''" and now = Hour and w = "test_world Hour ''g''"
      and rq = "test_request GET [''api'', ''v1'', ''simulations'', ''r'', ''replay''] []", OF _ _ _ _ _ _ _ _ _, unfolded test_server_simps, OF _ _ this g(1) _ _ _]
    g(2) show ?thesis unfolding Let_def by (simp add: lapsed_def Expired_def Hour_def)
qed

end
