(* ===== verification/Server_Retry.thy ===== *)
theory Server_Retry
  imports Server_Safe
begin

text \<open>
  Remembered outcomes (\<open>idempotency.go\<close> and the middleware of that name): what one request can do to
  the cache, that the cache stays within its bound over any sequence of requests, and that a retried
  command is answered from it and changes nothing.  Two shortcomings are proved as well: the route
  that issues sessions has one scope for all visitors, and two retries in flight are both applied.
\<close>

subsection \<open>What a request does to the cache\<close>

lemma accepted_idem: "accepted s r = Some (rs, s1) \<Longrightarrow> svIdem s1 = svIdem s"
  by (auto simp: accepted_def split: prod.splits)

lemma validate_idem: "svIdem (snd (validate w token ss s)) = svIdem s"
  by (simp add: validate_def split: prod.splits)

lemma mayReadReplay_idem: "svIdem (snd (mayReadReplay i w rq s)) = svIdem s"
  using validate_idem [of w "bearerToken rq" _ s]
  by (auto simp: mayReadReplay_def split: sum.splits option.splits prod.splits) (metis snd_conv)+

lemma handle_route_idem:
  assumes "handle_route r token w rq s = Some (rs, s1)"
  shows "svIdem s1 = svIdem s"
proof (cases r)
  case (ToReplay i)
  then show ?thesis using assms mayReadReplay_idem [of i w rq s]
    by (auto simp: getReplay_def split: if_splits prod.splits)
next
  case ToGuestSessions
  then show ?thesis using assms by (auto simp: createGuestSession_def Let_def split: option.splits prod.splits)
next
  case ToSimulations
  then show ?thesis using assms by (auto simp: createSimulation_def Let_def split: option.splits prod.splits)
next
  case ToComparisons
  then show ?thesis using assms by (auto simp: createComparison_def Let_def split: option.splits prod.splits)
next
  case (ToClosures i)
  then show ?thesis using assms by (auto simp: closeRoad_def split: option.splits prod.splits sum.splits if_splits)
next
  case (ToShowcase i)
  then show ?thesis using assms by (auto simp: markShowcase_def split: option.splits prod.splits if_splits)
qed (use assms in \<open>auto simp: getSimulation_def placeOrder_def reopenRoad_def setPaused_def reset_run_def setSpeed_def stream_def
    getComparison_def ready_def Let_def split: option.splits prod.splits if_splits dest: accepted_idem\<close>)

lemma serve_mux_idem: "serve_mux token w rq s = Some (rs, s1) \<Longrightarrow> svIdem s1 = svIdem s"
  by (auto simp: serve_mux_def handle_route_idem split: routed.splits)

definition cache_step :: "timestamp \<Rightarrow> idempotency \<Rightarrow> idempotency \<Rightarrow> bool" where
  "cache_step now c c1 \<longleftrightarrow> c1 = c \<or> (\<exists>k x. k \<noteq> '''' \<and> (c1 = snd (cache_Get k now c) \<or>
     fst (cache_Get k now c) = None \<and> c1 = cache_Put k x now (snd (cache_Get k now c))))"

lemma idem_scope_nonempty: "idem_scope token rq \<noteq> ''''"
  by (simp add: idem_scope_def)

lemma with_idempotency_step:
  assumes "with_idempotency token w rq s = Some (rs, s1)"
  shows "cache_step (woNow w) (svIdem s) (svIdem s1)"
proof (cases "\<not> has_key rq \<or> length (header ''Idempotency-Key'' rq) > 200")
  case True
  then show ?thesis using assms serve_mux_idem by (auto simp: with_idempotency_def cache_step_def split: if_splits)
next
  case False
  let ?k = "idem_scope token rq"
  obtain hit c where g: "cache_Get ?k (woNow w) (svIdem s) = (hit, c)" by force
  show ?thesis
  proof (cases hit)
    case (Some x)
    then have "svIdem s1 = c" using assms False g by (auto simp: with_idempotency_def idem_lookup_def)
    then show ?thesis unfolding cache_step_def using g idem_scope_nonempty [of token rq] by (metis snd_conv)
  next
    case None
    then have f: "idem_finish token w rq (s\<lparr>svIdem := c\<rparr>) = Some (rs, s1)"
      using assms False g by (simp add: with_idempotency_def idem_lookup_def)
    then obtain rs0 s2 where m: "serve_mux token w rq (s\<lparr>svIdem := c\<rparr>) = Some (rs0, s2)" by (auto simp: idem_finish_def)
    have "svIdem s2 = c" using serve_mux_idem [OF m] by simp
    then have "svIdem s1 = c \<or> (\<exists>x. svIdem s1 = cache_Put ?k x (woNow w) c)"
      using f m by (cases "rsStatus rs0 < 300") (auto simp: idem_finish_def)
    then show ?thesis unfolding cache_step_def using g None idem_scope_nonempty [of token rq] by (metis fst_conv snd_conv)
  qed
qed

lemma cache_step_refl [simp]: "cache_step now c c"
  by (simp add: cache_step_def)

lemma authenticate_step:
  assumes "authenticate w rq s = Some (rs, s1)"
  shows "cache_step (woNow w) (svIdem s) (svIdem s1)"
proof (cases "mgSessions (svManager s)")
  case None
  then show ?thesis using assms with_idempotency_step by (simp add: authenticate_def)
next
  case (Some ss)
  show ?thesis
  proof (cases "isPublicRoute rq")
    case True
    then show ?thesis using assms with_idempotency_step Some by (simp add: authenticate_def)
  next
    case False
    obtain r s2 where v: "validate w (bearerToken rq) ss s = (r, s2)" by force
    then have i: "svIdem s2 = svIdem s" using validate_idem [of w "bearerToken rq" ss s] by simp
    show ?thesis
    proof (cases r)
      case (Inl e)
      then have "s1 = s2" using assms v Some False by (cases e) (simp_all add: authenticate_def)
      then show ?thesis using i by simp
    next
      case (Inr g)
      then have "with_idempotency (gsToken g) w rq s2 = Some (rs, s1)" using assms v Some False by (simp add: authenticate_def)
      from with_idempotency_step [OF this] show ?thesis using i by simp
    qed
  qed
qed

lemma serve_step:
  assumes "serve w rq s = Some (rs, s1)"
  shows "cache_step (woNow w) (svIdem s) (svIdem s1)"
proof -
  have rate: "cache_step (woNow w) (svIdem s) (svIdem s1)" if "rateLimit w rq s = Some (rs, s1)" for rq rs s1
    using that authenticate_step by (fastforce simp: rateLimit_split Let_def split: if_splits)
  have tel: "cache_step (woNow w) (svIdem s) (svIdem s1)" if "withTelemetry w rq s = Some (rs, s1)" for rq rs s1
    using that rate by (auto simp: withTelemetry_def split: if_splits)
  show ?thesis using assms tel by (auto simp: serve_def Let_def split: if_splits)
qed

lemma cache_step_ok:
  assumes "cache_ok c" "cache_step now c c1"
  shows "cache_ok c1" "icTTL c1 = icTTL c" "icMax c1 = icMax c"
proof -
  have get: "cache_ok (snd (cache_Get k now c)) \<and> icTTL (snd (cache_Get k now c)) = icTTL c \<and> icMax (snd (cache_Get k now c)) = icMax c" for k
    using cache_Get_ok [OF assms(1)] by (auto simp: cache_Get_def split: option.splits)
  have put: "cache_ok (cache_Put k x now d) \<and> icTTL (cache_Put k x now d) = icTTL d \<and> icMax (cache_Put k x now d) = icMax d"
    if "cache_ok d" "k \<noteq> ''''" for k x d
    using cache_Put_ok [OF that] evict_room(3,4) [OF that(1), of now] by (simp add: cache_Put_def Let_def)
  have "cache_ok c1 \<and> icTTL c1 = icTTL c \<and> icMax c1 = icMax c"
    using assms get put unfolding cache_step_def by metis
  then show "cache_ok c1" "icTTL c1 = icTTL c" "icMax c1 = icMax c" by simp_all
qed

lemma cache_step_entry:
  assumes "cache_step now c c1" "map_of (icEntries c) k = Some x" "\<not> ic_stale c now x" "int (length (icEntries c)) < icMax c"
  shows "map_of (icEntries c1) k = Some x" "length (icEntries c1) \<le> length (icEntries c) + 1"
proof -
  have get: "map_of (icEntries (snd (cache_Get j now c))) k = Some x \<and> length (icEntries (snd (cache_Get j now c))) \<le> length (icEntries c) \<and>
      icMax (snd (cache_Get j now c)) = icMax c" for j
    using assms(2,3) length_delete_le_plain [of j "icEntries c"] by (auto simp: cache_Get_def map_of_delete split: option.splits)
  have "map_of (icEntries c1) k = Some x \<and> length (icEntries c1) \<le> length (icEntries c) + 1"
    using assms(1) unfolding cache_step_def
  proof (elim disjE exE conjE)
    fix j y assume j: "fst (cache_Get j now c) = None" "c1 = cache_Put j y now (snd (cache_Get j now c))"
    have "j \<noteq> k" using j(1) assms(2,3) by (auto simp: cache_Get_def)
    moreover have "int (length (icEntries (snd (cache_Get j now c)))) < icMax (snd (cache_Get j now c))" using get [of j] assms(4) by linarith
    ultimately show ?thesis
      using get [of j] length_update_le [of j "y\<lparr>stStoredAt := now\<rparr>" "icEntries (snd (cache_Get j now c))"]
      by (auto simp: j(2) cache_Put_def map_of_update Let_def)
  qed (use assms(2) get in \<open>simp_all add: le_Suc_eq\<close>)
  then show "map_of (icEntries c1) k = Some x" "length (icEntries c1) \<le> length (icEntries c) + 1" by simp_all
qed

fun serves :: "(world \<times> request) list \<Rightarrow> server \<Rightarrow> server option" where
  \<comment> \<open>requests one after the other\<close>
  "serves [] s = Some s"
| "serves ((w, rq) # rqs) s = (case serve w rq s of None \<Rightarrow> None | Some (rs, s1) \<Rightarrow> serves rqs s1)"

lemma serves_ok: "cache_ok (svIdem s) \<Longrightarrow> serves rqs s = Some s1 \<Longrightarrow> cache_ok (svIdem s1) \<and> icMax (svIdem s1) = icMax (svIdem s)"
proof (induction rqs arbitrary: s)
  case (Cons x rqs)
  obtain w rq where x: "x = (w, rq)" by force
  obtain rs s2 where s2: "serve w rq s = Some (rs, s2)" "serves rqs s2 = Some s1" using Cons.prems(2) by (auto simp: x split: option.splits)
  note c = cache_step_ok [OF Cons.prems(1) serve_step [OF s2(1)]]
  show ?case using Cons.IH [OF c(1) s2(2)] c(3) by simp
qed simp

text \<open>
  The memory of outcomes is bounded: whatever keys clients send, a server that has served any
  sequence of requests remembers at most 4096 of them.
\<close>

theorem outcomes_bounded:
  assumes "serves rqs (NewServerWithConfig cfg) = Some s"
  shows "cache_Len (svIdem s) \<le> 4096"
proof -
  have c: "svIdem (NewServerWithConfig cfg) = newIdempotencyCache idempotencyTTL idempotencyMaxEntries" by (simp add: NewServerWithConfig_def)
  have "cache_ok (svIdem (NewServerWithConfig cfg))" "icMax (svIdem (NewServerWithConfig cfg)) = 4096"
    unfolding c by (rule newIdempotencyCache_ok) (simp add: newIdempotencyCache_def idempotencyMaxEntries_def)
  from serves_ok [OF this(1) assms] this(2) show ?thesis by (simp add: cache_ok_def cache_Len_def)
qed

lemma serves_entry:
  assumes "cache_ok (svIdem s)" "serves rqs s = Some s1" "map_of (icEntries (svIdem s)) k = Some x"
    "int (length (icEntries (svIdem s)) + length rqs) \<le> icMax (svIdem s)"
    "\<forall>(w, rq) \<in> set rqs. woNow w \<le> stStoredAt x + icTTL (svIdem s)"
  shows "map_of (icEntries (svIdem s1)) k = Some x \<and> icTTL (svIdem s1) = icTTL (svIdem s)"
  using assms
proof (induction rqs arbitrary: s)
  case (Cons y rqs)
  obtain w rq where y: "y = (w, rq)" by force
  obtain rs s2 where s2: "serve w rq s = Some (rs, s2)" "serves rqs s2 = Some s1" using Cons.prems(2) by (auto simp: y split: option.splits)
  note st = serve_step [OF s2(1)]
  note c = cache_step_ok [OF Cons.prems(1) st]
  have e: "map_of (icEntries (svIdem s2)) k = Some x" "length (icEntries (svIdem s2)) \<le> length (icEntries (svIdem s)) + 1"
    using cache_step_entry [OF st Cons.prems(3)] Cons.prems(4,5) by (auto simp: ic_stale_def y)
  have "int (length (icEntries (svIdem s2)) + length rqs) \<le> icMax (svIdem s2)" using e(2) Cons.prems(4) c(3) by simp
  then show ?case using Cons.IH [OF c(1) s2(2) e(1)] Cons.prems(5) c(2) by simp
qed simp

text \<open>
  C14.  A retried command is applied once.  After a command with an idempotency key has succeeded, a
  request of the same session with the same key to the same path gets the remembered answer (its
  status and its body) and changes nothing at all, whatever requests the server handled in between,
  as long as the outcome has not expired and the cache had room for them.
\<close>

theorem retried_command_applied_once:
  assumes "idem_finish token w rq s = Some (rs, s1)" and "rsStatus rs < 300" and "cache_ok (svIdem s1)"
    and "serves others s1 = Some s2" and "int (length (icEntries (svIdem s1)) + length others) \<le> icMax (svIdem s1)"
    and "\<forall>(v, r) \<in> set others. woNow v \<le> woNow w + icTTL (svIdem s1)" and "woNow w2 \<le> woNow w + icTTL (svIdem s1)"
    and "has_key rq2" and "length (header ''Idempotency-Key'' rq2) \<le> 200" and "idem_scope token rq2 = idem_scope token rq"
  shows "\<exists>rs2. with_idempotency token w2 rq2 s2 = Some (rs2, s2) \<and> rsStatus rs2 = rsStatus rs \<and> rsBody rs2 = rsBody rs \<and>
    get_or '''' (rsHeader rs2) ''Idempotent-Replay'' = ''true''"
proof -
  let ?x = "\<lparr>stStatus = rsStatus rs, stBody = rsBody rs, stContentType = get_or '''' (rsHeader rs) ''Content-Type'', stStoredAt = woNow w\<rparr>"
  let ?k = "idem_scope token rq"
  obtain s0 where m: "serve_mux token w rq s = Some (rs, s0)" "svIdem s1 = cache_Put ?k (?x\<lparr>stStoredAt := 0\<rparr>) (woNow w) (svIdem s0)"
    using assms(1,2) by (auto simp: idem_finish_def)
  then have x: "map_of (icEntries (svIdem s1)) ?k = Some ?x" by (simp add: cache_Put_def map_of_update Let_def)
  have kept: "map_of (icEntries (svIdem s2)) ?k = Some ?x \<and> icTTL (svIdem s2) = icTTL (svIdem s1)"
    by (rule serves_entry [OF assms(3,4) x assms(5)]) (use assms(6) in simp)
  then have "cache_Get ?k (woNow w2) (svIdem s2) = (Some ?x, svIdem s2)"
    using assms(7) by (simp add: cache_Get_def ic_stale_def)
  then have "with_idempotency token w2 rq2 s2 = Some (set_header ''Idempotent-Replay'' ''true'' (writeStored ?x), s2)"
    using assms(8-10) by (simp add: with_idempotency_def idem_lookup_def)
  then show ?thesis by (simp add: set_header_def writeStored_def get_or_def map_of_update)
qed

definition guest_request :: "string \<Rightarrow> request" where
  "guest_request key = test_request POST [''api'', ''v1'', ''guest-sessions''] [(''Idempotency-Key'', key)]"

lemma guest_request_simps [simp]:
  "mux (guest_request key) = Route ToGuestSessions" "isPublicRoute (guest_request key)"
  "header ''Idempotency-Key'' (guest_request key) = key" "has_key (guest_request key) \<longleftrightarrow> key \<noteq> ''''"
  "idem_scope token (guest_request key) = token @ CHR 0x00 # ''/api/v1/guest-sessions'' @ CHR 0x00 # key"
  by (simp_all add: guest_request_def mux_def patterns_def api_patterns_def method_matches_def isPublicRoute_def url_path_def
      has_key_def idem_scope_def get_or_def)

lemma guest_session_issued:
  "\<exists>s1. idem_finish '''' (test_world n t) (guest_request k) (test_server db) = Some (writeJSON 201 (SessionBody t (n + Hour) 3), s1) \<and>
     cache_ok (svIdem s1) \<and> icTTL (svIdem s1) = 600 * 10 ^ 9 \<and> icMax (svIdem s1) = 4096 \<and> length (icEntries (svIdem s1)) = 1"
  by (simp add: idem_finish_def serve_mux_def createGuestSession_def Issue_def test_world_def server_store_def Let_def
        writeJSON_def get_or_def NewSessions_def DefaultSessionTTL_def DefaultSessionQuota_def newIdempotencyCache_def
        idempotencyTTL_def idempotencyMaxEntries_def cache_Put_def cache_ok_def)

lemma guest_request_served:
  "k \<noteq> '''' \<Longrightarrow> length k \<le> 200 \<Longrightarrow> \<exists>s1. authenticate (test_world n g) (guest_request k) (test_server db) = Some (writeJSON 201 (SessionBody g (n + Hour) 3), s1) \<and>
     length (icEntries (svIdem s1)) = 1"
proof -
  assume k: "k \<noteq> ''''" "length k \<le> 200"
  have "cache_Get j n (newIdempotencyCache a b) = (None, newIdempotencyCache a b)" for j n a b
    by (simp add: cache_Get_def newIdempotencyCache_def)
  moreover have "(test_server db)\<lparr>svIdem := newIdempotencyCache idempotencyTTL idempotencyMaxEntries\<rparr> = test_server db"
    by (simp add: test_server_def NewServerWithConfig_def)
  ultimately have "idem_lookup '''' (test_world n g) (guest_request k) (test_server db) = (None, test_server db)"
    by (simp add: idem_lookup_def)
  then show ?thesis
    using k guest_session_issued [of n g k db] by (auto simp: authenticate_def with_idempotency_def)
qed

theorem outcomes_bounded_witness:
  "\<exists>s. serves [(test_world 0 ''g'', guest_request ''k'')] (test_server NewMemory) = Some s \<and> 1 \<le> cache_Len (svIdem s) \<and> cache_Len (svIdem s) \<le> 4096"
proof -
  obtain s where s: "authenticate (test_world 0 ''g'') (guest_request ''k'') (test_server NewMemory) = Some (writeJSON 201 (SessionBody ''g'' Hour 3), s)"
    "length (icEntries (svIdem s)) = 1"
    using guest_request_served [of "''k''" 0 "''g''" NewMemory] by auto
  have "limitBody (guest_request ''k'') = guest_request ''k''" "rqMethod (guest_request ''k'') = POST" "header ''Origin'' (guest_request ''k'') = ''''"
    by (simp_all add: guest_request_def get_or_def)
  then have run: "serves [(test_world 0 ''g'', guest_request ''k'')] (test_server NewMemory) = Some s"
    using s(1) by (simp add: serve_def withTelemetry_def rateLimit_split)
  then show ?thesis
    using outcomes_bounded [of "[(test_world 0 ''g'', guest_request ''k'')]", folded test_server_def] s(2)
    unfolding test_server_def by (force simp: cache_Len_def)
qed

theorem retried_command_applied_once_witness:
  "\<exists>s1 s2 rs2. idem_finish '''' (test_world 0 ''g'') (guest_request ''k'') (test_server NewMemory) =
       Some (writeJSON 201 (SessionBody ''g'' Hour 3), s1) \<and>
     serves [(test_world 5 ''h'', test_request GET [''health'', ''live''] [])] s1 = Some s2 \<and>
     with_idempotency '''' (test_world 9 ''i'') (guest_request ''k'') s2 = Some (rs2, s2) \<and> rsBody rs2 = SessionBody ''g'' Hour 3"
proof -
  obtain s1 where s1: "idem_finish '''' (test_world 0 ''g'') (guest_request ''k'') (test_server NewMemory) =
      Some (writeJSON 201 (SessionBody ''g'' Hour 3), s1)" "cache_ok (svIdem s1)" "icTTL (svIdem s1) = 600 * 10 ^ 9"
    "icMax (svIdem s1) = 4096" "length (icEntries (svIdem s1)) = 1"
    using guest_session_issued [of 0 "''g''" "''k''" NewMemory] by auto
  have frame: "svOrigins s1 = svOrigins (test_server NewMemory) \<and> svLimiter s1 = None \<and> mgSessions (svManager s1) \<noteq> None"
    using s1(1) by (auto simp: idem_finish_def serve_mux_def createGuestSession_def Issue_def test_world_def server_store_def Let_def
        split: if_splits)
  have pub: "isPublicRoute (test_request GET [''health'', ''live''] [])"
    by (simp add: isPublicRoute_def url_path_def has_prefix_def)
  have "serve (test_world 5 ''h'') (test_request GET [''health'', ''live''] []) s1 \<noteq> None"
    using frame pub by (auto simp: serve_def withTelemetry_def rateLimit_split authenticate_def with_idempotency_def has_key_def
        serve_mux_def mux_def patterns_def method_matches_def Let_def permits_def)
  then obtain s2 where s2: "serves [(test_world 5 ''h'', test_request GET [''health'', ''live''] [])] s1 = Some s2" by auto
  have "\<exists>rs2. with_idempotency '''' (test_world 9 ''i'') (guest_request ''k'') s2 = Some (rs2, s2) \<and>
      rsStatus rs2 = rsStatus (writeJSON 201 (SessionBody ''g'' Hour 3)) \<and> rsBody rs2 = rsBody (writeJSON 201 (SessionBody ''g'' Hour 3)) \<and>
      get_or '''' (rsHeader rs2) ''Idempotent-Replay'' = ''true''"
    by (rule retried_command_applied_once [OF s1(1) _ s1(2) s2]) (use s1(3-5) in \<open>simp_all add: writeJSON_def test_world_def\<close>)
  then show ?thesis using s1(1) s2 by (auto simp: writeJSON_def)
qed

text \<open>
  C18.  Guest sessions are shared by accident: the route that issues them has no session to scope a
  key to, so a second visitor who sends a key another visitor used in the last ten minutes is given
  that visitor's session token, and both share its runs and its quota.
\<close>

theorem guest_sessions_shared:
  assumes "mux rq1 = Route ToGuestSessions" and "mux rq2 = Route ToGuestSessions" and "has_key rq1" and "has_key rq2"
    and "header ''Idempotency-Key'' rq2 = header ''Idempotency-Key'' rq1" and "length (header ''Idempotency-Key'' rq1) \<le> 200"
    and "mgSessions (svManager s) \<noteq> None" and "authenticate w1 rq1 s = Some (rs1, s1)" and "rsBody rs1 = SessionBody t e q"
    and "fst (idem_lookup '''' w1 rq1 s) = None" and "cache_ok (svIdem s)" and "woNow w2 \<le> woNow w1 + icTTL (svIdem s)"
  shows "\<exists>rs2. authenticate w2 rq2 s1 = Some (rs2, s1) \<and> rsBody rs2 = SessionBody t e q"
proof -
  have pub: "isPublicRoute rq" if "mux rq = Route ToGuestSessions" for rq
    using mux_route(1) [OF that] by (simp add: isPublicRoute_def url_path_def)
  have path: "url_path rq2 = url_path rq1" using mux_route(1) [OF assms(1)] mux_route(1) [OF assms(2)] by (simp add: url_path_def)
  obtain c where look: "idem_lookup '''' w1 rq1 s = (None, s\<lparr>svIdem := c\<rparr>)" "c = snd (cache_Get (idem_scope '''' rq1) (woNow w1) (svIdem s))"
    using assms(10) by (auto simp: idem_lookup_def Let_def split: prod.splits)
  have "cache_step (woNow w1) (svIdem s) c" unfolding cache_step_def look(2) using idem_scope_nonempty [of "''''" rq1] by blast
  note c = cache_step_ok [OF assms(11) this]
  have f: "idem_finish '''' w1 rq1 (s\<lparr>svIdem := c\<rparr>) = Some (rs1, s1)"
    using assms(3,6,7,8) look(1) pub [OF assms(1)] by (auto simp: authenticate_def with_idempotency_def)
  obtain s0 where m: "serve_mux '''' w1 rq1 (s\<lparr>svIdem := c\<rparr>) = Some (rs1, s0)" using f by (auto simp: idem_finish_def)
  then have st: "rsStatus rs1 = 201" using assms(1,9)
    by (auto simp: serve_mux_def createGuestSession_def Let_def writeError_def writeJSON_def split: option.splits prod.splits sum.splits)
  have ss: "mgSessions (svManager s1) \<noteq> None"
    using f assms(1,7,9) by (auto simp: idem_finish_def serve_mux_def createGuestSession_def Let_def split: option.splits prod.splits if_splits)
  have put: "cache_step (woNow w1) c (svIdem s1)" "svIdem s1 = cache_Put (idem_scope '''' rq1) \<lparr>stStatus = rsStatus rs1, stBody = rsBody rs1,
      stContentType = get_or '''' (rsHeader rs1) ''Content-Type'', stStoredAt = 0\<rparr> (woNow w1) c"
  proof -
    show p: "svIdem s1 = cache_Put (idem_scope '''' rq1) \<lparr>stStatus = rsStatus rs1, stBody = rsBody rs1,
        stContentType = get_or '''' (rsHeader rs1) ''Content-Type'', stStoredAt = 0\<rparr> (woNow w1) c"
      using f m st serve_mux_idem [OF m] by (auto simp: idem_finish_def)
    have "cache_Get (idem_scope '''' rq1) (woNow w1) c = (None, c)"
      using look assms(10) unfolding look(2) by (auto simp: cache_Get_def idem_lookup_def map_of_delete split: option.splits)
    then show "cache_step (woNow w1) c (svIdem s1)"
      unfolding cache_step_def p using idem_scope_nonempty [of "''''" rq1] by (metis fst_conv snd_conv)
  qed
  note c1 = cache_step_ok [OF c(1) put(1)]
  obtain rs2 where "with_idempotency '''' w2 rq2 s1 = Some (rs2, s1)" "rsBody rs2 = rsBody rs1"
  proof -
    let ?x = "\<lparr>stStatus = rsStatus rs1, stBody = rsBody rs1, stContentType = get_or '''' (rsHeader rs1) ''Content-Type'', stStoredAt = woNow w1\<rparr>"
    have "cache_Get (idem_scope '''' rq2) (woNow w2) (svIdem s1) = (Some ?x, svIdem s1)"
      using assms(5,12) path c(2) c1(2) by (simp add: put(2) cache_Put_def cache_Get_def map_of_update ic_stale_def idem_scope_def Let_def)
    then have "with_idempotency '''' w2 rq2 s1 = Some (set_header ''Idempotent-Replay'' ''true'' (writeStored ?x), s1)"
      using assms(4-6) by (simp add: with_idempotency_def idem_lookup_def)
    then show thesis by (rule that) (simp add: set_header_def writeStored_def)
  qed
  then show ?thesis using assms(9) ss pub [OF assms(2)] by (auto simp: authenticate_def)
qed

theorem guest_sessions_shared_witness:
  "\<exists>s1 rs2. authenticate (test_world 0 ''g'') (guest_request ''k'') (test_server NewMemory) = Some (writeJSON 201 (SessionBody ''g'' Hour 3), s1) \<and>
     authenticate (test_world 9 ''h'') ((guest_request ''k'')\<lparr>rqRemoteAddr := ''10.9.9.9:77''\<rparr>) s1 = Some (rs2, s1) \<and> rsBody rs2 = SessionBody ''g'' Hour 3"
proof -
  let ?s = "test_server NewMemory" and ?w = "test_world 0 ''g''" and ?r2 = "(guest_request ''k'')\<lparr>rqRemoteAddr := ''10.9.9.9:77''\<rparr>"
  obtain s1 where s1: "idem_finish '''' ?w (guest_request ''k'') ?s = Some (writeJSON 201 (SessionBody ''g'' Hour 3), s1)"
    using guest_session_issued [of 0 "''g''" "''k''" NewMemory] by auto
  have "cache_Get j n (newIdempotencyCache a b) = (None, newIdempotencyCache a b)" for j n a b
    by (simp add: cache_Get_def newIdempotencyCache_def)
  moreover have "?s\<lparr>svIdem := newIdempotencyCache idempotencyTTL idempotencyMaxEntries\<rparr> = ?s"
    by (simp add: test_server_def NewServerWithConfig_def)
  ultimately have l: "idem_lookup '''' ?w (guest_request ''k'') ?s = (None, ?s)" by (simp add: idem_lookup_def)
  then have a: "authenticate ?w (guest_request ''k'') ?s = Some (writeJSON 201 (SessionBody ''g'' Hour 3), s1)"
    using s1 by (simp add: authenticate_def with_idempotency_def)
  have r2: "mux ?r2 = Route ToGuestSessions" "has_key ?r2" "header ''Idempotency-Key'' ?r2 = ''k''"
    by (simp_all add: guest_request_def test_request_def mux_def patterns_def api_patterns_def method_matches_def has_key_def header_def get_or_def)
  have "\<exists>rs2. authenticate (test_world 9 ''h'') ?r2 s1 = Some (rs2, s1) \<and> rsBody rs2 = SessionBody ''g'' Hour 3"
    by (rule guest_sessions_shared [OF guest_request_simps(1) r2(1) _ r2(2) _ _ _ a])
      (use l r2(3) in \<open>simp_all add: writeJSON_def test_world_def newIdempotencyCache_def idempotencyTTL_def idempotencyMaxEntries_def cache_ok_def\<close>)
  then show ?thesis using a by blast
qed

definition open_for_orders :: "nat \<Rightarrow> string \<Rightarrow> entry \<Rightarrow> bool" where
  \<comment> \<open>the caller may place so many more orders at once\<close>
  "open_for_orders n token e \<longleftrightarrow> authorize e token \<and> enOrders e + int n \<le> MaxOrdersPerRun \<and>
     length (acCommands (enActor e)) + n \<le> commandsCap"

definition with_order :: "string \<Rightarrow> node_id \<Rightarrow> node_id \<Rightarrow> entry \<Rightarrow> entry" where
  "with_order trace p d e = e\<lparr>enOrders := enOrders e + 1,
     enActor := (enActor e)\<lparr>acCommands := acCommands (enActor e) @ [(PlaceOrder p d, trace)]\<rparr>\<rparr>"

lemma order_accepted:
  assumes "map_of (mgEntries m) i = Some e" "open_for_orders (Suc n) token e"
  shows "\<exists>m1. manager_PlaceOrder token trace i p d m = (None, m1) \<and> map_of (mgEntries m1) i = Some (with_order trace p d e) \<and>
    open_for_orders n token (with_order trace p d e)"
proof -
  have a: "authorize e token" "\<not> enOrders e \<ge> MaxOrdersPerRun" "length (acCommands (enActor e)) < commandsCap"
    using assms(2) by (simp_all add: open_for_orders_def)
  then have "authorize (e\<lparr>enOrders := enOrders e + 1\<rparr>) token" by (simp add: authorize_def)
  then show ?thesis
    using assms a by (auto simp: manager_PlaceOrder_def reserveOrder_def submit_def TrySubmitCtx_def set_entry_def
        with_order_def open_for_orders_def authorize_def)
qed

lemma order_finished:
  assumes "mux rq = Route (ToOrders i)" "decode rq dec_place ('''', '''') = Some (p, d)" "p \<noteq> ''''" "d \<noteq> ''''"
    and "map_of (mgEntries (svManager s)) i = Some e" "open_for_orders (Suc n) token e"
  shows "\<exists>s1. idem_finish token w rq s = Some (writeStatus 202, s1) \<and>
    map_of (mgEntries (svManager s1)) i = Some (with_order (woTrace w) p d e) \<and> open_for_orders n token (with_order (woTrace w) p d e)"
  using order_accepted [OF assms(5,6), of "woTrace w" p d] assms(1-4)
  by (auto simp: idem_finish_def serve_mux_def placeOrder_def accepted_def writeStatus_def)

text \<open>
  C17.  Two retries in flight are both applied: when the second arrives before the first has been
  answered, neither finds a remembered outcome, and one order becomes two.
\<close>

theorem concurrent_retries_apply_twice:
  assumes "mux rq = Route (ToOrders i)" and "decode rq dec_place ('''', '''') = Some (p, d)" and "p \<noteq> ''''" and "d \<noteq> ''''"
    and "map_of (mgEntries (svManager s)) i = Some e" and "open_for_orders 2 token e" and "fst (idem_lookup token w rq s) = None"
  shows "\<exists>s1 s2 s3 s4 e4. idem_lookup token w rq s = (None, s1) \<and> idem_lookup token w rq s1 = (None, s2) \<and>
    idem_finish token w rq s2 = Some (writeStatus 202, s3) \<and> idem_finish token w rq s3 = Some (writeStatus 202, s4) \<and>
    map_of (mgEntries (svManager s4)) i = Some e4 \<and> enOrders e4 = enOrders e + 2 \<and>
    acCommands (enActor e4) = acCommands (enActor e) @ [(PlaceOrder p d, woTrace w), (PlaceOrder p d, woTrace w)]"
proof -
  let ?k = "idem_scope token rq"
  let ?c = "snd (cache_Get ?k (woNow w) (svIdem s))"
  have g: "cache_Get ?k (woNow w) (svIdem s) = (None, ?c)" using assms(7) by (auto simp: idem_lookup_def Let_def split: prod.splits)
  then have g2: "cache_Get ?k (woNow w) ?c = (None, ?c)"
    by (auto simp: cache_Get_def map_of_delete split: option.splits if_splits)
  let ?s = "s\<lparr>svIdem := ?c\<rparr>"
  have l: "idem_lookup token w rq s = (None, ?s)" "idem_lookup token w rq ?s = (None, ?s)"
    unfolding idem_lookup_def by (subst g, simp) (simp, subst g2, simp)
  have e: "map_of (mgEntries (svManager ?s)) i = Some e" "open_for_orders (Suc (Suc 0)) token e" using assms(5,6) by (simp_all add: numeral_2_eq_2)
  obtain s3 where s3: "idem_finish token w rq ?s = Some (writeStatus 202, s3)"
    "map_of (mgEntries (svManager s3)) i = Some (with_order (woTrace w) p d e)" "open_for_orders (Suc 0) token (with_order (woTrace w) p d e)"
    using order_finished [OF assms(1-4) e] by blast
  obtain s4 where s4: "idem_finish token w rq s3 = Some (writeStatus 202, s4)"
    "map_of (mgEntries (svManager s4)) i = Some (with_order (woTrace w) p d (with_order (woTrace w) p d e))"
    using order_finished [OF assms(1-4) s3(2,3)] by blast
  show ?thesis
    by (rule exI [of _ ?s], rule exI [of _ ?s], rule exI [of _ s3], rule exI [of _ s4], rule exI [of _ "with_order (woTrace w) p d (with_order (woTrace w) p d e)"])
      (use l s3(1) s4 in \<open>simp add: with_order_def\<close>)
qed

definition order_request :: "string \<Rightarrow> string \<Rightarrow> request" where
  "order_request i key = (test_request POST [''api'', ''v1'', ''simulations'', i, ''orders''] [(''Idempotency-Key'', key)])
     \<lparr>rqContentLength := 54, rqBodySize := 54, rqBody := Raw (JObj [(''pickup'', JStr ''n-0-0''), (''destination'', JStr ''n-1-1'')])\<rparr>"

theorem concurrent_retries_apply_twice_witness:
  "\<exists>s e s2 s3 s4 e4. map_of (mgEntries (svManager s)) ''r'' = Some e \<and> idem_lookup ''g'' (test_world 0 ''g'') (order_request ''r'' ''k'') s = (None, s2) \<and>
     idem_finish ''g'' (test_world 0 ''g'') (order_request ''r'' ''k'') s2 = Some (writeStatus 202, s3) \<and>
     idem_finish ''g'' (test_world 0 ''g'') (order_request ''r'' ''k'') s3 = Some (writeStatus 202, s4) \<and>
     map_of (mgEntries (svManager s4)) ''r'' = Some e4 \<and> enOrders e4 = enOrders e + 2"
proof -
  let ?w = "test_world 0 ''g''" and ?rq = "order_request ''r'' ''k''"
  obtain e where "new_entry (\<lambda>_ _. 1 / 2) ''r'' 1 3 ''g'' = Some e" by (metis new_entry_total)
  then have e: "open_for_orders 2 ''g'' e"
    by (auto simp: new_entry_def Run_start_def open_for_orders_def authorize_def MaxOrdersPerRun_def commandsCap_def split: option.splits if_splits prod.splits)
  define s where "s = (test_server NewMemory)\<lparr>svManager := (svManager (test_server NewMemory))\<lparr>mgEntries := [(''r'', e)]\<rparr>\<rparr>"
  have m: "map_of (mgEntries (svManager s)) ''r'' = Some e" by (simp add: s_def)
  have r: "mux ?rq = Route (ToOrders ''r'')" "decode ?rq dec_place ('''', '''') = Some (''n-0-0'', ''n-1-1'')"
    by (simp_all add: order_request_def test_request_def mux_def patterns_def api_patterns_def method_matches_def decode_def
        unmarshal_def dec_place_def field_def)
  have l: "fst (idem_lookup ''g'' ?w ?rq s) = None" by (simp add: idem_lookup_def cache_Get_def s_def newIdempotencyCache_def)
  have "(''n-0-0'' :: string) \<noteq> ''''" "(''n-1-1'' :: string) \<noteq> ''''" by simp_all
  from concurrent_retries_apply_twice [OF r this m e l] obtain s1 s2 s3 s4 e4 where c: "idem_lookup ''g'' ?w ?rq s = (None, s1)"
    "idem_finish ''g'' ?w ?rq s2 = Some (writeStatus 202, s3)" "idem_finish ''g'' ?w ?rq s3 = Some (writeStatus 202, s4)"
    "map_of (mgEntries (svManager s4)) ''r'' = Some e4" "enOrders e4 = enOrders e + 2" "idem_lookup ''g'' ?w ?rq s1 = (None, s2)"
    by (elim exE conjE)
  have "s2 = s1" using c(1,6) by (auto simp: idem_lookup_def cache_Get_def s_def newIdempotencyCache_def split: option.splits)
  with c(1) have "idem_lookup ''g'' ?w ?rq s = (None, s2)" by simp
  then show ?thesis using m c(2-5)
    by (intro exI [of _ s] exI [of _ e] exI [of _ s2] exI [of _ s3] exI [of _ s4] exI [of _ e4] conjI)
qed

end
