(* ===== verification/Server_Wf.thy ===== *)
theory Server_Wf
  imports Server_Retry
begin

text \<open>
  Every request keeps the server well formed: the stored tables have distinct keys and ordered logs,
  the runs are filed once and within the manager's maximum, no run exceeds its order slots or the
  capacity of its command channel, and the remembered outcomes are within their bound.  The store
  operations keep the store's invariant one by one (\<open>wf_intros\<close>), the manager's calls the runs', and
  the handlers both.
\<close>

subsection \<open>The store\<close>

lemma memory_ops_wf [wf_intros]:
  assumes "memory_wf m"
  shows "memory_wf (CreateGuestSession g m)" "memory_wf (snd (memory_or m (TouchGuestSession token seen expires m)))"
    "memory_wf (CreateSimulation row m)" "memory_wf (snd (memory_or m (MarkShowcase i t m)))"
    "memory_wf (AppendEvents es m)" "memory_wf (SaveSnapshot x m)" "memory_wf (SaveComparison c m)" "memory_wf (snd (PurgeExpired now m))"
proof -
  show "memory_wf (AppendEvents es m)" by (rule AppendEvents_spec(1) [OF assms])
  show "memory_wf (SaveSnapshot x m)" by (rule SaveSnapshot_set(1) [OF assms])
  show "memory_wf (snd (PurgeExpired now m))" using PurgeExpired_effect [OF assms] by blast
  show "memory_wf (CreateGuestSession g m)" "memory_wf (snd (memory_or m (TouchGuestSession token seen expires m)))"
    using memory_sessions.create [OF assms, of g] memory_sessions.touch [OF assms, of token seen expires] by simp_all
  show "memory_wf (CreateSimulation row m)" "memory_wf (snd (memory_or m (MarkShowcase i t m)))" "memory_wf (SaveComparison c m)"
    using assms by (auto simp: CreateSimulation_def MarkShowcase_def memory_or_def SaveComparison_def memory_wf_def log_of_def
        snapshots_of_def split: option.splits)
qed

definition store_keeps_wf :: "memory store_ops option \<Rightarrow> bool" where
  \<comment> \<open>no store, or the in-memory one\<close>
  "store_keeps_wf st \<longleftrightarrow> st = None \<or> st = Some memory_ops"

lemma server_store_wf: "store_keeps_wf (server_store s)"
  by (simp add: store_keeps_wf_def server_store_def)

lemma Issue_wf: "store_keeps_wf st \<Longrightarrow> memory_wf db \<Longrightarrow> memory_wf (snd (snd (Issue st t now (ss, db))))"
  by (auto simp: store_keeps_wf_def Issue_def Let_def wf_intros split: option.splits)

lemma extend_wf: "store_keeps_wf st \<Longrightarrow> memory_wf db \<Longrightarrow> memory_wf (snd (snd (Sessions.extend st g now (ss, db))))"
  by (auto simp: store_keeps_wf_def Sessions.extend_def Let_def wf_intros split: option.splits)

lemma Validate_wf: "store_keeps_wf st \<Longrightarrow> memory_wf db \<Longrightarrow> memory_wf (snd (snd (Validate st token now (ss, db))))"
  using extend_wf [of st db _ now ss]
  by (auto simp: Validate_def Let_def case_prod_beta split: sum.splits)

lemma Sweep_wf: "store_keeps_wf st \<Longrightarrow> memory_wf db \<Longrightarrow> memory_wf (snd (snd (Sweep st now (ss, db))))"
  by (auto simp: store_keeps_wf_def Sweep_def Let_def case_prod_beta wf_intros split: option.splits)

lemma rec_flush_wf: "memory_wf (snd w) \<Longrightarrow> memory_wf (snd (rec_flush memory_ops w))"
  by (cases w) (auto simp: rec_flush_def rec_write_def Let_def requestSnapshot_def wf_intros split: prod.splits)

lemma rec_enqueue_wf: "memory_wf (snd w) \<Longrightarrow> memory_wf (snd (rec_enqueue memory_ops now e w))"
  by (cases w) (auto simp: rec_enqueue_def Let_def intro!: rec_flush_wf split: option.splits)

lemma writer_receive_wf: "memory_wf (snd w) \<Longrightarrow> memory_wf (snd (writer_receive memory_ops now w))"
  by (cases w) (auto simp: writer_receive_def intro!: rec_enqueue_wf split: list.splits)

lemma drain_queue_wf: "memory_wf (snd w) \<Longrightarrow> memory_wf (snd (drain_queue memory_ops now n w))"
  by (induction n arbitrary: w) (simp_all add: writer_receive_wf)

lemma recorder_Flush_wf: "memory_wf db \<Longrightarrow> memory_wf (snd (recorder_Flush memory_ops now served (r, db)))"
  using rec_flush_wf [OF drain_queue_wf [of "(flush_request r, db)"]]
  by (auto simp: recorder_Flush_def writer_drained_def Let_def case_prod_beta)

lemma writeFinalSnapshot_wf: "memory_wf db \<Longrightarrow> memory_wf (writeFinalSnapshot memory_ops now i a db)"
  by (auto simp: writeFinalSnapshot_def Let_def wf_intros split: option.splits)

subsection \<open>The runs\<close>

definition entry_ok :: "entry \<Rightarrow> bool" where
  "entry_ok e \<longleftrightarrow> 0 \<le> enOrders e \<and> enOrders e \<le> MaxOrdersPerRun \<and> length (acCommands (enActor e)) \<le> commandsCap"

definition runs_ok :: "'db manager \<Rightarrow> bool" where
  "runs_ok m \<longleftrightarrow> distinct_keys (mgEntries m) \<and> '''' \<notin> fst ` set (mgEntries m) \<and> (\<forall>(i, e) \<in> set (mgEntries m). entry_ok e) \<and>
     (mgMax m > 0 \<longrightarrow> int (length (mgEntries m)) \<le> mgMax m)"

lemma set_entry_ok:
  assumes "runs_ok m" "\<And>e. map_of (mgEntries m) i = Some e \<Longrightarrow> entry_ok (f e)"
  shows "runs_ok (set_entry i f m)"
proof -
  have d: "distinct_keys (mgEntries m)" using assms(1) by (simp add: runs_ok_def)
  have "entry_ok (if k = i then f e else e)" if "(k, e) \<in> set (mgEntries m)" for k e
    using that assms map_of_in_set [OF d, of k e] by (auto simp: runs_ok_def)
  then have "\<forall>(k, e) \<in> set (adjust i f (mgEntries m)). entry_ok e" by (auto simp: adjust_def)
  then show ?thesis using assms(1) by (simp add: runs_ok_def set_entry_def)
qed

lemma runs_ok_entry: "runs_ok m \<Longrightarrow> map_of (mgEntries m) i = Some e \<Longrightarrow> entry_ok e"
  by (auto simp: runs_ok_def dest!: map_of_SomeD)

lemma submit_ok: "runs_ok m \<Longrightarrow> submit token trace i cmd m = (r, m1) \<Longrightarrow> runs_ok m1 \<and> mgStore m1 = mgStore m"
  using runs_ok_entry [of m i]
  by (auto simp: submit_def TrySubmitCtx_def set_entry_def [of _ _ m] split: option.splits if_splits
      intro!: set_entry_ok [unfolded set_entry_def] simp: entry_ok_def)

lemma reserveOrder_ok: "runs_ok m \<Longrightarrow> reserveOrder token i m = (r, m1) \<Longrightarrow> runs_ok m1 \<and> mgStore m1 = mgStore m"
  using runs_ok_entry [of m i]
  by (auto simp: reserveOrder_def set_entry_def [of _ _ m] split: option.splits if_splits
      intro!: set_entry_ok [unfolded set_entry_def] simp: entry_ok_def)

lemma releaseOrder_ok: "runs_ok m \<Longrightarrow> runs_ok (releaseOrder i m) \<and> mgStore (releaseOrder i m) = mgStore m"
  using runs_ok_entry [of m i]
  by (auto simp: releaseOrder_def entry_ok_def intro!: set_entry_ok) (simp add: set_entry_def)

lemma clear_orders_ok: "runs_ok m \<Longrightarrow> runs_ok (clear_orders i m) \<and> mgStore (clear_orders i m) = mgStore m"
  using runs_ok_entry [of m i]
  by (auto simp: clear_orders_def entry_ok_def MaxOrdersPerRun_def intro!: set_entry_ok) (simp add: set_entry_def)

definition calm :: "'db manager \<Rightarrow> 'db manager \<Rightarrow> bool" where
  "calm m m1 \<longleftrightarrow> (runs_ok m \<longrightarrow> runs_ok m1 \<and> mgStore m1 = mgStore m)"

lemma manager_calls_calm:
  "manager_PlaceOrder token trace i p d m = (r, m1) \<Longrightarrow> calm m m1"
  "manager_SetPaused token trace i b m = (r, m1) \<Longrightarrow> calm m m1"
  "manager_Reset token trace i m = (r, m1) \<Longrightarrow> calm m m1"
  "manager_SetSpeed token trace i x m = (r, m1) \<Longrightarrow> calm m m1"
  "manager_CloseRoad token trace gen i k m = (rc, m1) \<Longrightarrow> calm m m1"
  "manager_ReopenRoad token trace i k m = (r, m1) \<Longrightarrow> calm m m1"
proof -
  have s: "calm m m1" if "submit token trace i cmd m = (r, m1)" for cmd r m m1
    using submit_ok [OF _ that] by (simp add: calm_def)
  show "manager_SetPaused token trace i b m = (r, m1) \<Longrightarrow> calm m m1" "manager_SetSpeed token trace i x m = (r, m1) \<Longrightarrow> calm m m1"
    "manager_ReopenRoad token trace i k m = (r, m1) \<Longrightarrow> calm m m1"
    by (simp_all add: manager_SetPaused_def manager_SetSpeed_def manager_ReopenRoad_def s)
  show "manager_CloseRoad token trace gen i k m = (rc, m1) \<Longrightarrow> calm m m1"
    using s [of "CloseRoad k gen" m] by (auto simp: manager_CloseRoad_def split: prod.splits option.splits)
  have trans: "calm m m1 \<Longrightarrow> calm m1 m2 \<Longrightarrow> calm m m2" for m m1 m2 :: "'a manager" by (simp add: calm_def)
  have rel: "calm m (releaseOrder i m)" "calm m (clear_orders i m)" for m :: "'a manager"
    using releaseOrder_ok [of m i] clear_orders_ok [of m i] by (simp_all add: calm_def)
  show "calm m m1" if "manager_Reset token trace i m = (r, m1)"
  proof -
    obtain e m2 where r: "submit token trace i Reset m = (e, m2)" by force
    then have "m1 = m2 \<or> m1 = clear_orders i m2" using that by (auto simp: manager_Reset_def split: option.splits)
    then show ?thesis using s [OF r] trans [OF s [OF r] rel(2)] by blast
  qed
  show "calm m m1" if "manager_PlaceOrder token trace i p d m = (r, m1)"
  proof -
    obtain e m2 where r: "reserveOrder token i m = (e, m2)" by force
    have c: "calm m m2" using reserveOrder_ok [OF _ r] by (simp add: calm_def)
    obtain e2 m3 where q: "submit token trace i (PlaceOrder p d) m2 = (e2, m3)" by force
    have "m1 = m2 \<or> m1 = m3 \<or> m1 = releaseOrder i m3" using that r q by (auto simp: manager_PlaceOrder_def split: option.splits)
    then show ?thesis using c trans [OF c s [OF q]] trans [OF trans [OF c s [OF q]] rel(1)] by blast
  qed
qed

lemma new_entry_ok: "new_entry draws i seed drivers owner = Some e \<Longrightarrow> entry_ok e"
  by (auto simp: new_entry_def Run_start_def entry_ok_def MaxOrdersPerRun_def commandsCap_def split: prod.splits if_splits)

lemma recordSimulation_wf:
  "store_keeps_wf st \<Longrightarrow> memory_wf (mgStore m) \<Longrightarrow> memory_wf (mgStore (recordSimulation st now i seed drivers owner m))"
  by (auto simp: store_keeps_wf_def recordSimulation_def wf_intros)

lemma Create_ok:
  assumes "store_keeps_wf st" "gen \<noteq> ''''" "runs_ok m" "memory_wf (mgStore m)"
    and c: "Create st draws now gen token i seed drivers m = Some (r, m1)"
  shows "runs_ok m1 \<and> memory_wf (mgStore m1)"
proof (cases "m1 = m")
  case False
  let ?k = "if i = '''' then gen else i"
  have locked: "create_locked st draws now gen token i seed drivers m = Some (r, m1)"
    using c False by (auto simp: Create_def split: option.splits)
  have room: "\<not> (mgMax m > 0 \<and> int (length (mgEntries m)) \<ge> mgMax m \<and> map_of (mgEntries m) i = None)"
    using locked False by (auto simp: create_locked_def split: if_splits)
  have none: "map_of (mgEntries m) ?k = None"
    using locked False unfolding create_locked_def if_not_P [OF room] Let_def by (auto split: if_splits)
  then obtain e where e: "new_entry draws ?k seed drivers token = Some e"
    and m1: "m1 = (recordSimulation st now ?k seed drivers token m)\<lparr>mgEntries := AList.update ?k e (mgEntries m)\<rparr>"
    using locked unfolding create_locked_def if_not_P [OF room] Let_def by (auto simp: recordSimulation_parts)
  have empty: "map_of (mgEntries m) '''' = None" using assms(3) by (simp add: runs_ok_def map_of_eq_None_iff)
  have size: "mgMax m > 0 \<longrightarrow> int (length (mgEntries m)) < mgMax m"
  proof
    assume "mgMax m > 0"
    then show "int (length (mgEntries m)) < mgMax m" using room none empty by (cases "i = ''''") auto
  qed
  have entries: "mgEntries m1 = mgEntries m @ [(?k, e)]" using update_fresh [OF none] m1 by simp
  have "?k \<notin> fst ` set (mgEntries m)" "?k \<noteq> ''''" using none assms(2) by (simp_all add: map_of_eq_None_iff)
  moreover have max: "mgMax m1 = mgMax m" by (simp add: m1 recordSimulation_parts)
  ultimately have "runs_ok m1"
    using assms(3) new_entry_ok [OF e] size unfolding runs_ok_def entries max by (simp, arith)
  moreover have "memory_wf (mgStore m1)" using recordSimulation_wf [OF assms(1,4)] by (simp add: m1)
  ultimately show ?thesis by simp
qed (use assms in simp)

lemma MarkShowcase_ok:
  assumes "runs_ok m" "memory_wf (mgStore m)" "manager_MarkShowcase (Some memory_ops) token now served i m = (r, m1)"
  shows "runs_ok m1 \<and> memory_wf (mgStore m1)"
proof -
  define mark where "mark = (\<lambda>m :: memory manager. case opMarkShowcase memory_ops i now (mgStore m) of
      (Inl StoreNotFound, db) \<Rightarrow> (Some ErrNotFound, m\<lparr>mgStore := db\<rparr>)
    | (Inl e, db) \<Rightarrow> (Some (ErrStore e), m\<lparr>mgStore := db\<rparr>)
    | (Inr _, db) \<Rightarrow> (None, m\<lparr>mgStore := db\<rparr>))"
  have mark: "runs_ok (snd (mark m)) \<and> memory_wf (mgStore (snd (mark m)))" if m: "runs_ok m" "memory_wf (mgStore m)" for m
  proof -
    obtain x db where x: "opMarkShowcase memory_ops i now (mgStore m) = (x, db)" by force
    then have "memory_wf db" using memory_ops_wf(4) [OF m(2), of i now] by simp
    moreover have "snd (mark m) = m\<lparr>mgStore := db\<rparr>" using x by (simp add: mark_def split: sum.splits store_error.splits)
    ultimately show ?thesis using m(1) by (simp add: runs_ok_def)
  qed
  show ?thesis
  proof (cases "map_of (mgEntries m) i")
    case None
    then have "m1 = snd (mark m)" using assms(3) by (simp add: manager_MarkShowcase_def mark_def)
    then show ?thesis using mark [OF assms(1,2)] by simp
  next
    case (Some e)
    show ?thesis
    proof (cases "Authorize token i m")
      case None
      let ?w = "recorder_Flush memory_ops now served (enRecorder e, writeFinalSnapshot memory_ops now i (enActor e) (mgStore m))"
      let ?m = "set_entry i (\<lambda>e. e\<lparr>enRecorder := fst ?w\<rparr>) (m\<lparr>mgStore := snd ?w\<rparr>)"
      have "m1 = snd (mark ?m)"
        using assms(3) Some None by (simp add: manager_MarkShowcase_def mark_def Let_def case_prod_beta)
      moreover have "runs_ok ?m"
        by (rule set_entry_ok) (use assms(1) runs_ok_entry [OF assms(1)] in \<open>simp_all add: runs_ok_def entry_ok_def\<close>)
      moreover have "memory_wf (mgStore ?m)"
        using recorder_Flush_wf [OF writeFinalSnapshot_wf [OF assms(2)]] by (simp add: set_entry_def)
      ultimately show ?thesis using mark [of ?m] by simp
    qed (use assms Some in \<open>simp add: manager_MarkShowcase_def\<close>)
  qed
qed

subsection \<open>The server\<close>

definition server_wf :: "server \<Rightarrow> bool" where
  "server_wf s \<longleftrightarrow> memory_wf (server_db s) \<and> runs_ok (svManager s) \<and> distinct_keys (svCompare s) \<and> cache_ok (svIdem s)"

lemma server_wf_calm:
  "server_wf s \<Longrightarrow> calm (svManager s) m \<Longrightarrow> server_wf (s\<lparr>svManager := m\<rparr>)"
  by (simp add: server_wf_def calm_def server_db_def)

lemma server_wf_db:
  "server_wf s \<Longrightarrow> memory_wf db \<Longrightarrow> server_wf (s\<lparr>svManager := svManager s\<lparr>mgSessions := ss, mgStore := db\<rparr>\<rparr>)"
  by (simp add: server_wf_def runs_ok_def server_db_def)

lemma validate_wf: "server_wf s \<Longrightarrow> server_wf (snd (validate w token ss s))"
  using Validate_wf [OF server_store_wf [of s], of "server_db s" token "woNow w" ss] server_wf_db [of s]
  by (auto simp: validate_def case_prod_beta server_wf_def)

lemma mayReadReplay_wf: "server_wf s \<Longrightarrow> server_wf (snd (mayReadReplay i w rq s))"
  using validate_wf [of s w "bearerToken rq"]
  by (auto simp: mayReadReplay_def split: sum.splits option.splits prod.splits) (metis snd_conv)+

lemma accepted_wf: "server_wf s \<Longrightarrow> calm (svManager s) (snd r) \<Longrightarrow> accepted s r = Some (rs, s1) \<Longrightarrow> server_wf s1"
  by (auto simp: accepted_def server_wf_calm split: prod.splits)

lemma persist_wf: "store_keeps_wf st \<Longrightarrow> memory_wf db \<Longrightarrow> memory_wf (comparison_persist st now r db)"
  by (auto simp: store_keeps_wf_def comparison_persist_def wf_intros split: option.splits)

lemma handle_route_wf:
  assumes s: "server_wf s" and gen: "woID w \<noteq> ''''" and h: "handle_route r token w rq s = Some (rs, s1)"
  shows "server_wf s1"
proof -
  note calls = manager_calls_calm [OF surjective_pairing]
  have m: "runs_ok (svManager s)" "memory_wf (mgStore (svManager s))" using s by (simp_all add: server_wf_def server_db_def)
  show ?thesis
  proof (cases r)
    case ToGuestSessions
    obtain x ss1 db where i: "\<And>ss. mgSessions (svManager s) = Some ss \<Longrightarrow> Issue (server_store s) (woToken w) (woNow w) (ss, server_db s) = (x, (ss1, db))"
      by (metis option.inject surj_pair)
    show ?thesis
    proof (cases "mgSessions (svManager s)")
      case (Some ss)
      have "memory_wf db" using Issue_wf [OF server_store_wf, of "server_db s" s "woToken w" "woNow w" ss] s i [OF Some] by (simp add: server_wf_def)
      then show ?thesis using h ToGuestSessions Some i [OF Some] server_wf_db [OF s] by (auto simp: createGuestSession_def)
    qed (use h s ToGuestSessions in \<open>simp add: createGuestSession_def\<close>)
  next
    case ToSimulations
    have "server_wf (s\<lparr>svManager := m1\<rparr>)"
      if "Create (server_store s) (woDraws w) (woNow w) (woID w) token '''' seed drivers (svManager s) = Some (x, m1)" for x m1 seed drivers
      using Create_ok [OF server_store_wf gen m that] s by (simp add: server_wf_def server_db_def)
    then show ?thesis using h s ToSimulations by (auto simp: createSimulation_def Let_def split: option.splits)
  next
    case ToComparisons
    have "server_wf (s\<lparr>svManager := svManager s\<lparr>mgStore := db\<rparr>, svCompare := results\<rparr>)"
      if "comparisons_Create (server_store s) draws picks gen now seed drivers demand (svCompare s, server_db s) = Some (x, (results, db))"
      for draws picks gen now seed drivers demand x results db
      using that s persist_wf [OF server_store_wf]
      by (auto simp: comparisons_Create_def Let_def server_wf_def server_db_def runs_ok_def)
    note keep = this
    show ?thesis using h s ToComparisons by (auto simp: createComparison_def Let_def split: option.splits intro: keep)
  next
    case (ToShowcase i)
    then show ?thesis using h s MarkShowcase_ok [OF m]
      by (auto simp: markShowcase_def server_store_def server_wf_def server_db_def split: if_splits option.splits prod.splits)
  next
    case (ToReplay i)
    then show ?thesis using h s mayReadReplay_wf [OF s, of i w rq] by (auto simp: getReplay_def split: if_splits prod.splits)
  next
    case (ToOrders i)
    have "calm (svManager s) (snd (manager_PlaceOrder token (woTrace w) i p d (svManager s)))" for p d by (rule calls(1))
    note calm = this
    show ?thesis using h s ToOrders by (auto simp: placeOrder_def split: option.splits if_splits intro: accepted_wf [OF s calm])
  next
    case (ToClosures i)
    have "calm (svManager s) (snd (manager_CloseRoad token (woTrace w) (woID w) i e (svManager s)))" for e by (rule calls(5))
    then have "server_wf (s\<lparr>svManager := m1\<rparr>)" if "manager_CloseRoad token (woTrace w) (woID w) i e (svManager s) = (x, m1)" for e x m1
      using server_wf_calm [OF s] that by (metis snd_conv)
    note keep = this
    show ?thesis using h s ToClosures
      by (auto simp: closeRoad_def split: option.splits if_splits prod.splits sum.splits intro: keep)
  next
    case (ToReopen i)
    have "calm (svManager s) (snd (manager_ReopenRoad token (woTrace w) i e (svManager s)))" for e by (rule calls(6))
    note calm = this
    show ?thesis using h s ToReopen by (auto simp: reopenRoad_def Let_def split: if_splits intro: accepted_wf [OF s calm])
  next
    case (ToSpeed i)
    have "calm (svManager s) (snd (manager_SetSpeed token (woTrace w) i x (svManager s)))" for x by (rule calls(4))
    note calm = this
    show ?thesis using h s ToSpeed by (auto simp: setSpeed_def split: option.splits if_splits intro: accepted_wf [OF s calm])
  next
    case (ToPause i)
    then show ?thesis using h accepted_wf [OF s calls(2)] by (simp add: setPaused_def)
  next
    case (ToResume i)
    then show ?thesis using h accepted_wf [OF s calls(2)] by (simp add: setPaused_def)
  next
    case (ToReset i)
    then show ?thesis using h accepted_wf [OF s calls(3)] by (simp add: reset_run_def)
  qed (use h s in \<open>auto simp: getSimulation_def getComparison_def stream_def ready_def split: option.splits\<close>)
qed

lemma server_wf_idem: "server_wf s \<Longrightarrow> cache_ok c \<Longrightarrow> server_wf (s\<lparr>svIdem := c\<rparr>)"
  by (simp add: server_wf_def server_db_def)

lemma serve_mux_wf: "server_wf s \<Longrightarrow> woID w \<noteq> '''' \<Longrightarrow> serve_mux token w rq s = Some (rs, s1) \<Longrightarrow> server_wf s1"
  by (auto simp: serve_mux_def split: routed.splits intro: handle_route_wf)

lemma with_idempotency_wf:
  assumes s: "server_wf s" and gen: "woID w \<noteq> ''''" and h: "with_idempotency token w rq s = Some (rs, s1)"
  shows "server_wf s1"
proof (cases "\<not> has_key rq \<or> length (header ''Idempotency-Key'' rq) > 200")
  case True
  then show ?thesis using h s serve_mux_wf [OF s gen] by (auto simp: with_idempotency_def split: if_splits)
next
  case False
  let ?k = "idem_scope token rq"
  obtain hit c where g: "cache_Get ?k (woNow w) (svIdem s) = (hit, c)" by force
  then have c: "cache_ok c" using cache_Get_ok [of "svIdem s" ?k "woNow w"] s by (simp add: server_wf_def)
  show ?thesis
  proof (cases hit)
    case (Some x)
    then show ?thesis using h False g server_wf_idem [OF s c] by (auto simp: with_idempotency_def idem_lookup_def)
  next
    case None
    then have f: "idem_finish token w rq (s\<lparr>svIdem := c\<rparr>) = Some (rs, s1)"
      using h False g by (simp add: with_idempotency_def idem_lookup_def)
    then obtain rs0 s2 where m: "serve_mux token w rq (s\<lparr>svIdem := c\<rparr>) = Some (rs0, s2)" by (auto simp: idem_finish_def)
    have s2: "server_wf s2" by (rule serve_mux_wf [OF server_wf_idem [OF s c] gen m])
    then have "cache_ok (svIdem s2)" by (simp add: server_wf_def)
    from server_wf_idem [OF s2 cache_Put_ok [OF this idem_scope_nonempty]] show ?thesis
      using f m s2 by (auto simp: idem_finish_def split: if_splits)
  qed
qed

lemma authenticate_wf:
  assumes s: "server_wf s" and gen: "woID w \<noteq> ''''" and h: "authenticate w rq s = Some (rs, s1)"
  shows "server_wf s1"
proof (cases "mgSessions (svManager s)")
  case None
  then show ?thesis using h with_idempotency_wf [OF s gen] by (simp add: authenticate_def)
next
  case (Some ss)
  show ?thesis
  proof (cases "isPublicRoute rq")
    case True
    then show ?thesis using h Some with_idempotency_wf [OF s gen] by (simp add: authenticate_def)
  next
    case False
    obtain r s2 where v: "validate w (bearerToken rq) ss s = (r, s2)" by force
    then have s2: "server_wf s2" using validate_wf [OF s, of w "bearerToken rq" ss] by simp
    show ?thesis
    proof (cases r)
      case (Inl e)
      then show ?thesis using h v Some False s2 by (cases e) (simp_all add: authenticate_def)
    next
      case (Inr g)
      then show ?thesis using h v Some False with_idempotency_wf [OF s2 gen] by (simp add: authenticate_def)
    qed
  qed
qed

lemma serve_wf:
  assumes s: "server_wf s" and gen: "woID w \<noteq> ''''" and h: "serve w rq s = Some (rs, s1)"
  shows "server_wf s1"
proof -
  have lim: "server_wf (s\<lparr>svLimiter := l\<rparr>)" for l using s by (simp add: server_wf_def server_db_def)
  have rate: "server_wf s1" if "rateLimit w rq s = Some (rs, s1)" for rq rs s1
    using that authenticate_wf [OF s gen] authenticate_wf [OF lim gen] lim
    by (auto simp: rateLimit_split Let_def split: if_splits)
  have tel: "server_wf s1" if "withTelemetry w rq s = Some (rs, s1)" for rq rs s1
    using that rate by (auto simp: withTelemetry_def split: if_splits)
  show ?thesis using h s tel by (auto simp: serve_def Let_def split: if_splits)
qed

lemma sweep_server_wf: "server_wf s \<Longrightarrow> server_wf (sweep_server now s)"
  using Sweep_wf [OF server_store_wf [of s], of "server_db s" now] server_wf_db [of s]
  by (auto simp: sweep_server_def case_prod_beta server_wf_def split: option.splits)

datatype activity = Handled world request | Swept timestamp

fun activities :: "activity list \<Rightarrow> server \<Rightarrow> server option" where
  \<comment> \<open>requests and retention sweeps, in any order\<close>
  "activities [] s = Some s"
| "activities (Handled w rq # as) s = (case serve w rq s of None \<Rightarrow> None | Some (rs, s1) \<Rightarrow> activities as s1)"
| "activities (Swept now # as) s = activities as (sweep_server now s)"

text \<open>
  C15.  A server stays well formed: from a new server on a well-formed store, after any requests and
  retention sweeps in any order, the stored tables have distinct keys and sorted logs without
  repetitions, the runs have distinct non-empty ids and number at most the manager's maximum, no run
  holds more orders than it may or a command channel beyond its capacity, and the remembered outcomes
  are within their bound.
\<close>

theorem server_stays_wf:
  assumes "memory_wf db" and "activities as (NewServerWithConfig (cfg\<lparr>scfManager := NewManagerWithConfig limit sessions db, scfCompare := NewComparisons\<rparr>)) = Some s"
    and "\<forall>w rq. Handled w rq \<in> set as \<longrightarrow> woID w \<noteq> ''''"
  shows "server_wf s"
proof -
  have "server_wf s" if "activities as s0 = Some s" "server_wf s0" "\<forall>w rq. Handled w rq \<in> set as \<longrightarrow> woID w \<noteq> ''''" for s0
    using that
  proof (induction as s0 rule: activities.induct)
    case (2 w rq as s0)
    obtain rs s2 where e: "serve w rq s0 = Some (rs, s2)" "activities as s2 = Some s" using 2(2) by (auto split: option.splits)
    have "woID w \<noteq> ''''" using 2(4) by simp
    then have "server_wf s2" by (rule serve_wf [OF 2(3) _ e(1)])
    moreover have "\<forall>w rq. Handled w rq \<in> set as \<longrightarrow> woID w \<noteq> ''''" using 2(4) by (metis list.set_intros(2))
    ultimately show ?case by (rule 2(1) [OF e(1) refl e(2)])
  next
    case (3 now as s0)
    then show ?case using sweep_server_wf [of s0 now] by simp
  qed simp
  moreover have "server_wf (NewServerWithConfig (cfg\<lparr>scfManager := NewManagerWithConfig limit sessions db, scfCompare := NewComparisons\<rparr>))"
    using assms(1) newIdempotencyCache_ok
    by (simp add: server_wf_def server_db_def NewServerWithConfig_def NewManagerWithConfig_def runs_ok_def NewComparisons_def)
  ultimately show ?thesis using assms(2,3) by blast
qed

theorem server_stays_wf_witness:
  "\<exists>s. activities [Swept 9, Handled (test_world 9 ''g'') (test_request POST [''api'', ''v1'', ''simulations'', ''r'', ''pause''] [])]
     (test_server private_memory) = Some s \<and> server_wf s"
proof -
  let ?w = "test_world 9 ''g''" and ?rq = "test_request POST [''api'', ''v1'', ''simulations'', ''r'', ''pause''] []"
  let ?s = "sweep_server 9 (test_server private_memory)"
  have r: "mux ?rq = Route (ToPause ''r'')" by (simp add: mux_def patterns_def api_patterns_def method_matches_def)
  have "serve ?w ?rq ?s \<noteq> None"
    using command_not_public(1) [OF r]
    by (auto simp: serve_def withTelemetry_def rateLimit_split authenticate_def command_route_def with_idempotency_def has_key_def
        serve_mux_def r setPaused_def accepted_def sweep_server_def Let_def get_or_def split: sum.splits option.splits service_error.splits prod.splits)
  then obtain s where s: "activities [Swept 9, Handled ?w ?rq] (test_server private_memory) = Some s" by auto
  have wf: "memory_wf private_memory"
    using NewMemory_wf by (simp add: private_memory_def memory_ops_wf)
  have eq: "test_server private_memory = NewServerWithConfig (\<lparr>scfManager = NewManagerWithConfig 0 None NewMemory, scfCompare = NewComparisons,
      scfStored = True, scfOrigins = [], scfPerSecond = 0, scfBurst = 0\<rparr>\<lparr>scfManager := NewManagerWithConfig 8 (Some (NewSessions 0 0 0)) private_memory,
      scfCompare := NewComparisons\<rparr>)"
    by (simp add: test_server_def)
  have "server_wf s"
    by (rule server_stays_wf [OF wf s [unfolded eq]]) (simp add: test_world_def)
  then show ?thesis using s by blast
qed

end
