(* ===== verification/Showcase.thy ===== *)
theory Showcase
  imports Comparison_Range Replay_Live Store_Interface
begin

text \<open>
  The curated runs (\<open>internal/service/showcase.go\<close>): each is a scripted run, simulated without a
  live actor, whose events, final snapshot and row are written to the store once.  The random
  streams are the parameters of \<open>Comparison\<close>; the clock of a run and the wall-clock milliseconds of its
  route recalculation are given by \<open>clock\<close>.  \<open>None\<close> stands for a panic, or for a scenario whose
  draws never end.
\<close>

record showcase_run =
  swID :: string
  swTitle :: string
  swSeed :: int
  swDrivers :: int
  swOrders :: int
  swCloseRoadAfter :: real
  swTicks :: int

definition DefaultShowcaseRuns :: "showcase_run list" where
  "DefaultShowcaseRuns =
     [\<lparr>swID = ''showcase-first-delivery'', swTitle = ''A single delivery, start to finish'', swSeed = 42, swDrivers = 8,
       swOrders = 3, swCloseRoadAfter = 0, swTicks = 60\<rparr>,
      \<lparr>swID = ''showcase-road-closure'', swTitle = ''A closure forces a live reroute'', swSeed = 7, swDrivers = 10,
       swOrders = 6, swCloseRoadAfter = 4, swTicks = 80\<rparr>]"

subsection \<open>A road on some route\<close>

definition dec_showcase_driver :: "json \<Rightarrow> (node_id list \<times> int) option" where
  "dec_showcase_driver j = Option.bind (as_object j) (\<lambda>kvs.
     Option.bind (field ''route'' [] (dec_list dec_string) kvs) (\<lambda>r.
     Option.bind (field ''routeIndex'' 0 dec_int kvs) (\<lambda>i. Some (r, i))))"

fun edge_on_routes :: "city \<Rightarrow> (node_id list \<times> int) list \<Rightarrow> edge_id option option" where
  \<comment> \<open>the loop over the decoded drivers; the outer \<open>None\<close>: a negative index panics\<close>
  "edge_on_routes c [] = Some None"
| "edge_on_routes c ((route, i) # rest) =
     (if int (length route) < i + 2 then edge_on_routes c rest
      else if i < 0 then None
      else case edgeBetween c (route ! nat i) (route ! nat (i + 1)) of
             Some e \<Rightarrow> Some (Some (eID e))
           | None \<Rightarrow> edge_on_routes c rest)"

definition edgeOnSomeRoute :: "sim \<Rightarrow> edge_id option option" where
  "edgeOnSomeRoute s =
     (case marshal (evPayload (buildSnapshotEvent s)) of
        None \<Rightarrow> Some None
      | Some raw \<Rightarrow>
          (case Option.bind (unmarshal raw) (\<lambda>j. Option.bind (as_object j) (field ''drivers'' [] (dec_list dec_showcase_driver))) of
             None \<Rightarrow> Some None
           | Some drivers \<Rightarrow> edge_on_routes (sCity s) drivers))"

subsection \<open>Playing the script\<close>

fun place_due :: "real \<Rightarrow> arrival list \<Rightarrow> sim \<Rightarrow> event list \<Rightarrow> (arrival list \<times> sim \<times> event list) option" where
  \<comment> \<open>the inner loop; the list is \<open>arrivals[next:]\<close>\<close>
  "place_due now [] s acc = Some ([], s, acc)"
| "place_due now (a # rest) s acc =
     (if arTime a \<le> now
      then case Apply 0 (PlaceOrder (arPickup a) (arDestination a)) s of
             None \<Rightarrow> None
           | Some (es, s1) \<Rightarrow> place_due now rest s1 (acc @ es)
      else Some (a # rest, s, acc))"

definition close_some :: "real \<Rightarrow> sim \<Rightarrow> event list \<Rightarrow> (sim \<times> event list) option" where
  "close_some ms s acc =
     (case edgeOnSomeRoute s of
        None \<Rightarrow> None
      | Some None \<Rightarrow> Some (s, acc)
      | Some (Some e) \<Rightarrow> map_option (\<lambda>(es, s1). (s1, acc @ es)) (Apply ms (CloseRoad e '''') s))"

definition showcase_step :: "showcase_run \<Rightarrow> real \<Rightarrow> nat \<Rightarrow> arrival list \<times> bool \<times> sim \<times> event list \<Rightarrow> (arrival list \<times> bool \<times> sim \<times> event list) option" where
  \<comment> \<open>the body of the tick loop\<close>
  "showcase_step run ms n = (\<lambda>(arrivals, shut, s, acc).
     let now = real n; closing = (\<not> shut \<and> swCloseRoadAfter run \<le> now)
     in case place_due now arrivals s acc of
          None \<Rightarrow> None
        | Some (arrivals1, s1, acc1) \<Rightarrow>
            (case (if closing then close_some ms s1 acc1 else Some (s1, acc1)) of
               None \<Rightarrow> None
             | Some (s2, acc2) \<Rightarrow>
                 map_option (\<lambda>(es, s3). (arrivals1, shut \<or> closing, s3, acc2 @ es)) (Advance s2)))"

definition showcase_arrivals :: "showcase_run \<Rightarrow> arrival list \<Rightarrow> arrival list option" where
  \<comment> \<open>\<open>arrivals[:run.Orders]\<close> when there are more\<close>
  "showcase_arrivals run arrivals =
     (if swOrders run < int (length arrivals)
      then if swOrders run < 0 then None else Some (take (nat (swOrders run)) arrivals)
      else Some arrivals)"

definition play_showcase :: "rand_source \<Rightarrow> int_source \<Rightarrow> real \<Rightarrow> showcase_run \<Rightarrow> (sim \<times> event list) option" where
  \<comment> \<open>\<open>generateShowcase\<close> up to the first write\<close>
  "play_showcase draws picks ms run =
     (let (es0, s0) = Start (New draws (swID run) (swSeed run) (swDrivers run))
      in case DefaultScenario draws picks (swSeed run) (swDrivers run) of
           None \<Rightarrow> None
         | Some sc \<Rightarrow>
             (case showcase_arrivals run (scArrivals sc) of
                None \<Rightarrow> None
              | Some arrivals \<Rightarrow>
                  map_option (\<lambda>(_, _, s, es). (s, es))
                    (fold_opt (showcase_step run ms) [0..<nat (swTicks run)] (arrivals, swCloseRoadAfter run \<le> 0, s0, es0))))"

subsection \<open>Writing it\<close>

definition showcase_row :: "showcase_run \<Rightarrow> timestamp \<Rightarrow> simulation_row" where
  "showcase_row run now = \<lparr>srID = swID run, srSeed = swSeed run, srDrivers = swDrivers run, srStrategy = ''baseline'',
     srCreatedAt = now, srCompletedAt = Some now, srShowcase = True, srGuestToken = '''', srExpiresAt = None\<rparr>"

definition write_showcase :: "'db store_ops \<Rightarrow> timestamp \<Rightarrow> showcase_run \<Rightarrow> sim \<Rightarrow> event list \<Rightarrow> 'db \<Rightarrow> (store_error + unit) \<times> 'db" where
  \<comment> \<open>the writes of \<open>generateShowcase\<close>, up to the first that fails\<close>
  "write_showcase st now run s events db0 =
     (case opCreateSimulation st (showcase_row run now) db0 of
        (Inl e, db1) \<Rightarrow> (Inl e, db1)
      | (Inr _, db1) \<Rightarrow>
          (case those (map (\<lambda>e. EventFrom e '''' now) events) of
             None \<Rightarrow> (Inl (StoreFailure ''unencodable event''), db1)
           | Some records \<Rightarrow>
               (case opAppendEvents st records db1 of
                  (Inl e, db2) \<Rightarrow> (Inl e, db2)
                | (Inr _, db2) \<Rightarrow>
                    (case marshal (evPayload (buildSnapshotEvent s)) of
                       None \<Rightarrow> (Inl (StoreFailure ''unencodable snapshot''), db2)
                     | Some payload \<Rightarrow>
                         opSaveSnapshot st \<lparr>ssSimulationID = swID run, ssSequence = evSequence (buildSnapshotEvent s),
                           ssVirtualTime = evVirtualTime (buildSnapshotEvent s), ssPayload = payload, ssRecordedAt = now\<rparr> db2))))"

definition generateShowcase :: "'db store_ops \<Rightarrow> rand_source \<Rightarrow> int_source \<Rightarrow> timestamp \<times> real \<Rightarrow> showcase_run \<Rightarrow> 'db \<Rightarrow> ((store_error + unit) \<times> 'db) option" where
  "generateShowcase st draws picks clock run db =
     map_option (\<lambda>(s, events). write_showcase st (fst clock) run s events db) (play_showcase draws picks (snd clock) run)"

fun ProvisionShowcases :: "'db store_ops option \<Rightarrow> rand_source \<Rightarrow> int_source \<Rightarrow> (showcase_run \<Rightarrow> timestamp \<times> real) \<Rightarrow> showcase_run list \<Rightarrow> 'db \<Rightarrow> ((store_error + unit) \<times> 'db) option" where
  "ProvisionShowcases None draws picks clock runs db = Some (Inr (), db)"
| "ProvisionShowcases (Some st) draws picks clock [] db = Some (Inr (), db)"
| "ProvisionShowcases (Some st) draws picks clock (run # runs) db =
     (let existing = opGetSimulation st (swID run) db
      in if (case existing of Inr row \<Rightarrow> srShowcase row | Inl _ \<Rightarrow> False)
         then ProvisionShowcases (Some st) draws picks clock runs db
         else case existing of
           Inl (StoreFailure e) \<Rightarrow> Some (Inl (StoreFailure e), db)
         | _ \<Rightarrow> (case generateShowcase st draws picks (clock run) run db of
              None \<Rightarrow> None
            | Some (Inl e, db1) \<Rightarrow> Some (Inl e, db1)
            | Some (Inr _, db1) \<Rightarrow> ProvisionShowcases (Some st) draws picks clock runs db1))"

subsection \<open>The script plays to its end\<close>

lemma dec_showcase_driver_enc: "dec_showcase_driver (enc_driver s d) = Some (dRoute d, int (dRouteIndex d))"
  by (simp add: dec_showcase_driver_def enc_driver_def field_def)

lemma edge_on_routes_safe: "\<forall>(r, i) \<in> set ds. 0 \<le> i \<Longrightarrow> edge_on_routes c ds \<noteq> None"
  by (induction c ds rule: edge_on_routes.induct) (auto split: option.splits)

lemma edgeOnSomeRoute_safe: "edgeOnSomeRoute s \<noteq> None"
proof -
  have "dec_all dec_showcase_driver (map (enc_driver s) ds) = Some (map (\<lambda>d. (dRoute d, int (dRouteIndex d))) ds)" for ds
    by (rule dec_all_map) (rule dec_showcase_driver_enc)
  then have "edgeOnSomeRoute s = edge_on_routes (sCity s) (map (\<lambda>d. (dRoute d, int (dRouteIndex d))) (sorted_values (sDrivers s)))"
    by (simp add: edgeOnSomeRoute_def buildSnapshotEvent_def marshal_def unmarshal_def snapshotPayload_def field_def
        list_all_iff enc_node_def enc_edge_def enc_driver_def enc_order_def enc_route_def)
  then show ?thesis using edge_on_routes_safe [of _ "sCity s"] by simp
qed

definition staged :: "sim \<Rightarrow> event list \<Rightarrow> event list \<Rightarrow> sim \<Rightarrow> bool" where
  \<comment> \<open>an unpaused baseline run from \<open>s0\<close>; the events so far follow those of the start\<close>
  "staged s0 es0 acc s \<longleftrightarrow> (\<exists>es. acc = es0 @ es \<and> plays s0 es s) \<and> sStrategy s = StrategyBaseline \<and> \<not> sPaused s"

lemma staged_command:
  assumes s0: "quiescent s0" and st: "staged s0 es0 acc s" and cmd: "cmd = PlaceOrder p q \<or> cmd = CloseRoad e c"
  shows "\<exists>fs s1. Apply ms cmd s = Some (fs, s1) \<and> staged s0 es0 (acc @ fs) s1"
proof -
  obtain es where es: "acc = es0 @ es" "plays s0 es s" using st unfolding staged_def by blast
  have inv: "sim_inv s" using plays_told [OF es(2) s0] by (simp add: quiescent_def)
  obtain s1 where s1: "handle ms cmd s = Some s1" using handle_inv [OF inv] by blast
  have same: "sStrategy s1 = sStrategy s \<and> sPaused s1 = sPaused s"
    using cmd
  proof
    assume "cmd = PlaceOrder p q"
    then have "keeps (record_order (placed_order p q s) s) s1" using s1 handlePlaceOrder_keeps by (simp add: handle_def)
    then show ?thesis by (simp add: keeps_def record_order_def emit_def)
  next
    assume cm: "cmd = CloseRoad e c"
    have b: "base_inv s" using inv by (simp add: sim_inv_def)
    show ?thesis
    proof (cases "EdgeByID (sCity s) e")
      case (Some x)
      let ?r = "snd (recalculateAffectedRoutes (s\<lparr>sCurrentCausation := c, sCity := snd (close_segment True x (sCity s))\<rparr>))"
      have r: "fewer_roads (sCity s) (snd (close_segment True x (sCity s)))" by (rule close_segment_roads [OF base_invD(4) [OF b]])
      have "sStrategy ?r = sStrategy s" "sPaused ?r = sPaused s"
        using recalculate_inv(2) [OF b r, of c] by (simp_all add: moves_def fixed_parts_def)
      moreover have "s1 = handleCloseRoad ms e c s" using s1 cm by (simp add: handle_def)
      ultimately show ?thesis using Some
        by (cases "eClosed x") (simp_all add: handleCloseRoad_def split_beta Let_def emit_def)
    qed (use s1 cm in \<open>simp add: handle_def handleCloseRoad_def del: EdgeByID_None\<close>)
  qed
  obtain fs s2 where t: "takePending s1 = (fs, s2)" by (cases "takePending s1")
  have h: "handleTraced ms cmd '''' s = Some s1" by (simp add: handleTraced_def s1)
  have "plays s0 (es @ fs) s2" by (rule plays.command [OF es(2) h t])
  moreover have "sStrategy s2 = sStrategy s1 \<and> sPaused s2 = sPaused s1" using t by (auto simp: takePending_def)
  moreover have "Apply ms cmd s = Some (fs, s2)" by (simp add: Apply_def s1 t)
  ultimately show ?thesis using st same es(1) unfolding staged_def by auto
qed

lemma staged_tick:
  assumes s0: "quiescent s0" and st: "staged s0 es0 acc s"
  shows "\<exists>fs s1. Advance s = Some (fs, s1) \<and> staged s0 es0 (acc @ fs) s1"
proof -
  obtain es where es: "acc = es0 @ es" "plays s0 es s" using st unfolding staged_def by blast
  have s: "sStrategy s = StrategyBaseline" "\<not> sPaused s" using st by (simp_all add: staged_def)
  have inv: "sim_inv s" using plays_told [OF es(2) s0] by (simp add: quiescent_def)
  obtain s1 where s1: "tick s = Some s1" using tick_inv [OF inv] s(1) by auto
  obtain fs s2 where t: "takePending s1 = (fs, s2)" by (cases "takePending s1")
  have "plays s0 (es @ fs) s2" by (rule plays.ticked [OF es(2) _ s1 t]) (simp add: dispatch_in_range_def s(1))
  moreover have "sStrategy s2 = StrategyBaseline \<and> \<not> sPaused s2" using tick_keeps [OF s1 s(2)] s t by (auto simp: takePending_def keeps_def)
  moreover have "Advance s = Some (fs, s2)" by (simp add: Advance_def s1 t)
  ultimately show ?thesis using es(1) unfolding staged_def by auto
qed

lemma place_due_staged:
  assumes "quiescent s0" "staged s0 es0 acc s"
  shows "\<exists>rest acc1 s1. place_due now arrivals s acc = Some (rest, s1, acc1) \<and> staged s0 es0 acc1 s1"
  using assms(2)
proof (induction arrivals arbitrary: acc s)
  case (Cons a arrivals)
  obtain fs s1 where "Apply 0 (PlaceOrder (arPickup a) (arDestination a)) s = Some (fs, s1)" "staged s0 es0 (acc @ fs) s1"
    using staged_command [OF assms(1) Cons.prems] by blast
  then show ?case using Cons.IH [of "acc @ fs" s1] Cons.prems by auto
qed simp

lemma close_some_staged:
  assumes "quiescent s0" "staged s0 es0 acc s"
  shows "\<exists>acc1 s1. close_some ms s acc = Some (s1, acc1) \<and> staged s0 es0 acc1 s1"
proof (cases "edgeOnSomeRoute s")
  case (Some r)
  show ?thesis
  proof (cases r)
    case (Some e)
    obtain fs s1 where "Apply ms (CloseRoad e '''') s = Some (fs, s1)" "staged s0 es0 (acc @ fs) s1"
      using staged_command [OF assms] by blast
    then show ?thesis using \<open>edgeOnSomeRoute s = Some r\<close> Some by (simp add: close_some_def)
  qed (use \<open>edgeOnSomeRoute s = Some r\<close> assms(2) in \<open>simp add: close_some_def\<close>)
qed (use edgeOnSomeRoute_safe in blast)

lemma showcase_step_staged:
  assumes "quiescent s0" "staged s0 es0 acc s"
  shows "\<exists>rest shut1 s1 acc1. showcase_step run ms n (arrivals, shut, s, acc) = Some (rest, shut1, s1, acc1) \<and> staged s0 es0 acc1 s1"
proof -
  obtain rest acc1 s1 where 1: "place_due (real n) arrivals s acc = Some (rest, s1, acc1)" "staged s0 es0 acc1 s1"
    using place_due_staged [OF assms] by blast
  let ?b = "\<not> shut \<and> swCloseRoadAfter run \<le> real n"
  obtain acc2 s2 where 2: "(if ?b then close_some ms s1 acc1 else Some (s1, acc1)) = Some (s2, acc2)" "staged s0 es0 acc2 s2"
    using close_some_staged [OF assms(1) 1(2), of ms] 1(2) by (cases ?b) auto
  obtain fs s3 where 3: "Advance s2 = Some (fs, s3)" "staged s0 es0 (acc2 @ fs) s3" using staged_tick [OF assms(1) 2(2)] by blast
  show ?thesis using 1(1) 2(1) 3 by (auto simp: showcase_step_def Let_def)
qed

lemma showcase_loop_staged:
  assumes "quiescent s0" "staged s0 es0 acc s"
  shows "\<exists>rest shut1 s1 acc1. fold_opt (showcase_step run ms) ns (arrivals, shut, s, acc) = Some (rest, shut1, s1, acc1) \<and> staged s0 es0 acc1 s1"
  using assms(2)
proof (induction ns arbitrary: arrivals shut s acc)
  case (Cons n ns)
  obtain rest shut1 s1 acc1 where "showcase_step run ms n (arrivals, shut, s, acc) = Some (rest, shut1, s1, acc1)" "staged s0 es0 acc1 s1"
    using showcase_step_staged [OF assms(1) Cons.prems] by blast
  then show ?case using Cons.IH by simp
qed simp

lemma play_showcase_runs:
  assumes "picks_ok picks" "0 \<le> swOrders run"
  shows "\<exists>es0 s0 es s. Start (New draws (swID run) (swSeed run) (swDrivers run)) = (es0, s0) \<and>
    play_showcase draws picks ms run = Some (s, es0 @ es) \<and> plays s0 es s"
proof -
  obtain es0 s0 where start: "Start (New draws (swID run) (swSeed run) (swDrivers run)) = (es0, s0)"
    by (cases "Start (New draws (swID run) (swSeed run) (swDrivers run))")
  let ?cfg = "zero_config\<lparr>cfID := swID run, cfSeed := swSeed run, cfDriverCount := swDrivers run\<rparr>"
  note S = Start_told [OF start [unfolded New_def]]
  obtain sc where sc: "DefaultScenario draws picks (swSeed run) (swDrivers run) = Some sc"
    unfolding DefaultScenario_def using ScenarioFor_total [OF assms(1)] by blast
  obtain arrivals where a: "showcase_arrivals run (scArrivals sc) = Some arrivals"
    using assms(2) by (cases "showcase_arrivals run (scArrivals sc)") (auto simp: showcase_arrivals_def split: if_splits)
  have "sStrategy s0 = StrategyBaseline \<and> \<not> sPaused s0"
    using start by (auto simp: Start_def takePending_def New_def NewWithConfig_def Let_def config_defaults_def zero_config_def)
  then have "staged s0 es0 es0 s0" using plays.waits by (auto simp: staged_def)
  from showcase_loop_staged [OF S(1) this] obtain rest shut1 s acc where
    l: "fold_opt (showcase_step run ms) [0..<nat (swTicks run)] (arrivals, swCloseRoadAfter run \<le> 0, s0, es0) = Some (rest, shut1, s, acc)"
      "staged s0 es0 acc s" by metis
  from l(2) obtain es where "acc = es0 @ es" "plays s0 es s" unfolding staged_def by blast
  then show ?thesis using start sc a l(1) by (auto simp: play_showcase_def)
qed

subsection \<open>What is written replays\<close>

definition unused :: "string \<Rightarrow> memory \<Rightarrow> bool" where
  "unused i m \<longleftrightarrow> map_of (mSimulations m) i = None \<and> log_of m i = [] \<and> snapshots_of m i = []"

definition same_run :: "string \<Rightarrow> memory \<Rightarrow> memory \<Rightarrow> bool" where
  \<comment> \<open>two stores hold the same of one run\<close>
  "same_run i m m' \<longleftrightarrow> map_of (mSimulations m') i = map_of (mSimulations m) i \<and> log_of m' i = log_of m i \<and> snapshots_of m' i = snapshots_of m i"

definition shown :: "showcase_run \<Rightarrow> sim \<Rightarrow> memory \<Rightarrow> bool" where
  \<comment> \<open>the run is public, and its replay ends in the state \<open>s\<close>\<close>
  "shown run s m \<longleftrightarrow> (\<exists>row. GetSimulation (swID run) m = Inr row \<and> srShowcase row) \<and>
     (\<exists>st. reader_StateAt (swID run) (int (sSequence s)) m = Some (Inr st) \<and> state_shows st s)"

lemma unused_same: "same_run i m m' \<Longrightarrow> unused i m' = unused i m"
  by (simp add: same_run_def unused_def)

lemma same_run_trans: "same_run i m m1 \<Longrightarrow> same_run i m1 m2 \<Longrightarrow> same_run i m m2"
  by (simp add: same_run_def)

lemma shown_same:
  assumes "memory_wf m" "memory_wf m'" "same_run (swID run) m m'" "shown run s m"
  shows "shown run s m'"
proof -
  let ?i = "swID run"
  have s: "map_of (mSimulations m') ?i = map_of (mSimulations m) ?i" "log_of m' ?i = log_of m ?i" "snapshots_of m' ?i = snapshots_of m ?i"
    using assms(3) by (simp_all add: same_run_def)
  have l: "LatestSequence ?i m' = LatestSequence ?i m" "SnapshotAtOrBefore ?i n m' = SnapshotAtOrBefore ?i n m" for n
    using s(2,3) by (simp_all add: LatestSequence_def SnapshotAtOrBefore_def log_of_def snapshots_of_def)
  have r: "GetSimulation ?i m' = GetSimulation ?i m" using s(1) by (simp add: GetSimulation_def lookup_row_def)
  then have q: "reader_simulation ?i m' = reader_simulation ?i m" by (simp add: reader_simulation_def l)
  obtain row where row: "reader_simulation ?i m = Inr row" using assms(4) by (auto simp: shown_def reader_simulation_def)
  have "reader_StateAt ?i n m' = reader_StateAt ?i n m" for n
    unfolding reader_StateAt_collected [OF assms(1) row] reader_StateAt_collected [OF assms(2) row [folded q]]
    by (simp add: pick_base_def pick_sequence_def l s(2))
  then show ?thesis using assms(4) r by (simp add: shown_def)
qed

lemma stored_source: "list_all2 stored_as rows es \<Longrightarrow> x \<in> set rows \<Longrightarrow> \<exists>e \<in> set es. stored_as x e"
  by (induction rule: list_all2_induct) auto

lemma those_rows:
  assumes "\<forall>e \<in> set es. encodable (evPayload e)"
  shows "\<exists>rows. those (map (\<lambda>e. EventFrom e '''' now) es) = Some rows \<and> list_all2 stored_as rows es"
  using assms
proof (induction es)
  case (Cons e es)
  obtain x where x: "EventFrom e '''' now = Some x" using Cons.prems by (auto simp: EventFrom_def marshal_def)
  then show ?case using Cons EventFrom_stored_as [OF x] by auto
qed simp

lemma CreateSimulation_new:
  assumes "memory_wf m" "map_of (mSimulations m) (srID row) = None"
  shows "memory_wf (CreateSimulation row m)" "log_of (CreateSimulation row m) i = log_of m i"
    "snapshots_of (CreateSimulation row m) i = snapshots_of m i"
    "map_of (mSimulations (CreateSimulation row m)) i = (if i = srID row then Some row else map_of (mSimulations m) i)"
  using assms by (auto simp: CreateSimulation_def memory_wf_def log_of_def snapshots_of_def map_of_update)

lemma showcase_row_simps [simp]: "srID (showcase_row run now) = swID run" "srShowcase (showcase_row run now)"
  by (simp_all add: showcase_row_def)

lemma SaveSnapshot_frame:
  "mSimulations (SaveSnapshot x m) = mSimulations m" "log_of (SaveSnapshot x m) i = log_of m i"
  "i \<noteq> ssSimulationID x \<Longrightarrow> snapshots_of (SaveSnapshot x m) i = snapshots_of m i"
  "snapshots_of m (ssSimulationID x) = [] \<Longrightarrow> snapshots_of (SaveSnapshot x m) (ssSimulationID x) = [x]"
  by (simp_all add: SaveSnapshot_def Let_def log_of_def snapshots_of_def get_or_def map_of_update)

lemma AppendEvents_frame:
  assumes "memory_wf m" "\<forall>e \<in> set es. seSimulationID e = i" "j \<noteq> i"
  shows "log_of (AppendEvents es m) j = log_of m j"
proof (rule log_ok_eqI)
  fix n
  have "offered j n es = None" using assms(2,3) by (auto simp: offered_def find_None_iff)
  then show "event_at (log_of (AppendEvents es m) j) n = event_at (log_of m j) n"
    by (simp add: AppendEvents_spec(2) [OF assms(1)] first_some_def split: option.splits)
qed (use AppendEvents_spec(1) [OF assms(1)] assms(1) memory_wfD(1) in blast)+

lemma write_showcase_shown:
  assumes wf: "memory_wf m" and free: "unused (swID run) m" and start: "Start (New draws (swID run) (swSeed run) (swDrivers run)) = (es0, s0)"
    and run: "plays s0 es s"
  shows "\<exists>m'. write_showcase memory_ops now run s (es0 @ es) m = (Inr (), m') \<and> memory_wf m' \<and> shown run s m' \<and>
    (\<forall>j. j \<noteq> swID run \<longrightarrow> same_run j m m')"
proof -
  let ?i = "swID run" and ?es = "es0 @ es"
  let ?cfg = "zero_config\<lparr>cfID := ?i, cfSeed := swSeed run, cfDriverCount := swDrivers run\<rparr>"
  note start' = start [unfolded New_def]
  note S = Start_told [OF start']
  note T = plays_told [OF run S(1)]
  have id: "\<forall>e \<in> set ?es. evSimulationID e = ?i \<and> encodable (evPayload e)" using S(5,6) T by auto
  have seqs: "map evSequence ?es = [1..<Suc (sSequence s)]" "sID s = ?i"
    using S(3-5) T upt_conv_Cons [of 1 "Suc (sSequence s)"] by auto
  obtain rows where rows: "those (map (\<lambda>e. EventFrom e '''' now) ?es) = Some rows" "list_all2 stored_as rows ?es"
    using those_rows [of ?es now] id by blast
  have rid: "\<forall>x \<in> set rows. seSimulationID x = ?i"
  proof
    fix x assume "x \<in> set rows"
    then obtain e where "e \<in> set ?es" "stored_as x e" using stored_source [OF rows(2)] by blast
    then show "seSimulationID x = ?i" using id stored_row by auto
  qed
  have rseq: "map seSequence rows = [1..<Suc (sSequence s)]" using stored_rows [OF rows(2)] seqs(1) by simp
  let ?m1 = "CreateSimulation (showcase_row run now) m"
  have none: "map_of (mSimulations m) (srID (showcase_row run now)) = None" using free by (simp add: unused_def)
  note C = CreateSimulation_new [OF wf none]
  let ?m2 = "AppendEvents rows ?m1"
  note A = AppendEvents_spec [OF C(1), of rows]
  have empty: "log_of ?m1 ?i = []" "snapshots_of ?m1 ?i = []" using C(2,3) free by (simp_all add: unused_def)
  have "log_ok (log_of ?m1 ?i @ rows)" unfolding empty log_ok_def append_Nil rseq by (simp del: upt_Suc)
  from AppendEvents_in_order [OF C(1) this rid] have log2: "log_of ?m2 ?i = rows" by (simp add: empty)
  have snaps2: "snapshots_of ?m2 j = snapshots_of ?m1 j" for j by (simp add: snapshots_of_def A(5))
  let ?x = "\<lparr>ssSimulationID = ?i, ssSequence = sSequence s, ssVirtualTime = sVirtualTime s, ssPayload = Raw (snapshotPayload s), ssRecordedAt = now\<rparr>"
  let ?m3 = "SaveSnapshot ?x ?m2"
  have wf3: "memory_wf ?m3" by (rule SaveSnapshot_set(1) [OF A(1)])
  have sims: "map_of (mSimulations ?m3) j = (if j = ?i then Some (showcase_row run now) else map_of (mSimulations m) j)" for j
    using C(4) [of j] by (simp add: SaveSnapshot_frame(1) A(4))
  have snap3: "snapshots_of ?m3 ?i = [?x]" using SaveSnapshot_frame(4) [of ?m2 ?x] snaps2 empty(2) by simp
  have "write_showcase memory_ops now run s ?es m = (Inr (), ?m3)"
    using rows(1) by (simp add: write_showcase_def buildSnapshotEvent_def marshal_def)
  moreover have "shown run s ?m3"
  proof -
    have "list_all2 stored_as (log_of ?m3 (cfID ?cfg)) (es0 @ es @ [] @ [])" using rows(2) log2 by (simp add: SaveSnapshot_frame)
    from replay_run [OF start' run plays.waits plays.waits wf3 this]
    have "\<exists>st. reader_StateAt ?i (int (sSequence s)) ?m3 = Some (Inr st) \<and> state_shows st s"
      using snap3 by (auto simp: SnapshotAtOrBefore_def snapshots_of_def)
    moreover have "GetSimulation ?i ?m3 = Inr (showcase_row run now)" using sims [of ?i] by (simp add: GetSimulation_def lookup_row_def)
    ultimately show ?thesis by (simp add: shown_def)
  qed
  moreover have "same_run j m ?m3" if "j \<noteq> ?i" for j
    using that sims [of j] C(2,3) [of j] AppendEvents_frame [OF C(1) rid that] SaveSnapshot_frame(3) [of j ?x ?m2] snaps2
    by (simp add: same_run_def SaveSnapshot_frame)
  ultimately show ?thesis using wf3 by blast
qed

lemma provision_skips:
  "\<forall>run \<in> set runs. \<exists>row. GetSimulation (swID run) m = Inr row \<and> srShowcase row \<Longrightarrow>
   ProvisionShowcases (Some memory_ops) draws picks clock runs m = Some (Inr (), m)"
  by (induction runs) (auto simp: Let_def)

text \<open>
  C25.  Provisioning does what it promises: on a well-formed store that holds nothing of the curated
  runs, it returns without an error and leaves the store well formed; each run is then public, and
  the replay of its stored log ends in the very state its script ends in; whatever else the store
  held of other runs is as before.  Provisioning again, at any later time, changes nothing.
\<close>

theorem showcases_provisioned:
  assumes "picks_ok picks" and "memory_wf m" and "distinct (map swID runs)"
    and "\<forall>run \<in> set runs. 0 \<le> swOrders run \<and> unused (swID run) m"
  shows "\<exists>m'. ProvisionShowcases (Some memory_ops) draws picks clock runs m = Some (Inr (), m') \<and> memory_wf m' \<and>
    (\<forall>run \<in> set runs. \<exists>s es. play_showcase draws picks (snd (clock run)) run = Some (s, es) \<and> shown run s m') \<and>
    (\<forall>j. j \<notin> swID ` set runs \<longrightarrow> same_run j m m') \<and>
    (\<forall>clock'. ProvisionShowcases (Some memory_ops) draws picks clock' runs m' = Some (Inr (), m'))"
proof -
  have "\<exists>m'. ProvisionShowcases (Some memory_ops) draws picks clock runs m = Some (Inr (), m') \<and> memory_wf m' \<and>
    (\<forall>run \<in> set runs. \<exists>s es. play_showcase draws picks (snd (clock run)) run = Some (s, es) \<and> shown run s m') \<and>
    (\<forall>j. j \<notin> swID ` set runs \<longrightarrow> same_run j m m')"
    using assms(2-4)
  proof (induction runs arbitrary: m)
    case (Cons run runs)
    have run: "0 \<le> swOrders run" "unused (swID run) m" using Cons.prems(3) by simp_all
    obtain es0 s0 es s where p: "Start (New draws (swID run) (swSeed run) (swDrivers run)) = (es0, s0)"
      "play_showcase draws picks (snd (clock run)) run = Some (s, es0 @ es)" "plays s0 es s"
      using play_showcase_runs [OF assms(1) run(1)] by blast
    obtain m1 where m1: "write_showcase memory_ops (fst (clock run)) run s (es0 @ es) m = (Inr (), m1)" "memory_wf m1" "shown run s m1"
      "\<And>j. j \<noteq> swID run \<Longrightarrow> same_run j m m1"
      using write_showcase_shown [OF Cons.prems(1) run(2) p(1,3)] by metis
    have later: "\<forall>r \<in> set runs. 0 \<le> swOrders r \<and> unused (swID r) m1"
    proof
      fix r assume r: "r \<in> set runs"
      then have "swID r \<in> set (map swID runs)" by simp
      then have "swID r \<noteq> swID run" using Cons.prems(2) by auto
      then show "0 \<le> swOrders r \<and> unused (swID r) m1" using r Cons.prems(3) unused_same [OF m1(4)] by simp
    qed
    obtain m2 where m2: "ProvisionShowcases (Some memory_ops) draws picks clock runs m1 = Some (Inr (), m2)" "memory_wf m2"
      "\<forall>r \<in> set runs. \<exists>s es. play_showcase draws picks (snd (clock r)) r = Some (s, es) \<and> shown r s m2"
      "\<forall>j. j \<notin> swID ` set runs \<longrightarrow> same_run j m1 m2"
      using Cons.IH [OF m1(2) _ later] Cons.prems(2) by auto
    have "ProvisionShowcases (Some memory_ops) draws picks clock (run # runs) m = Some (Inr (), m2)"
      using run(2) p(2) m1(1) m2(1) by (simp add: Let_def unused_def GetSimulation_def lookup_row_def generateShowcase_def)
    moreover have "shown run s m2" using shown_same [OF m1(2) m2(2) _ m1(3)] m2(4) Cons.prems(2) by auto
    moreover have "same_run j m m2" if "j \<notin> swID ` set (run # runs)" for j
      using that m1(4) [of j] m2(4) same_run_trans by auto
    ultimately show ?case using m2(2,3) p(2) by auto
  qed (simp add: same_run_def)
  then obtain m' where m': "ProvisionShowcases (Some memory_ops) draws picks clock runs m = Some (Inr (), m')" "memory_wf m'"
    "\<forall>run \<in> set runs. \<exists>s es. play_showcase draws picks (snd (clock run)) run = Some (s, es) \<and> shown run s m'"
    "\<forall>j. j \<notin> swID ` set runs \<longrightarrow> same_run j m m'" by blast
  have "ProvisionShowcases (Some memory_ops) draws picks clock' runs m' = Some (Inr (), m')" for clock'
    by (rule provision_skips) (use m'(3) in \<open>auto simp: shown_def\<close>)
  then show ?thesis using m' by blast
qed

theorem showcases_provisioned_witness:
  "\<exists>m'. ProvisionShowcases (Some memory_ops) (\<lambda>_ _. 1 / 2) (\<lambda>_ k n. k mod n) (\<lambda>_. (5, 0)) DefaultShowcaseRuns NewMemory = Some (Inr (), m') \<and>
     (\<exists>s. shown (hd DefaultShowcaseRuns) s m') \<and>
     ProvisionShowcases (Some memory_ops) (\<lambda>_ _. 1 / 2) (\<lambda>_ k n. k mod n) (\<lambda>_. (9, 3)) DefaultShowcaseRuns m' = Some (Inr (), m')"
proof -
  have "\<forall>run \<in> set DefaultShowcaseRuns. 0 \<le> swOrders run \<and> unused (swID run) NewMemory"
    by (simp add: DefaultShowcaseRuns_def unused_def NewMemory_def log_of_def snapshots_of_def get_or_def)
  moreover have "distinct (map swID DefaultShowcaseRuns)" by (simp add: DefaultShowcaseRuns_def)
  moreover have "hd DefaultShowcaseRuns \<in> set DefaultShowcaseRuns" by (simp add: DefaultShowcaseRuns_def)
  ultimately show ?thesis
    using showcases_provisioned [OF modular_picks_ok NewMemory_wf, of DefaultShowcaseRuns "\<lambda>_ _. 1 / 2" "\<lambda>_. (5, 0)"] by blast
qed

definition refusing :: "store_error \<Rightarrow> memory store_ops" where
  \<comment> \<open>the in-memory store, while its event log refuses writes\<close>
  "refusing e = memory_ops\<lparr>opAppendEvents := \<lambda>es m. (Inl e, m)\<rparr>"

text \<open>
  C26.  Provisioning that fails half way is never repaired.  If the store refuses the events of a run
  after its row was written, the row stays, marked as a showcase; every later provisioning takes the
  run for provisioned, and its public replay has no events.
\<close>

theorem half_provisioned_showcase_stays:
  assumes "picks_ok picks" and "memory_wf m" and "0 \<le> swOrders run" and "unused (swID run) m"
  shows "\<exists>m'. ProvisionShowcases (Some (refusing e)) draws picks clock [run] m = Some (Inl e, m') \<and> memory_wf m' \<and>
    (\<forall>clock'. ProvisionShowcases (Some memory_ops) draws picks clock' [run] m' = Some (Inr (), m')) \<and>
    (\<exists>row. GetSimulation (swID run) m' = Inr row \<and> srShowcase row) \<and> log_of m' (swID run) = []"
proof -
  obtain es0 s0 es s where p: "Start (New draws (swID run) (swSeed run) (swDrivers run)) = (es0, s0)"
    "play_showcase draws picks (snd (clock run)) run = Some (s, es0 @ es)" "plays s0 es s"
    using play_showcase_runs [OF assms(1,3)] by blast
  note S = Start_told [OF p(1) [unfolded New_def]]
  have "\<forall>e \<in> set (es0 @ es). encodable (evPayload e)" using S(6) plays_told [OF p(3) S(1)] by auto
  then obtain rows where rows: "those (map (\<lambda>e. EventFrom e '''' (fst (clock run))) (es0 @ es)) = Some rows" using those_rows by blast
  let ?row = "showcase_row run (fst (clock run))"
  let ?m = "CreateSimulation ?row m"
  have "map_of (mSimulations m) (srID ?row) = None" using assms(4) by (simp add: unused_def)
  note C = CreateSimulation_new [OF assms(2) this]
  have first: "ProvisionShowcases (Some (refusing e)) draws picks clock [run] m = Some (Inl e, ?m)"
    using assms(4) p(2) rows
    by (simp add: Let_def unused_def GetSimulation_def lookup_row_def generateShowcase_def write_showcase_def refusing_def)
  have row: "GetSimulation (swID run) ?m = Inr ?row" "srShowcase ?row"
    using C(4) [of "swID run"] by (simp_all add: GetSimulation_def lookup_row_def)
  have "ProvisionShowcases (Some memory_ops) draws picks clock' [run] ?m = Some (Inr (), ?m)" for clock'
    by (rule provision_skips) (use row in simp)
  moreover have "log_of ?m (swID run) = []" using C(2) assms(4) by (simp add: unused_def)
  ultimately show ?thesis using first C(1) row by blast
qed

theorem half_provisioned_showcase_stays_witness:
  "\<exists>m'. ProvisionShowcases (Some (refusing (StoreFailure ''disk full''))) (\<lambda>_ _. 1 / 2) (\<lambda>_ k n. k mod n) (\<lambda>_. (5, 0))
       [hd DefaultShowcaseRuns] NewMemory = Some (Inl (StoreFailure ''disk full''), m') \<and>
     log_of m' ''showcase-first-delivery'' = []"
proof -
  have r: "0 \<le> swOrders (hd DefaultShowcaseRuns)" "unused (swID (hd DefaultShowcaseRuns)) NewMemory"
    "swID (hd DefaultShowcaseRuns) = ''showcase-first-delivery''"
    by (simp_all add: DefaultShowcaseRuns_def unused_def NewMemory_def log_of_def snapshots_of_def get_or_def)
  show ?thesis
    using half_provisioned_showcase_stays [OF modular_picks_ok NewMemory_wf r(1,2), of "StoreFailure ''disk full''" "\<lambda>_ _. 1 / 2" "\<lambda>_. (5, 0)"] r(3)
    by auto
qed

end
