(* ===== verification/Conformance.thy ===== *)
theory Conformance
  imports Store_Interface
begin

text \<open>
  The conformance suite of the stores (\<open>internal/store/storetest/suite.go\<close>): every check as a bool-valued
  function of a store, true when the Go test reports no failure.  A store is a record of operations
  over a database; \<open>suite_ops\<close> adds to those of the services the reads that replay uses and \<open>Ping\<close>.
  \<open>clock n\<close> is the \<open>n\<close>-th reading of the clock a check makes, in the order of the code.  The fields
  of a row that a check never looks at are written down all the same.
\<close>

record 'db suite_ops = "'db store_ops" +
  opEvents :: "string \<Rightarrow> int \<Rightarrow> int \<Rightarrow> 'db \<Rightarrow> store_error + stored_event list"
  opLatestSequence :: "string \<Rightarrow> 'db \<Rightarrow> store_error + nat"
  opSnapshotAtOrBefore :: "string \<Rightarrow> int \<Rightarrow> 'db \<Rightarrow> store_error + stored_snapshot"
  opPing :: "'db \<Rightarrow> store_error + unit"

definition memory_suite :: "memory suite_ops" where
  \<comment> \<open>the suite asks for no negative limit, on which \<open>Events\<close> would panic\<close>
  "memory_suite = store_ops.extend memory_ops (suite_ops.fields
     (\<lambda>i from_seq limit m. case Events i from_seq limit m of None \<Rightarrow> Inl (StoreFailure ''negative limit'') | Some es \<Rightarrow> Inr es)
     (\<lambda>i m. Inr (LatestSequence i m)) SnapshotAtOrBefore (\<lambda>m. Inr ()))"

type_synonym 'db check = "'db suite_ops \<Rightarrow> (nat \<Rightarrow> timestamp) \<Rightarrow> 'db \<Rightarrow> bool"

subsection \<open>Steps of a check\<close>

definition reads :: "store_error + 'a \<Rightarrow> ('a \<Rightarrow> bool) \<Rightarrow> bool" where
  \<comment> \<open>an error fails the check\<close>
  "reads r k = (case r of Inl e \<Rightarrow> False | Inr x \<Rightarrow> k x)"

definition writes :: "(store_error + unit) \<times> 'db \<Rightarrow> ('db \<Rightarrow> bool) \<Rightarrow> bool" where
  "writes r k = (case r of (Inl e, db) \<Rightarrow> False | (Inr _, db) \<Rightarrow> k db)"

definition missing :: "store_error + 'a \<Rightarrow> bool" where
  \<comment> \<open>\<open>errors.Is(err, store.ErrNotFound)\<close>\<close>
  "missing r \<longleftrightarrow> r = Inl StoreNotFound"

definition truncate_ms :: "timestamp \<Rightarrow> timestamp" where
  "truncate_ms t = t div 1000000 * 1000000"

definition Second :: int where "Second = 10 ^ 9"
definition A_minute :: int where "A_minute = 60 * Second"
definition An_hour :: int where "An_hour = 60 * A_minute"

definition suite_row :: "string \<Rightarrow> timestamp \<Rightarrow> simulation_row" where
  "suite_row i now = \<lparr>srID = i, srSeed = 42, srDrivers = 12, srStrategy = ''baseline'', srCreatedAt = truncate_ms now,
     srCompletedAt = None, srShowcase = False, srGuestToken = '''', srExpiresAt = None\<rparr>"

definition seedSimulation :: "'db suite_ops \<Rightarrow> string \<Rightarrow> timestamp \<Rightarrow> 'db \<Rightarrow> ('db \<Rightarrow> bool) \<Rightarrow> bool" where
  "seedSimulation st i now db k = writes (opCreateSimulation st (suite_row i now) db) k"

definition suite_event :: "string \<Rightarrow> nat \<Rightarrow> event_type \<Rightarrow> string \<Rightarrow> timestamp \<Rightarrow> stored_event" where
  \<comment> \<open>\<open>event\<close>; the fourth argument is the string of the type\<close>
  "suite_event i n t name now = \<lparr>seSimulationID = i, seSequence = n, seVirtualTime = real n * (1 / 2), seType = t,
     sePayload = Raw (JObj [(''seq'', JNum (real n))]), seTraceID = ''trace-'' @ name, seRecordedAt = now\<rparr>"

definition suite_snapshot :: "string \<Rightarrow> nat \<Rightarrow> timestamp \<Rightarrow> stored_snapshot" where
  "suite_snapshot i n now = \<lparr>ssSimulationID = i, ssSequence = n, ssVirtualTime = real n,
     ssPayload = Raw (JObj [(''atSequence'', JNum (real n))]), ssRecordedAt = now\<rparr>"

definition json_key :: "string \<Rightarrow> raw_message \<Rightarrow> json option option" where
  \<comment> \<open>\<open>Unmarshal\<close> into a map and index it: \<open>None\<close> when it does not decode, \<open>Some None\<close> when the key is absent\<close>
  "json_key k raw = map_option (\<lambda>kvs. map_of (rev kvs) k) (Option.bind (unmarshal raw) as_object)"

definition suite_session :: "string \<Rightarrow> timestamp \<Rightarrow> timestamp \<Rightarrow> timestamp \<Rightarrow> guest_session" where
  "suite_session token created seen expires = \<lparr>gsToken = token, gsCreatedAt = truncate_ms created,
     gsLastSeenAt = truncate_ms seen, gsExpiresAt = truncate_ms expires\<rparr>"

definition seedSession :: "'db suite_ops \<Rightarrow> string \<Rightarrow> timestamp \<Rightarrow> timestamp \<Rightarrow> timestamp \<Rightarrow> 'db \<Rightarrow> (guest_session \<Rightarrow> 'db \<Rightarrow> bool) \<Rightarrow> bool" where
  "seedSession st token created seen expires db k =
     (let g = suite_session token created seen expires in writes (opCreateGuestSession st g db) (k g))"

definition ownedSimulation :: "'db suite_ops \<Rightarrow> string \<Rightarrow> string \<Rightarrow> timestamp option \<Rightarrow> timestamp \<Rightarrow> 'db \<Rightarrow> ('db \<Rightarrow> bool) \<Rightarrow> bool" where
  "ownedSimulation st i token expires now db k =
     writes (opCreateSimulation st \<lparr>srID = i, srSeed = 7, srDrivers = 4, srStrategy = ''baseline'', srCreatedAt = now,
       srCompletedAt = None, srShowcase = False, srGuestToken = token, srExpiresAt = expires\<rparr> db) k"

subsection \<open>Simulations\<close>

definition testSimulationRoundTrip :: "'db check" where
  "testSimulationRoundTrip st clock db =
     (let want = suite_row ''sim-round-trip'' (clock 0)
      in seedSimulation st ''sim-round-trip'' (clock 0) db (\<lambda>db.
         reads (opGetSimulation st (srID want) db) (\<lambda>got.
           srID got = srID want \<and> srSeed got = srSeed want \<and> srDrivers got = srDrivers want \<and> srStrategy got = srStrategy want \<and>
           \<not> srShowcase got \<and> srCompletedAt got = None \<and>
           writes (opCreateSimulation st (want\<lparr>srSeed := 99\<rparr>) db) (\<lambda>db.
             reads (opGetSimulation st (srID want) db) (\<lambda>got. srSeed got = srSeed want)))))"

definition testMissingRowsReportNotFound :: "'db check" where
  "testMissingRowsReportNotFound st clock db \<longleftrightarrow>
     missing (opGetSimulation st ''nope'' db) \<and> missing (opGetComparison st ''nope'' db) \<and>
     missing (opSnapshotAtOrBefore st ''nope'' 100 db) \<and> missing (fst (opMarkShowcase st ''nope'' (clock 0) db)) \<and>
     reads (opEvents st ''nope'' 0 10 db) (\<lambda>events. events = []) \<and>
     reads (opLatestSequence st ''nope'' db) (\<lambda>n. n = 0)"

definition testMarkShowcase :: "'db check" where
  "testMarkShowcase st clock db =
     seedSimulation st ''sim-showcase'' (clock 0) db (\<lambda>db.
       let completed = truncate_ms (clock 1) in
       writes (opMarkShowcase st ''sim-showcase'' completed db) (\<lambda>db.
         reads (opGetSimulation st ''sim-showcase'' db) (\<lambda>got. srShowcase got \<and> srCompletedAt got = Some completed)))"

subsection \<open>Events\<close>

definition numbered_from_one :: "stored_event list \<Rightarrow> bool" where
  \<comment> \<open>\<open>e.Sequence != i+1\<close> for no \<open>i\<close>\<close>
  "numbered_from_one es \<longleftrightarrow> map seSequence es = [1..<length es + 1]"

definition testEventsAreOrderedAndPaged :: "'db check" where
  "testEventsAreOrderedAndPaged st clock db =
     (let i = ''sim-events'';
          batch = [suite_event i 3 EventOrderAssigned ''order.assigned'' (clock 1),
                   suite_event i 1 EventSimulationSnapshot ''simulation.snapshot'' (clock 2),
                   suite_event i 2 EventOrderPlaced ''order.placed'' (clock 3),
                   suite_event i 4 EventDriverPositionUpdate ''driver.position.updated'' (clock 4)]
      in seedSimulation st i (clock 0) db (\<lambda>db.
         writes (opAppendEvents st batch db) (\<lambda>db.
         reads (opEvents st i 0 100 db) (\<lambda>all_events.
           length all_events = 4 \<and> numbered_from_one all_events \<and>
           seType (all_events ! 1) = EventOrderPlaced \<and> seVirtualTime (all_events ! 1) = 1 \<and>
           take 6 (seTraceID (all_events ! 1)) = ''trace-'' \<and>
           json_key ''seq'' (sePayload (all_events ! 1)) = Some (Some (JNum 2)) \<and>
           reads (opEvents st i 2 2 db) (\<lambda>page. map seSequence page = [3, 4] \<and>
           reads (opEvents st i 4 10 db) (\<lambda>rest. rest = []))))))"

definition testAppendIsIdempotent :: "'db check" where
  "testAppendIsIdempotent st clock db =
     (let i = ''sim-idempotent'';
          batch = [suite_event i 1 EventOrderPlaced ''order.placed'' (clock 1),
                   suite_event i 2 EventOrderAssigned ''order.assigned'' (clock 2)];
          again = batch @ [suite_event i 3 EventOrderDelivered ''order.delivered'' (clock 3)]
      in seedSimulation st i (clock 0) db (\<lambda>db.
         writes (opAppendEvents st batch db) (\<lambda>db.
         writes (opAppendEvents st again db) (\<lambda>db.
         reads (opEvents st i 0 100 db) (\<lambda>all_events. length all_events = 3 \<and>
           writes (opAppendEvents st [] db) (\<lambda>_. True))))))"

definition testLatestSequence :: "'db check" where
  "testLatestSequence st clock db =
     (let i = ''sim-latest''
      in seedSimulation st i (clock 0) db (\<lambda>db.
         reads (opLatestSequence st i db) (\<lambda>n. n = 0 \<and>
         writes (opAppendEvents st [suite_event i 1 EventOrderPlaced ''order.placed'' (clock 1),
             suite_event i 7 EventOrderDelivered ''order.delivered'' (clock 2),
             suite_event i 4 EventOrderAssigned ''order.assigned'' (clock 3)] db) (\<lambda>db.
           reads (opLatestSequence st i db) (\<lambda>n. n = 7)))))"

definition writer_batch :: "string \<Rightarrow> (nat \<Rightarrow> timestamp) \<Rightarrow> nat \<Rightarrow> stored_event list" where
  \<comment> \<open>the 25 events of writer \<open>w\<close>\<close>
  "writer_batch i clock w = map (\<lambda>n. suite_event i (w * 25 + n + 1) EventDriverPositionUpdate ''driver.position.updated''
     (clock (w * 25 + n + 1))) [0..<25]"

fun append_all :: "'db suite_ops \<Rightarrow> (nat \<Rightarrow> stored_event list) \<Rightarrow> nat list \<Rightarrow> 'db \<Rightarrow> (store_error + unit) \<times> 'db" where
  \<comment> \<open>every writer appends; the first error is reported\<close>
  "append_all st batch [] db = (Inr (), db)"
| "append_all st batch (w # ws) db =
     (let (r1, db1) = opAppendEvents st (batch w) db; (r2, db2) = append_all st batch ws db1
      in (if r1 = Inr () then r2 else r1, db2))"

definition testConcurrentAppendsAreVisible :: "nat list \<Rightarrow> 'db check" where
  \<comment> \<open>\<open>AppendEvents\<close> is one step of a store, so the four writers append in some \<open>order\<close>\<close>
  "testConcurrentAppendsAreVisible order st clock db =
     seedSimulation st ''sim-concurrent'' (clock 0) db (\<lambda>db.
       writes (append_all st (writer_batch ''sim-concurrent'' clock) order db) (\<lambda>db.
         reads (opEvents st ''sim-concurrent'' 0 1000 db) (\<lambda>all_events. length all_events = 4 * 25 \<and> numbered_from_one all_events)))"

subsection \<open>Snapshots and comparisons\<close>

fun save_all :: "'db suite_ops \<Rightarrow> stored_snapshot list \<Rightarrow> 'db \<Rightarrow> ('db \<Rightarrow> bool) \<Rightarrow> bool" where
  "save_all st [] db k = k db"
| "save_all st (x # xs) db k = writes (opSaveSnapshot st x db) (\<lambda>db. save_all st xs db k)"

definition testSnapshotAtOrBefore :: "'db check" where
  "testSnapshotAtOrBefore st clock db =
     (let i = ''sim-snapshots''
      in seedSimulation st i (clock 0) db (\<lambda>db.
         save_all st [suite_snapshot i 1 (clock 1), suite_snapshot i 50 (clock 2), suite_snapshot i 100 (clock 3)] db (\<lambda>db.
           list_all (\<lambda>(target, want). reads (opSnapshotAtOrBefore st i target db) (\<lambda>got.
               ssSequence got = want \<and> ssVirtualTime got = real want))
             [(1, 1), (49, 1), (50, 50), (99, 50), (100, 100), (5000, 100)] \<and>
           missing (opSnapshotAtOrBefore st i 0 db))))"

definition testSnapshotUpsert :: "'db check" where
  "testSnapshotUpsert st clock db =
     (let i = ''sim-snapshot-upsert''; x = suite_snapshot i 10 (clock 1);
          y = x\<lparr>ssPayload := Raw (JObj [(''atSequence'', JNum 10), (''rewritten'', JBool True)])\<rparr>
      in seedSimulation st i (clock 0) db (\<lambda>db.
         save_all st [x, y] db (\<lambda>db.
           reads (opSnapshotAtOrBefore st i 10 db) (\<lambda>got. json_key ''rewritten'' (ssPayload got) = Some (Some (JBool True))))))"

definition testComparisonRoundTrip :: "'db check" where
  "testComparisonRoundTrip st clock db =
     (let want = \<lparr>crID = ''cmp-1'', crSeed = 42, crDrivers = 12,
          crResult = Raw (JObj [(''baseline'', JObj [(''completedDeliveries'', JNum 18)])]), crCreatedAt = truncate_ms (clock 0)\<rparr>
      in writes (opSaveComparison st want db) (\<lambda>db.
         reads (opGetComparison st (crID want) db) (\<lambda>got.
           crID got = crID want \<and> crSeed got = crSeed want \<and> crDrivers got = crDrivers want \<and>
           (case json_key ''baseline'' (crResult got) of Some (Some _) \<Rightarrow> True | _ \<Rightarrow> False))))"

subsection \<open>Sessions, ownership and purging\<close>

definition testGuestSessionRoundTrip :: "'db check" where
  "testGuestSessionRoundTrip st clock db =
     seedSession st ''token-round-trip'' (clock 1) (clock 2) (clock 0 + An_hour) db (\<lambda>want db.
       reads (opGetGuestSession st (gsToken want) db) (\<lambda>got.
         gsToken got = gsToken want \<and> gsExpiresAt got = gsExpiresAt want \<and>
         \<not> Expired got (clock 3) \<and> Expired got (gsExpiresAt want + Second) \<and>
         missing (opGetGuestSession st ''nope'' db)))"

definition testTouchExtendsASession :: "'db check" where
  "testTouchExtendsASession st clock db =
     seedSession st ''token-touch'' (clock 1) (clock 2) (clock 0 + A_minute) db (\<lambda>g db.
       let extended = gsExpiresAt g + An_hour; seen = truncate_ms (clock 3 + Second) in
       writes (opTouchGuestSession st (gsToken g) seen extended db) (\<lambda>db.
         reads (opGetGuestSession st (gsToken g) db) (\<lambda>got. gsExpiresAt got = extended \<and> gsLastSeenAt got = seen \<and>
           missing (fst (opTouchGuestSession st ''nope'' seen extended db)))))"

definition testSimulationOwnership :: "'db check" where
  "testSimulationOwnership st clock db =
     seedSession st ''token-mine'' (clock 1) (clock 2) (clock 0 + An_hour) db (\<lambda>mine db.
     seedSession st ''token-theirs'' (clock 4) (clock 5) (clock 3 + An_hour) db (\<lambda>theirs db.
       ownedSimulation st ''sim-mine-1'' (gsToken mine) None (clock 6) db (\<lambda>db.
       ownedSimulation st ''sim-mine-2'' (gsToken mine) None (clock 7) db (\<lambda>db.
       ownedSimulation st ''sim-theirs-1'' (gsToken theirs) None (clock 8) db (\<lambda>db.
         reads (opGetSimulation st ''sim-mine-1'' db) (\<lambda>got. srGuestToken got = gsToken mine \<and>
         reads (opCountSimulationsForToken st (gsToken mine) db) (\<lambda>count. count = 2 \<and>
         reads (opCountSimulationsForToken st ''token-with-nothing'' db) (\<lambda>count. count = 0))))))))"

definition testPurgeRemovesExpiredRuns :: "'db check" where
  "testPurgeRemovesExpiredRuns st clock db =
     (let now = clock 0 in
     seedSession st ''token-live'' (clock 1) (clock 2) (now + An_hour) db (\<lambda>live db.
     seedSession st ''token-dead'' (clock 3) (clock 4) (now - An_hour) db (\<lambda>dead db.
       ownedSimulation st ''sim-expired'' (gsToken dead) (Some (now - A_minute)) (clock 5) db (\<lambda>db.
       ownedSimulation st ''sim-still-good'' (gsToken live) (Some (now + An_hour)) (clock 6) db (\<lambda>db.
         writes (opAppendEvents st [suite_event ''sim-expired'' 1 EventOrderPlaced ''order.placed'' (clock 7)] db) (\<lambda>db.
         let (r, db) = opPurgeExpired st now db in
         reads r (\<lambda>result. prSimulations result = 1 \<and> prSessions result = 1) \<and>
         missing (opGetSimulation st ''sim-expired'' db) \<and> reads (opGetSimulation st ''sim-still-good'' db) (\<lambda>_. True) \<and>
         missing (opGetGuestSession st (gsToken dead) db) \<and> reads (opGetGuestSession st (gsToken live) db) (\<lambda>_. True) \<and>
         reads (opEvents st ''sim-expired'' 0 10 db) (\<lambda>events. events = [])))))))"

definition testPurgeSparesShowcaseRuns :: "'db check" where
  "testPurgeSparesShowcaseRuns st clock db =
     (let now = clock 0 in
     seedSession st ''token-showcase'' (clock 1) (clock 2) (now - An_hour) db (\<lambda>g db.
       ownedSimulation st ''sim-showcase'' (gsToken g) (Some (now - A_minute)) (clock 3) db (\<lambda>db.
         writes (opMarkShowcase st ''sim-showcase'' now db) (\<lambda>db.
         let (r, db) = opPurgeExpired st now db in
         reads r (\<lambda>_. True) \<and> reads (opGetSimulation st ''sim-showcase'' db) (\<lambda>got. srGuestToken got = '''')))))"

definition testPingReportsReachable :: "'db check" where
  "testPingReportsReachable st clock db = reads (opPing st db) (\<lambda>_. True)"

definition conformance_checks :: "nat list \<Rightarrow> (string \<times> 'db check) list" where
  \<comment> \<open>the table of \<open>Run\<close>; \<open>order\<close> is the order of the concurrent writers\<close>
  "conformance_checks order =
     [(''SimulationRoundTrip'', testSimulationRoundTrip), (''MissingRowsReportNotFound'', testMissingRowsReportNotFound),
      (''MarkShowcase'', testMarkShowcase), (''EventsAreOrderedAndPaged'', testEventsAreOrderedAndPaged),
      (''AppendIsIdempotent'', testAppendIsIdempotent), (''LatestSequence'', testLatestSequence),
      (''SnapshotAtOrBefore'', testSnapshotAtOrBefore), (''SnapshotUpsert'', testSnapshotUpsert),
      (''ComparisonRoundTrip'', testComparisonRoundTrip), (''ConcurrentAppendsAreVisible'', testConcurrentAppendsAreVisible order),
      (''PingReportsReachable'', testPingReportsReachable), (''GuestSessionRoundTrip'', testGuestSessionRoundTrip),
      (''TouchExtendsASession'', testTouchExtendsASession), (''SimulationOwnership'', testSimulationOwnership),
      (''PurgeRemovesExpiredRuns'', testPurgeRemovesExpiredRuns), (''PurgeSparesShowcaseRuns'', testPurgeSparesShowcaseRuns)]"

definition run_suite :: "nat list \<Rightarrow> 'db suite_ops \<Rightarrow> (nat \<Rightarrow> timestamp) \<Rightarrow> 'db \<Rightarrow> (string \<times> bool) list" where
  \<comment> \<open>each check on a store of its own, fresh from the factory\<close>
  "run_suite order st clock fresh = map (\<lambda>(name, test). (name, test st clock fresh)) (conformance_checks order)"

subsection \<open>The in-memory store passes\<close>

lemma memory_suite_simps [simp]:
  "opCreateGuestSession memory_suite g m = (Inr (), CreateGuestSession g m)"
  "opGetGuestSession memory_suite = GetGuestSession"
  "opTouchGuestSession memory_suite token seen expires m = memory_or m (TouchGuestSession token seen expires m)"
  "opCreateSimulation memory_suite row m = (Inr (), CreateSimulation row m)"
  "opGetSimulation memory_suite = GetSimulation"
  "opCountSimulationsForToken memory_suite token m = Inr (CountSimulationsForToken token m)"
  "opPurgeExpired memory_suite now m = (Inr (fst (PurgeExpired now m)), snd (PurgeExpired now m))"
  "opMarkShowcase memory_suite i t m = memory_or m (MarkShowcase i t m)"
  "opAppendEvents memory_suite es m = (Inr (), AppendEvents es m)"
  "opSaveSnapshot memory_suite x m = (Inr (), SaveSnapshot x m)"
  "opSaveComparison memory_suite c m = (Inr (), SaveComparison c m)"
  "opGetComparison memory_suite = GetComparison"
  "opLatestSequence memory_suite i m = Inr (LatestSequence i m)"
  "opSnapshotAtOrBefore memory_suite = SnapshotAtOrBefore" "opPing memory_suite m = Inr ()"
  "0 \<le> limit \<Longrightarrow> opEvents memory_suite i n limit m = Inr (collect_events n limit [] (get_or [] (mEvents m) i))"
  by (simp_all add: memory_suite_def memory_ops_def store_ops.defs suite_ops.defs Events_def)

lemma step_simps [simp]:
  "reads (Inr x) k = k x" "writes (Inr u, db) k = k db"
  by (simp_all add: reads_def writes_def)

text \<open>A check is evaluated step by step: the result of an operation first, what follows it later.\<close>

lemma in_order:
  "r = r' \<Longrightarrow> reads r k = reads r' k" "w = w' \<Longrightarrow> writes w h = writes w' h"
  "db = db' \<Longrightarrow> seedSession st token c s e db f = seedSession st token c s e db' f"
  "db = db' \<Longrightarrow> ownedSimulation st i token x n db h = ownedSimulation st i token x n db' h"
  "db = db' \<Longrightarrow> seedSimulation st i n db h = seedSimulation st i n db' h"
  by simp_all

lemmas suite_tables = NewMemory_def seedSimulation_def CreateSimulation_def GetSimulation_def lookup_row_def suite_row_def
  memory_or_def MarkShowcase_def missing_def Let_def

lemma passes_rows:
  "testSimulationRoundTrip memory_suite clock NewMemory" "testMarkShowcase memory_suite clock NewMemory"
  "testMissingRowsReportNotFound memory_suite clock NewMemory" "testPingReportsReachable memory_suite clock NewMemory"
  by (simp_all add: testSimulationRoundTrip_def testMarkShowcase_def testMissingRowsReportNotFound_def testPingReportsReachable_def
      suite_tables GetComparison_def SnapshotAtOrBefore_def LatestSequence_def get_or_def)

lemma truncate_ms_bounds: "t - 1000000 < truncate_ms t" "truncate_ms t \<le> t"
  unfolding truncate_ms_def by linarith+

lemma passes_sessions:
  assumes "\<forall>n. t0 \<le> clock n \<and> clock n < t0 + A_minute"
  shows "testGuestSessionRoundTrip memory_suite clock NewMemory" "testTouchExtendsASession memory_suite clock NewMemory"
proof -
  have "clock 3 < clock 0 + A_minute" using assms [rule_format, of 0] assms [rule_format, of 3] by linarith
  then have "clock 3 < truncate_ms (clock 0 + An_hour)"
    using truncate_ms_bounds [of "clock 0 + An_hour"] by (simp add: An_hour_def A_minute_def Second_def)
  then show "testGuestSessionRoundTrip memory_suite clock NewMemory" "testTouchExtendsASession memory_suite clock NewMemory"
    by (simp_all add: testGuestSessionRoundTrip_def testTouchExtendsASession_def seedSession_def suite_session_def CreateGuestSession_def
        GetGuestSession_def TouchGuestSession_def Expired_def Second_def suite_tables)
qed

lemmas suite_sessions = seedSession_def suite_session_def CreateGuestSession_def GetGuestSession_def ownedSimulation_def

lemma passes_ownership: "testSimulationOwnership memory_suite clock NewMemory"
  by (simp add: testSimulationOwnership_def CountSimulationsForToken_def suite_sessions suite_tables cong: in_order)

lemma passes_snapshots:
  "testSnapshotAtOrBefore memory_suite clock NewMemory" "testSnapshotUpsert memory_suite clock NewMemory"
  "testComparisonRoundTrip memory_suite clock NewMemory"
  by (simp_all add: testSnapshotAtOrBefore_def testSnapshotUpsert_def testComparisonRoundTrip_def suite_snapshot_def SaveSnapshot_def
      SnapshotAtOrBefore_def SaveComparison_def GetComparison_def json_key_def unmarshal_def get_or_def suite_tables cong: in_order)

lemma passes_events:
  "testEventsAreOrderedAndPaged memory_suite clock NewMemory" "testAppendIsIdempotent memory_suite clock NewMemory"
  "testLatestSequence memory_suite clock NewMemory"
  by (simp_all add: testEventsAreOrderedAndPaged_def testAppendIsIdempotent_def testLatestSequence_def suite_event_def AppendEvents_def
      append_event_def LatestSequence_def numbered_from_one_def json_key_def unmarshal_def get_or_def suite_tables cong: in_order)

lemma spans_positive [simp]: "0 < A_minute" "0 < An_hour" "\<not> A_minute < 0"
  by (simp_all add: An_hour_def A_minute_def Second_def)

lemma truncated_expiry [simp]: "t < truncate_ms (t + An_hour)" "\<not> t < truncate_ms (t - An_hour)"
  using truncate_ms_bounds [of "t + An_hour"] truncate_ms_bounds [of "t - An_hour"]
  by (simp_all add: An_hour_def A_minute_def Second_def)

lemma passes_purge:
  "testPurgeRemovesExpiredRuns memory_suite clock NewMemory" "testPurgeSparesShowcaseRuns memory_suite clock NewMemory"
  by (simp_all add: testPurgeRemovesExpiredRuns_def testPurgeSparesShowcaseRuns_def PurgeExpired_def purge_simulation_def purge_session_def
      Expired_def suite_event_def AppendEvents_def append_event_def get_or_def suite_sessions suite_tables cong: in_order let_weak_cong)

subsection \<open>Concurrent writers\<close>

lemma offered_own: "\<forall>e \<in> set es. seSimulationID e = i \<Longrightarrow> offered i n es = event_at es n"
  by (induction es) (auto simp: offered_def event_at_def)

lemma appended_sequences:
  assumes "memory_wf m" "\<forall>e \<in> set es. seSimulationID e = i"
  shows "seSequence ` set (log_of (AppendEvents es m) i) = seSequence ` set (log_of m i) \<union> seSequence ` set es"
proof -
  have "n \<in> seSequence ` set (log_of (AppendEvents es m) i) \<longleftrightarrow> n \<in> seSequence ` set (log_of m i) \<or> n \<in> seSequence ` set es" for n
    using event_at_None [of "log_of (AppendEvents es m) i" n] event_at_None [of "log_of m i" n] event_at_None [of es n]
    unfolding AppendEvents_spec(2) [OF assms(1)] offered_own [OF assms(2)] by (auto simp: first_some_def split: option.splits)
  then show ?thesis by blast
qed

lemma append_all_sequences:
  assumes "\<And>w. \<forall>e \<in> set (batch w). seSimulationID e = i"
  shows "memory_wf m \<Longrightarrow> \<exists>m'. append_all memory_suite batch order m = (Inr (), m') \<and> memory_wf m' \<and>
    seSequence ` set (log_of m' i) = seSequence ` set (log_of m i) \<union> (\<Union>w \<in> set order. seSequence ` set (batch w))"
proof (induction order arbitrary: m)
  case (Cons w order)
  obtain m' where "append_all memory_suite batch order (AppendEvents (batch w) m) = (Inr (), m')" "memory_wf m'"
    "seSequence ` set (log_of m' i) = seSequence ` set (log_of (AppendEvents (batch w) m) i) \<union> (\<Union>w \<in> set order. seSequence ` set (batch w))"
    using Cons.IH [OF AppendEvents_spec(1) [OF Cons.prems, of "batch w"]] by blast
  then show ?case using appended_sequences [OF Cons.prems assms] by (simp add: Un_assoc)
qed simp

lemma writer_batches:
  "\<forall>e \<in> set (writer_batch i clock w). seSimulationID e = i"
  "(\<Union>w \<in> {0..<4}. seSequence ` set (writer_batch i clock w)) = {1..<101}"
proof -
  have "\<exists>w \<in> {0..<4}. \<exists>k \<in> {0..<25}. n = w * 25 + k + 1" if "n \<in> {1..<101}" for n :: nat
  proof -
    have "n = (n - 1) div 25 * 25 + (n - 1) mod 25 + 1" "(n - 1) div 25 \<in> {0..<4}" "(n - 1) mod 25 \<in> {0..<25}" using that by auto
    then show ?thesis by blast
  qed
  moreover have "seSequence ` set (writer_batch i clock w) = (\<lambda>k. w * 25 + k + 1) ` {0..<25}" for w
    unfolding writer_batch_def set_map set_upt image_image by (simp only: suite_event_def stored_event.simps)
  moreover have "w * 25 + k + 1 \<in> {1..<101}" if "w \<in> {0..<4}" "k \<in> {0..<25}" for w k :: nat using that by simp
  ultimately show "(\<Union>w \<in> {0..<4}. seSequence ` set (writer_batch i clock w)) = {1..<101}"
    by (intro set_eqI iffI) (simp only: UN_iff image_iff; blast)+
qed (auto simp: writer_batch_def suite_event_def)

lemma numbered: "sorted xs \<Longrightarrow> distinct xs \<Longrightarrow> set xs = {1..<k} \<Longrightarrow> xs = [1..<k]"
  by (rule sorted_distinct_set_unique) simp_all

lemma passes_concurrent:
  assumes "set order = {0..<4}"
  shows "testConcurrentAppendsAreVisible order memory_suite clock NewMemory"
proof -
  let ?i = "''sim-concurrent''"
  let ?m = "CreateSimulation (suite_row ?i (clock 0)) NewMemory"
  have wf: "memory_wf ?m" and log: "log_of ?m ?i = []"
    using NewMemory_wf by (auto simp: CreateSimulation_def memory_wf_def NewMemory_def log_of_def snapshots_of_def get_or_def)
  obtain m' where m': "append_all memory_suite (writer_batch ?i clock) order ?m = (Inr (), m')" "memory_wf m'"
      "seSequence ` set (log_of m' ?i) = {1..<101}"
    using append_all_sequences [of "writer_batch ?i clock" ?i, OF writer_batches(1) wf, of order] assms writer_batches(2) [of ?i clock]
    by (auto simp: log)
  have ok: "log_ok (log_of m' ?i)" by (rule memory_wfD(1) [OF m'(2)])
  have seqs: "map seSequence (log_of m' ?i) = [1..<101]" by (rule numbered) (use ok m'(3) in \<open>auto simp: log_ok_def\<close>)
  have len: "length (log_of m' ?i) = 100" using arg_cong [OF seqs, of length] unfolding length_map length_upt by simp
  have from_one: "numbered_from_one (log_of m' ?i)" unfolding numbered_from_one_def len seqs by (simp del: upt_rec_numeral)
  have "0 < seSequence e" if "e \<in> set (log_of m' ?i)" for e
  proof -
    have "seSequence e \<in> {1..<101}" using that m'(3) by blast
    then show ?thesis by simp
  qed
  then have "events_after 0 (log_of m' ?i) = log_of m' ?i" by (simp add: filter_id_conv)
  then have "collect_events 0 1000 [] (log_of m' ?i) = log_of m' ?i"
    using collect_events_take [of 1000 "[]" 0 "log_of m' ?i"] len by simp
  then show ?thesis
    using m'(1) len from_one by (simp add: testConcurrentAppendsAreVisible_def seedSimulation_def log_of_def cong: in_order)
qed

text \<open>
  C37.  The in-memory store passes its conformance suite: every check reports success on a fresh store,
  whatever the clock shows as long as the check takes less than a minute, and in whatever order the
  concurrent writers get their turn.
\<close>

theorem memory_store_conforms:
  assumes "\<forall>n. t0 \<le> clock n \<and> clock n < t0 + A_minute" and "set order = {0..<4}"
  shows "\<forall>(name, passed) \<in> set (run_suite order memory_suite clock NewMemory). passed"
  using passes_rows [of clock] passes_events [of clock] passes_snapshots [of clock] passes_sessions [OF assms(1)]
    passes_ownership [of clock] passes_purge [of clock] passes_concurrent [OF assms(2), of clock]
  by (simp add: run_suite_def conformance_checks_def)

theorem memory_store_conforms_witness:
  "(''AppendIsIdempotent'', True) \<in> set (run_suite [2, 0, 3, 1] memory_suite (\<lambda>n. 1000 * int (n mod 5)) NewMemory)"
proof -
  let ?run = "run_suite [2, 0, 3, 1] memory_suite (\<lambda>n. 1000 * int (n mod 5)) NewMemory"
  have "\<forall>n. 0 \<le> 1000 * int (n mod 5) \<and> 1000 * int (n mod 5) < 0 + A_minute"
    by (auto simp: A_minute_def Second_def)
  moreover have "set [2, 0, 3, 1] = {0..<4::nat}" by auto
  ultimately have "\<forall>(name, passed) \<in> set ?run. passed" by (rule memory_store_conforms)
  moreover have "\<exists>b. (''AppendIsIdempotent'', b) \<in> set ?run" by (auto simp: run_suite_def conformance_checks_def)
  ultimately show ?thesis by fastforce
qed

end
