(* ===== verification/Metrics.thy ===== *)
theory Metrics
  imports Prelude "HOL-Library.Word"
begin

text \<open>
  The metric set and its exposition (\<open>internal/telemetry/metrics.go\<close>).  A pointer to a metric is its
  position in the registry's list, a nil pointer or a nil \<open>*Metrics\<close> is \<open>None\<close>.  The compare-and-swap
  loops make each update one step.  Bucket counts and totals are \<open>uint64\<close> and wrap.  How a
  \<open>float64\<close> is printed (\<open>strconv.FormatFloat\<close>) is the parameter \<open>fmt\<close>.
\<close>

subsection \<open>Counters, gauges and histograms\<close>

record counter =
  ctName :: string
  ctHelp :: string
  ctBits :: real

record gauge =
  ggName :: string
  ggHelp :: string
  ggBits :: real

record histogram =
  hsName :: string
  hsHelp :: string
  hsBounds :: "real list"
  hsCounts :: "64 word list"
  hsSum :: real
  hsTotal :: "64 word"

definition latencyBucketsMs :: "real list" where
  "latencyBucketsMs = [1 / 10, 1 / 4, 1 / 2, 1, 5 / 2, 5, 10, 25, 50, 100, 250, 500, 1000]"

definition Counter_Add :: "real \<Rightarrow> counter \<Rightarrow> counter" where
  "Counter_Add delta c = (if delta < 0 then c else c\<lparr>ctBits := ctBits c + delta\<rparr>)"

definition Counter_Inc :: "counter \<Rightarrow> counter" where "Counter_Inc = Counter_Add 1"

definition Gauge_Set :: "real \<Rightarrow> gauge \<Rightarrow> gauge" where "Gauge_Set v g = g\<lparr>ggBits := v\<rparr>"

definition Gauge_Add :: "real \<Rightarrow> gauge \<Rightarrow> gauge" where "Gauge_Add delta g = g\<lparr>ggBits := ggBits g + delta\<rparr>"

definition Gauge_Inc :: "gauge \<Rightarrow> gauge" where "Gauge_Inc = Gauge_Add 1"

definition Gauge_Dec :: "gauge \<Rightarrow> gauge" where "Gauge_Dec = Gauge_Add (- 1)"

definition SearchFloat64s :: "real list \<Rightarrow> real \<Rightarrow> nat" where
  \<comment> \<open>the first index whose entry is not below \<open>v\<close>, or the length; the list is sorted\<close>
  "SearchFloat64s xs v = length (takeWhile (\<lambda>x. x < v) xs)"

definition Observe :: "real \<Rightarrow> histogram \<Rightarrow> histogram" where
  "Observe v h = (let i = SearchFloat64s (hsBounds h) v
     in h\<lparr>hsSum := hsSum h + v, hsTotal := hsTotal h + 1, hsCounts := (hsCounts h)[i := hsCounts h ! i + 1]\<rparr>)"

subsection \<open>The registry\<close>

record metric_set =
  mxActiveSimulations :: nat
  mxWebSocketClients :: nat
  mxRouteLatency :: nat
  mxMatchLatency :: nat
  mxDroppedUpdates :: nat
  mxPersistenceErrors :: nat
  mxEventsPersisted :: nat
  mxSnapshotsWritten :: nat
  mxCounters :: "counter list"
  mxGauges :: "gauge list"
  mxHistograms :: "histogram list"

definition new_counter :: "string \<Rightarrow> string \<Rightarrow> metric_set \<Rightarrow> nat \<times> metric_set" where
  "new_counter name help m = (length (mxCounters m), m\<lparr>mxCounters := mxCounters m @ [\<lparr>ctName = name, ctHelp = help, ctBits = 0\<rparr>]\<rparr>)"

definition new_gauge :: "string \<Rightarrow> string \<Rightarrow> metric_set \<Rightarrow> nat \<times> metric_set" where
  "new_gauge name help m = (length (mxGauges m), m\<lparr>mxGauges := mxGauges m @ [\<lparr>ggName = name, ggHelp = help, ggBits = 0\<rparr>]\<rparr>)"

definition new_histogram :: "string \<Rightarrow> string \<Rightarrow> metric_set \<Rightarrow> nat \<times> metric_set" where
  "new_histogram name help m = (length (mxHistograms m), m\<lparr>mxHistograms := mxHistograms m @
     [\<lparr>hsName = name, hsHelp = help, hsBounds = latencyBucketsMs, hsCounts = replicate (length latencyBucketsMs + 1) 0,
       hsSum = 0, hsTotal = 0\<rparr>]\<rparr>)"

definition NewMetrics :: metric_set where
  "NewMetrics =
     (let m = \<lparr>mxActiveSimulations = 0, mxWebSocketClients = 0, mxRouteLatency = 0, mxMatchLatency = 0, mxDroppedUpdates = 0,
            mxPersistenceErrors = 0, mxEventsPersisted = 0, mxSnapshotsWritten = 0, mxCounters = [], mxGauges = [], mxHistograms = []\<rparr>;
          (i1, m) = new_gauge ''dispatchlab_active_simulations'' ''Simulations currently running in this process.'' m;
          (i2, m) = new_gauge ''dispatchlab_websocket_clients'' ''WebSocket stream connections currently open.'' m;
          (i3, m) = new_histogram ''dispatchlab_route_compute_duration_ms'' ''Wall-clock duration of a single A* route computation.'' m;
          (i4, m) = new_histogram ''dispatchlab_match_compute_duration_ms''
            ''Wall-clock duration of one matching call (immediate assignment or one batch solve).'' m;
          (i5, m) = new_counter ''dispatchlab_dropped_updates_total'' ''Events dropped because a consumer could not keep up.'' m;
          (i6, m) = new_counter ''dispatchlab_persistence_errors_total'' ''Failed writes to the event or snapshot store.'' m;
          (i7, m) = new_counter ''dispatchlab_events_persisted_total'' ''Simulation events written to the store.'' m;
          (i8, m) = new_counter ''dispatchlab_snapshots_written_total'' ''Periodic snapshots written to the store.'' m
      in m\<lparr>mxActiveSimulations := i1, mxWebSocketClients := i2, mxRouteLatency := i3, mxMatchLatency := i4,
            mxDroppedUpdates := i5, mxPersistenceErrors := i6, mxEventsPersisted := i7, mxSnapshotsWritten := i8\<rparr>)"

type_synonym pointer = "nat option"

definition ActiveSimulations :: "metric_set option \<Rightarrow> pointer" where "ActiveSimulations = map_option mxActiveSimulations"
definition WebSocketClients :: "metric_set option \<Rightarrow> pointer" where "WebSocketClients = map_option mxWebSocketClients"
definition RouteLatency :: "metric_set option \<Rightarrow> pointer" where "RouteLatency = map_option mxRouteLatency"
definition MatchLatency :: "metric_set option \<Rightarrow> pointer" where "MatchLatency = map_option mxMatchLatency"
definition DroppedUpdates :: "metric_set option \<Rightarrow> pointer" where "DroppedUpdates = map_option mxDroppedUpdates"
definition PersistenceErrors :: "metric_set option \<Rightarrow> pointer" where "PersistenceErrors = map_option mxPersistenceErrors"
definition EventsPersisted :: "metric_set option \<Rightarrow> pointer" where "EventsPersisted = map_option mxEventsPersisted"
definition SnapshotsWritten :: "metric_set option \<Rightarrow> pointer" where "SnapshotsWritten = map_option mxSnapshotsWritten"

definition at_counter :: "(counter \<Rightarrow> counter) \<Rightarrow> pointer \<Rightarrow> metric_set option \<Rightarrow> metric_set option" where
  \<comment> \<open>a method called through a pointer; on nil it does nothing\<close>
  "at_counter f p mo = (case p of None \<Rightarrow> mo | Some i \<Rightarrow> map_option (\<lambda>m. m\<lparr>mxCounters := (mxCounters m)[i := f (mxCounters m ! i)]\<rparr>) mo)"

definition at_gauge :: "(gauge \<Rightarrow> gauge) \<Rightarrow> pointer \<Rightarrow> metric_set option \<Rightarrow> metric_set option" where
  "at_gauge f p mo = (case p of None \<Rightarrow> mo | Some i \<Rightarrow> map_option (\<lambda>m. m\<lparr>mxGauges := (mxGauges m)[i := f (mxGauges m ! i)]\<rparr>) mo)"

definition at_histogram :: "(histogram \<Rightarrow> histogram) \<Rightarrow> pointer \<Rightarrow> metric_set option \<Rightarrow> metric_set option" where
  "at_histogram f p mo = (case p of None \<Rightarrow> mo | Some i \<Rightarrow> map_option (\<lambda>m. m\<lparr>mxHistograms := (mxHistograms m)[i := f (mxHistograms m ! i)]\<rparr>) mo)"

definition Counter_Value :: "pointer \<Rightarrow> metric_set option \<Rightarrow> real" where
  "Counter_Value p mo = (case (p, mo) of (Some i, Some m) \<Rightarrow> ctBits (mxCounters m ! i) | _ \<Rightarrow> 0)"

definition Gauge_Value :: "pointer \<Rightarrow> metric_set option \<Rightarrow> real" where
  "Gauge_Value p mo = (case (p, mo) of (Some i, Some m) \<Rightarrow> ggBits (mxGauges m ! i) | _ \<Rightarrow> 0)"

definition Histogram_Count :: "pointer \<Rightarrow> metric_set option \<Rightarrow> 64 word" where
  "Histogram_Count p mo = (case (p, mo) of (Some i, Some m) \<Rightarrow> hsTotal (mxHistograms m ! i) | _ \<Rightarrow> 0)"

definition Histogram_Sum :: "pointer \<Rightarrow> metric_set option \<Rightarrow> real" where
  "Histogram_Sum p mo = (case (p, mo) of (Some i, Some m) \<Rightarrow> hsSum (mxHistograms m ! i) | _ \<Rightarrow> 0)"

subsection \<open>Exposition\<close>

definition newline :: string where "newline = [CHR 0x0A]"
definition quoted :: "string \<Rightarrow> string" where "quoted s = [CHR 0x22] @ s @ [CHR 0x22]"

definition writeHeader :: "string \<Rightarrow> string \<Rightarrow> string \<Rightarrow> string" where
  "writeHeader name help kind = ''# HELP '' @ name @ '' '' @ help @ newline @ ''# TYPE '' @ name @ '' '' @ kind @ newline"

definition bucket_line :: "string \<Rightarrow> string \<Rightarrow> 64 word \<Rightarrow> string" where
  "bucket_line name le n = name @ ''_bucket{le='' @ quoted le @ ''} '' @ show_nat (unat n) @ newline"

fun bucket_lines :: "(real \<Rightarrow> string) \<Rightarrow> string \<Rightarrow> 64 word \<Rightarrow> real list \<Rightarrow> 64 word list \<Rightarrow> string \<times> 64 word" where
  \<comment> \<open>the loop over the bounds, with the running \<open>cumulative\<close>\<close>
  "bucket_lines fmt name cumulative (b # bs) (n # ns) =
     (let (rest, final) = bucket_lines fmt name (cumulative + n) bs ns
      in (bucket_line name (fmt b) (cumulative + n) @ rest, final))"
| "bucket_lines fmt name cumulative bs ns = ('''', cumulative)"

definition counter_text :: "(real \<Rightarrow> string) \<Rightarrow> counter \<Rightarrow> string" where
  "counter_text fmt c = writeHeader (ctName c) (ctHelp c) ''counter'' @ ctName c @ '' '' @ fmt (ctBits c) @ newline"

definition gauge_text :: "(real \<Rightarrow> string) \<Rightarrow> gauge \<Rightarrow> string" where
  "gauge_text fmt g = writeHeader (ggName g) (ggHelp g) ''gauge'' @ ggName g @ '' '' @ fmt (ggBits g) @ newline"

definition histogram_text :: "(real \<Rightarrow> string) \<Rightarrow> histogram \<Rightarrow> string" where
  "histogram_text fmt h =
     (let (buckets, cumulative) = bucket_lines fmt (hsName h) 0 (hsBounds h) (hsCounts h)
      in writeHeader (hsName h) (hsHelp h) ''histogram'' @ buckets @
         bucket_line (hsName h) ''+Inf'' (cumulative + hsCounts h ! (length (hsCounts h) - 1)) @
         hsName h @ ''_sum '' @ fmt (hsSum h) @ newline @
         hsName h @ ''_count '' @ show_nat (unat (hsTotal h)) @ newline)"

definition WritePrometheus :: "(real \<Rightarrow> string) \<Rightarrow> metric_set option \<Rightarrow> string" where
  "WritePrometheus fmt mo = (case mo of None \<Rightarrow> ''''
     | Some m \<Rightarrow> concat (map (counter_text fmt) (mxCounters m)) @ concat (map (gauge_text fmt) (mxGauges m)) @
         concat (map (histogram_text fmt) (mxHistograms m)))"

subsection \<open>What the program records\<close>

datatype metric_event = RunsAre nat | ClientOpened | ClientClosed | RouteTook real | MatchTook real
  | UpdateDropped | WriteFailed | Persisted nat | SnapshotWritten

fun record_metric :: "metric_event \<Rightarrow> metric_set option \<Rightarrow> metric_set option" where
  \<comment> \<open>the calls of the manager, the stream handler, the simulation, the hub and the recorder\<close>
  "record_metric (RunsAre n) m = at_gauge (Gauge_Set (real n)) (ActiveSimulations m) m"
| "record_metric ClientOpened m = at_gauge Gauge_Inc (WebSocketClients m) m"
| "record_metric ClientClosed m = at_gauge Gauge_Dec (WebSocketClients m) m"
| "record_metric (RouteTook t) m = at_histogram (Observe t) (RouteLatency m) m"
| "record_metric (MatchTook t) m = at_histogram (Observe t) (MatchLatency m) m"
| "record_metric UpdateDropped m = at_counter Counter_Inc (DroppedUpdates m) m"
| "record_metric WriteFailed m = at_counter Counter_Inc (PersistenceErrors m) m"
| "record_metric (Persisted n) m = at_counter (Counter_Add (real n)) (EventsPersisted m) m"
| "record_metric SnapshotWritten m = at_counter Counter_Inc (SnapshotsWritten m) m"

definition recorded_by :: "metric_event list \<Rightarrow> metric_set option \<Rightarrow> metric_set option" where
  "recorded_by evs m = foldl (\<lambda>m e. record_metric e m) m evs"

subsection \<open>The reference exposition\<close>

definition tally :: "metric_event \<Rightarrow> metric_event list \<Rightarrow> real" where
  "tally e evs = real (length (filter ((=) e) evs))"

fun runs_now :: "metric_event \<Rightarrow> nat option" where
  "runs_now (RunsAre n) = Some n" | "runs_now _ = None"

fun persisted_now :: "metric_event \<Rightarrow> nat" where
  "persisted_now (Persisted n) = n" | "persisted_now _ = 0"

fun route_sample :: "metric_event \<Rightarrow> real option" where
  "route_sample (RouteTook t) = Some t" | "route_sample _ = None"

fun match_sample :: "metric_event \<Rightarrow> real option" where
  "match_sample (MatchTook t) = Some t" | "match_sample _ = None"

definition last_or_zero :: "nat list \<Rightarrow> nat" where
  "last_or_zero ns = (if ns = [] then 0 else last ns)"

definition counted :: "real list \<Rightarrow> 64 word" where
  "counted xs = of_nat (length xs)"

definition value_page :: "(real \<Rightarrow> string) \<Rightarrow> string \<Rightarrow> string \<Rightarrow> string \<Rightarrow> real \<Rightarrow> string" where
  "value_page fmt kind name help v = writeHeader name help kind @ name @ '' '' @ fmt v @ newline"

definition histogram_page :: "(real \<Rightarrow> string) \<Rightarrow> string \<Rightarrow> string \<Rightarrow> real list \<Rightarrow> string" where
  \<comment> \<open>each bucket counts the samples up to its bound\<close>
  "histogram_page fmt name help xs = writeHeader name help ''histogram'' @
     concat (map (\<lambda>b. bucket_line name (fmt b) (counted (filter (\<lambda>v. v \<le> b) xs))) latencyBucketsMs) @
     bucket_line name ''+Inf'' (counted xs) @ name @ ''_sum '' @ fmt (sum_list xs) @ newline @
     name @ ''_count '' @ show_nat (unat (counted xs)) @ newline"

definition exposition :: "(real \<Rightarrow> string) \<Rightarrow> metric_event list \<Rightarrow> string" where
  "exposition fmt evs =
     value_page fmt ''counter'' ''dispatchlab_dropped_updates_total'' ''Events dropped because a consumer could not keep up.''
       (tally UpdateDropped evs) @
     value_page fmt ''counter'' ''dispatchlab_persistence_errors_total'' ''Failed writes to the event or snapshot store.''
       (tally WriteFailed evs) @
     value_page fmt ''counter'' ''dispatchlab_events_persisted_total'' ''Simulation events written to the store.''
       (real (sum_list (map persisted_now evs))) @
     value_page fmt ''counter'' ''dispatchlab_snapshots_written_total'' ''Periodic snapshots written to the store.''
       (tally SnapshotWritten evs) @
     value_page fmt ''gauge'' ''dispatchlab_active_simulations'' ''Simulations currently running in this process.''
       (real (last_or_zero (List.map_filter runs_now evs))) @
     value_page fmt ''gauge'' ''dispatchlab_websocket_clients'' ''WebSocket stream connections currently open.''
       (tally ClientOpened evs - tally ClientClosed evs) @
     histogram_page fmt ''dispatchlab_route_compute_duration_ms'' ''Wall-clock duration of a single A* route computation.''
       (List.map_filter route_sample evs) @
     histogram_page fmt ''dispatchlab_match_compute_duration_ms''
       ''Wall-clock duration of one matching call (immediate assignment or one batch solve).'' (List.map_filter match_sample evs)"

subsection \<open>Histograms\<close>

definition bucket_of :: "real \<Rightarrow> nat" where
  "bucket_of v = SearchFloat64s latencyBucketsMs v"

definition histogram_after :: "string \<Rightarrow> string \<Rightarrow> real list \<Rightarrow> histogram" where
  "histogram_after name help xs = \<lparr>hsName = name, hsHelp = help, hsBounds = latencyBucketsMs,
     hsCounts = map (\<lambda>i. counted (filter (\<lambda>v. bucket_of v = i) xs)) [0..<length latencyBucketsMs + 1],
     hsSum = sum_list xs, hsTotal = counted xs\<rparr>"

lemma search_bound: "SearchFloat64s bs v \<le> length bs"
  by (simp add: SearchFloat64s_def length_takeWhile_le)

lemma search_le: "sorted bs \<Longrightarrow> i < length bs \<Longrightarrow> SearchFloat64s bs v \<le> i \<longleftrightarrow> v \<le> bs ! i"
proof (induction bs arbitrary: i)
  case (Cons b bs)
  show ?case
  proof (cases "b < v")
    case True
    show ?thesis using True Cons by (cases i) (auto simp: SearchFloat64s_def)
  next
    case False
    have "b \<le> (b # bs) ! i" using Cons.prems by (cases i) auto
    then show ?thesis using False by (simp add: SearchFloat64s_def)
  qed
qed simp

lemma latency_sorted: "sorted latencyBucketsMs"
  by (simp add: latencyBucketsMs_def)

lemma counted_snoc [simp]: "counted (xs @ [v]) = counted xs + 1" "counted [] = 0"
  by (simp_all add: counted_def)

lemma Observe_after: "Observe v (histogram_after name help xs) = histogram_after name help (xs @ [v])"
proof -
  have "bucket_of v \<le> length latencyBucketsMs" by (simp add: bucket_of_def search_bound)
  then show ?thesis
    by (auto simp: Observe_def histogram_after_def Let_def bucket_of_def [symmetric] nth_list_update
        simp del: upt_Suc upt_rec_numeral intro!: nth_equalityI)
qed

lemma counted_split: "counted (filter (\<lambda>v. f v < Suc i) xs) = counted (filter (\<lambda>v. f v < i) xs) + counted (filter (\<lambda>v. f v = i) xs)"
  for f :: "real \<Rightarrow> nat"
  by (induction xs) (auto simp: counted_def less_Suc_eq)

lemma bucket_lines_drop:
  "k \<le> length bs \<Longrightarrow> bucket_lines fmt name (counted (filter (\<lambda>v. f v < k) xs)) (drop k bs)
      (map (\<lambda>i. counted (filter (\<lambda>v. f v = i) xs)) [k..<length bs + 1]) =
    (concat (map (\<lambda>i. bucket_line name (fmt (bs ! i)) (counted (filter (\<lambda>v. f v < Suc i) xs))) [k..<length bs]),
     counted (filter (\<lambda>v. f v < length bs) xs))"
proof (induction "length bs - k" arbitrary: k)
  case (Suc n)
  then have k: "k < length bs" by simp
  have "[k..<length bs + 1] = k # [Suc k..<length bs + 1]" "[k..<length bs] = k # [Suc k..<length bs]" "drop k bs = bs ! k # drop (Suc k) bs"
    using k by (simp_all add: upt_conv_Cons Cons_nth_drop_Suc del: upt_Suc)
  then show ?case using Suc(1) [of "Suc k"] Suc(2) k by (simp add: counted_split del: upt_Suc)
qed simp

lemma histogram_after_text: "histogram_text fmt (histogram_after name help xs) = histogram_page fmt name help xs"
proof -
  let ?n = "length latencyBucketsMs"
  have le: "bucket_of v < Suc i \<longleftrightarrow> v \<le> latencyBucketsMs ! i" if "i < ?n" for v i
    using search_le [OF latency_sorted that, of v] by (simp add: bucket_of_def less_Suc_eq_le)
  have b: "bucket_lines fmt name 0 latencyBucketsMs (map (\<lambda>i. counted (filter (\<lambda>v. bucket_of v = i) xs)) [0..<?n + 1]) =
      (concat (map (\<lambda>i. bucket_line name (fmt (latencyBucketsMs ! i)) (counted (filter (\<lambda>v. bucket_of v < Suc i) xs))) [0..<?n]),
       counted (filter (\<lambda>v. bucket_of v < ?n) xs))"
    using bucket_lines_drop [of 0 latencyBucketsMs fmt name bucket_of xs] by (simp add: counted_def del: upt_Suc)
  have lines: "map (\<lambda>i. bucket_line name (fmt (latencyBucketsMs ! i)) (counted (filter (\<lambda>v. bucket_of v < Suc i) xs))) [0..<?n] =
      map (\<lambda>b. bucket_line name (fmt b) (counted (filter (\<lambda>v. v \<le> b) xs))) latencyBucketsMs"
    by (rule nth_equalityI) (simp_all add: le del: upt_Suc)
  have "filter (\<lambda>v. bucket_of v < Suc ?n) xs = xs"
    using search_bound [of latencyBucketsMs] by (simp add: bucket_of_def filter_id_conv less_Suc_eq_le)
  then have all: "counted (filter (\<lambda>v. bucket_of v < ?n) xs) + counted (filter (\<lambda>v. bucket_of v = ?n) xs) = counted xs"
    using counted_split [of bucket_of ?n xs] by simp
  show ?thesis
    unfolding histogram_text_def histogram_page_def histogram_after_def histogram.simps b Let_def prod.case lines
    using all by (simp add: nth_append del: upt_rec_numeral)
qed

subsection \<open>The exposition is exact\<close>

definition counter_of :: "string \<Rightarrow> string \<Rightarrow> real \<Rightarrow> counter" where
  "counter_of name help v = \<lparr>ctName = name, ctHelp = help, ctBits = v\<rparr>"

definition gauge_of :: "string \<Rightarrow> string \<Rightarrow> real \<Rightarrow> gauge" where
  "gauge_of name help v = \<lparr>ggName = name, ggHelp = help, ggBits = v\<rparr>"

definition registry_after :: "metric_event list \<Rightarrow> metric_set" where
  "registry_after evs = \<lparr>mxActiveSimulations = 0, mxWebSocketClients = 1, mxRouteLatency = 0, mxMatchLatency = 1, mxDroppedUpdates = 0,
     mxPersistenceErrors = 1, mxEventsPersisted = 2, mxSnapshotsWritten = 3,
     mxCounters = [counter_of ''dispatchlab_dropped_updates_total'' ''Events dropped because a consumer could not keep up.'' (tally UpdateDropped evs),
       counter_of ''dispatchlab_persistence_errors_total'' ''Failed writes to the event or snapshot store.'' (tally WriteFailed evs),
       counter_of ''dispatchlab_events_persisted_total'' ''Simulation events written to the store.'' (real (sum_list (map persisted_now evs))),
       counter_of ''dispatchlab_snapshots_written_total'' ''Periodic snapshots written to the store.'' (tally SnapshotWritten evs)],
     mxGauges = [gauge_of ''dispatchlab_active_simulations'' ''Simulations currently running in this process.''
         (real (last_or_zero (List.map_filter runs_now evs))),
       gauge_of ''dispatchlab_websocket_clients'' ''WebSocket stream connections currently open.'' (tally ClientOpened evs - tally ClientClosed evs)],
     mxHistograms = [histogram_after ''dispatchlab_route_compute_duration_ms'' ''Wall-clock duration of a single A* route computation.''
         (List.map_filter route_sample evs),
       histogram_after ''dispatchlab_match_compute_duration_ms''
         ''Wall-clock duration of one matching call (immediate assignment or one batch solve).'' (List.map_filter match_sample evs)]\<rparr>"

lemma map_filter_snoc: "List.map_filter f (xs @ [x]) = List.map_filter f xs @ (case f x of None \<Rightarrow> [] | Some y \<Rightarrow> [y])"
  by (simp add: List.map_filter_def split: option.splits)

lemma tally_snoc: "tally e (evs @ [x]) = tally e evs + (if e = x then 1 else 0)"
  by (simp add: tally_def)

lemma counter_of_simps [simp]:
  "Counter_Inc (counter_of n h v) = counter_of n h (v + 1)" "0 \<le> d \<Longrightarrow> Counter_Add d (counter_of n h v) = counter_of n h (v + d)"
  "Gauge_Inc (gauge_of n h v) = gauge_of n h (v + 1)" "Gauge_Dec (gauge_of n h v) = gauge_of n h (v - 1)"
  "Gauge_Set x (gauge_of n h v) = gauge_of n h x"
  by (simp_all add: counter_of_def gauge_of_def Counter_Inc_def Counter_Add_def Gauge_Inc_def Gauge_Dec_def Gauge_Add_def Gauge_Set_def)

lemma NewMetrics_registry: "NewMetrics = registry_after []"
proof -
  have "histogram_after n h [] = \<lparr>hsName = n, hsHelp = h, hsBounds = latencyBucketsMs, hsCounts = replicate (length latencyBucketsMs + 1) 0,
      hsSum = 0, hsTotal = 0\<rparr>" for n h
    by (simp add: histogram_after_def map_replicate_trivial counted_def map_replicate_const del: upt_Suc upt_rec_numeral replicate_Suc)
  then show ?thesis
    by (simp add: NewMetrics_def registry_after_def new_counter_def new_gauge_def new_histogram_def counter_of_def gauge_of_def
        tally_def last_or_zero_def List.map_filter_def Let_def)
qed

lemmas pointers = at_counter_def at_gauge_def at_histogram_def ActiveSimulations_def WebSocketClients_def RouteLatency_def
  MatchLatency_def DroppedUpdates_def PersistenceErrors_def EventsPersisted_def SnapshotsWritten_def

lemma record_registry: "record_metric e (Some (registry_after evs)) = Some (registry_after (evs @ [e]))"
  by (cases e) (simp_all add: registry_after_def pointers map_filter_snoc tally_snoc last_or_zero_def Observe_after algebra_simps)

lemma recorded_registry: "recorded_by evs (Some NewMetrics) = Some (registry_after evs)"
proof (induction evs rule: rev_induct)
  case (snoc e evs)
  then show ?case using record_registry [of e evs] by (simp add: recorded_by_def)
qed (simp add: recorded_by_def NewMetrics_registry)

text \<open>
  C38.  A scrape is exact: after any sequence of recorded events the exposition text is the reference
  text, in which every counter is a tally, the gauges are the last number of runs and the connections
  open, each bucket of a histogram counts the samples up to its bound, the last one and the count all
  of them, and the sum is theirs.  Without a metric set recording does nothing and the text is empty.
\<close>

theorem exposition_exact:
  "WritePrometheus fmt (recorded_by evs (Some NewMetrics)) = exposition fmt evs \<and>
   recorded_by evs None = None \<and> WritePrometheus fmt None = ''''"
proof -
  have "recorded_by evs None = None"
  proof (induction evs)
    case (Cons e evs)
    have "record_metric e None = None" by (cases e) (simp_all add: pointers)
    then show ?case using Cons by (simp add: recorded_by_def)
  qed (simp add: recorded_by_def)
  moreover have "counter_text fmt (counter_of n h v) = value_page fmt ''counter'' n h v" "gauge_text fmt (gauge_of n h v) = value_page fmt ''gauge'' n h v" for n h v
    by (simp_all add: counter_text_def gauge_text_def value_page_def counter_of_def gauge_of_def)
  ultimately show ?thesis
    by (simp add: WritePrometheus_def recorded_registry registry_after_def histogram_after_text exposition_def)
qed

end
