(* ===== verification/Trace.thy ===== *)
theory Trace
  imports Prelude
begin

text \<open>
  Spans and their propagation (\<open>internal/telemetry/trace.go\<close>).  A context is what the package stores on
  it: the active span and the logger.  Random ids, clock readings (nanoseconds) and the process's
  default logger are arguments; a nil \<open>*Span\<close> is \<open>None\<close>.  A logger is the name of its sink, and ending
  a span yields the record it writes.
\<close>

record span_context =
  tcTraceID :: string
  tcSpanID :: string

record trace_ctx =
  cxSpan :: "span_context option"
  cxLogger :: "string option"

datatype attr = AttrString string string | AttrInt string int | AttrFloat string real

record span =
  spLogger :: string
  spName :: string
  spTraceID :: string
  spSpanID :: string
  spParentID :: string
  spStart :: int
  spAttrs :: "attr list"
  spEnded :: bool

definition no_span :: span_context where "no_span = \<lparr>tcTraceID = '''', tcSpanID = ''''\<rparr>"

definition Valid :: "span_context \<Rightarrow> bool" where "Valid sc \<longleftrightarrow> tcTraceID sc \<noteq> ''''"

definition WithLogger :: "trace_ctx \<Rightarrow> string \<Rightarrow> trace_ctx" where "WithLogger ctx l = ctx\<lparr>cxLogger := Some l\<rparr>"

definition LoggerFrom :: "string \<Rightarrow> trace_ctx \<Rightarrow> string" where
  "LoggerFrom fallback ctx = (case cxLogger ctx of None \<Rightarrow> fallback | Some l \<Rightarrow> l)"

definition WithSpanContext :: "trace_ctx \<Rightarrow> span_context \<Rightarrow> trace_ctx" where
  "WithSpanContext ctx sc = (if \<not> Valid sc then ctx else ctx\<lparr>cxSpan := Some sc\<rparr>)"

definition SpanContextFrom :: "trace_ctx \<Rightarrow> span_context" where
  "SpanContextFrom ctx = (case cxSpan ctx of None \<Rightarrow> no_span | Some sc \<Rightarrow> sc)"

definition StartSpan :: "string \<Rightarrow> string \<Rightarrow> string \<Rightarrow> int \<Rightarrow> trace_ctx \<Rightarrow> string \<Rightarrow> attr list \<Rightarrow> trace_ctx \<times> span" where
  \<comment> \<open>\<open>id8\<close> and \<open>id16\<close> are what \<open>randomID\<close> returns, the empty string when the source fails\<close>
  "StartSpan fallback id8 id16 now ctx name attrs =
     (let parent = SpanContextFrom ctx;
          s = \<lparr>spLogger = LoggerFrom fallback ctx, spName = name,
            spTraceID = (if tcTraceID parent = '''' then id16 else tcTraceID parent), spSpanID = id8,
            spParentID = tcSpanID parent, spStart = now, spAttrs = attrs, spEnded = False\<rparr>
      in (WithSpanContext ctx \<lparr>tcTraceID = spTraceID s, tcSpanID = spSpanID s\<rparr>, s))"

definition Context :: "span option \<Rightarrow> span_context" where
  "Context so = (case so of None \<Rightarrow> no_span | Some s \<Rightarrow> \<lparr>tcTraceID = spTraceID s, tcSpanID = spSpanID s\<rparr>)"

definition TraceID :: "span option \<Rightarrow> string" where
  "TraceID so = (case so of None \<Rightarrow> '''' | Some s \<Rightarrow> spTraceID s)"

definition SetAttrs :: "attr list \<Rightarrow> span option \<Rightarrow> span option" where
  "SetAttrs attrs = map_option (\<lambda>s. s\<lparr>spAttrs := spAttrs s @ attrs\<rparr>)"

definition RecordError :: "string option \<Rightarrow> span option \<Rightarrow> span option" where
  "RecordError err so = (case err of None \<Rightarrow> so
     | Some e \<Rightarrow> map_option (\<lambda>s. s\<lparr>spAttrs := spAttrs s @ [AttrString ''error'' e, AttrString ''status'' ''error'']\<rparr>) so)"

definition DurationMs :: "int \<Rightarrow> real" where
  \<comment> \<open>whole microseconds, truncated towards zero\<close>
  "DurationMs d = real_of_int (if d < 0 then - (- d div 1000) else d div 1000) / 1000"

definition EndSpan :: "int \<Rightarrow> span option \<Rightarrow> (string \<times> attr list) option \<times> span option" where
  \<comment> \<open>the record written, if any, with its logger; and the span\<close>
  "EndSpan now so = (case so of None \<Rightarrow> (None, None)
     | Some s \<Rightarrow>
         if spEnded s then (None, Some s)
         else (Some (spLogger s, [AttrString ''span'' (spName s), AttrString ''trace_id'' (spTraceID s),
                 AttrString ''span_id'' (spSpanID s), AttrFloat ''duration_ms'' (DurationMs (now - spStart s))] @
                 (if spParentID s \<noteq> '''' then [AttrString ''parent_span_id'' (spParentID s)] else []) @ spAttrs s),
               Some (s\<lparr>spEnded := True\<rparr>)))"

subsection \<open>A trace is one chain\<close>

fun nested :: "string \<Rightarrow> trace_ctx \<Rightarrow> (string \<times> string \<times> string \<times> int) list \<Rightarrow> trace_ctx \<times> span list" where
  \<comment> \<open>spans started one under the other, each with its name, its two ids and its start\<close>
  "nested fallback ctx [] = (ctx, [])"
| "nested fallback ctx ((name, id8, id16, now) # rest) =
     (let (ctx1, s) = StartSpan fallback id8 id16 now ctx name []; (ctx2, ss) = nested fallback ctx1 rest in (ctx2, s # ss))"

fun chained :: "string \<Rightarrow> string \<Rightarrow> span list \<Rightarrow> bool" where
  "chained trace parent [] = True"
| "chained trace parent (s # ss) \<longleftrightarrow> spTraceID s = trace \<and> spParentID s = parent \<and> chained trace (spSpanID s) ss"

lemma nested_chained:
  "Valid (SpanContextFrom ctx) \<Longrightarrow>
   chained (tcTraceID (SpanContextFrom ctx)) (tcSpanID (SpanContextFrom ctx)) (snd (nested fallback ctx specs)) \<and>
   tcTraceID (SpanContextFrom (fst (nested fallback ctx specs))) = tcTraceID (SpanContextFrom ctx)"
proof (induction specs arbitrary: ctx)
  case (Cons x specs)
  obtain name id8 id16 now where x: "x = (name, id8, id16, now)" by (cases x)
  obtain ctx1 s where s: "StartSpan fallback id8 id16 now ctx name [] = (ctx1, s)" by force
  then have c: "SpanContextFrom ctx1 = \<lparr>tcTraceID = spTraceID s, tcSpanID = spSpanID s\<rparr>" "spTraceID s = tcTraceID (SpanContextFrom ctx)"
    "spParentID s = tcSpanID (SpanContextFrom ctx)"
    using Cons.prems by (auto simp: StartSpan_def Let_def WithSpanContext_def Valid_def SpanContextFrom_def)
  then have "Valid (SpanContextFrom ctx1)" using Cons.prems by (simp add: Valid_def)
  from Cons.IH [OF this] c show ?case by (simp add: x s split_beta)
qed simp

text \<open>
  A command's spans form one trace, whatever the clock and the ids: the first starts a new trace and
  has no parent, every other carries its trace id and names the one before it as its parent.
\<close>

theorem trace_is_one_chain:
  assumes "cxSpan ctx = None" and "specs = (name, id8, id16, now) # rest" and "id16 \<noteq> ''''"
  shows "chained id16 '''' (snd (nested fallback ctx specs))"
proof -
  let ?s = "snd (StartSpan fallback id8 id16 now ctx name [])"
  let ?ctx1 = "fst (StartSpan fallback id8 id16 now ctx name [])"
  have c: "SpanContextFrom ?ctx1 = \<lparr>tcTraceID = id16, tcSpanID = id8\<rparr>" "spTraceID ?s = id16" "spParentID ?s = ''''" "spSpanID ?s = id8"
    using assms(1,3) by (simp_all add: StartSpan_def Let_def WithSpanContext_def Valid_def SpanContextFrom_def no_span_def)
  have "chained id16 id8 (snd (nested fallback ?ctx1 rest))"
    using nested_chained [of ?ctx1 fallback rest] assms(3) by (simp add: c Valid_def)
  then show ?thesis using c by (simp add: assms(2) split_beta)
qed

theorem trace_is_one_chain_witness:
  "map spParentID (snd (nested ''default'' \<lparr>cxSpan = None, cxLogger = None\<rparr>
     [(''http.request'', ''a1'', ''t'', 0), (''simulation.apply'', ''b2'', ''u'', 5)])) = ['''', ''a1''] \<and>
   chained ''t'' '''' (snd (nested ''default'' \<lparr>cxSpan = None, cxLogger = None\<rparr>
     [(''http.request'', ''a1'', ''t'', 0), (''simulation.apply'', ''b2'', ''u'', 5)]))"
proof
  show "map spParentID (snd (nested ''default'' \<lparr>cxSpan = None, cxLogger = None\<rparr>
     [(''http.request'', ''a1'', ''t'', 0), (''simulation.apply'', ''b2'', ''u'', 5)])) = ['''', ''a1'']"
    by (simp add: StartSpan_def Let_def WithSpanContext_def Valid_def SpanContextFrom_def no_span_def)
qed (rule trace_is_one_chain [OF _ refl], simp_all)

text \<open>Ending a span a second time writes nothing.\<close>

lemma EndSpan_once: "fst (EndSpan t' (snd (EndSpan t so))) = None"
  by (cases so) (auto simp add: EndSpan_def Let_def split: if_splits)

end
