(* ===== verification/Spec2Isabelle.thy ===== *)
theory Spec2Isabelle
  imports Routing_Correct City_Generate Spatial Hungarian_Correct Matching Simulation_Inv
    Simulation_Safe Simulation_Motion Simulation_Roads Simulation_Events Store Reader Replay_Live RateLimit Pipeline_Store Stream Manager Comparisons Server_Safe Server_Wf Showcase
    Conformance Metrics Trace
begin

text \<open>
  dispatch-lab is a simulated city whose drivers serve orders, with live viewers.  This development
  models its Go backend and proves what makes each part of it correct.  It is read beside the code:
  a definition has the name of the function it models wherever Isabelle allows it.

  \<^bold>\<open>The program.\<close>  A simulation (\<open>internal/simulation\<close>) owns a generated city (\<open>internal/city\<close>,
  \<open>internal/domain\<close>), its drivers and its orders.  Commands place orders, close and reopen roads,
  pause, change the speed and reset; a clock tick moves the drivers and dispatches the waiting orders
  with one of two strategies (\<open>internal/matching\<close>), which use shortest routes (\<open>internal/routing\<close>)
  and an index of idle drivers (\<open>internal/spatial\<close>).  All it does is announced as numbered events.
  In a live run one goroutine owns the simulation; its events pass through a recorder
  (\<open>internal/replay/recorder.go\<close>), which writes them to the store (\<open>internal/store\<close>), to a hub, which
  fans them out to WebSocket connections (\<open>internal/transport/ws\<close>).  Replay (\<open>internal/replay\<close>)
  reconstructs a state from the stored log.  The manager (\<open>internal/service/manager.go\<close>) owns the live
  runs, guest sessions and retention (\<open>sessions.go\<close>, \<open>retention.go\<close>) decide who may use them and how
  long, comparisons (\<open>comparison.go\<close>) run both strategies on one demand, showcases (\<open>showcase.go\<close>) are
  runs the server provisions itself, and the HTTP layer (\<open>internal/transport/http\<close>) throttles
  (\<open>internal/ratelimit\<close>), authenticates, deduplicates retries and routes requests to all of this.

  \<^bold>\<open>Theories.\<close>  In the order of the imports:

  \<^item> \<open>Prelude\<close>: Go maps as association lists with distinct keys (\<open>gomap\<close>), \<open>(value, error)\<close> results
    as sums, loops over lists that may panic (\<open>fold_opt\<close>), decimal numbers, the lemma collections.
  \<^item> \<open>Domain\<close>, \<open>Routing\<close>, \<open>City_Generate\<close>, \<open>Spatial\<close>, \<open>Hungarian\<close>, \<open>Matching\<close>: the algorithms, one theory
    per package (\<open>Hungarian\<close> is \<open>matching/assignment.go\<close>).  \<open>Routing_Correct\<close> shows that A* returns and
    finds a shortest open path, \<open>Hungarian_Correct\<close> that the solver returns and is optimal, \<open>Matching\<close>
    that a joint batch serves as many orders as possible at the least cost, \<open>City_Generate\<close> that every
    generated city is one these theorems apply to, \<open>Spatial\<close> what a candidate query returns.
  \<^item> \<open>Json\<close>: the values \<open>encoding/json\<close> reads and writes.
  \<^item> \<open>Simulation\<close>: the state \<open>sim\<close>, the command handlers (\<open>handle\<close>) and the clock (\<open>tick\<close>).  \<open>Fleet\<close> and
    \<open>Simulation_Inv\<close> state the invariant \<open>sim_inv\<close> and follow it through dispatch, \<open>Simulation_Safe\<close>
    through everything else, with the theorems that nothing panics and the fleet stays consistent;
    \<open>Simulation_Events\<close> shows that event numbers have no gaps and payloads can be encoded,
    \<open>Simulation_Motion\<close> that deliveries end within a stated number of ticks, \<open>Simulation_Roads\<close> what
    closures do.
  \<^item> \<open>Store\<close>: the stored records and the in-memory store; \<open>Store_Interface\<close>: the store as a record of
    operations over any database, which the services take.
  \<^item> \<open>Replay\<close>, \<open>Reader\<close>: folding stored events, and reading them page by page; \<open>Replay_Live\<close> shows that
    replaying the log of a run yields the state the run had.
  \<^item> \<open>Actor\<close>, \<open>Recorder\<close>, \<open>Pipeline\<close>: the goroutines of a live run, the channels between them and all
    their interleavings (\<open>pipeline_step\<close>, \<open>runs\<close>), shown to refine an append-only log with a cursor;
    \<open>Pipeline_Store\<close>: what they leave in the store; \<open>Stream\<close>: what a WebSocket connection sends.
  \<^item> \<open>RateLimit\<close>, \<open>Sessions\<close>, \<open>Manager\<close>: the limiter, the sessions with the retention sweep, the manager.
  \<^item> \<open>Comparison\<close>, \<open>Comparison_Range\<close>, \<open>Comparisons\<close>: scenarios, headless runs and their metrics; why
    their numbers stay in range; the service with its JSON.
  \<^item> \<open>Showcase\<close>: the curated runs and their provisioning.
  \<^item> \<open>Http\<close>, \<open>Server\<close>: requests, routing, the cache of outcomes; the handlers and the middleware
    (\<open>serve\<close> is the handler \<open>Routes\<close> returns).  \<open>Server_Safe\<close> holds what needs a session and who may
    read a history, \<open>Server_Retry\<close> what a retry does, \<open>Server_Wf\<close> that every request and sweep keeps
    the whole server state well formed.
  \<^item> \<open>Conformance\<close>: the suite every store has to pass (\<open>internal/store/storetest\<close>), which the in-memory
    store passes.  \<open>Metrics\<close>, \<open>Trace\<close>: \<open>internal/telemetry\<close>.

  \<^bold>\<open>Interfaces.\<close>  \<open>path_heuristic\<close> (what A* asks of a heuristic; interpreted by the Euclidean one),
  \<open>candidate_index\<close> (what matching asks of the index; by the grid), \<open>batch_matcher\<close> (what the simulation
  asks of a strategy; by both strategies), \<open>event_log\<close> (what the reader asks of a log; by the in-memory
  store), \<open>session_store\<close> (what the session service asks of a store; by the in-memory store).

  \<^bold>\<open>Conventions.\<close>
  \<^item> A struct is a record, a string-typed enumeration a datatype with one constructor for any other
    string, a method a function from the old state to the new one.  A method that holds its mutex
    throughout is one step.  A pointer that is shared is a key into the map that holds it.
  \<^item> \<open>float64\<close> is \<open>real\<close>: rounding, infinities and not-a-number are not modelled, except for the
    solver's finite sentinel, whose range theorems carry as a hypothesis (\<open>dispatch_in_range\<close>) and
    \<open>Comparison_Range\<close> discharges for the default city.  \<open>int\<close> is \<open>int\<close> or \<open>nat\<close>; the places where the
    width matters (\<open>dec_int64\<close>, the counters of \<open>Metrics\<close>) say so.
  \<^item> A panic (nil dereference, index out of range, failed type assertion) is the value \<open>None\<close>.  A loop
    without an evident measure is a \<open>partial_function\<close> whose \<open>None\<close> also stands for not returning;
    for each of them a theorem shows that it returns.  No fuel is used.
  \<^item> Map iteration is in the order of the association list, so what is proved for every list holds for
    every order.  \<open>sort.Slice\<close> with a total order is \<open>sort\<close> or \<open>sort_key\<close>.
  \<^item> The clock, generated ids and tokens, \<open>math/rand\<close> streams, trace ids and the answers of a failing
    store are arguments: \<open>draws\<close> and \<open>picks\<close> in the generators, the record \<open>world\<close> in the server.
    Their documented behaviour is a hypothesis where it is needed (\<open>picks_ok\<close>).
  \<^item> A buffered channel is a list with its capacity; an unbuffered rendezvous is one joint step.

  \<^bold>\<open>Not modelled.\<close>  The TypeScript client; the load generator's and the evidence tool's network I/O;
  process wiring in \<open>cmd/server\<close>; the Postgres store and its migrations, which are SQL executed by a
  database that is not part of the repository (the services are modelled over an arbitrary store, so
  what is proved of them for every store holds for it as well); log records, and the calls that feed
  metrics and spans from the other packages (\<open>record_metric\<close> lists them); timeouts
  of writes and flushes, which appear as the store's or the recorder's failure answer.
\<close>

end
